(* ===== verification/Prelude.thy ===== *)
theory Prelude
  imports Main "HOL-Library.Word" "HOL-Library.Monad_Syntax"
begin

text \<open>
  Shared ground of the development: how the C memory model appears in the model.

  \<^item> A pointer that may be NULL is an \<open>option\<close>; \<open>char *\<close> is a \<open>pstr\<close>.  Reading through
    NULL and reading or writing an array out of bounds are undefined behaviour in C.  Code
    that can do either is modelled in the \<open>option\<close> monad, where \<open>None\<close> is undefined
    behaviour and \<open>Some\<close> a normal return, so that memory safety is a theorem (\<open>\<noteq> None\<close>)
    and not a convention.
  \<^item> \<open>malloc\<close>, \<open>calloc\<close>, \<open>realloc\<close> and \<open>strdup\<close> may fail at any call.  The allocator
    is a list of outcomes, \<open>mem\<close>: every allocation consumes one, and an exhausted list
    means that all further allocations succeed.  A statement for every \<open>mem\<close> covers every
    pattern of failures.
  \<^item> Growable arrays are lists (their used prefix) beside the capacity field of the
    struct; \<open>reserve\<close> is the growth step all of them share.
\<close>

named_theorems alloc_simps \<open>unfolding of the allocator\<close>
named_theorems inv_intros \<open>introduction of component invariants\<close>

type_synonym pstr = "string option"
type_synonym mem = "bool list"

fun malloc_ok :: "mem \<Rightarrow> bool \<times> mem" where
  "malloc_ok [] = (True, [])"
| "malloc_ok (b # bs) = (b, bs)"

definition no_oom :: "mem \<Rightarrow> bool" where
  "no_oom mem \<longleftrightarrow> (\<forall>b \<in> set mem. b)"

text \<open>\<open>strdup\<close> and \<open>strndup\<close> of a string that is already cut to length.\<close>

definition strdup_m :: "string \<Rightarrow> mem \<Rightarrow> pstr \<times> mem" where
  "strdup_m s mem = (let (ok, mem') = malloc_ok mem in (if ok then Some s else None, mem'))"

text \<open>
  The growth step: when the array is full, reallocate to \<open>init\<close> (first use) or to twice the
  capacity.  Returns whether there is room now, the new capacity and the allocator.
\<close>

definition reserve :: "nat \<Rightarrow> nat \<Rightarrow> nat \<Rightarrow> mem \<Rightarrow> bool \<times> nat \<times> mem" where
  "reserve init cnt cap mem =
     (if cnt = cap then
        (let (ok, mem') = malloc_ok mem in
         if ok then (True, (if cap = 0 then init else cap * 2), mem') else (False, cap, mem'))
      else (True, cap, mem))"

text \<open>Array accesses with their bounds check.\<close>

definition arr_get :: "'a list \<Rightarrow> nat \<Rightarrow> 'a option" where
  "arr_get xs i = (if i < length xs then Some (xs ! i) else None)"

definition arr_set :: "'a list \<Rightarrow> nat \<Rightarrow> 'a \<Rightarrow> 'a list option" where
  "arr_set xs i v = (if i < length xs then Some (xs[i := v]) else None)"

subsection \<open>The allocator\<close>

lemma no_oom_Nil [simp]: "no_oom []"
  by (simp add: no_oom_def)

lemma no_oom_Cons [simp]: "no_oom (b # mem) \<longleftrightarrow> b \<and> no_oom mem"
  by (auto simp: no_oom_def)

lemma malloc_no_oom: "no_oom mem \<Longrightarrow> malloc_ok mem = (ok, mem') \<Longrightarrow> ok \<and> no_oom mem'"
  by (cases mem) auto

lemma no_oom_malloc [simp]: "no_oom mem \<Longrightarrow> fst (malloc_ok mem)" "no_oom mem \<Longrightarrow> no_oom (snd (malloc_ok mem))"
  by (cases mem; simp)+

lemma malloc_no_oomE:
  assumes "no_oom mem"
  obtains mem' where "malloc_ok mem = (True, mem')" and "no_oom mem'"
  using assms by (cases mem) auto

lemma strdup_no_oomE:
  assumes "no_oom mem"
  obtains mem' where "\<And>s. strdup_m s mem = (Some s, mem')" and "no_oom mem'"
  using assms that by (cases mem) (auto simp: strdup_m_def)

lemma no_oom_strdup [simp]:
  "no_oom mem \<Longrightarrow> fst (strdup_m s mem) = Some s" "no_oom mem \<Longrightarrow> no_oom (snd (strdup_m s mem))"
  by (simp_all add: strdup_m_def split_def)

text \<open>The allocator through a chain of \<open>let\<close>s.\<close>

lemma oom_let:
  "no_oom (snd x) \<Longrightarrow> (\<And>a m. no_oom m \<Longrightarrow> no_oom (snd (g a m))) \<Longrightarrow> no_oom (snd (let (a, m) = x in g a m))"
  by (simp add: split_def Let_def)

lemma strdup_m_cases: "strdup_m s mem = (r, mem') \<Longrightarrow> r = None \<or> r = Some s"
  by (auto simp: strdup_m_def split: prod.splits if_splits)

lemma reserve_room:
  "reserve init cnt cap mem = (True, cap', mem') \<Longrightarrow> cnt \<le> cap \<Longrightarrow> 0 < init \<Longrightarrow> cnt < cap'"
  by (auto simp: reserve_def split: prod.splits if_splits)

lemma reserve_cap_mono: "reserve init cnt cap mem = (ok, cap', mem') \<Longrightarrow> cap \<le> cap'"
  by (auto simp: reserve_def split: prod.splits if_splits)

lemma reserve_fail: "reserve init cnt cap mem = (False, cap', mem') \<Longrightarrow> cap' = cap"
  by (auto simp: reserve_def split: prod.splits if_splits)

lemma reserve_no_oomE:
  assumes "no_oom mem"
  obtains cap' mem' where "reserve init cnt cap mem = (True, cap', mem')" and "no_oom mem'"
proof -
  obtain mem1 where "malloc_ok mem = (True, mem1)" and "no_oom mem1"
    using assms by (rule malloc_no_oomE)
  then show ?thesis
    using assms that by (cases "cnt = cap") (auto simp: reserve_def)
qed

subsection \<open>Arrays\<close>

lemma arr_get_Some [simp]: "arr_get xs i = Some x \<longleftrightarrow> i < length xs \<and> xs ! i = x"
  by (auto simp: arr_get_def)

lemma arr_get_None [simp]: "arr_get xs i = None \<longleftrightarrow> length xs \<le> i"
  by (auto simp: arr_get_def)

lemma arr_set_Some [simp]: "arr_set xs i v = Some ys \<longleftrightarrow> i < length xs \<and> ys = xs[i := v]"
  by (auto simp: arr_set_def)

lemma arr_set_None [simp]: "arr_set xs i v = None \<longleftrightarrow> length xs \<le> i"
  by (auto simp: arr_set_def)

lemma arr_get_in [simp]: "i < length xs \<Longrightarrow> arr_get xs i = Some (xs ! i)"
  by simp

lemma arr_set_in [simp]: "i < length xs \<Longrightarrow> arr_set xs i v = Some (xs[i := v])"
  by simp

subsection \<open>Three-way comparison functions\<close>

text \<open>
  The contract of a C comparison function on the values it is meant for: its sign is a total
  preorder.
\<close>

locale comparator =
  fixes cmp :: "'a \<Rightarrow> 'a \<Rightarrow> int" and valid :: "'a \<Rightarrow> bool"
  assumes cmp_refl: "valid a \<Longrightarrow> cmp a a = 0"
    and cmp_swap: "valid a \<Longrightarrow> valid b \<Longrightarrow> cmp b a = - cmp a b"
    and cmp_trans: "valid a \<Longrightarrow> valid b \<Longrightarrow> valid c \<Longrightarrow> cmp a b \<le> 0 \<Longrightarrow> cmp b c \<le> 0 \<Longrightarrow> cmp a c \<le> 0"
begin

lemma le_total: "valid a \<Longrightarrow> valid b \<Longrightarrow> cmp a b \<le> 0 \<or> cmp b a \<le> 0"
  using cmp_swap [of a b] by linarith

lemma lt_le_trans: "valid a \<Longrightarrow> valid b \<Longrightarrow> valid c \<Longrightarrow> cmp a b < 0 \<Longrightarrow> cmp b c \<le> 0 \<Longrightarrow> cmp a c < 0"
  using cmp_trans [of b c a] cmp_swap [of a b] cmp_swap [of a c] by linarith

lemma le_lt_trans: "valid a \<Longrightarrow> valid b \<Longrightarrow> valid c \<Longrightarrow> cmp a b \<le> 0 \<Longrightarrow> cmp b c < 0 \<Longrightarrow> cmp a c < 0"
  using cmp_trans [of c a b] cmp_swap [of b c] cmp_swap [of a c] by linarith

lemma eq_trans: "valid a \<Longrightarrow> valid b \<Longrightarrow> valid c \<Longrightarrow> cmp a b = 0 \<Longrightarrow> cmp b c = 0 \<Longrightarrow> cmp a c = 0"
  using cmp_trans [of a b c] cmp_trans [of c b a] cmp_swap [of a b] cmp_swap [of b c]
    cmp_swap [of a c] by linarith

lemma eq_cong: "valid a \<Longrightarrow> valid b \<Longrightarrow> valid c \<Longrightarrow> cmp a b = 0 \<Longrightarrow> sgn (cmp a c) = sgn (cmp b c)"
proof -
  assume v: "valid a" "valid b" "valid c" and eq: "cmp a b = 0"
  then have eq': "cmp b a = 0" using cmp_swap [of a b] by simp
  consider "cmp b c < 0" | "cmp b c = 0" | "cmp c b < 0"
    using cmp_swap [of b c] v by linarith
  then show "sgn (cmp a c) = sgn (cmp b c)"
    using v eq eq' le_lt_trans [of a b c] eq_trans [of a b c] lt_le_trans [of c b a]
      cmp_swap [of b c] cmp_swap [of a c] by cases (auto simp: sgn_if)
qed

end

subsection \<open>Maps from keys to numbers, under allocation failure\<close>

text \<open>
  What a client of a hash map relies on: a successful store changes the map at one key, a
  failed one changes nothing that a lookup can see, and a store fails only for lack of
  memory.
\<close>

locale keyed_map =
  fixes get :: "'m \<Rightarrow> 'k \<Rightarrow> nat option"
    and put :: "'m \<Rightarrow> 'k \<Rightarrow> nat \<Rightarrow> mem \<Rightarrow> bool \<times> 'm \<times> mem"
    and inv :: "'m \<Rightarrow> bool"
  assumes put_ok: "inv m \<Longrightarrow> put m k v mem = (True, m', mem') \<Longrightarrow> inv m' \<and> get m' = (get m)(k \<mapsto> v)"
    and put_fail: "inv m \<Longrightarrow> put m k v mem = (False, m', mem') \<Longrightarrow> inv m' \<and> get m' = get m"
    and put_no_oom: "inv m \<Longrightarrow> no_oom mem \<Longrightarrow> \<exists>m' mem'. put m k v mem = (True, m', mem') \<and> no_oom mem'"
begin

text \<open>
  The use all clients make of such a map: it indexes an array by a key of its elements.
  \<open>indexes m ks\<close> says that the map sends exactly the keys in \<open>ks\<close> to their position.
\<close>

definition indexes :: "'m \<Rightarrow> 'k list \<Rightarrow> bool" where
  "indexes m ks \<longleftrightarrow> (\<forall>k i. get m k = Some i \<longleftrightarrow> i < length ks \<and> ks ! i = k)"

lemma indexes_distinct: "indexes m ks \<Longrightarrow> distinct ks"
  unfolding indexes_def distinct_conv_nth by (metis option.inject)

lemma indexes_None: "indexes m ks \<Longrightarrow> get m k = None \<longleftrightarrow> k \<notin> set ks"
  unfolding indexes_def in_set_conv_nth by (metis not_None_eq)

lemma indexes_Some: "indexes m ks \<Longrightarrow> get m k = Some i \<longleftrightarrow> i < length ks \<and> ks ! i = k"
  by (simp add: indexes_def)

lemma indexes_empty: "get m = Map.empty \<Longrightarrow> indexes m []"
  by (simp add: indexes_def)

lemma indexes_put:
  assumes "inv m" and idx: "indexes m ks" and fresh: "get m k = None"
    and "put m k (length ks) mem = (True, m', mem')"
  shows "indexes m' (ks @ [k])"
proof -
  have get': "get m' = (get m)(k \<mapsto> length ks)" using put_ok assms by blast
  have "k \<notin> set ks" using indexes_None [OF idx] fresh by simp
  then show ?thesis
    using idx by (auto simp: indexes_def get' nth_append less_Suc_eq)
qed

lemma indexes_put_fail:
  "inv m \<Longrightarrow> indexes m ks \<Longrightarrow> put m k v mem = (False, m', mem') \<Longrightarrow> indexes m' ks"
  using put_fail by (auto simp: indexes_def)

end

end
