(* ===== verification/Buckets.thy ===== *)
theory Buckets
  imports Prelude
begin

text \<open>
  Chained hash buckets, as \<open>src/hashmap.c\<close> and the variable index of
  \<open>src/graph/sat_model.c\<close> both build them: an array of singly linked chains.  A chain is the
  list of its (key, value) entries, the head first; the \<open>next\<close> pointer is the tail.  The
  loops over chains and the rehash loop are the same in both files up to the key type and the
  hash function, so they are defined here once, over a hash function \<open>h\<close>.
\<close>

type_synonym ('k, 'v) chain = "('k \<times> 'v) list"

text \<open>\<open>for (e = buckets[idx]; e; e = e->next) if (e->key == key) ...\<close>\<close>

fun chain_get :: "('k, 'v) chain \<Rightarrow> 'k \<Rightarrow> 'v option" where
  "chain_get [] key = None"
| "chain_get ((k, v) # es) key = (if k = key then Some v else chain_get es key)"

fun chain_update :: "('k, 'v) chain \<Rightarrow> 'k \<Rightarrow> 'v \<Rightarrow> ('k, 'v) chain" where
  "chain_update [] key v = []"
| "chain_update ((k, w) # es) key v =
     (if k = key then (k, v) # es else (k, w) # chain_update es key v)"

text \<open>\<open>e->next = buckets[idx]; buckets[idx] = e\<close>\<close>

definition bucket_push :: "('k, 'v) chain list \<Rightarrow> nat \<Rightarrow> 'k \<times> 'v \<Rightarrow> ('k, 'v) chain list" where
  "bucket_push bs idx e = bs[idx := e # bs ! idx]"

text \<open>The two nested loops of a rehash into \<open>nb\<close>, which has \<open>n\<close> chains.\<close>

fun rehash_chain :: "('k \<Rightarrow> nat) \<Rightarrow> nat \<Rightarrow> ('k, 'v) chain \<Rightarrow> ('k, 'v) chain list \<Rightarrow> ('k, 'v) chain list" where
  "rehash_chain h n [] nb = nb"
| "rehash_chain h n (e # es) nb = rehash_chain h n es (bucket_push nb (h (fst e) mod n) e)"

fun rehash_buckets :: "('k \<Rightarrow> nat) \<Rightarrow> nat \<Rightarrow> ('k, 'v) chain list \<Rightarrow> ('k, 'v) chain list \<Rightarrow> ('k, 'v) chain list" where
  "rehash_buckets h n [] nb = nb"
| "rehash_buckets h n (b # bs) nb = rehash_buckets h n bs (rehash_chain h n b nb)"

subsection \<open>Well-formed buckets\<close>

text \<open>
  Every entry sits in the chain its hash selects, and no key occurs twice.  \<open>entries\<close> is the
  number of entries in all chains.
\<close>

definition buckets_ok :: "('k \<Rightarrow> nat) \<Rightarrow> ('k, 'v) chain list \<Rightarrow> bool" where
  "buckets_ok h bs \<longleftrightarrow> 0 < length bs \<and>
     (\<forall>i < length bs. (\<forall>e \<in> set (bs ! i). h (fst e) mod length bs = i) \<and> distinct (map fst (bs ! i)))"

definition bucket_lookup :: "('k \<Rightarrow> nat) \<Rightarrow> ('k, 'v) chain list \<Rightarrow> 'k \<Rightarrow> 'v option" where
  "bucket_lookup h bs key = chain_get (bs ! (h key mod length bs)) key"

definition entries :: "('k, 'v) chain list \<Rightarrow> nat" where
  "entries bs = length (concat bs)"

lemma chain_get_map_of: "chain_get es k = map_of es k"
  by (induction es k rule: chain_get.induct) auto

lemma chain_get_None: "chain_get es k = None \<longleftrightarrow> k \<notin> fst ` set es"
  by (simp add: chain_get_map_of map_of_eq_None_iff)

lemma fst_chain_update [simp]: "map fst (chain_update es k v) = map fst es"
  by (induction es k v rule: chain_update.induct) auto

lemma fst_set_chain_update [simp]: "fst ` set (chain_update es k v) = fst ` set es"
  by (metis fst_chain_update set_map)

lemma length_chain_update [simp]: "length (chain_update es k v) = length es"
  by (metis fst_chain_update length_map)

lemma chain_get_update:
  "chain_get es k \<noteq> None \<Longrightarrow> chain_get (chain_update es k v) k' = (if k' = k then Some v else chain_get es k')"
  by (induction es k v rule: chain_update.induct) auto

lemma entries_list_update:
  "i < length bs \<Longrightarrow> entries (bs[i := c]) + length (bs ! i) = entries bs + length c"
  by (induction bs arbitrary: i) (auto simp: entries_def split: nat.splits)

lemma entries_push [simp]: "i < length bs \<Longrightarrow> entries (bucket_push bs i e) = Suc (entries bs)"
  using entries_list_update [of i bs "e # bs ! i"] by (simp add: bucket_push_def)

lemma length_bucket_push [simp]: "length (bucket_push bs i e) = length bs"
  by (simp add: bucket_push_def)

lemma length_rehash_chain [simp]: "length (rehash_chain h n es nb) = length nb"
  by (induction h n es nb rule: rehash_chain.induct) auto

lemma length_rehash_buckets [simp]: "length (rehash_buckets h n bs nb) = length nb"
  by (induction h n bs nb rule: rehash_buckets.induct) auto

lemma buckets_ok_own:
  "buckets_ok h bs \<Longrightarrow> i < length bs \<Longrightarrow> k \<in> fst ` set (bs ! i) \<Longrightarrow> h k mod length bs = i"
  by (force simp: buckets_ok_def)

lemma buckets_ok_update:
  fixes v :: 'v and bs :: "('k, 'v) chain list"
  assumes ok: "buckets_ok h bs" and "chain_get (bs ! (h k mod length bs)) k \<noteq> None"
  defines "bs' \<equiv> bs[h k mod length bs := chain_update (bs ! (h k mod length bs)) k v]"
  shows "buckets_ok h bs'" and "bucket_lookup h bs' = (bucket_lookup h bs)(k \<mapsto> v)"
    and "entries bs' = entries bs"
proof -
  let ?i = "h k mod length bs"
  have i: "?i < length bs" using ok by (simp add: buckets_ok_def)
  have upd: "\<forall>e \<in> set (chain_update (bs ! ?i) k v). h (fst e) mod length bs = ?i"
  proof
    fix e assume "e \<in> set (chain_update (bs ! ?i) k v)"
    then have "fst e \<in> fst ` set (bs ! ?i)" by (metis fst_set_chain_update imageI)
    then show "h (fst e) mod length bs = ?i" using buckets_ok_own [OF ok i] by blast
  qed
  show "buckets_ok h bs'"
    using ok i upd by (auto simp: buckets_ok_def bs'_def nth_list_update)
  show "bucket_lookup h bs' = (bucket_lookup h bs)(k \<mapsto> v)"
    using i chain_get_update [OF assms(2), of v]
    by (auto simp: fun_eq_iff bucket_lookup_def bs'_def nth_list_update)
  show "entries bs' = entries bs"
    using entries_list_update [OF i, of "chain_update (bs ! ?i) k v"] by (simp add: bs'_def)
qed

lemma buckets_ok_push:
  fixes v :: 'v and bs :: "('k, 'v) chain list"
  assumes ok: "buckets_ok h bs" and fresh: "bucket_lookup h bs k = None"
  defines "bs' \<equiv> bucket_push bs (h k mod length bs) (k, v)"
  shows "buckets_ok h bs'" and "bucket_lookup h bs' = (bucket_lookup h bs)(k \<mapsto> v)"
    and "entries bs' = Suc (entries bs)"
proof -
  have i: "h k mod length bs < length bs" using ok by (simp add: buckets_ok_def)
  have "k \<notin> fst ` set (bs ! (h k mod length bs))"
    using fresh by (simp add: bucket_lookup_def chain_get_None)
  then show "buckets_ok h bs'"
    using ok i by (auto simp: buckets_ok_def bs'_def bucket_push_def nth_list_update)
  show "bucket_lookup h bs' = (bucket_lookup h bs)(k \<mapsto> v)"
    using i by (auto simp: bucket_lookup_def bs'_def bucket_push_def nth_list_update)
  show "entries bs' = Suc (entries bs)" using i by (simp add: bs'_def)
qed

subsection \<open>Rehashing keeps the map\<close>

lemma buckets_ok_empty: "0 < n \<Longrightarrow> buckets_ok h (replicate n [])"
  by (simp add: buckets_ok_def)

lemma bucket_lookup_empty: "0 < n \<Longrightarrow> bucket_lookup h (replicate n []) = Map.empty"
  by (auto simp: bucket_lookup_def)

lemma entries_empty [simp]: "entries (replicate n []) = 0"
  by (simp add: entries_def)

lemma rehash_chain_ok:
  assumes "buckets_ok h nb" and "n = length nb" and "distinct (map fst es)"
    and "\<forall>k \<in> fst ` set es. bucket_lookup h nb k = None"
  shows "buckets_ok h (rehash_chain h n es nb) \<and>
         bucket_lookup h (rehash_chain h n es nb) = bucket_lookup h nb ++ map_of es \<and>
         entries (rehash_chain h n es nb) = entries nb + length es"
  using assms
proof (induction es arbitrary: nb)
  case (Cons e es)
  obtain k v where e: "e = (k, v)" by fastforce
  have fresh: "bucket_lookup h nb k = None" using Cons.prems e by simp
  note push = buckets_ok_push [OF Cons.prems(1) fresh, of v]
  let ?nb = "bucket_push nb (h k mod n) e"
  have "buckets_ok h (rehash_chain h n es ?nb) \<and>
        bucket_lookup h (rehash_chain h n es ?nb) = bucket_lookup h ?nb ++ map_of es \<and>
        entries (rehash_chain h n es ?nb) = entries ?nb + length es"
    using Cons.prems push e by (intro Cons.IH) (auto simp: image_iff)
  moreover have "map_of es k = None" using Cons.prems(3) e by (simp add: map_of_eq_None_iff)
  ultimately show ?case
    using push Cons.prems(2) e by (auto simp: map_add_def fun_eq_iff split: option.splits)
qed simp

lemma rehash_buckets_ok:
  assumes "buckets_ok h nb" and "n = length nb" and "distinct (map fst (concat bs))"
    and "\<forall>k \<in> fst ` set (concat bs). bucket_lookup h nb k = None"
  shows "buckets_ok h (rehash_buckets h n bs nb) \<and>
         bucket_lookup h (rehash_buckets h n bs nb) = bucket_lookup h nb ++ map_of (concat bs) \<and>
         entries (rehash_buckets h n bs nb) = entries nb + entries bs"
  using assms
proof (induction bs arbitrary: nb)
  case Nil
  then show ?case by (simp add: entries_def)
next
  case (Cons b bs)
  have chain: "buckets_ok h (rehash_chain h n b nb) \<and>
         bucket_lookup h (rehash_chain h n b nb) = bucket_lookup h nb ++ map_of b \<and>
         entries (rehash_chain h n b nb) = entries nb + length b"
    using Cons.prems by (intro rehash_chain_ok) auto
  have "map_of b k = None" if "k \<in> fst ` set (concat bs)" for k
    using that Cons.prems(3) by (auto simp: map_of_eq_None_iff)
  then have fresh: "\<forall>k \<in> fst ` set (concat bs). bucket_lookup h (rehash_chain h n b nb) k = None"
    using Cons.prems(4) chain by (simp add: map_add_def image_iff)
  have "map_of b ++ map_of (concat bs) = map_of (concat (b # bs))"
    using Cons.prems(3) map_add_comm [of "map_of b" "map_of (concat bs)"]
    by (simp add: dom_map_of_conv_image_fst)
  moreover have "buckets_ok h (rehash_buckets h n bs (rehash_chain h n b nb)) \<and>
        bucket_lookup h (rehash_buckets h n bs (rehash_chain h n b nb)) =
          bucket_lookup h (rehash_chain h n b nb) ++ map_of (concat bs) \<and>
        entries (rehash_buckets h n bs (rehash_chain h n b nb)) =
          entries (rehash_chain h n b nb) + entries bs"
    using Cons.prems chain fresh by (intro Cons.IH) auto
  moreover have "entries (b # bs) = length b + entries bs" by (simp add: entries_def)
  ultimately show ?case using chain by (metis add.assoc map_add_assoc rehash_buckets.simps(2))
qed

text \<open>Chains owned by an index function \<open>f\<close>: their concatenation has no duplicate key.\<close>

lemma owned_concat:
  assumes "\<forall>i < length bs. (\<forall>k \<in> fst ` set (bs ! i). f k = off + i) \<and> distinct (map fst (bs ! i))"
  shows "distinct (map fst (concat bs)) \<and>
    map_of (concat bs) k =
      (if off \<le> f k \<and> f k < off + length bs then map_of (bs ! (f k - off)) k else None)"
  using assms
proof (induction bs arbitrary: off)
  case (Cons b bs)
  have b: "\<forall>k \<in> fst ` set b. f k = off" "distinct (map fst b)" using Cons.prems by force+
  have step: "\<forall>i < length bs. (\<forall>k \<in> fst ` set (bs ! i). f k = Suc off + i) \<and> distinct (map fst (bs ! i))"
    using Cons.prems by fastforce
  note IH = Cons.IH [OF step]
  have in_bs: "f x \<noteq> off" if "x \<in> fst ` set (concat bs)" for x
    using that step by (force simp: in_set_conv_nth)
  have "map_of b k = None" if "f k \<noteq> off"
    using that b by (auto simp: map_of_eq_None_iff)
  moreover have "map_of (concat bs) k = None" if "f k = off"
    using that in_bs by (auto simp: map_of_eq_None_iff)
  ultimately show ?case
    using IH b in_bs by (auto simp: map_add_def nth_Cons' Suc_diff_le split: option.splits)
qed auto

lemma buckets_ok_flat:
  assumes "buckets_ok h bs"
  shows "distinct (map fst (concat bs))" and "map_of (concat bs) = bucket_lookup h bs"
proof -
  have own: "\<forall>i < length bs. (\<forall>k \<in> fst ` set (bs ! i). h k mod length bs = 0 + i) \<and> distinct (map fst (bs ! i))"
    using assms by (auto simp: buckets_ok_def)
  show "distinct (map fst (concat bs))" using owned_concat [OF own] by blast
  show "map_of (concat bs) = bucket_lookup h bs"
    using owned_concat [OF own] assms
    by (auto simp: fun_eq_iff bucket_lookup_def chain_get_map_of buckets_ok_def)
qed

lemma rehash_ok:
  assumes "buckets_ok h bs" and "0 < n"
  defines "bs' \<equiv> rehash_buckets h n bs (replicate n [])"
  shows "buckets_ok h bs'" and "bucket_lookup h bs' = bucket_lookup h bs"
    and "entries bs' = entries bs" and "length bs' = n"
  using rehash_buckets_ok [of h "replicate n []" n bs] buckets_ok_flat [OF assms(1)] assms(2)
  by (simp_all add: bs'_def buckets_ok_empty bucket_lookup_empty)

end
