(* ===== verification/CString.thy ===== *)
theory CString
  imports Prelude
begin

text \<open>
  The parts of the C library's string functions that libAPG calls: \<open>isspace\<close>/\<open>isdigit\<close>,
  \<open>strtol\<close> in base 10 on a 64-bit \<open>long\<close> (with its saturation at \<open>LONG_MIN\<close> and
  \<open>LONG_MAX\<close>), \<open>strchr\<close> and \<open>strstr\<close>.  A C string is the list of its bytes before the
  terminating NUL, so a real C string satisfies \<open>cstring\<close>.
\<close>

definition cstring :: "string \<Rightarrow> bool" where
  "cstring s \<longleftrightarrow> CHR 0x00 \<notin> set s"

definition uchar :: "char \<Rightarrow> int" where
  "uchar c = int (of_char c)"

text \<open>The byte a pointer to the rest \<open>s\<close> reads: NUL at the end.\<close>

fun cur :: "string \<Rightarrow> int" where
  "cur [] = 0"
| "cur (c # cs) = uchar c"

definition c_isspace :: "char \<Rightarrow> bool" where
  "c_isspace c \<longleftrightarrow> uchar c = 32 \<or> (9 \<le> uchar c \<and> uchar c \<le> 13)"

definition c_isdigit :: "char \<Rightarrow> bool" where
  "c_isdigit c \<longleftrightarrow> 48 \<le> uchar c \<and> uchar c \<le> 57"

definition LONG_MAX :: int where "LONG_MAX = 2 ^ 63 - 1"
definition LONG_MIN :: int where "LONG_MIN = - (2 ^ 63)"

fun digits_value :: "int \<Rightarrow> string \<Rightarrow> int" where
  "digits_value acc [] = acc"
| "digits_value acc (c # cs) = digits_value (10 * acc + (uchar c - 48)) cs"

text \<open>The sign \<open>strtol\<close> accepts, and the rest after it.\<close>

fun split_sign :: "string \<Rightarrow> bool \<times> string" where
  "split_sign [] = (False, [])"
| "split_sign (c # cs) =
     (if c = CHR ''-'' then (True, cs) else if c = CHR ''+'' then (False, cs) else (False, c # cs))"

text \<open>\<open>strtol(s, &end, 10)\<close>: the value and the rest \<open>end\<close> points to (\<open>s\<close> without a number).\<close>

definition strtol :: "string \<Rightarrow> int \<times> string" where
  "strtol s =
     (let (neg, s2) = split_sign (dropWhile c_isspace s);
          ds = takeWhile c_isdigit s2
      in if ds = [] then (0, s)
         else let v = digits_value 0 ds
              in (if neg then max LONG_MIN (- v) else min LONG_MAX v, dropWhile c_isdigit s2))"

text \<open>\<open>strchr\<close>: the rest from the first occurrence of \<open>c\<close> on.\<close>

definition strchr :: "string \<Rightarrow> char \<Rightarrow> pstr" where
  "strchr s c = (case dropWhile (\<lambda>x. x \<noteq> c) s of [] \<Rightarrow> None | r \<Rightarrow> Some r)"

text \<open>\<open>strstr\<close>: the offset of the first occurrence of \<open>pat\<close>.\<close>

fun strstr :: "string \<Rightarrow> string \<Rightarrow> nat option" where
  "strstr s pat =
     (if take (length pat) s = pat then Some 0
      else case s of [] \<Rightarrow> None | _ # cs \<Rightarrow> map_option Suc (strstr cs pat))"

declare strstr.simps [simp del]

subsection \<open>Facts\<close>

lemma uchar_bounds: "0 \<le> uchar c \<and> uchar c < 256"
  by (simp add: uchar_def)

lemma uchar_inj [simp]: "uchar c = uchar d \<longleftrightarrow> c = d"
  by (auto simp: uchar_def)

lemma uchar_0 [simp]: "uchar c = 0 \<longleftrightarrow> c = CHR 0x00"
  using uchar_inj [of c "CHR 0x00"] by (simp add: uchar_def)

lemma cstring_simps [simp]: "cstring []" "cstring (c # cs) \<longleftrightarrow> c \<noteq> CHR 0x00 \<and> cstring cs"
  by (auto simp: cstring_def)

lemma cstring_append [simp]: "cstring (a @ b) \<longleftrightarrow> cstring a \<and> cstring b"
  by (auto simp: cstring_def)

lemma cstring_dropWhile [simp]: "cstring s \<Longrightarrow> cstring (dropWhile P s)"
  by (auto simp: cstring_def dest: set_dropWhileD)

lemma cstring_tl [simp]: "cstring s \<Longrightarrow> cstring (tl s)"
  by (cases s) auto

lemma cur_pos: "cstring s \<Longrightarrow> s \<noteq> [] \<Longrightarrow> 0 < cur s"
  using uchar_bounds [of "hd s"] by (cases s) (auto simp: order.strict_iff_order)

lemma split_sign_length: "split_sign s = (n, r) \<Longrightarrow> length r \<le> length s"
  by (induction s rule: split_sign.induct) (auto split: if_splits)

lemma split_sign_cstring: "split_sign s = (n, r) \<Longrightarrow> cstring s \<Longrightarrow> cstring r"
  by (induction s rule: split_sign.induct) (auto split: if_splits)

lemma strtol_Nil [simp]: "strtol [] = (0, [])"
  by (simp add: strtol_def)

lemma dropWhile_length_less: "takeWhile P s \<noteq> [] \<Longrightarrow> length (dropWhile P s) < length s"
  by (metis add_less_cancel_right length_append length_greater_0_conv less_add_same_cancel2
      takeWhile_dropWhile_id)

text \<open>Either no number was read, or the rest is strictly shorter.\<close>

lemma strtol_progress: "snd (strtol s) \<noteq> s \<Longrightarrow> length (snd (strtol s)) < length s"
proof -
  assume moved: "snd (strtol s) \<noteq> s"
  obtain neg s2 where sp: "split_sign (dropWhile c_isspace s) = (neg, s2)" by fastforce
  have ds: "takeWhile c_isdigit s2 \<noteq> []" and r: "snd (strtol s) = dropWhile c_isdigit s2"
    using moved sp by (auto simp: strtol_def Let_def split: if_splits)
  have "length (dropWhile c_isdigit s2) < length s2" using ds by (rule dropWhile_length_less)
  also have "\<dots> \<le> length (dropWhile c_isspace s)" using sp by (rule split_sign_length)
  also have "\<dots> \<le> length s" by (rule length_dropWhile_le)
  finally show ?thesis using r by simp
qed

lemma strtol_no_number: "snd (strtol s) = s \<Longrightarrow> fst (strtol s) = 0"
proof (rule ccontr)
  assume same: "snd (strtol s) = s" and nz: "fst (strtol s) \<noteq> 0"
  obtain neg s2 where sp: "split_sign (dropWhile c_isspace s) = (neg, s2)" by fastforce
  have ds: "takeWhile c_isdigit s2 \<noteq> []" and r: "snd (strtol s) = dropWhile c_isdigit s2"
    using nz sp by (auto simp: strtol_def Let_def split: if_splits)
  have "length (dropWhile c_isdigit s2) < length s"
    using dropWhile_length_less [OF ds] split_sign_length [OF sp]
      length_dropWhile_le [of c_isspace s] by linarith
  then show False using same r by simp
qed

lemma strtol_cstring [simp]: "cstring s \<Longrightarrow> cstring (snd (strtol s))"
  by (cases "split_sign (dropWhile c_isspace s)")
     (auto simp: strtol_def Let_def dest: split_sign_cstring)

lemma strtol_bounds: "LONG_MIN \<le> fst (strtol s) \<and> fst (strtol s) \<le> LONG_MAX"
proof -
  have nonneg: "0 \<le> acc \<Longrightarrow> \<forall>c \<in> set ds. c_isdigit c \<Longrightarrow> 0 \<le> digits_value acc ds" for acc ds
    by (induction acc ds rule: digits_value.induct) (auto simp: c_isdigit_def)
  obtain neg s2 where sp: "split_sign (dropWhile c_isspace s) = (neg, s2)" by fastforce
  have "0 \<le> digits_value 0 (takeWhile c_isdigit s2)"
    by (rule nonneg) (auto dest: set_takeWhileD)
  then show ?thesis
    by (auto simp: strtol_def sp Let_def LONG_MIN_def LONG_MAX_def)
qed

lemma strstr_Some_split:
  "strstr s pat = Some i \<Longrightarrow> i + length pat \<le> length s \<and> take (length pat) (drop i s) = pat"
proof (induction s pat arbitrary: i rule: strstr.induct)
  case (1 s pat)
  show ?case
  proof (cases "take (length pat) s = pat")
    case True
    then have "length pat \<le> length s" by (metis length_take min.absorb_iff2 min.commute)
    with True "1.prems" show ?thesis by (simp add: strstr.simps [of s])
  next
    case False
    with "1.prems" obtain c cs j where "s = c # cs" "strstr cs pat = Some j" "i = Suc j"
      by (subst (asm) strstr.simps) (auto split: list.splits)
    with "1.IH" [OF False] show ?thesis by auto
  qed
qed

subsection \<open>Numbers as text\<close>

text \<open>\<open>printf("%u", n)\<close>.\<close>

fun print_nat :: "nat \<Rightarrow> string" where
  "print_nat n = (if n < 10 then [char_of (48 + n)] else print_nat (n div 10) @ [char_of (48 + n mod 10)])"

declare print_nat.simps [simp del]

text \<open>
  \<open>strtoul(s, NULL, 10)\<close> on a 64-bit \<open>unsigned long\<close>: it saturates, and a sign negates the
  value modulo \<open>2^64\<close>.
\<close>

definition strtoul :: "string \<Rightarrow> int" where
  "strtoul s =
     (let (neg, s2) = split_sign (dropWhile c_isspace s);
          v = digits_value 0 (takeWhile c_isdigit s2)
      in if 2 ^ 64 \<le> v then 2 ^ 64 - 1 else if neg then (- v) mod 2 ^ 64 else v)"

lemma uchar_digit: "n < 10 \<Longrightarrow> uchar (char_of (48 + n)) = 48 + int n"
  by (simp add: uchar_def of_char_of)

lemma print_nat_digits: "c \<in> set (print_nat n) \<Longrightarrow> c_isdigit c"
proof (induction n rule: print_nat.induct)
  case (1 n)
  then show ?case
    by (subst (asm) (2) print_nat.simps) (auto simp: c_isdigit_def uchar_digit split: if_splits)
qed

lemma digits_value_append: "digits_value acc (a @ b) = digits_value (digits_value acc a) b"
  by (induction a arbitrary: acc) simp_all

lemma digits_value_print: "digits_value 0 (print_nat n) = int n"
proof (induction n rule: print_nat.induct)
  case (1 n)
  show ?case
  proof (cases "n < 10")
    case True
    then show ?thesis by (subst print_nat.simps) (simp add: uchar_digit)
  next
    case False
    then have "digits_value 0 (print_nat n) = 10 * int (n div 10) + int (n mod 10)"
      using 1 by (subst print_nat.simps) (simp add: digits_value_append uchar_digit)
    then show ?thesis by (metis mult_div_mod_eq of_nat_add of_nat_mult of_nat_numeral)
  qed
qed

lemma print_nat_Nil [simp]: "print_nat n \<noteq> []"
  by (subst print_nat.simps) simp

lemma strtoul_print: "int n < 2 ^ 64 \<Longrightarrow> strtoul (print_nat n) = int n"
proof -
  assume n: "int n < 2 ^ 64"
  obtain c cs where c: "print_nat n = c # cs" by (cases "print_nat n") auto
  have d: "c_isdigit c" using print_nat_digits [of c n] c by simp
  then have "\<not> c_isspace c" "c \<noteq> CHR ''-''" "c \<noteq> CHR ''+''"
    by (auto simp: c_isdigit_def c_isspace_def uchar_def)
  then have "split_sign (dropWhile c_isspace (print_nat n)) = (False, print_nat n)" by (simp add: c)
  moreover have "digits_value 0 (takeWhile c_isdigit (print_nat n)) = int n"
    using print_nat_digits takeWhile_eq_all_conv digits_value_print by metis
  ultimately show ?thesis using n by (simp add: strtoul_def Let_def)
qed

end
