(* ===== verification/Hashmap.thy ===== *)
theory Hashmap
  imports Buckets CString
begin

text \<open>
  \<open>src/hashmap.c\<close>: the chained string hash map \<open>str_map\<close> used by the dependency graph, the
  candidate set, the merge of parallel resolutions and the orphan search.  \<open>size_t\<close> hashes
  are 64-bit words; bucket and entry counts are natural numbers (they are bounded by the
  memory they count).
\<close>

unbundle bit_operations_syntax

record str_map =
  sm_buckets :: "(string, nat) chain list option"
  sm_bucket_count :: nat
  sm_entry_count :: nat

definition STR_MAP_INITIAL_BUCKETS :: nat where
  "STR_MAP_INITIAL_BUCKETS = 16"

fun fnv1a_loop :: "64 word \<Rightarrow> string \<Rightarrow> 64 word" where
  "fnv1a_loop h [] = h"
| "fnv1a_loop h (c # cs) = fnv1a_loop ((h XOR of_nat (of_char c)) * 1099511628211) cs"

definition fnv1a :: "string \<Rightarrow> 64 word" where
  "fnv1a s = fnv1a_loop 14695981039346656037 s"

abbreviation str_hash :: "string \<Rightarrow> nat" where
  "str_hash s \<equiv> unat (fnv1a s)"

text \<open>Evaluation takes the remainder before it leaves binary numbers.\<close>

lemma hash_index_code [code_unfold]: "Word.the_nat (w :: 64 word) mod n = nat (uint w mod int n)"
  by transfer (simp add: nat_mod_distrib)

text \<open>A zero-initialised \<open>struct str_map\<close>, as the callers declare it.\<close>

definition str_map_zero :: str_map where
  "str_map_zero = \<lparr>sm_buckets = None, sm_bucket_count = 0, sm_entry_count = 0\<rparr>"

definition str_map_init :: "str_map \<Rightarrow> mem \<Rightarrow> bool \<times> str_map \<times> mem" where
  "str_map_init m mem =
     (let (ok, mem1) = malloc_ok mem in
      if \<not> ok then (False, m\<lparr>sm_buckets := None\<rparr>, mem1)
      else (True, m\<lparr>sm_buckets := Some (replicate STR_MAP_INITIAL_BUCKETS []),
                    sm_bucket_count := STR_MAP_INITIAL_BUCKETS, sm_entry_count := 0\<rparr>, mem1))"

definition str_map_free :: "str_map \<Rightarrow> str_map" where
  "str_map_free m =
     (if sm_buckets m = None then m
      else m\<lparr>sm_buckets := None, sm_bucket_count := 0, sm_entry_count := 0\<rparr>)"

text \<open>The returned flag and \<open>*out_value\<close>, as one option.\<close>

definition str_map_get :: "str_map \<Rightarrow> string \<Rightarrow> nat option" where
  "str_map_get m key =
     (case sm_buckets m of
        None \<Rightarrow> None
      | Some bs \<Rightarrow> chain_get (bs ! (str_hash key mod sm_bucket_count m)) key)"

definition str_map_rehash :: "str_map \<Rightarrow> nat \<Rightarrow> mem \<Rightarrow> bool \<times> str_map \<times> mem" where
  "str_map_rehash m new_bucket_count mem =
     (let (ok, mem1) = malloc_ok mem in
      if \<not> ok then (False, m, mem1)
      else (True,
            m\<lparr>sm_buckets := map_option (\<lambda>bs. rehash_buckets str_hash new_bucket_count bs
                               (replicate new_bucket_count [])) (sm_buckets m),
              sm_bucket_count := new_bucket_count\<rparr>, mem1))"

text \<open>The end of \<open>str_map_set\<close>: allocate the entry and its key, link it, count it.\<close>

definition str_map_insert :: "str_map \<Rightarrow> string \<Rightarrow> nat \<Rightarrow> mem \<Rightarrow> bool \<times> str_map \<times> mem" where
  "str_map_insert m key v mem =
     (let (ok, mem1) = malloc_ok mem in
      if \<not> ok then (False, m, mem1)
      else let (kcopy, mem2) = strdup_m key mem1 in
        case kcopy of
          None \<Rightarrow> (False, m, mem2)
        | Some k \<Rightarrow>
            (True, m\<lparr>sm_buckets := map_option (\<lambda>bs. bucket_push bs (str_hash key mod sm_bucket_count m) (k, v))
                        (sm_buckets m),
                     sm_entry_count := sm_entry_count m + 1\<rparr>, mem2))"

definition str_map_set :: "str_map \<Rightarrow> string \<Rightarrow> nat \<Rightarrow> mem \<Rightarrow> bool \<times> str_map \<times> mem" where
  "str_map_set m key v mem =
     (case sm_buckets m of
        None \<Rightarrow> (False, m, mem)
      | Some bs \<Rightarrow>
          (let idx = str_hash key mod sm_bucket_count m in
           if chain_get (bs ! idx) key \<noteq> None
           then (True, m\<lparr>sm_buckets := Some (bs[idx := chain_update (bs ! idx) key v])\<rparr>, mem)
           else if sm_entry_count m + 1 > sm_bucket_count m - sm_bucket_count m div 4
           then (let (ok, m1, mem1) = str_map_rehash m (sm_bucket_count m * 2) mem in
                 if \<not> ok then (False, m1, mem1) else str_map_insert m1 key v mem1)
           else str_map_insert m key v mem))"

subsection \<open>Invariant\<close>

text \<open>
  Initialised, chains well formed, the counters true and the load factor at most 3/4.
\<close>

definition sm_inv :: "str_map \<Rightarrow> bool" where
  "sm_inv m \<longleftrightarrow>
     (\<exists>bs. sm_buckets m = Some bs \<and> length bs = sm_bucket_count m \<and> buckets_ok str_hash bs \<and>
           sm_entry_count m = entries bs) \<and>
     sm_entry_count m \<le> sm_bucket_count m - sm_bucket_count m div 4"

lemma sm_invE:
  assumes "sm_inv m"
  obtains bs where "sm_buckets m = Some bs" "length bs = sm_bucket_count m" "buckets_ok str_hash bs"
    "sm_entry_count m = entries bs" "sm_entry_count m \<le> sm_bucket_count m - sm_bucket_count m div 4"
    "0 < sm_bucket_count m"
  using assms unfolding sm_inv_def buckets_ok_def by (metis)

lemma str_map_get_lookup:
  "sm_buckets m = Some bs \<Longrightarrow> length bs = sm_bucket_count m \<Longrightarrow> str_map_get m = bucket_lookup str_hash bs"
  by (auto simp: str_map_get_def bucket_lookup_def)

lemma str_map_init_ok:
  "str_map_init m mem = (True, m', mem') \<Longrightarrow> sm_inv m' \<and> str_map_get m' = Map.empty"
  by (auto simp: str_map_init_def sm_inv_def STR_MAP_INITIAL_BUCKETS_def buckets_ok_empty
      str_map_get_def fun_eq_iff split: prod.splits if_splits)

lemma str_map_init_no_oom:
  "no_oom mem \<Longrightarrow> \<exists>m' mem'. str_map_init m mem = (True, m', mem') \<and> no_oom mem'"
  by (cases mem) (auto simp: str_map_init_def)

text \<open>Every bucket index the code computes is in range.\<close>

lemma str_map_index_in_range:
  "sm_inv m \<Longrightarrow> \<exists>bs. sm_buckets m = Some bs \<and> str_hash key mod sm_bucket_count m < length bs"
  by (erule sm_invE) simp

lemma rehash_result:
  assumes "sm_inv m" and "str_map_rehash m (sm_bucket_count m * 2) mem = (True, m1, mem1)"
  shows "sm_inv m1 \<and> str_map_get m1 = str_map_get m \<and> sm_entry_count m1 = sm_entry_count m \<and>
         sm_bucket_count m1 = sm_bucket_count m * 2"
proof -
  obtain bs where bs: "sm_buckets m = Some bs" "length bs = sm_bucket_count m" "buckets_ok str_hash bs"
    "sm_entry_count m = entries bs" "sm_entry_count m \<le> sm_bucket_count m - sm_bucket_count m div 4"
    "0 < sm_bucket_count m" using assms(1) by (rule sm_invE)
  let ?n = "sm_bucket_count m * 2"
  let ?bs = "rehash_buckets str_hash ?n bs (replicate ?n [])"
  note re = rehash_ok [OF bs(3), of ?n]
  have m1: "sm_buckets m1 = Some ?bs" "sm_bucket_count m1 = ?n" "sm_entry_count m1 = sm_entry_count m"
    using assms(2) bs(1) by (auto simp: str_map_rehash_def split: prod.splits if_splits)
  have "sm_entry_count m \<le> ?n - ?n div 4" using bs(5) by linarith
  then show ?thesis
    using re bs m1 str_map_get_lookup [OF bs(1,2)] str_map_get_lookup [OF m1(1)]
    by (simp add: sm_inv_def)
qed

lemma str_map_insert_result:
  assumes "sm_inv m" and "str_map_get m key = None"
    and "sm_entry_count m + 1 \<le> sm_bucket_count m - sm_bucket_count m div 4"
    and "str_map_insert m key v mem = (ok, m', mem')"
  shows "sm_inv m' \<and> str_map_get m' = (if ok then (str_map_get m)(key \<mapsto> v) else str_map_get m)"
proof (cases ok)
  case True
  obtain bs where bs: "sm_buckets m = Some bs" "length bs = sm_bucket_count m" "buckets_ok str_hash bs"
    "sm_entry_count m = entries bs" using assms(1) by (rule sm_invE)
  let ?bs = "bucket_push bs (str_hash key mod length bs) (key, v)"
  have m': "sm_buckets m' = Some ?bs" "sm_bucket_count m' = sm_bucket_count m"
    "sm_entry_count m' = sm_entry_count m + 1"
    using assms(4) True bs(1,2)
    by (auto simp: str_map_insert_def split: prod.splits if_splits option.splits dest!: strdup_m_cases)
  have get: "str_map_get m = bucket_lookup str_hash bs" using bs by (simp add: str_map_get_lookup)
  then have "bucket_lookup str_hash bs key = None" using assms(2) by simp
  note push = buckets_ok_push [OF bs(3) this, of v]
  show ?thesis
    using push m' bs assms(3) True get str_map_get_lookup [OF m'(1)] by (simp add: sm_inv_def)
next
  case False
  then show ?thesis
    using assms by (auto simp: str_map_insert_def split: prod.splits if_splits option.splits)
qed

lemma str_map_set_result:
  assumes inv: "sm_inv m" and set: "str_map_set m key v mem = (ok, m', mem')"
  shows "sm_inv m' \<and> str_map_get m' = (if ok then (str_map_get m)(key \<mapsto> v) else str_map_get m)"
proof -
  obtain bs where bs: "sm_buckets m = Some bs" "length bs = sm_bucket_count m" "buckets_ok str_hash bs"
    "sm_entry_count m = entries bs" "sm_entry_count m \<le> sm_bucket_count m - sm_bucket_count m div 4"
    "0 < sm_bucket_count m" using inv by (rule sm_invE)
  let ?i = "str_hash key mod sm_bucket_count m"
  have get: "str_map_get m key = chain_get (bs ! ?i) key" using bs(1) by (simp add: str_map_get_def)
  consider (present) "chain_get (bs ! ?i) key \<noteq> None"
    | (full) "chain_get (bs ! ?i) key = None" "sm_entry_count m + 1 > sm_bucket_count m - sm_bucket_count m div 4"
    | (room) "chain_get (bs ! ?i) key = None" "sm_entry_count m + 1 \<le> sm_bucket_count m - sm_bucket_count m div 4"
    by linarith
  then show ?thesis
  proof cases
    case present
    then have "ok" and m': "m' = m\<lparr>sm_buckets := Some (bs[?i := chain_update (bs ! ?i) key v])\<rparr>"
      using set bs(1) by (auto simp: str_map_set_def Let_def)
    then show ?thesis
      using present bs buckets_ok_update [OF bs(3), of key v] str_map_get_lookup [OF bs(1,2)]
        str_map_get_lookup [of m' "bs[?i := chain_update (bs ! ?i) key v]"]
      by (simp add: sm_inv_def)
  next
    case full
    obtain ok1 m1 mem1 where re: "str_map_rehash m (sm_bucket_count m * 2) mem = (ok1, m1, mem1)"
      by (metis prod_cases3)
    show ?thesis
    proof (cases ok1)
      case True
      then have "str_map_rehash m (sm_bucket_count m * 2) mem = (True, m1, mem1)" using re by simp
      note r = rehash_result [OF inv this]
      have "str_map_insert m1 key v mem1 = (ok, m', mem')"
        using set bs(1) full re True by (simp add: str_map_set_def Let_def)
      moreover have "sm_entry_count m1 + 1 \<le> sm_bucket_count m1 - sm_bucket_count m1 div 4"
        using r bs(5,6) by linarith
      moreover have "str_map_get m1 key = None" using r get full(1) by simp
      ultimately show ?thesis using str_map_insert_result [of m1 key v mem1 ok m' mem'] r by simp
    next
      case False
      then show ?thesis
        using set bs(1) full re inv by (auto simp: str_map_set_def str_map_rehash_def Let_def
            split: prod.splits if_splits)
    qed
  next
    case room
    then have "str_map_insert m key v mem = (ok, m', mem')"
      using set bs(1) by (auto simp: str_map_set_def Let_def split: if_splits)
    then show ?thesis using str_map_insert_result [OF inv _ room(2)] get room(1) by simp
  qed
qed

lemma str_map_insert_no_oom:
  "no_oom mem \<Longrightarrow> \<exists>m' mem'. str_map_insert m key v mem = (True, m', mem') \<and> no_oom mem'"
proof -
  assume "no_oom mem"
  then obtain mem1 where m1: "malloc_ok mem = (True, mem1)" "no_oom mem1" by (rule malloc_no_oomE)
  obtain mem2 where "\<And>s. strdup_m s mem1 = (Some s, mem2)" "no_oom mem2"
    using strdup_no_oomE [OF m1(2)] by blast
  with m1 show ?thesis by (simp add: str_map_insert_def)
qed

lemma str_map_set_no_oom:
  assumes "sm_inv m" and "no_oom mem"
  shows "\<exists>m' mem'. str_map_set m key v mem = (True, m', mem') \<and> no_oom mem'"
proof -
  obtain mem1 where m1: "malloc_ok mem = (True, mem1)" "no_oom mem1"
    using assms(2) by (rule malloc_no_oomE)
  obtain bs where bs: "sm_buckets m = Some bs" using assms(1) by (rule sm_invE)
  show ?thesis
    using bs m1 assms(2) str_map_insert_no_oom [of mem] str_map_insert_no_oom [of mem1]
    by (auto simp: str_map_set_def str_map_rehash_def Let_def)
qed

interpretation sm: keyed_map str_map_get str_map_set sm_inv
proof
  show "sm_inv m' \<and> str_map_get m' = (str_map_get m)(k \<mapsto> v)"
    if "sm_inv m" "str_map_set m k v mem = (True, m', mem')" for m k v mem m' mem'
    using str_map_set_result [OF that] by simp
  show "sm_inv m' \<and> str_map_get m' = str_map_get m"
    if "sm_inv m" "str_map_set m k v mem = (False, m', mem')" for m k v mem m' mem'
    using str_map_set_result [OF that] by simp
qed (rule str_map_set_no_oom)

subsection \<open>Properties\<close>

text \<open>
  C22. The hash map implements a finite map under every pattern of allocation failures: a
  lookup after a successful store sees the store and nothing else changed, after a failed
  store (a failed rehash, entry or key allocation) it sees the old map, and the invariant
  (right chain, no duplicate key, true counters, load at most 3/4) is kept either way.
\<close>

theorem str_map_refines_map:
  assumes "sm_inv m" and "str_map_set m key v mem = (ok, m', mem')"
  shows "sm_inv m' \<and>
    (\<forall>k. str_map_get m' k = (if ok \<and> k = key then Some v else str_map_get m k)) \<and>
    sm_entry_count m' \<le> sm_bucket_count m' - sm_bucket_count m' div 4"
  using str_map_set_result [OF assms] by (auto simp: sm_inv_def)

definition example_map :: str_map where
  "example_map = fst (snd (str_map_init str_map_zero []))"

lemma example_map_inv: "sm_inv example_map \<and> str_map_get example_map = Map.empty"
  using str_map_init_ok [of str_map_zero "[]" example_map "[]"]
  by (simp add: example_map_def str_map_init_def)

theorem str_map_refines_map_witness:
  "sm_inv example_map \<and> fst (str_map_set example_map ''glibc'' 7 []) \<and>
   str_map_get (fst (snd (str_map_set example_map ''glibc'' 7 []))) ''glibc'' = Some 7"
proof -
  obtain m' mem' where s: "str_map_set example_map ''glibc'' 7 [] = (True, m', mem')"
    using str_map_set_no_oom [of example_map "[]" "''glibc''" 7] example_map_inv by auto
  show ?thesis using str_map_refines_map [OF _ s] s example_map_inv by simp
qed

text \<open>
  A store never fails while memory is available, rehashing included.
\<close>

theorem str_map_set_total:
  assumes "sm_inv m" and "no_oom mem"
  shows "fst (str_map_set m key v mem)"
  using str_map_set_no_oom [OF assms, of key v] by auto

theorem str_map_set_total_witness: "fst (str_map_set example_map ''glibc'' 7 [True, True])"
  using str_map_set_total [of example_map "[True, True]"] example_map_inv by simp

end
