(* ===== verification/Version.thy ===== *)
theory Version
  imports CString
begin

text \<open>
  \<open>src/version/version.c\<close>: dependency constraints (\<open>dep_constraint_parse\<close>,
  \<open>dep_constraint_to_str\<close>) and version comparison (\<open>ver_compare\<close>, \<open>ver_satisfies\<close>).

  The comparison loop of \<open>ver_compare\<close> works on two string pointers at once.  It is shown
  to be equal to a comparison of two token lists computed independently of each other
  (\<open>toks\<close>, \<open>cmp_toks\<close>); from that specification the order laws follow: the comparison is
  reflexive, antisymmetric in its sign and transitive, so \<open>ver_satisfies\<close> orders versions
  consistently.
\<close>

datatype ver_op = VER_OP_ANY | VER_OP_EQ | VER_OP_NEQ | VER_OP_LT | VER_OP_LE | VER_OP_GT | VER_OP_GE

record dep_constraint =
  dep_name :: pstr
  dep_op :: ver_op
  dep_version :: pstr

subsection \<open>Parsing and printing constraints\<close>

definition is_blank :: "char \<Rightarrow> bool" where
  "is_blank c \<longleftrightarrow> c = CHR '' '' \<or> c = CHR 0x09"

definition trim :: "string \<Rightarrow> string" where
  "trim s = rev (dropWhile is_blank (rev (dropWhile is_blank s)))"

definition trim_strndup :: "string \<Rightarrow> nat \<Rightarrow> mem \<Rightarrow> pstr \<times> mem" where
  "trim_strndup s n mem = strdup_m (trim (take n s)) mem"

definition trim_strdup :: "string \<Rightarrow> mem \<Rightarrow> pstr \<times> mem" where
  "trim_strdup s mem = trim_strndup s (length s) mem"

text \<open>The table \<open>ops\<close>, in the order it is searched.\<close>

definition op_table :: "(string \<times> ver_op) list" where
  "op_table =
     [(''>='', VER_OP_GE), (''<='', VER_OP_LE), (''=='', VER_OP_EQ),
      (''!='', VER_OP_NEQ), (''>'', VER_OP_GT), (''<'', VER_OP_LT)]"

text \<open>The search loop: offset, operator and length of the first table entry that occurs.\<close>

fun find_op :: "(string \<times> ver_op) list \<Rightarrow> string \<Rightarrow> (nat \<times> ver_op \<times> nat) option" where
  "find_op [] str = None"
| "find_op ((symb, op) # ops) str =
     (case strstr str symb of Some p \<Rightarrow> Some (p, op, length symb) | None \<Rightarrow> find_op ops str)"

definition dep_constraint_parse :: "pstr \<Rightarrow> mem \<Rightarrow> dep_constraint \<times> mem" where
  "dep_constraint_parse str mem =
     (case str of
        None \<Rightarrow> (\<lparr>dep_name = None, dep_op = VER_OP_ANY, dep_version = None\<rparr>, mem)
      | Some s \<Rightarrow>
          (case find_op op_table s of
             None \<Rightarrow>
               (let (nm, mem1) = trim_strdup s mem
                in (\<lparr>dep_name = nm, dep_op = VER_OP_ANY, dep_version = None\<rparr>, mem1))
           | Some (op_start, op, op_len) \<Rightarrow>
               (let (nm, mem1) = trim_strndup s op_start mem;
                    (ver, mem2) = trim_strdup (drop (op_start + op_len) s) mem1
                in (\<lparr>dep_name = nm, dep_op = op, dep_version = ver\<rparr>, mem2))))"

text \<open>\<open>op_strs\<close>; the entry of \<open>VER_OP_ANY\<close> is never read.\<close>

fun op_str :: "ver_op \<Rightarrow> string" where
  "op_str VER_OP_EQ = ''==''"
| "op_str VER_OP_NEQ = ''!=''"
| "op_str VER_OP_LT = ''<''"
| "op_str VER_OP_LE = ''<=''"
| "op_str VER_OP_GT = ''>''"
| "op_str VER_OP_GE = ''>=''"
| "op_str VER_OP_ANY = ''''"

definition dep_constraint_to_str :: "dep_constraint option \<Rightarrow> mem \<Rightarrow> pstr \<times> mem" where
  "dep_constraint_to_str c mem =
     (case c of
        None \<Rightarrow> (None, mem)
      | Some d \<Rightarrow>
          (case dep_name d of
             None \<Rightarrow> (None, mem)
           | Some nm \<Rightarrow>
               (if dep_op d = VER_OP_ANY \<or> dep_version d = None then strdup_m nm mem
                else strdup_m (nm @ '' '' @ op_str (dep_op d) @ '' '' @ the (dep_version d)) mem)))"

subsection \<open>Comparing versions\<close>

text \<open>
  The main loop of \<open>ver_compare\<close>, on the two rests \<open>a\<close> and \<open>b\<close>.  \<open>ae = a\<close> is the C
  test that \<open>strtol\<close> consumed nothing.  The last \<open>else 0\<close> is reached only when both
  pointers read NUL, which the loop has already left for.
\<close>

definition skip_dots :: "string \<Rightarrow> string" where
  "skip_dots s = dropWhile (\<lambda>c. c = CHR ''.'') s"

definition num_at :: "string \<Rightarrow> int \<times> string" where
  "num_at a = (if a \<noteq> [] then strtol a else (0, a))"

function ver_loop :: "string \<Rightarrow> string \<Rightarrow> int" where
  "ver_loop a0 b0 =
     (if a0 = [] \<and> b0 = [] then 0
      else
        let a = skip_dots a0; b = skip_dots b0 in
        if a = [] \<and> b = [] then 0
        else
          let (va, ae) = num_at a; (vb, be) = num_at b in
          if ae = a \<and> be = b then
            (if cur a \<noteq> cur b then cur a - cur b
             else if a \<noteq> [] \<and> b \<noteq> [] then ver_loop (tl a) (tl b) else 0)
          else
            let va' = (if ae = a then 0 else va); a' = (if ae = a then a else ae);
                vb' = (if be = b then 0 else vb); b' = (if be = b then b else be)
            in if va' \<noteq> vb' then (if va' > vb' then 1 else -1) else ver_loop a' b')"
  by pat_completeness auto

lemma skip_dots_length: "length (skip_dots s) \<le> length s"
  by (simp add: skip_dots_def length_dropWhile_le)

lemma tl_skip_dots_length: "skip_dots s \<noteq> [] \<Longrightarrow> length (tl (skip_dots s)) < length s"
  using skip_dots_length [of s] by (cases "skip_dots s") auto

lemma num_at_progress: "num_at a = (v, r) \<Longrightarrow> r \<noteq> a \<Longrightarrow> length r < length a"
  using strtol_progress [of a] by (auto simp: num_at_def split: if_splits)

lemma num_at_none: "num_at a = (v, a) \<Longrightarrow> v = 0"
  using strtol_no_number [of a] by (auto simp: num_at_def split: if_splits)

termination ver_loop
proof (relation "measure (\<lambda>(a, b). length a + length b)", goal_cases)
  case 1
  show ?case by simp
next
  case (2 a0 b0 a b p va ae q vb be)
  then show ?case
    using tl_skip_dots_length [of a0] tl_skip_dots_length [of b0] by simp
next
  case (3 a0 b0 a b p va ae q vb be va' a' vb' b')
  then have "length a' \<le> length a" "length b' \<le> length b"
    and "length a' < length a \<or> length b' < length b"
    using num_at_progress [of a va ae] num_at_progress [of b vb be]
    by (auto split: if_splits)
  then show ?case
    using 3 skip_dots_length [of a0] skip_dots_length [of b0] by auto
qed

declare ver_loop.simps [simp del]

text \<open>The epoch prefix: \<open>strtol\<close> of the whole string when it contains a colon.\<close>

definition split_epoch :: "string \<Rightarrow> int \<times> string" where
  "split_epoch a = (case strchr a CHR '':'' of None \<Rightarrow> (0, a) | Some ca \<Rightarrow> (fst (strtol a), tl ca))"

definition ver_compare :: "pstr \<Rightarrow> pstr \<Rightarrow> int" where
  "ver_compare x y =
     (case (x, y) of
        (None, None) \<Rightarrow> 0
      | (None, Some _) \<Rightarrow> -1
      | (Some _, None) \<Rightarrow> 1
      | (Some a, Some b) \<Rightarrow>
          (let (ea, a') = split_epoch a; (eb, b') = split_epoch b
           in if ea \<noteq> eb then (if ea > eb then 1 else -1) else ver_loop a' b'))"

definition ver_satisfies :: "pstr \<Rightarrow> ver_op \<Rightarrow> pstr \<Rightarrow> bool" where
  "ver_satisfies pkg_version op constraint_version =
     (if op = VER_OP_ANY then True
      else if pkg_version = None \<or> constraint_version = None then False
      else let cmp = ver_compare pkg_version constraint_version in
        (case op of
           VER_OP_EQ \<Rightarrow> cmp = 0
         | VER_OP_NEQ \<Rightarrow> cmp \<noteq> 0
         | VER_OP_LT \<Rightarrow> cmp < 0
         | VER_OP_LE \<Rightarrow> cmp \<le> 0
         | VER_OP_GT \<Rightarrow> cmp > 0
         | VER_OP_GE \<Rightarrow> cmp \<ge> 0
         | VER_OP_ANY \<Rightarrow> True))"

subsection \<open>Specification: token lists\<close>

text \<open>
  A version is read from left to right into numbers (everything \<open>strtol\<close> accepts) and single
  other characters; dots only separate.
\<close>

datatype tok = TNum int | TChr char

function toks :: "string \<Rightarrow> tok list" where
  "toks s0 =
     (let s = skip_dots s0 in
      if s = [] then []
      else let (v, r) = strtol s in
        if r = s then TChr (hd s) # toks (tl s) else TNum v # toks r)"
  by pat_completeness auto

termination toks
proof (relation "measure length", goal_cases)
  case 1
  show ?case by simp
next
  case (2 s0 s p v r)
  then show ?case using tl_skip_dots_length [of s0] by simp
next
  case (3 s0 s p v r)
  then show ?case
    using skip_dots_length [of s0] strtol_progress [of s] by (metis in_measure order_less_le_trans snd_conv)
qed

declare toks.simps [simp del]

text \<open>
  Comparison of token lists: numbers by value, characters by byte; a missing token counts as
  the number 0 against a number and is smaller than a character; a character counts as 0
  against a number, and a number 0 is then skipped.
\<close>

function cmp_toks :: "tok list \<Rightarrow> tok list \<Rightarrow> int" where
  "cmp_toks [] [] = 0"
| "cmp_toks (TNum x # xs) (TNum y # ys) =
     (if x \<noteq> y then (if x > y then 1 else -1) else cmp_toks xs ys)"
| "cmp_toks (TChr c # xs) (TChr d # ys) =
     (if c \<noteq> d then uchar c - uchar d else cmp_toks xs ys)"
| "cmp_toks (TNum x # xs) (TChr d # ys) =
     (if x \<noteq> 0 then (if x > 0 then 1 else -1) else cmp_toks xs (TChr d # ys))"
| "cmp_toks (TChr c # xs) (TNum y # ys) =
     (if y \<noteq> 0 then (if 0 > y then 1 else -1) else cmp_toks (TChr c # xs) ys)"
| "cmp_toks (TNum x # xs) [] = (if x \<noteq> 0 then (if x > 0 then 1 else -1) else cmp_toks xs [])"
| "cmp_toks [] (TNum y # ys) = (if y \<noteq> 0 then (if 0 > y then 1 else -1) else cmp_toks [] ys)"
| "cmp_toks (TChr c # xs) [] = uchar c"
| "cmp_toks [] (TChr d # ys) = - uchar d"
  by pat_completeness auto

termination cmp_toks
  by (relation "measure (\<lambda>(xs, ys). length xs + length ys)") auto

definition nonul_toks :: "tok list \<Rightarrow> bool" where
  "nonul_toks ts \<longleftrightarrow> TChr (CHR 0x00) \<notin> set ts"

subsection \<open>The loop implements the specification\<close>

lemma skip_dots_idem [simp]: "skip_dots (skip_dots s) = skip_dots s"
  by (induction s) (auto simp: skip_dots_def)

lemma skip_dots_Nil [simp]: "skip_dots [] = []"
  by (simp add: skip_dots_def)

lemma skip_dots_cstring [simp]: "cstring s \<Longrightarrow> cstring (skip_dots s)"
  by (simp add: skip_dots_def)

lemma toks_Nil [simp]: "toks [] = []"
  by (simp add: toks.simps)

lemma toks_skip_dots [simp]: "toks (skip_dots s) = toks s"
  by (simp add: toks.simps [of "skip_dots s"] toks.simps [of s])

lemma toks_end: "skip_dots s = [] \<Longrightarrow> toks s = []"
  by (simp add: toks.simps)

lemma toks_num: "skip_dots s = s \<Longrightarrow> num_at s = (v, r) \<Longrightarrow> r \<noteq> s \<Longrightarrow> toks s = TNum v # toks r"
  by (auto simp: num_at_def toks.simps [of s] split: if_splits)

lemma toks_chr: "skip_dots s = s \<Longrightarrow> num_at s = (v, s) \<Longrightarrow> s \<noteq> [] \<Longrightarrow> toks s = TChr (hd s) # toks (tl s)"
  by (auto simp: num_at_def toks.simps [of s] split: if_splits)

lemma num_at_cstring: "num_at a = (v, r) \<Longrightarrow> cstring a \<Longrightarrow> cstring r"
  using strtol_cstring [of a] by (cases "a = []") (auto simp: num_at_def)

lemma cmp_toks_end_chr:
  assumes "cstring a" and "skip_dots a = a" and "num_at a = (v, a)" and "a \<noteq> []"
  shows "cmp_toks (toks a) [] = cur a" and "cmp_toks [] (toks a) = - cur a"
  using assms toks_chr [OF assms(2,3,4)] by (cases a; simp)+

lemma cmp_toks_chr:
  assumes "cstring a" "cstring b" "skip_dots a = a" "skip_dots b = b"
    and "num_at a = (va, a)" "num_at b = (vb, b)" and "\<not> (a = [] \<and> b = [])"
  shows "cmp_toks (toks a) (toks b) =
           (if cur a \<noteq> cur b then cur a - cur b else cmp_toks (toks (tl a)) (toks (tl b)))"
    and "cur a = cur b \<Longrightarrow> a \<noteq> [] \<and> b \<noteq> []"
proof -
  show ends: "a \<noteq> [] \<and> b \<noteq> []" if "cur a = cur b"
    using that assms(7) cur_pos [OF assms(1)] cur_pos [OF assms(2)] by auto
  show "cmp_toks (toks a) (toks b) =
          (if cur a \<noteq> cur b then cur a - cur b else cmp_toks (toks (tl a)) (toks (tl b)))"
  proof (cases "a = [] \<or> b = []")
    case True
    then show ?thesis
      using assms ends cmp_toks_end_chr [of a va] cmp_toks_end_chr [of b vb] by auto
  next
    case False
    then show ?thesis
      using toks_chr [OF assms(3,5)] toks_chr [OF assms(4,6)] by (cases a; cases b) auto
  qed
qed

lemma cmp_toks_num:
  assumes "skip_dots a = a" "skip_dots b = b"
    and "num_at a = (va, ae)" "num_at b = (vb, be)" and "\<not> (ae = a \<and> be = b)"
  shows "cmp_toks (toks a) (toks b) =
           (if va \<noteq> vb then (if va > vb then 1 else -1) else cmp_toks (toks ae) (toks be))"
proof (cases "ae = a \<or> be = b")
  case False
  then show ?thesis using toks_num [OF assms(1,3)] toks_num [OF assms(2,4)] by simp
next
  case True
  then consider "ae = a" "be \<noteq> b" "va = 0" | "ae \<noteq> a" "be = b" "vb = 0"
    using assms num_at_none by blast
  then show ?thesis
  proof cases
    case 1
    then show ?thesis
      using toks_num [OF assms(2,4)] toks_chr [OF assms(1)] assms(3)
      by (cases "a = []") (auto split: if_splits)
  next
    case 2
    then show ?thesis
      using toks_num [OF assms(1,3)] toks_chr [OF assms(2)] assms(4)
      by (cases "b = []") (auto split: if_splits)
  qed
qed

text \<open>One turn of the loop after the dots are skipped.\<close>

lemma ver_loop_step:
  assumes "a = skip_dots a0" "b = skip_dots b0" "num_at a = (va, ae)" "num_at b = (vb, be)"
    and "\<not> (a = [] \<and> b = [])"
  shows "ver_loop a0 b0 =
     (if ae = a \<and> be = b then
        (if cur a \<noteq> cur b then cur a - cur b
         else if a \<noteq> [] \<and> b \<noteq> [] then ver_loop (tl a) (tl b) else 0)
      else if va \<noteq> vb then (if va > vb then 1 else -1) else ver_loop ae be)"
proof -
  have "ae = a \<Longrightarrow> va = 0" and "be = b \<Longrightarrow> vb = 0"
    using assms num_at_none by blast+
  then show ?thesis
    using assms by (subst ver_loop.simps) (auto simp: Let_def)
qed

lemma ver_loop_toks:
  "cstring a \<Longrightarrow> cstring b \<Longrightarrow> ver_loop a b = cmp_toks (toks a) (toks b)"
proof (induction "length a + length b" arbitrary: a b rule: less_induct)
  case (less a0 b0)
  define a where "a = skip_dots a0"
  define b where "b = skip_dots b0"
  obtain va ae where na: "num_at a = (va, ae)" by fastforce
  obtain vb be where nb: "num_at b = (vb, be)" by fastforce
  have cs: "cstring a" "cstring b" and sd: "skip_dots a = a" "skip_dots b = b"
    and tk: "toks a0 = toks a" "toks b0 = toks b"
    and len: "length a \<le> length a0" "length b \<le> length b0"
    using less.prems by (auto simp: a_def b_def skip_dots_length)
  show ?case
  proof (cases "a = [] \<and> b = []")
    case True
    then show ?thesis
      by (subst ver_loop.simps) (auto simp: tk simp flip: a_def b_def)
  next
    case False
    note step = ver_loop_step [OF a_def b_def na nb False]
    show ?thesis
    proof (cases "ae = a \<and> be = b")
      case True
      then have "ver_loop (tl a) (tl b) = cmp_toks (toks (tl a)) (toks (tl b))" if "a \<noteq> []" "b \<noteq> []"
        using that less.hyps [of "tl a" "tl b"] cs len by (cases a; cases b) auto
      then show ?thesis
        using step True na nb cmp_toks_chr [OF cs sd _ _ False] by (auto simp: tk)
    next
      case num: False
      have "ver_loop ae be = cmp_toks (toks ae) (toks be)"
        using less.hyps [of ae be] num num_at_progress [OF na] num_at_progress [OF nb]
          num_at_cstring [OF na] num_at_cstring [OF nb] cs len by (cases "ae = a"; cases "be = b") auto
      then show ?thesis
        using step num cmp_toks_num [OF sd na nb num] by (simp add: tk)
    qed
  qed
qed

subsection \<open>Order laws\<close>

lemma cmp_toks_refl: "cmp_toks xs xs = 0"
proof (induction xs)
  case (Cons x xs)
  then show ?case by (cases x) auto
qed simp

lemma cmp_toks_swap: "cmp_toks ys xs = - cmp_toks xs ys"
  by (induction xs ys rule: cmp_toks.induct) auto

lemma nonul_simps [simp]:
  "nonul_toks []"
  "nonul_toks (TNum x # xs) \<longleftrightarrow> nonul_toks xs"
  "nonul_toks (TChr c # xs) \<longleftrightarrow> c \<noteq> CHR 0x00 \<and> nonul_toks xs"
  by (auto simp: nonul_toks_def)

lemma uchar_pos: "c \<noteq> CHR 0x00 \<Longrightarrow> 0 < uchar c"
  using uchar_bounds [of c] uchar_0 [of c] by linarith

lemma tok_cases:
  obtains (Nil) "ts = []" | (Num) x xs where "ts = TNum x # xs" | (Chr) c xs where "ts = TChr c # xs"
  by (cases ts) (auto intro: tok.exhaust)

lemma cmp_toks_trans:
  "nonul_toks xs \<Longrightarrow> nonul_toks ys \<Longrightarrow> nonul_toks zs \<Longrightarrow>
   cmp_toks xs ys \<le> 0 \<Longrightarrow> cmp_toks ys zs \<le> 0 \<Longrightarrow> cmp_toks xs zs \<le> 0"
proof (induction "length xs + length ys + length zs" arbitrary: xs ys zs rule: less_induct)
  case less
  have IH: "cmp_toks xs' zs' \<le> 0"
    if "length xs' + length ys' + length zs' < length xs + length ys + length zs"
      "nonul_toks xs'" "nonul_toks ys'" "nonul_toks zs'" "cmp_toks xs' ys' \<le> 0" "cmp_toks ys' zs' \<le> 0"
    for xs' ys' zs'
    using less.hyps that by blast
  note steps = IH [of "tl xs" "tl ys" "tl zs"] IH [of "tl xs" "tl ys" zs] IH [of "tl xs" ys "tl zs"]
    IH [of xs "tl ys" "tl zs"] IH [of "tl xs" ys zs] IH [of xs "tl ys" zs] IH [of xs ys "tl zs"]
  show ?case
    using less.prems steps
    by (cases xs rule: tok_cases; cases ys rule: tok_cases; cases zs rule: tok_cases)
       (auto split: if_splits dest: uchar_pos)
qed

lemma toks_nonul: "cstring s \<Longrightarrow> nonul_toks (toks s)"
proof (induction s rule: toks.induct)
  case (1 s0)
  obtain v r where st: "strtol (skip_dots s0) = (v, r)" by fastforce
  show ?case
  proof (cases "skip_dots s0")
    case Nil
    then show ?thesis by (simp add: toks_end)
  next
    case (Cons c cs)
    have cs: "cstring (skip_dots s0)" using "1.prems" by simp
    then have "cstring r" using strtol_cstring st by (metis snd_conv)
    then show ?thesis
      using "1.IH" [OF refl _ st [symmetric]] Cons cs st
      by (subst toks.simps) (auto simp: Let_def)
  qed
qed

definition pcstring :: "pstr \<Rightarrow> bool" where
  "pcstring p \<longleftrightarrow> (\<forall>s. p = Some s \<longrightarrow> cstring s)"

lemma pcstring_simps [simp]: "pcstring None" "pcstring (Some s) \<longleftrightarrow> cstring s"
  by (auto simp: pcstring_def)

lemma split_epoch_cstring: "split_epoch a = (e, r) \<Longrightarrow> cstring a \<Longrightarrow> cstring r"
  using cstring_dropWhile [of a "\<lambda>x. x \<noteq> CHR '':''"]
  by (auto simp: split_epoch_def strchr_def split: option.splits list.splits)

definition epoch_toks :: "string \<Rightarrow> int \<times> tok list" where
  "epoch_toks a = (let (e, r) = split_epoch a in (e, toks r))"

text \<open>The whole comparison: epochs first, then the token lists.\<close>

lemma ver_compare_toks:
  assumes "cstring a" "cstring b"
  shows "ver_compare (Some a) (Some b) =
     (let (ea, ta) = epoch_toks a; (eb, tb) = epoch_toks b
      in if ea \<noteq> eb then (if ea > eb then 1 else -1) else cmp_toks ta tb)"
  using assms split_epoch_cstring
  by (auto simp: ver_compare_def epoch_toks_def ver_loop_toks split: prod.splits)

lemma epoch_toks_nonul: "cstring a \<Longrightarrow> epoch_toks a = (e, ts) \<Longrightarrow> nonul_toks ts"
  by (auto simp: epoch_toks_def toks_nonul split_epoch_cstring split: prod.splits)

interpretation ver: comparator ver_compare pcstring
proof
  fix a b c :: pstr
  show "ver_compare a a = 0" if "pcstring a"
    using that by (cases a) (auto simp: ver_compare_toks cmp_toks_refl ver_compare_def [of None]
        split: prod.splits)
  show "ver_compare b a = - ver_compare a b" if "pcstring a" "pcstring b"
  proof (cases "a = None \<or> b = None")
    case True
    then show ?thesis
      by (cases a; cases b) (auto simp: ver_compare_def)
  next
    case False
    then obtain x y where "a = Some x" "b = Some y" by auto
    then show ?thesis
      using that cmp_toks_swap [of "snd (epoch_toks x)" "snd (epoch_toks y)"]
      by (simp add: ver_compare_toks Let_def case_prod_beta)
  qed
  show "ver_compare a c \<le> 0"
    if "pcstring a" "pcstring b" "pcstring c" "ver_compare a b \<le> 0" "ver_compare b c \<le> 0"
  proof (cases "a = None \<or> b = None \<or> c = None")
    case True
    then show ?thesis
      using that by (cases a; cases b; cases c) (auto simp: ver_compare_def [of None]
        ver_compare_def [of _ None])
  next
    case False
    then obtain x y z where abc: "a = Some x" "b = Some y" "c = Some z" by auto
    obtain ex tx ey ty ez tz where
      et: "epoch_toks x = (ex, tx)" "epoch_toks y = (ey, ty)" "epoch_toks z = (ez, tz)"
      by (metis surj_pair)
    have "nonul_toks tx" "nonul_toks ty" "nonul_toks tz"
      using that abc et epoch_toks_nonul by auto
    then show ?thesis
      using that abc et cmp_toks_trans [of tx ty tz]
      by (auto simp: ver_compare_toks split: if_splits)
  qed
qed

text \<open>
  C23. \<open>ver_compare\<close> is a total preorder on version strings (NULL included): it is reflexive,
  swapping the arguments negates the result exactly, and its sign is transitive.
\<close>

theorem ver_compare_total_preorder:
  assumes "pcstring a" and "pcstring b" and "pcstring c"
  shows "ver_compare a a = 0 \<and> ver_compare b a = - ver_compare a b \<and>
    (ver_compare a b \<le> 0 \<longrightarrow> ver_compare b c \<le> 0 \<longrightarrow> ver_compare a c \<le> 0)"
  using assms ver.cmp_refl ver.cmp_swap ver.cmp_trans by blast

theorem ver_compare_total_preorder_witness:
  "ver_compare (Some ''1.0'') (Some ''1.0a'') \<le> 0 \<and> ver_compare (Some ''1.0a'') (Some ''1:0.1'') \<le> 0 \<and>
   ver_compare (Some ''1.0'') (Some ''1:0.1'') \<le> 0"
proof -
  have 1: "ver_compare (Some ''1.0'') (Some ''1.0a'') \<le> 0" by code_simp
  have 2: "ver_compare (Some ''1.0a'') (Some ''1:0.1'') \<le> 0" by code_simp
  show ?thesis
    using 1 2 ver_compare_total_preorder [of "Some ''1.0''" "Some ''1.0a''" "Some ''1:0.1''"] by simp
qed

text \<open>
  The set of versions a constraint accepts is an interval of that order: \<open>>=\<close> and \<open>>\<close>
  are closed under newer versions, \<open><=\<close> and \<open><\<close> under older ones, and no operator
  distinguishes versions that compare equal.
\<close>

theorem ver_satisfies_interval:
  assumes "cstring v" and "cstring w" and "cstring c"
    and sat: "ver_satisfies (Some v) op (Some c)"
    and ord: "(op = VER_OP_GE \<or> op = VER_OP_GT) \<and> ver_compare (Some v) (Some w) \<le> 0 \<or>
              (op = VER_OP_LE \<or> op = VER_OP_LT) \<and> ver_compare (Some w) (Some v) \<le> 0 \<or>
              ver_compare (Some v) (Some w) = 0"
  shows "ver_satisfies (Some w) op (Some c)"
proof -
  have valid: "pcstring (Some v)" "pcstring (Some w)" "pcstring (Some c)"
    using assms by simp_all
  note swap = ver.cmp_swap [OF valid(1,2)] ver.cmp_swap [OF valid(1,3)] ver.cmp_swap [OF valid(2,3)]
  have eq: "sgn (ver_compare (Some v) (Some c)) = sgn (ver_compare (Some w) (Some c))"
    if "ver_compare (Some v) (Some w) = 0"
    using ver.eq_cong [OF valid that] .
  show ?thesis
    using sat ord eq swap ver.cmp_trans [OF valid(3,1,2)] ver.lt_le_trans [OF valid(3,1,2)]
      ver.cmp_trans [OF valid(2,1,3)] ver.le_lt_trans [OF valid(2,1,3)]
    by (cases op) (auto simp: ver_satisfies_def sgn_if split: if_splits)
qed

theorem ver_satisfies_interval_witness:
  "ver_satisfies (Some ''2.0'') VER_OP_GE (Some ''1.5'') \<and> ver_compare (Some ''2.0'') (Some ''2.1'') \<le> 0 \<and>
   ver_satisfies (Some ''2.1'') VER_OP_GE (Some ''1.5'')"
proof -
  have 1: "ver_satisfies (Some ''2.0'') VER_OP_GE (Some ''1.5'')" by code_simp
  have 2: "ver_compare (Some ''2.0'') (Some ''2.1'') \<le> 0" by code_simp
  show ?thesis
    using 1 2 ver_satisfies_interval [of "''2.0''" "''2.1''" "''1.5''" VER_OP_GE] by simp
qed

subsection \<open>Constraints: print, then parse\<close>

definition op_free :: "string \<Rightarrow> bool" where
  "op_free s \<longleftrightarrow> (\<forall>(symb, op) \<in> set op_table. strstr s symb = None)"

text \<open>
  Constraints with a canonical text: trimmed name and version that contain no operator
  symbol, and a version exactly when there is an operator.
\<close>

definition canonical :: "dep_constraint \<Rightarrow> bool" where
  "canonical c \<longleftrightarrow>
     (\<exists>n. dep_name c = Some n \<and> trim n = n \<and> op_free n) \<and>
     (if dep_op c = VER_OP_ANY then dep_version c = None
      else \<exists>v. dep_version c = Some v \<and> trim v = v \<and> op_free v)"

lemma strstr_Nil: "pat \<noteq> [] \<Longrightarrow> strstr [] pat = None"
  by (simp add: strstr.simps)

text \<open>A pattern without blanks cannot straddle a blank.\<close>

lemma take_blank_prefix:
  assumes "CHR '' '' \<notin> set pat"
  shows "take (length pat) (a @ CHR '' '' # b) = pat \<longleftrightarrow> take (length pat) a = pat"
proof (cases "length pat \<le> length a")
  case False
  then have "CHR '' '' \<in> set (take (length pat) (a @ CHR '' '' # b))"
    by (cases "length pat - length a") auto
  then show ?thesis using assms False by (metis length_take min.absorb_iff2 nat_le_linear take_all)
qed simp

lemma strstr_blank:
  assumes "pat \<noteq> []" and "CHR '' '' \<notin> set pat"
  shows "strstr (a @ CHR '' '' # b) pat =
    (case strstr a pat of Some i \<Rightarrow> Some i | None \<Rightarrow> map_option (\<lambda>j. Suc (length a + j)) (strstr b pat))"
proof (induction a)
  case Nil
  have "take (length pat) (CHR '' '' # b) \<noteq> pat"
    using take_blank_prefix [OF assms(2), of "[]" b] assms(1) by simp
  then show ?case
    using assms(1) by (subst strstr.simps) (auto simp: strstr_Nil option.map_comp comp_def)
next
  case (Cons c a)
  show ?case
  proof (cases "take (length pat) (c # a) = pat")
    case True
    then show ?thesis
      using take_blank_prefix [OF assms(2), of "c # a" b]
      by (simp add: strstr.simps [of "c # a"] strstr.simps [of "(c # a) @ CHR '' '' # b"] del: append_Cons)
  next
    case False
    then show ?thesis
      using take_blank_prefix [OF assms(2), of "c # a" b] Cons.IH
      by (simp add: strstr.simps [of "c # a"] strstr.simps [of "c # a @ CHR '' '' # b"]
          option.map_comp comp_def split: option.splits)
  qed
qed

lemma strstr_self: "strstr s s = Some 0"
  by (simp add: strstr.simps)

text \<open>No operator of the table occurs inside one that comes later in it.\<close>

lemma strstr_earlier_ops:
  "strstr ''<='' ''>='' = None"
  "strstr ''=='' ''>='' = None"
  "strstr ''=='' ''<='' = None"
  "strstr ''!='' ''>='' = None"
  "strstr ''!='' ''<='' = None"
  "strstr ''!='' ''=='' = None"
  "strstr ''>'' ''>='' = None"
  "strstr ''>'' ''<='' = None"
  "strstr ''>'' ''=='' = None"
  "strstr ''>'' ''!='' = None"
  "strstr ''<'' ''>='' = None"
  "strstr ''<'' ''<='' = None"
  "strstr ''<'' ''=='' = None"
  "strstr ''<'' ''!='' = None"
  "strstr ''<'' ''>'' = None"
  by (simp_all add: strstr.simps)

lemma op_freeD:
  assumes "op_free s"
  shows "strstr s ''>='' = None" "strstr s ''<='' = None" "strstr s ''=='' = None"
    "strstr s ''!='' = None" "strstr s ''>'' = None" "strstr s ''<'' = None"
  using assms by (simp_all add: op_free_def op_table_def)

lemma find_op_none: "op_free s \<Longrightarrow> find_op op_table s = None"
  by (simp add: op_table_def op_freeD)

lemma op_table_pats: "(pat, op) \<in> set op_table \<Longrightarrow> pat \<noteq> [] \<and> CHR '' '' \<notin> set pat"
  by (auto simp: op_table_def)

lemma find_op_between:
  assumes "op_free n" "op_free v"
  shows "find_op op_table (n @ CHR '' '' # w @ CHR '' '' # v) =
           map_option (\<lambda>(p, op, l). (Suc (length n + p), op, l)) (find_op op_table w)"
proof -
  have "find_op ops (n @ CHR '' '' # w @ CHR '' '' # v) =
          map_option (\<lambda>(p, op, l). (Suc (length n + p), op, l)) (find_op ops w)"
    if "set ops \<subseteq> set op_table" for ops
    using that
  proof (induction ops)
    case (Cons x ops)
    obtain pat op where x: "x = (pat, op)" by fastforce
    have "strstr n pat = None" "strstr v pat = None" "pat \<noteq> []" "CHR '' '' \<notin> set pat"
      using Cons.prems assms x op_table_pats by (auto simp: op_free_def)
    then show ?case
      using Cons x by (auto simp: strstr_blank split: option.splits)
  qed simp
  then show ?thesis by blast
qed

lemma find_op_self: "op \<noteq> VER_OP_ANY \<Longrightarrow> find_op op_table (op_str op) = Some (0, op, length (op_str op))"
  by (cases op) (simp_all add: op_table_def strstr_earlier_ops strstr_self)

lemma find_op_printed:
  assumes "op_free n" "op_free v" "op \<noteq> VER_OP_ANY"
  shows "find_op op_table (n @ CHR '' '' # op_str op @ CHR '' '' # v) =
           Some (length n + 1, op, length (op_str op))"
  using find_op_between [OF assms(1,2)] find_op_self [OF assms(3)] by simp

lemma trim_fixD:
  assumes "trim n = n"
  shows "dropWhile is_blank n = n" and "dropWhile is_blank (rev n) = rev n"
proof -
  have le: "length (trim n) \<le> length (dropWhile is_blank n)"
    using length_dropWhile_le [of is_blank "rev (dropWhile is_blank n)"] by (simp add: trim_def)
  have "dropWhile is_blank n = drop (length n - length (dropWhile is_blank n)) n"
    by (metis dropWhile_eq_drop length_append length_drop takeWhile_dropWhile_id add_diff_cancel_right' add_diff_cancel_left')
  then show 1: "dropWhile is_blank n = n"
    using le assms length_dropWhile_le [of is_blank n] by simp
  show "dropWhile is_blank (rev n) = rev n"
    using assms 1 by (metis rev_rev_ident trim_def)
qed

lemma trim_blank_before: "trim (CHR '' '' # v) = trim v"
  by (simp add: trim_def is_blank_def)

lemma trim_blank_after:
  assumes "trim n = n"
  shows "trim (n @ '' '') = n"
proof (cases "n = []")
  case False
  then have "\<not> is_blank (hd n)"
    using trim_fixD(1) [OF assms] by (metis dropWhile_eq_self_iff)
  then have "dropWhile is_blank (n @ '' '') = n @ '' ''"
    using False by (simp add: dropWhile_eq_self_iff)
  then show ?thesis
    using trim_fixD(2) [OF assms] by (simp add: trim_def is_blank_def)
qed (simp add: trim_def is_blank_def)

definition constraint_text :: "dep_constraint \<Rightarrow> string" where
  "constraint_text c = the (dep_name c) @
     (if dep_op c = VER_OP_ANY then [] else '' '' @ op_str (dep_op c) @ '' '' @ the (dep_version c))"

lemma to_str_canonical:
  "canonical c \<Longrightarrow> dep_constraint_to_str (Some c) mem = strdup_m (constraint_text c) mem"
  by (auto simp: canonical_def constraint_text_def dep_constraint_to_str_def split: option.splits)

lemma parse_constraint_text:
  assumes "canonical c" and "no_oom mem"
  shows "\<exists>mem'. dep_constraint_parse (Some (constraint_text c)) mem = (c, mem') \<and> no_oom mem'"
proof -
  obtain n where n: "dep_name c = Some n" "trim n = n" "op_free n"
    using assms(1) by (auto simp: canonical_def)
  obtain mem2 where m2: "\<And>s. strdup_m s mem = (Some s, mem2)" "no_oom mem2"
    using strdup_no_oomE [OF assms(2)] by blast
  obtain mem3 where m3: "\<And>s. strdup_m s mem2 = (Some s, mem3)" "no_oom mem3"
    using strdup_no_oomE [OF m2(2)] by blast
  show ?thesis
  proof (cases "dep_op c = VER_OP_ANY")
    case True
    then show ?thesis
      using assms(1) n m2 by (cases c) (auto simp: canonical_def constraint_text_def dep_constraint_parse_def
          find_op_none trim_strdup_def trim_strndup_def)
  next
    case False
    then obtain v where v: "dep_version c = Some v" "trim v = v" "op_free v"
      using assms(1) by (auto simp: canonical_def)
    then show ?thesis
      using n v m2 m3 False find_op_printed [OF n(3) v(3) False] trim_blank_after [OF n(2)]
      by (cases c) (simp add: constraint_text_def dep_constraint_parse_def trim_strdup_def trim_strndup_def
          trim_blank_before)
  qed
qed

text \<open>
  C33. Printing a canonical constraint and parsing the text gives the constraint back, as long
  as memory does not run out.
\<close>

theorem dep_constraint_roundtrip:
  assumes "canonical c" and "no_oom mem" and "no_oom mem'"
  shows "fst (dep_constraint_parse (fst (dep_constraint_to_str (Some c) mem)) mem') = c"
proof -
  have "fst (strdup_m (constraint_text c) mem) = Some (constraint_text c)"
    using strdup_no_oomE [OF assms(2)] by (metis fst_conv)
  then show ?thesis using parse_constraint_text [OF assms(1,3)] to_str_canonical [OF assms(1)] by auto
qed

theorem dep_constraint_roundtrip_witness:
  "canonical \<lparr>dep_name = Some ''libfoo'', dep_op = VER_OP_GE, dep_version = Some ''2.0''\<rparr> \<and>
   fst (dep_constraint_parse (fst (dep_constraint_to_str
     (Some \<lparr>dep_name = Some ''libfoo'', dep_op = VER_OP_GE, dep_version = Some ''2.0''\<rparr>) [])) []) =
   \<lparr>dep_name = Some ''libfoo'', dep_op = VER_OP_GE, dep_version = Some ''2.0''\<rparr>"
proof -
  have ok: "op_free ''libfoo''" "op_free ''2.0''" "trim ''libfoo'' = ''libfoo''" "trim ''2.0'' = ''2.0''"
    by code_simp+
  then have c: "canonical \<lparr>dep_name = Some ''libfoo'', dep_op = VER_OP_GE, dep_version = Some ''2.0''\<rparr>"
    by (simp add: canonical_def)
  show ?thesis using c dep_constraint_roundtrip [OF c no_oom_Nil no_oom_Nil] by simp
qed

text \<open>
  Mixed segments are not compared as text: the leading number of a segment is compared
  first, so \<open>1.10a\<close> is newer than \<open>1.9a\<close> although the segment \<open>10a\<close> precedes \<open>9a\<close> byte
  by byte; and trailing zero segments do not count.
\<close>

theorem ver_compare_mixed_segments:
  "ver_compare (Some ''1.10a'') (Some ''1.9a'') = 1 \<and> uchar (hd ''10a'') < uchar (hd ''9a'') \<and>
   ver_compare (Some ''1.0.0'') (Some ''1'') = 0"
  by code_simp

end
