(* ===== verification/Package.thy ===== *)
theory Package
  imports Version
begin

text \<open>
  The data of \<open>include/apg/package.h\<close>: package metadata and packages, with the constructors
  of \<open>src/package.c\<close>.  Every \<open>char *\<close> field may be NULL, and so may the items of a
  \<open>str_list\<close> (the JSON reader stores NULL for an array element that is not a string).
\<close>

type_synonym str_list = "pstr list"

record package_metadata =
  meta_name :: pstr
  meta_version :: pstr
  meta_type :: pstr
  meta_architecture :: pstr
  meta_description :: pstr
  meta_maintainer :: pstr
  meta_license :: pstr
  meta_homepage :: pstr
  meta_tags :: str_list
  meta_dependencies :: "dep_constraint list"
  meta_conflicts :: str_list
  meta_provides :: str_list
  meta_replaces :: str_list
  meta_conf :: str_list

record package =
  pkg_meta :: "package_metadata option"
  pkg_path :: pstr
  package_files :: str_list
  installed_by_hand :: bool
  held :: bool

definition zero_metadata :: package_metadata where
  "zero_metadata =
     \<lparr>meta_name = None, meta_version = None, meta_type = None, meta_architecture = None,
      meta_description = None, meta_maintainer = None, meta_license = None, meta_homepage = None,
      meta_tags = [], meta_dependencies = [], meta_conflicts = [], meta_provides = [],
      meta_replaces = [], meta_conf = []\<rparr>"

definition package_metadata_new :: "mem \<Rightarrow> package_metadata option \<times> mem" where
  "package_metadata_new mem =
     (let (ok, mem1) = malloc_ok mem in (if ok then Some zero_metadata else None, mem1))"

definition package_new :: "mem \<Rightarrow> package option \<times> mem" where
  "package_new mem =
     (let (ok, mem1) = malloc_ok mem in
      if \<not> ok then (None, mem1)
      else let (meta, mem2) = package_metadata_new mem1 in
        if meta = None then (None, mem2)
        else (Some \<lparr>pkg_meta = meta, pkg_path = None, package_files = [],
                    installed_by_hand = False, held = False\<rparr>, mem2))"

text \<open>
  Metadata the dereferencing code is safe on: the name, every dependency name and every
  entry of the relation lists are present.
\<close>

definition strings_ok :: "package_metadata \<Rightarrow> bool" where
  "strings_ok p \<longleftrightarrow>
     meta_name p \<noteq> None \<and> (\<forall>c \<in> set (meta_dependencies p). dep_name c \<noteq> None) \<and>
     None \<notin> set (meta_conflicts p) \<and> None \<notin> set (meta_provides p) \<and> None \<notin> set (meta_replaces p)"

lemma package_new_no_oom:
  "no_oom mem \<Longrightarrow> \<exists>p mem'. package_new mem = (Some p, mem') \<and> pkg_meta p = Some zero_metadata"
  by (cases mem; cases "tl mem") (auto simp: package_new_def package_metadata_new_def)

end
