(* ===== verification/Graph.thy ===== *)
theory Graph
  imports Hashmap Package
begin

text \<open>
  \<open>src/graph/graph.c\<close>: the dependency graph.  Nodes live in an array indexed by name through
  a \<open>str_map\<close>; virtual names (\<open>provides\<close>, \<open>replaces\<close>) live in alias groups, again indexed
  through a \<open>str_map\<close>; provider preferences are a small array searched linearly.
  \<open>SIZE_MAX\<close> as "not found" is \<open>None\<close>.  The metadata pointer of a node is borrowed and not
  written while the graph lives, so the node holds the metadata itself.
\<close>

datatype dep_error = DEP_OK | DEP_ERR_NOMEM | DEP_ERR_CYCLE | DEP_ERR_MISSING | DEP_ERR_CONFLICT | DEP_ERR_VERSION

definition GRAPH_INITIAL_CAP :: nat where
  "GRAPH_INITIAL_CAP = 16"

record dep_node =
  node_name :: string
  node_pkg :: package_metadata
  node_installed :: bool

record alias_group =
  ag_alias :: string
  ag_providers :: "nat list"
  ag_cap :: nat

record dep_provider_pref =
  pref_alias :: string
  pref_pkg_name :: string

record dep_graph =
  g_nodes :: "dep_node list"
  g_cap :: nat
  g_node_map :: str_map
  g_alias_groups :: "alias_group list"
  g_alias_cap :: nat
  g_alias_map :: str_map
  g_prefs :: "dep_provider_pref list"
  g_pref_cap :: nat

text \<open>\<open>dep_graph_new\<close>: the struct, the node array, then the two maps.\<close>

definition dep_graph_new :: "mem \<Rightarrow> dep_graph option \<times> mem" where
  "dep_graph_new mem =
     (let (ok, mem1) = malloc_ok mem in
      if \<not> ok then (None, mem1)
      else let (ok, mem2) = malloc_ok mem1 in
      if \<not> ok then (None, mem2)
      else let (ok, nm, mem3) = str_map_init str_map_zero mem2 in
      if \<not> ok then (None, mem3)
      else let (ok, am, mem4) = str_map_init str_map_zero mem3 in
      if \<not> ok then (None, mem4)
      else (Some \<lparr>g_nodes = [], g_cap = GRAPH_INITIAL_CAP, g_node_map = nm,
                  g_alias_groups = [], g_alias_cap = 0, g_alias_map = am,
                  g_prefs = [], g_pref_cap = 0\<rparr>, mem4))"

definition dep_graph_find :: "dep_graph \<Rightarrow> string \<Rightarrow> nat option" where
  "dep_graph_find g name = str_map_get (g_node_map g) name"

text \<open>The preference loop: the first entry for \<open>name\<close> decides; when its package is not in
  the graph the loop breaks.\<close>

fun pref_lookup :: "dep_graph \<Rightarrow> dep_provider_pref list \<Rightarrow> string \<Rightarrow> nat option" where
  "pref_lookup g [] name = None"
| "pref_lookup g (p # ps) name =
     (if pref_alias p \<noteq> name then pref_lookup g ps name
      else dep_graph_find g (pref_pkg_name p))"

text \<open>The provider loop: the first installed provider, else the first provider.\<close>

fun group_pick :: "dep_node list \<Rightarrow> nat list \<Rightarrow> nat option \<Rightarrow> nat option" where
  "group_pick nodes [] first_match = first_match"
| "group_pick nodes (i # is) first_match =
     (let first' = (if first_match = None then Some i else first_match) in
      if node_installed (nodes ! i) then Some i else group_pick nodes is first')"

definition dep_graph_lookup :: "dep_graph \<Rightarrow> string \<Rightarrow> nat option" where
  "dep_graph_lookup g name =
     (case dep_graph_find g name of
        Some idx \<Rightarrow> Some idx
      | None \<Rightarrow>
          (case pref_lookup g (g_prefs g) name of
             Some pref_idx \<Rightarrow> Some pref_idx
           | None \<Rightarrow>
               (case str_map_get (g_alias_map g) name of
                  None \<Rightarrow> None
                | Some group_idx \<Rightarrow>
                    group_pick (g_nodes g) (ag_providers (g_alias_groups g ! group_idx)) None)))"

text \<open>The tail of \<open>add_alias\<close>: append a provider to a group.\<close>

definition push_provider :: "dep_graph \<Rightarrow> nat \<Rightarrow> nat \<Rightarrow> mem \<Rightarrow> dep_error \<times> dep_graph \<times> mem" where
  "push_provider g group_idx node_idx mem =
     (let group = g_alias_groups g ! group_idx;
          (ok, cap, mem1) = reserve 2 (length (ag_providers group)) (ag_cap group) mem in
      if \<not> ok then (DEP_ERR_NOMEM, g, mem1)
      else (DEP_OK,
            g\<lparr>g_alias_groups := (g_alias_groups g)[group_idx :=
                group\<lparr>ag_providers := ag_providers group @ [node_idx], ag_cap := cap\<rparr>]\<rparr>, mem1))"

definition add_alias :: "dep_graph \<Rightarrow> string \<Rightarrow> nat \<Rightarrow> mem \<Rightarrow> dep_error \<times> dep_graph \<times> mem" where
  "add_alias g alias node_idx mem =
     (case str_map_get (g_alias_map g) alias of
        Some group_idx \<Rightarrow> push_provider g group_idx node_idx mem
      | None \<Rightarrow>
          (let (ok, cap, mem1) = reserve GRAPH_INITIAL_CAP (length (g_alias_groups g)) (g_alias_cap g) mem in
           if \<not> ok then (DEP_ERR_NOMEM, g, mem1)
           else let g1 = g\<lparr>g_alias_cap := cap\<rparr>; (dup, mem2) = strdup_m alias mem1 in
           case dup of
             None \<Rightarrow> (DEP_ERR_NOMEM, g1, mem2)
           | Some a \<Rightarrow>
               (let group_idx = length (g_alias_groups g1);
                    (ok, am, mem3) = str_map_set (g_alias_map g1) alias group_idx mem2 in
                if \<not> ok then (DEP_ERR_NOMEM, g1\<lparr>g_alias_map := am\<rparr>, mem3)
                else push_provider
                       (g1\<lparr>g_alias_groups := g_alias_groups g1 @ [\<lparr>ag_alias = a, ag_providers = [], ag_cap = 0\<rparr>],
                           g_alias_map := am\<rparr>)
                       group_idx node_idx mem3)))"

text \<open>\<open>dep_graph_prefer\<close>: replace the entry of the alias, or append one.\<close>

fun pref_replace :: "dep_provider_pref list \<Rightarrow> string \<Rightarrow> string \<Rightarrow> dep_provider_pref list" where
  "pref_replace [] alias pkg = []"
| "pref_replace (p # ps) alias pkg =
     (if pref_alias p \<noteq> alias then p # pref_replace ps alias pkg else p\<lparr>pref_pkg_name := pkg\<rparr> # ps)"

definition dep_graph_prefer :: "dep_graph \<Rightarrow> pstr \<Rightarrow> pstr \<Rightarrow> mem \<Rightarrow> dep_error \<times> dep_graph \<times> mem" where
  "dep_graph_prefer g alias pkg_name mem =
     (case (alias, pkg_name) of
        (Some a, Some p) \<Rightarrow>
          (if a \<in> pref_alias ` set (g_prefs g)
           then (let (dup, mem1) = strdup_m p mem in
                 case dup of
                   None \<Rightarrow> (DEP_ERR_NOMEM, g, mem1)
                 | Some p' \<Rightarrow> (DEP_OK, g\<lparr>g_prefs := pref_replace (g_prefs g) a p'\<rparr>, mem1))
           else (let (ok, cap, mem1) = reserve GRAPH_INITIAL_CAP (length (g_prefs g)) (g_pref_cap g) mem in
                 if \<not> ok then (DEP_ERR_NOMEM, g, mem1)
                 else let g1 = g\<lparr>g_pref_cap := cap\<rparr>;
                          (alias_dup, mem2) = strdup_m a mem1;
                          (pkg_dup, mem3) = strdup_m p mem2 in
                 case (alias_dup, pkg_dup) of
                   (Some a', Some p') \<Rightarrow>
                     (DEP_OK, g1\<lparr>g_prefs := g_prefs g1 @ [\<lparr>pref_alias = a', pref_pkg_name = p'\<rparr>]\<rparr>, mem3)
                 | _ \<Rightarrow> (DEP_ERR_NOMEM, g1, mem3)))
      | _ \<Rightarrow> (DEP_ERR_NOMEM, g, mem))"

text \<open>
  The two loops at the end of \<open>add_node\<close>.  Passing a NULL item to \<open>add_alias\<close> or
  \<open>dep_graph_find\<close> hashes through a NULL pointer: undefined behaviour.
\<close>

fun add_provides :: "str_list \<Rightarrow> nat \<Rightarrow> dep_graph \<Rightarrow> mem \<Rightarrow> (dep_error \<times> dep_graph \<times> mem) option" where
  "add_provides [] idx g mem = Some (DEP_OK, g, mem)"
| "add_provides (item # items) idx g mem =
     do {
       alias \<leftarrow> item;
       let (err, g', mem') = add_alias g alias idx mem;
       if err \<noteq> DEP_OK then Some (err, g', mem') else add_provides items idx g' mem'
     }"

fun add_replaces :: "str_list \<Rightarrow> nat \<Rightarrow> dep_graph \<Rightarrow> mem \<Rightarrow> (dep_error \<times> dep_graph \<times> mem) option" where
  "add_replaces [] idx g mem = Some (DEP_OK, g, mem)"
| "add_replaces (item # items) idx g mem =
     do {
       alias \<leftarrow> item;
       if dep_graph_find g alias = None
       then let (err, g', mem') = add_alias g alias idx mem in
            if err \<noteq> DEP_OK then Some (err, g', mem') else add_replaces items idx g' mem'
       else add_replaces items idx g mem
     }"

text \<open>The middle of \<open>add_node\<close>: allocate the node, append it and index it.\<close>

definition new_node :: "dep_graph \<Rightarrow> package_metadata \<Rightarrow> string \<Rightarrow> bool \<Rightarrow> mem \<Rightarrow> bool \<times> dep_graph \<times> mem" where
  "new_node g pkg name installed mem =
     (let (ok, cap, mem1) = reserve GRAPH_INITIAL_CAP (length (g_nodes g)) (g_cap g) mem in
      if \<not> ok then (False, g, mem1)
      else let g1 = g\<lparr>g_cap := cap\<rparr>; (ok, mem2) = malloc_ok mem1 in
      if \<not> ok then (False, g1, mem2)
      else let (dup, mem3) = strdup_m name mem2 in
      case dup of
        None \<Rightarrow> (False, g1, mem3)
      | Some nm \<Rightarrow>
          (let idx = length (g_nodes g1);
               (ok, m', mem4) = str_map_set (g_node_map g1) nm idx mem3 in
           if \<not> ok then (False, g1\<lparr>g_node_map := m'\<rparr>, mem4)
           else (True, g1\<lparr>g_nodes := g_nodes g1 @
                            [\<lparr>node_name = nm, node_pkg = pkg, node_installed = installed\<rparr>],
                          g_node_map := m'\<rparr>, mem4)))"

definition add_node ::
  "dep_graph \<Rightarrow> package_metadata option \<Rightarrow> bool \<Rightarrow> mem \<Rightarrow> (dep_error \<times> dep_graph \<times> mem) option" where
  "add_node g pkg installed mem =
     (case pkg of
        None \<Rightarrow> Some (DEP_ERR_NOMEM, g, mem)
      | Some p \<Rightarrow>
          (case meta_name p of
             None \<Rightarrow> Some (DEP_ERR_NOMEM, g, mem)
           | Some name \<Rightarrow>
               (case dep_graph_find g name of
                  Some idx \<Rightarrow>
                    Some (DEP_OK,
                      (if installed
                       then g\<lparr>g_nodes := (g_nodes g)[idx := (g_nodes g ! idx)\<lparr>node_installed := True\<rparr>]\<rparr>
                       else g), mem)
                | None \<Rightarrow>
                    (let idx = length (g_nodes g); (ok, g1, mem1) = new_node g p name installed mem in
                     if \<not> ok then Some (DEP_ERR_NOMEM, g1, mem1)
                     else do {
                       (err, g2, mem2) \<leftarrow> add_provides (meta_provides p) idx g1 mem1;
                       if err \<noteq> DEP_OK then Some (err, g2, mem2)
                       else add_replaces (meta_replaces p) idx g2 mem2
                     }))))"

definition dep_graph_add :: "dep_graph \<Rightarrow> package_metadata option \<Rightarrow> mem \<Rightarrow> (dep_error \<times> dep_graph \<times> mem) option" where
  "dep_graph_add g pkg mem = add_node g pkg False mem"

definition dep_graph_add_installed ::
  "dep_graph \<Rightarrow> package_metadata option \<Rightarrow> mem \<Rightarrow> (dep_error \<times> dep_graph \<times> mem) option" where
  "dep_graph_add_installed g pkg mem = add_node g pkg True mem"

subsection \<open>Invariant\<close>

text \<open>The node declares the alias.\<close>

definition declares :: "dep_node \<Rightarrow> string \<Rightarrow> bool" where
  "declares n a \<longleftrightarrow> Some a \<in> set (meta_provides (node_pkg n)) \<union> set (meta_replaces (node_pkg n))"

definition group_ok :: "dep_node list \<Rightarrow> alias_group \<Rightarrow> bool" where
  "group_ok nodes grp \<longleftrightarrow>
     length (ag_providers grp) \<le> ag_cap grp \<and>
     (\<forall>i \<in> set (ag_providers grp). i < length nodes \<and> declares (nodes ! i) (ag_alias grp))"

definition g_inv :: "dep_graph \<Rightarrow> bool" where
  "g_inv g \<longleftrightarrow>
     sm_inv (g_node_map g) \<and> sm.indexes (g_node_map g) (map node_name (g_nodes g)) \<and>
     sm_inv (g_alias_map g) \<and> sm.indexes (g_alias_map g) (map ag_alias (g_alias_groups g)) \<and>
     (\<forall>n \<in> set (g_nodes g). meta_name (node_pkg n) = Some (node_name n)) \<and>
     (\<forall>grp \<in> set (g_alias_groups g). group_ok (g_nodes g) grp) \<and>
     distinct (map pref_alias (g_prefs g)) \<and>
     length (g_nodes g) \<le> g_cap g \<and> length (g_alias_groups g) \<le> g_alias_cap g \<and>
     length (g_prefs g) \<le> g_pref_cap g"

text \<open>
  The abstract view of a graph: its nodes, the providers of each virtual name in the order
  they were added, and the preferences.
\<close>

definition providers :: "dep_graph \<Rightarrow> string \<Rightarrow> nat list" where
  "providers g a =
     (case str_map_get (g_alias_map g) a of None \<Rightarrow> [] | Some i \<Rightarrow> ag_providers (g_alias_groups g ! i))"

lemma providers_cong:
  "str_map_get (g_alias_map g') = str_map_get (g_alias_map g) \<Longrightarrow> g_alias_groups g' = g_alias_groups g \<Longrightarrow>
   providers g' = providers g"
  by (auto simp: providers_def fun_eq_iff split: option.split)

text \<open>What the alias operations leave alone.\<close>

definition same_nodes :: "dep_graph \<Rightarrow> dep_graph \<Rightarrow> bool" where
  "same_nodes g g' \<longleftrightarrow> g_nodes g' = g_nodes g \<and> g_node_map g' = g_node_map g \<and> g_prefs g' = g_prefs g"

lemma same_nodes_refl [simp]: "same_nodes g g"
  by (simp add: same_nodes_def)

lemma same_nodes_trans: "same_nodes g1 g2 \<Longrightarrow> same_nodes g2 g3 \<Longrightarrow> same_nodes g1 g3"
  by (simp add: same_nodes_def)

lemma same_nodes_find: "same_nodes g g' \<Longrightarrow> dep_graph_find g' = dep_graph_find g"
  by (auto simp: same_nodes_def dep_graph_find_def)

lemma find_Some_iff:
  "g_inv g \<Longrightarrow> dep_graph_find g name = Some i \<longleftrightarrow> i < length (g_nodes g) \<and> node_name (g_nodes g ! i) = name"
  using sm.indexes_Some [of "g_node_map g" "map node_name (g_nodes g)" name i]
  by (auto simp: g_inv_def dep_graph_find_def)

lemma find_None_iff:
  "g_inv g \<Longrightarrow> dep_graph_find g name = None \<longleftrightarrow> name \<notin> node_name ` set (g_nodes g)"
  using sm.indexes_None [of "g_node_map g" "map node_name (g_nodes g)" name]
  by (simp add: g_inv_def dep_graph_find_def)

lemma alias_map_Some_iff:
  "g_inv g \<Longrightarrow> str_map_get (g_alias_map g) a = Some i \<longleftrightarrow>
     i < length (g_alias_groups g) \<and> ag_alias (g_alias_groups g ! i) = a"
  using sm.indexes_Some [of "g_alias_map g" "map ag_alias (g_alias_groups g)" a i]
  by (auto simp: g_inv_def)

lemma providers_in_range:
  assumes "g_inv g" and "i \<in> set (providers g a)"
  shows "i < length (g_nodes g) \<and> declares (g_nodes g ! i) a"
proof -
  obtain gi where gi: "str_map_get (g_alias_map g) a = Some gi" "i \<in> set (ag_providers (g_alias_groups g ! gi))"
    using assms(2) by (cases "str_map_get (g_alias_map g) a") (auto simp: providers_def)
  then have "gi < length (g_alias_groups g)" "ag_alias (g_alias_groups g ! gi) = a"
    using alias_map_Some_iff [OF assms(1)] by auto
  moreover have "group_ok (g_nodes g) (g_alias_groups g ! gi)"
    using assms(1) calculation by (simp add: g_inv_def)
  ultimately show ?thesis using gi by (simp add: group_ok_def)
qed

lemma dep_graph_new_inv:
  assumes "dep_graph_new mem = (Some g, mem')"
  shows "g_inv g \<and> g_nodes g = [] \<and> g_prefs g = [] \<and> (\<forall>a. providers g a = [])"
proof -
  obtain mem1 nm mem2 am where
    nm: "str_map_init str_map_zero mem1 = (True, nm, mem2)" and
    am: "str_map_init str_map_zero mem2 = (True, am, mem')" and
    g: "g = \<lparr>g_nodes = [], g_cap = GRAPH_INITIAL_CAP, g_node_map = nm, g_alias_groups = [], g_alias_cap = 0,
            g_alias_map = am, g_prefs = [], g_pref_cap = 0\<rparr>"
    using assms by (auto simp: dep_graph_new_def Let_def split: prod.splits if_splits)
  show ?thesis
    using str_map_init_ok [OF nm] str_map_init_ok [OF am]
    by (simp add: g g_inv_def sm.indexes_empty providers_def)
qed

subsection \<open>Alias groups\<close>

lemma push_provider_effect:
  assumes inv: "g_inv g" and a: "str_map_get (g_alias_map g) a = Some gi"
    and i: "i < length (g_nodes g)" "declares (g_nodes g ! i) a"
    and push: "push_provider g gi i mem = (err, g', mem')"
  shows "g_inv g' \<and> same_nodes g g' \<and>
    providers g' = (if err = DEP_OK then (providers g)(a := providers g a @ [i]) else providers g)"
proof -
  have gi: "gi < length (g_alias_groups g)" "ag_alias (g_alias_groups g ! gi) = a"
    using a alias_map_Some_iff [OF inv] by auto
  let ?grp = "g_alias_groups g ! gi"
  obtain ok cap mem1 where r: "reserve 2 (length (ag_providers ?grp)) (ag_cap ?grp) mem = (ok, cap, mem1)"
    by (metis prod_cases3)
  show ?thesis
  proof (cases ok)
    case False
    then show ?thesis using push r inv by (auto simp: push_provider_def Let_def)
  next
    case True
    define grp where "grp = ?grp\<lparr>ag_providers := ag_providers ?grp @ [i], ag_cap := cap\<rparr>"
    have g': "g' = g\<lparr>g_alias_groups := (g_alias_groups g)[gi := grp]\<rparr>" "err = DEP_OK"
      using push r True by (auto simp: push_provider_def grp_def Let_def)
    have "group_ok (g_nodes g) ?grp" using inv gi by (simp add: g_inv_def)
    moreover have "length (ag_providers ?grp) < cap"
      using reserve_room [of 2 "length (ag_providers ?grp)" "ag_cap ?grp" mem cap mem1] r True calculation
      by (simp add: group_ok_def)
    ultimately have "group_ok (g_nodes g) grp"
      using i gi by (auto simp: group_ok_def grp_def)
    moreover have "map ag_alias ((g_alias_groups g)[gi := grp]) = map ag_alias (g_alias_groups g)"
      using gi by (simp add: map_update grp_def list_update_same_conv)
    moreover have "set ((g_alias_groups g)[gi := grp]) \<subseteq> insert grp (set (g_alias_groups g))"
      by (rule set_update_subset_insert)
    ultimately have "g_inv g'"
      using inv by (auto simp: g_inv_def g')
    moreover have "providers g' = (providers g)(a := providers g a @ [i])"
    proof
      fix b
      show "providers g' b = ((providers g)(a := providers g a @ [i])) b"
      proof (cases "str_map_get (g_alias_map g) b")
        case (Some j)
        then have "j < length (g_alias_groups g)" "ag_alias (g_alias_groups g ! j) = b"
          using alias_map_Some_iff [OF inv, of b j] by auto
        then show ?thesis
          using a gi Some by (cases "j = gi") (auto simp: providers_def g' grp_def)
      qed (use a in \<open>auto simp: providers_def g'\<close>)
    qed
    ultimately show ?thesis by (simp add: g' same_nodes_def)
  qed
qed

lemma add_alias_effect:
  assumes inv: "g_inv g" and i: "i < length (g_nodes g)" "declares (g_nodes g ! i) a"
    and add: "add_alias g a i mem = (err, g', mem')"
  shows "g_inv g' \<and> same_nodes g g' \<and>
    providers g' = (if err = DEP_OK then (providers g)(a := providers g a @ [i]) else providers g)"
proof (cases "str_map_get (g_alias_map g) a")
  case (Some gi)
  then show ?thesis using push_provider_effect [OF inv Some i] add by (simp add: add_alias_def)
next
  case None
  let ?gs = "g_alias_groups g"
  obtain ok cap mem1 where r: "reserve GRAPH_INITIAL_CAP (length ?gs) (g_alias_cap g) mem = (ok, cap, mem1)"
    by (metis prod_cases3)
  define g1 where "g1 = g\<lparr>g_alias_cap := cap\<rparr>"
  have g1: "g_inv g1" "same_nodes g g1" "providers g1 = providers g"
    using inv reserve_cap_mono [OF r] by (auto simp: g1_def g_inv_def same_nodes_def providers_def fun_eq_iff split: option.split)
  obtain dup mem2 where d: "strdup_m a mem1 = (dup, mem2)" by fastforce
  obtain ok2 am mem3 where st: "str_map_set (g_alias_map g) a (length ?gs) mem2 = (ok2, am, mem3)"
    by (metis prod_cases3)
  have am: "sm_inv am" "str_map_get am = (if ok2 then (str_map_get (g_alias_map g))(a \<mapsto> length ?gs)
                                           else str_map_get (g_alias_map g))"
    using str_map_set_result [OF _ st] inv by (simp_all add: g_inv_def)
  consider (oom1) "\<not> ok" | (oom2) "ok" "dup = None" | (oom3) "ok" "dup = Some a" "\<not> ok2"
    | (new) "ok" "dup = Some a" "ok2"
    using strdup_m_cases [OF d] by blast
  then show ?thesis
  proof cases
    case oom1
    then show ?thesis using add None r inv by (auto simp: add_alias_def)
  next
    case oom2
    then show ?thesis using add None r d g1 by (auto simp: add_alias_def g1_def [symmetric])
  next
    case oom3
    then have g': "g' = g1\<lparr>g_alias_map := am\<rparr>" "err = DEP_ERR_NOMEM"
      using add None r d st by (auto simp: add_alias_def g1_def)
    have "sm.indexes am (map ag_alias ?gs)"
      using sm.indexes_put_fail [of "g_alias_map g"] st oom3 inv by (simp add: g_inv_def)
    then show ?thesis
      using inv reserve_cap_mono [OF r] am oom3
      by (auto simp: g' g1_def g_inv_def same_nodes_def providers_def fun_eq_iff split: option.split)
  next
    case new
    define g2 where "g2 = g1\<lparr>g_alias_groups := ?gs @ [\<lparr>ag_alias = a, ag_providers = [], ag_cap = 0\<rparr>],
                             g_alias_map := am\<rparr>"
    have push: "push_provider g2 (length ?gs) i mem3 = (err, g', mem')"
      using add None r d st new by (simp add: add_alias_def g1_def g2_def)
    have "sm.indexes am (map ag_alias (?gs @ [\<lparr>ag_alias = a, ag_providers = [], ag_cap = 0\<rparr>]))"
      using sm.indexes_put [of "g_alias_map g" "map ag_alias ?gs" a mem2 am mem3] st new inv None
      by (simp add: g_inv_def)
    moreover have "length ?gs < cap"
      using reserve_room [of GRAPH_INITIAL_CAP "length ?gs" "g_alias_cap g" mem cap mem1] r new inv
      by (simp add: g_inv_def GRAPH_INITIAL_CAP_def)
    ultimately have g2: "g_inv g2" "same_nodes g g2"
      using g1 am new by (auto simp: g2_def g1_def g_inv_def same_nodes_def group_ok_def)
    have "providers g2 = providers g"
    proof
      fix b
      show "providers g2 b = providers g b"
      proof (cases "str_map_get (g_alias_map g) b")
        case (Some j)
        then have "j < length ?gs" using alias_map_Some_iff [OF inv, of b j] by auto
        then show ?thesis
          using None am new Some by (auto simp: providers_def g2_def nth_append)
      qed (use None am new in \<open>auto simp: providers_def g2_def\<close>)
    qed
    moreover have "str_map_get (g_alias_map g2) a = Some (length ?gs)" using am new by (simp add: g2_def)
    ultimately show ?thesis
      using push_provider_effect [OF g2(1) _ _ _ push, of a] i g2(2)
      by (auto simp: same_nodes_def)
  qed
qed

text \<open>
  The loops over \<open>provides\<close> and \<open>replaces\<close>: on success every entry has added the node once
  to the providers of its name; on failure the invariant still holds and only the aliases of
  this node can have been added.
\<close>

lemma add_provides_effect:
  assumes "g_inv g" "i < length (g_nodes g)" "\<forall>a. Some a \<in> set items \<longrightarrow> declares (g_nodes g ! i) a"
    and "add_provides items i g mem = Some (err, g', mem')"
  shows "g_inv g' \<and> same_nodes g g' \<and>
    (err = DEP_OK \<longrightarrow> (\<forall>a. providers g' a = providers g a @ replicate (count_list items (Some a)) i))"
  using assms
proof (induction items arbitrary: g mem)
  case (Cons item items)
  obtain a where a: "item = Some a" using Cons.prems(4) by (cases item) auto
  obtain err1 g1 mem1 where al: "add_alias g a i mem = (err1, g1, mem1)" by (metis prod_cases3)
  note eff = add_alias_effect [OF Cons.prems(1,2) _ al]
  show ?case
  proof (cases "err1 = DEP_OK")
    case True
    have rest: "add_provides items i g1 mem1 = Some (err, g', mem')"
      using Cons.prems(4) a al True by simp
    have "g_inv g1 \<and> same_nodes g g1 \<and> providers g1 = (providers g)(a := providers g a @ [i])"
      using eff Cons.prems(3) a True by simp
    then show ?thesis
      using Cons.IH [OF _ _ _ rest] Cons.prems(2,3) a True
      by (auto simp: same_nodes_def replicate_append_same simp flip: replicate_Suc)
  next
    case False
    then show ?thesis using Cons.prems a al eff by auto
  qed
qed simp

lemma add_replaces_effect:
  assumes "g_inv g" "i < length (g_nodes g)" "\<forall>a. Some a \<in> set items \<longrightarrow> declares (g_nodes g ! i) a"
    and "add_replaces items i g mem = Some (err, g', mem')"
  shows "g_inv g' \<and> same_nodes g g' \<and>
    (err = DEP_OK \<longrightarrow> (\<forall>a. providers g' a = providers g a @
       (if dep_graph_find g a = None then replicate (count_list items (Some a)) i else [])))"
  using assms
proof (induction items arbitrary: g mem)
  case (Cons item items)
  obtain a where a: "item = Some a" using Cons.prems(4) by (cases item) auto
  obtain err1 g1 mem1 where al: "add_alias g a i mem = (err1, g1, mem1)" by (metis prod_cases3)
  note eff = add_alias_effect [OF Cons.prems(1,2) _ al]
  consider (skip) "dep_graph_find g a \<noteq> None" | (ok) "dep_graph_find g a = None" "err1 = DEP_OK"
    | (oom) "dep_graph_find g a = None" "err1 \<noteq> DEP_OK" by blast
  then show ?case
  proof cases
    case skip
    then show ?thesis using Cons.IH [of g mem] Cons.prems a by auto
  next
    case ok
    have rest: "add_replaces items i g1 mem1 = Some (err, g', mem')"
      using Cons.prems(4) a al ok by simp
    have g1: "g_inv g1 \<and> same_nodes g g1 \<and> providers g1 = (providers g)(a := providers g a @ [i])"
      using eff Cons.prems(3) a ok by simp
    then show ?thesis
      using Cons.IH [OF _ _ _ rest] Cons.prems(2,3) a ok
        same_nodes_find [of g g1]
      by (auto simp: same_nodes_def replicate_append_same simp flip: replicate_Suc)
  next
    case oom
    then show ?thesis using Cons.prems a al eff by auto
  qed
qed simp

subsection \<open>Adding nodes\<close>

lemma new_node_effect:
  assumes inv: "g_inv g" and name: "meta_name p = Some name" and fresh: "dep_graph_find g name = None"
    and new: "new_node g p name inst mem = (ok, g', mem')"
  shows "g_inv g' \<and> g_prefs g' = g_prefs g \<and> providers g' = providers g \<and>
    g_nodes g' = g_nodes g @ (if ok then [\<lparr>node_name = name, node_pkg = p, node_installed = inst\<rparr>] else [])"
proof -
  let ?ns = "g_nodes g" and ?n = "\<lparr>node_name = name, node_pkg = p, node_installed = inst\<rparr>"
  obtain ok1 cap mem1 where r: "reserve GRAPH_INITIAL_CAP (length ?ns) (g_cap g) mem = (ok1, cap, mem1)"
    by (metis prod_cases3)
  obtain ok2 mem2 where ml: "malloc_ok mem1 = (ok2, mem2)" by fastforce
  obtain dup mem3 where d: "strdup_m name mem2 = (dup, mem3)" by fastforce
  obtain ok4 nm mem4 where st: "str_map_set (g_node_map g) name (length ?ns) mem3 = (ok4, nm, mem4)"
    by (metis prod_cases3)
  have get: "str_map_get (g_node_map g) name = None" using fresh by (simp add: dep_graph_find_def)
  have idx: "sm_inv (g_node_map g)" "sm.indexes (g_node_map g) (map node_name ?ns)"
    using inv by (simp_all add: g_inv_def)
  have nm: "sm_inv nm" using str_map_set_result [OF idx(1) st] by simp
  have cap: "g_cap g \<le> cap" using r by (rule reserve_cap_mono)
  consider (oom1) "\<not> ok1" | (oom2) "ok1" "\<not> ok2 \<or> dup = None" | (oom3) "ok1" "ok2" "dup = Some name" "\<not> ok4"
    | (added) "ok1" "ok2" "dup = Some name" "ok4"
    using strdup_m_cases [OF d] by blast
  then show ?thesis
  proof cases
    case oom1
    then show ?thesis using new r inv by (auto simp: new_node_def)
  next
    case oom2
    then have "\<not> ok \<and> g' = g\<lparr>g_cap := cap\<rparr>" using new r ml d by (cases ok2) (auto simp: new_node_def)
    then show ?thesis using inv cap by (auto simp: g_inv_def intro!: providers_cong)
  next
    case oom3
    then have g': "\<not> ok \<and> g' = g\<lparr>g_cap := cap, g_node_map := nm\<rparr>"
      using new r ml d st by (auto simp: new_node_def)
    have "sm.indexes nm (map node_name ?ns)"
      using sm.indexes_put_fail [OF idx] st oom3 by simp
    then show ?thesis using inv cap nm g' by (auto simp: g_inv_def intro!: providers_cong)
  next
    case added
    then have g': "ok \<and> g' = g\<lparr>g_cap := cap, g_nodes := ?ns @ [?n], g_node_map := nm\<rparr>"
      using new r ml d st by (auto simp: new_node_def)
    have "sm.indexes nm (map node_name (?ns @ [?n]))"
      using sm.indexes_put [OF idx get] st added by simp
    moreover have "length ?ns < cap"
      using reserve_room [of GRAPH_INITIAL_CAP "length ?ns" "g_cap g" mem cap mem1] r added inv
      by (simp add: g_inv_def GRAPH_INITIAL_CAP_def)
    moreover have "group_ok (?ns @ [?n]) grp" if "group_ok ?ns grp" for grp
      using that by (auto simp: group_ok_def nth_append)
    ultimately show ?thesis
      using inv nm g' name by (auto simp: g_inv_def intro!: providers_cong)
  qed
qed

lemma mark_installed_inv:
  assumes inv: "g_inv g" and "idx < length (g_nodes g)"
  defines "g' \<equiv> g\<lparr>g_nodes := (g_nodes g)[idx := (g_nodes g ! idx)\<lparr>node_installed := True\<rparr>]\<rparr>"
  shows "g_inv g' \<and> providers g' = providers g"
proof -
  let ?ns = "(g_nodes g)[idx := (g_nodes g ! idx)\<lparr>node_installed := True\<rparr>]"
  have names: "map node_name ?ns = map node_name (g_nodes g)"
    and pkgs: "map node_pkg ?ns = map node_pkg (g_nodes g)"
    using assms(2) by (simp_all add: map_update list_update_same_conv)
  have pkg: "node_pkg (?ns ! i) = node_pkg (g_nodes g ! i)" for i
    using assms(2) by (simp add: nth_list_update)
  have "meta_name (node_pkg n) = Some (node_name n)" if "n \<in> set ?ns" for n
  proof -
    have "n \<in> insert ((g_nodes g ! idx)\<lparr>node_installed := True\<rparr>) (set (g_nodes g))"
      using that set_update_subset_insert by fast
    then show ?thesis using inv nth_mem [OF assms(2)] by (auto simp: g_inv_def)
  qed
  moreover have "group_ok ?ns grp = group_ok (g_nodes g) grp" for grp
    by (simp add: group_ok_def declares_def pkg)
  ultimately show ?thesis
    using inv names by (auto simp: g_inv_def g'_def intro!: providers_cong)
qed

text \<open>Adding a package whose name is new.\<close>

definition node_of :: "package_metadata \<Rightarrow> string \<Rightarrow> bool \<Rightarrow> dep_node" where
  "node_of p name inst = \<lparr>node_name = name, node_pkg = p, node_installed = inst\<rparr>"

definition new_providers :: "dep_graph \<Rightarrow> package_metadata \<Rightarrow> string \<Rightarrow> string \<Rightarrow> nat list" where
  "new_providers g p name a =
     replicate (count_list (meta_provides p) (Some a)) (length (g_nodes g)) @
     (if a = name \<or> dep_graph_find g a \<noteq> None then []
      else replicate (count_list (meta_replaces p) (Some a)) (length (g_nodes g)))"

lemma add_node_new:
  assumes inv: "g_inv g" and p: "meta_name p = Some name" "dep_graph_find g name = None"
    and add: "add_node g (Some p) inst mem = Some (err, g', mem')"
  shows "g_inv g' \<and> g_prefs g' = g_prefs g \<and>
    (err = DEP_OK \<longrightarrow> g_nodes g' = g_nodes g @ [node_of p name inst] \<and>
       (\<forall>a. providers g' a = providers g a @ new_providers g p name a))"
proof -
  let ?i = "length (g_nodes g)"
  obtain ok g1 mem1 where new: "new_node g p name inst mem = (ok, g1, mem1)" by (metis prod_cases3)
  note n = new_node_effect [OF inv p new]
  show ?thesis
  proof (cases ok)
    case True
    have find1: "dep_graph_find g1 a = None \<longleftrightarrow> \<not> (a = name \<or> dep_graph_find g a \<noteq> None)" for a
      using find_None_iff [of g1 a] find_None_iff [OF inv, of a] n True by auto
    have decl: "\<forall>a. Some a \<in> set (meta_provides p) \<longrightarrow> declares (g_nodes g1 ! ?i) a"
      "\<forall>a. Some a \<in> set (meta_replaces p) \<longrightarrow> declares (g_nodes g1 ! ?i) a"
      using n True by (simp_all add: declares_def)
    obtain err2 g2 mem2 where pr: "add_provides (meta_provides p) ?i g1 mem1 = Some (err2, g2, mem2)"
      using add p new True by (auto simp: add_node_def bind_eq_Some_conv Let_def)
    note g2 = add_provides_effect [OF _ _ decl(1) pr]
    show ?thesis
    proof (cases "err2 = DEP_OK")
      case ok2: True
      then have re: "add_replaces (meta_replaces p) ?i g2 mem2 = Some (err, g', mem')"
        using add p new True pr by (simp add: add_node_def Let_def)
      have "dep_graph_find g2 = dep_graph_find g1" using g2 n True by (simp add: same_nodes_find)
      then show ?thesis
        using add_replaces_effect [OF _ _ _ re] decl(2) g2 n True ok2 find1
        by (auto simp: same_nodes_def new_providers_def node_of_def)
    next
      case False
      then show ?thesis using add p new True pr g2 n by (auto simp: add_node_def same_nodes_def Let_def)
    qed
  qed (use add p new n in \<open>auto simp: add_node_def\<close>)
qed

lemma add_node_inv:
  assumes "g_inv g" and "add_node g pkg inst mem = Some (err, g', mem')"
  shows "g_inv g'"
proof (cases "\<exists>p name. pkg = Some p \<and> meta_name p = Some name \<and> dep_graph_find g name = None")
  case True
  then show ?thesis using add_node_new [OF assms(1)] assms(2) by blast
next
  case False
  then consider "pkg = None \<or> (\<exists>p. pkg = Some p \<and> meta_name p = None)"
    | p name idx where "pkg = Some p" "meta_name p = Some name" "dep_graph_find g name = Some idx"
    by (metis not_None_eq)
  then show ?thesis
  proof cases
    case 1
    then show ?thesis using assms by (auto simp: add_node_def)
  next
    case (2 p name idx)
    moreover have "idx < length (g_nodes g)" using find_Some_iff [OF assms(1)] 2(3) by blast
    ultimately show ?thesis
      using assms mark_installed_inv [OF assms(1)] by (auto simp: add_node_def split: if_splits)
  qed
qed

subsection \<open>No failure without a cause\<close>

lemma push_provider_no_oom:
  "no_oom mem \<Longrightarrow> \<exists>g' mem'. push_provider g gi i mem = (DEP_OK, g', mem') \<and> no_oom mem'"
proof -
  assume "no_oom mem"
  then obtain cap mem1 where "reserve 2 (length (ag_providers (g_alias_groups g ! gi)))
      (ag_cap (g_alias_groups g ! gi)) mem = (True, cap, mem1)" "no_oom mem1"
    by (rule reserve_no_oomE)
  then show ?thesis by (simp add: push_provider_def Let_def)
qed

lemma add_alias_no_oom:
  assumes "g_inv g" and "no_oom mem"
  shows "\<exists>g' mem'. add_alias g a i mem = (DEP_OK, g', mem') \<and> no_oom mem'"
proof -
  obtain cap mem1 where r: "reserve GRAPH_INITIAL_CAP (length (g_alias_groups g)) (g_alias_cap g) mem = (True, cap, mem1)"
    "no_oom mem1" using reserve_no_oomE [OF assms(2)] by blast
  obtain mem2 where d: "\<And>s. strdup_m s mem1 = (Some s, mem2)" "no_oom mem2"
    using strdup_no_oomE [OF r(2)] by blast
  obtain am mem3 where "str_map_set (g_alias_map g) a (length (g_alias_groups g)) mem2 = (True, am, mem3)" "no_oom mem3"
    using sm.put_no_oom [OF _ d(2)] assms(1) by (metis g_inv_def)
  then show ?thesis
    using r d push_provider_no_oom assms(2)
    by (cases "str_map_get (g_alias_map g) a") (auto simp: add_alias_def)
qed

lemma add_provides_no_oom:
  assumes "g_inv g" "i < length (g_nodes g)" "\<forall>a. Some a \<in> set items \<longrightarrow> declares (g_nodes g ! i) a"
    and "None \<notin> set items" and "no_oom mem"
  shows "\<exists>g' mem'. add_provides items i g mem = Some (DEP_OK, g', mem') \<and> no_oom mem'"
  using assms
proof (induction items arbitrary: g mem)
  case (Cons item items)
  obtain a where a: "item = Some a" using Cons.prems(4) by (cases item) auto
  obtain g1 mem1 where al: "add_alias g a i mem = (DEP_OK, g1, mem1)" "no_oom mem1"
    using add_alias_no_oom [OF Cons.prems(1,5)] by blast
  have "g_inv g1" "same_nodes g g1"
    using add_alias_effect [OF Cons.prems(1,2) _ al(1)] Cons.prems(3) a by simp_all
  then show ?case
    using Cons.IH [of g1 mem1] Cons.prems a al by (auto simp: same_nodes_def)
qed simp

lemma add_replaces_no_oom:
  assumes "g_inv g" "i < length (g_nodes g)" "\<forall>a. Some a \<in> set items \<longrightarrow> declares (g_nodes g ! i) a"
    and "None \<notin> set items" and "no_oom mem"
  shows "\<exists>g' mem'. add_replaces items i g mem = Some (DEP_OK, g', mem') \<and> no_oom mem'"
  using assms
proof (induction items arbitrary: g mem)
  case (Cons item items)
  obtain a where a: "item = Some a" using Cons.prems(4) by (cases item) auto
  obtain g1 mem1 where al: "add_alias g a i mem = (DEP_OK, g1, mem1)" "no_oom mem1"
    using add_alias_no_oom [OF Cons.prems(1,5)] by blast
  have "g_inv g1" "same_nodes g g1"
    using add_alias_effect [OF Cons.prems(1,2) _ al(1)] Cons.prems(3) a by simp_all
  then show ?case
    using Cons.IH [of g1 mem1] Cons.IH [of g mem] Cons.prems a al by (auto simp: same_nodes_def)
qed simp

lemma new_node_no_oom:
  assumes "g_inv g" and "no_oom mem"
  shows "\<exists>g' mem'. new_node g p name inst mem = (True, g', mem') \<and> no_oom mem'"
proof -
  obtain cap mem1 where r: "reserve GRAPH_INITIAL_CAP (length (g_nodes g)) (g_cap g) mem = (True, cap, mem1)"
    "no_oom mem1" using reserve_no_oomE [OF assms(2)] by blast
  obtain mem2 where m: "malloc_ok mem1 = (True, mem2)" "no_oom mem2" using malloc_no_oomE [OF r(2)] by blast
  obtain mem3 where d: "\<And>s. strdup_m s mem2 = (Some s, mem3)" "no_oom mem3"
    using strdup_no_oomE [OF m(2)] by blast
  obtain am mem4 where "str_map_set (g_node_map g) name (length (g_nodes g)) mem3 = (True, am, mem4)" "no_oom mem4"
    using sm.put_no_oom [OF _ d(2)] assms(1) by (metis g_inv_def)
  then show ?thesis using r m d by (simp add: new_node_def)
qed

lemma add_node_no_oom:
  assumes "g_inv g" and "strings_ok p" and "no_oom mem"
  shows "\<exists>g' mem'. add_node g (Some p) inst mem = Some (DEP_OK, g', mem') \<and> no_oom mem'"
proof -
  obtain name where name: "meta_name p = Some name" using assms(2) by (auto simp: strings_ok_def)
  show ?thesis
  proof (cases "dep_graph_find g name")
    case None
    let ?i = "length (g_nodes g)"
    obtain g1 mem1 where new: "new_node g p name inst mem = (True, g1, mem1)" "no_oom mem1"
      using new_node_no_oom [OF assms(1,3)] by blast
    note n = new_node_effect [OF assms(1) name None new(1)]
    have decl: "\<forall>a. Some a \<in> set (meta_provides p) \<longrightarrow> declares (g_nodes g1 ! ?i) a"
      "\<forall>a. Some a \<in> set (meta_replaces p) \<longrightarrow> declares (g_nodes g1 ! ?i) a"
      using n by (simp_all add: declares_def)
    obtain g2 mem2 where pr: "add_provides (meta_provides p) ?i g1 mem1 = Some (DEP_OK, g2, mem2)" "no_oom mem2"
      using add_provides_no_oom [OF _ _ decl(1) _ new(2)] n assms(2) by (auto simp: strings_ok_def)
    have "g_inv g2" "same_nodes g1 g2" using add_provides_effect [OF _ _ decl(1) pr(1)] n by simp_all
    then obtain g3 mem3 where "add_replaces (meta_replaces p) ?i g2 mem2 = Some (DEP_OK, g3, mem3)" "no_oom mem3"
      using add_replaces_no_oom [of g2 ?i "meta_replaces p" mem2] decl(2) pr(2) n assms(2)
      by (auto simp: strings_ok_def same_nodes_def)
    then show ?thesis using name None new pr by (simp add: add_node_def Let_def)
  qed (use assms name in \<open>auto simp: add_node_def\<close>)
qed

subsection \<open>Preferences\<close>

definition pref_of :: "dep_graph \<Rightarrow> string \<Rightarrow> pstr" where
  "pref_of g a = map_option pref_pkg_name (List.find (\<lambda>p. pref_alias p = a) (g_prefs g))"

lemma pref_lookup_eq: "pref_lookup g ps name =
    (case List.find (\<lambda>p. pref_alias p = name) ps of None \<Rightarrow> None | Some p \<Rightarrow> dep_graph_find g (pref_pkg_name p))"
  by (induction ps) auto

lemma pref_alias_replace [simp]: "map pref_alias (pref_replace ps a p) = map pref_alias ps"
  by (induction ps) auto

lemma length_pref_replace [simp]: "length (pref_replace ps a p) = length ps"
  by (induction ps) auto

lemma find_pref_replace:
  "a \<in> pref_alias ` set ps \<Longrightarrow>
   map_option pref_pkg_name (List.find (\<lambda>q. pref_alias q = b) (pref_replace ps a p)) =
     (if b = a then Some p else map_option pref_pkg_name (List.find (\<lambda>q. pref_alias q = b) ps))"
  by (induction ps) auto

lemma find_append_pref:
  "a \<notin> pref_alias ` set ps \<Longrightarrow>
   map_option pref_pkg_name (List.find (\<lambda>q. pref_alias q = b) (ps @ [\<lparr>pref_alias = a, pref_pkg_name = p\<rparr>])) =
     (if b = a then Some p else map_option pref_pkg_name (List.find (\<lambda>q. pref_alias q = b) ps))"
  by (induction ps) auto

lemma dep_graph_prefer_effect:
  assumes inv: "g_inv g" and pr: "dep_graph_prefer g (Some a) (Some p) mem = (err, g', mem')"
  shows "g_inv g' \<and> g_nodes g' = g_nodes g \<and> providers g' = providers g \<and>
    pref_of g' = (if err = DEP_OK then (pref_of g)(a \<mapsto> p) else pref_of g)"
proof (cases "a \<in> pref_alias ` set (g_prefs g)")
  case True
  obtain dup mem1 where d: "strdup_m p mem = (dup, mem1)" by fastforce
  show ?thesis
  proof (cases dup)
    case None
    then show ?thesis using pr inv True d by (auto simp: dep_graph_prefer_def)
  next
    case (Some q)
    then have g': "g' = g\<lparr>g_prefs := pref_replace (g_prefs g) a p\<rparr>" "err = DEP_OK"
      using pr True d strdup_m_cases [OF d] by (auto simp: dep_graph_prefer_def)
    have "providers g' = providers g" unfolding g' by (rule providers_cong) simp_all
    then show ?thesis
      using inv unfolding g' by (auto simp: g_inv_def pref_of_def fun_eq_iff find_pref_replace [OF True])
  qed
next
  case False
  obtain ok cap mem1 where r: "reserve GRAPH_INITIAL_CAP (length (g_prefs g)) (g_pref_cap g) mem = (ok, cap, mem1)"
    by (metis prod_cases3)
  obtain ad mem2 where d1: "strdup_m a mem1 = (ad, mem2)" by fastforce
  obtain pd mem3 where d2: "strdup_m p mem2 = (pd, mem3)" by fastforce
  have cap: "g_pref_cap g \<le> cap" using r by (rule reserve_cap_mono)
  have room: "ok \<Longrightarrow> length (g_prefs g) < cap"
    using reserve_room [of GRAPH_INITIAL_CAP "length (g_prefs g)" "g_pref_cap g" mem cap mem1] r inv
    by (simp add: g_inv_def GRAPH_INITIAL_CAP_def)
  consider (oom1) "\<not> ok" | (oom2) "ok" "ad = None \<or> pd = None" | (added) "ok" "ad = Some a" "pd = Some p"
    using strdup_m_cases [OF d1] strdup_m_cases [OF d2] by blast
  then show ?thesis
  proof cases
    case oom1
    then show ?thesis using pr False r inv by (auto simp: dep_graph_prefer_def)
  next
    case oom2
    then have "g' = g\<lparr>g_pref_cap := cap\<rparr> \<and> err = DEP_ERR_NOMEM"
      using pr False r d1 d2 by (auto simp: dep_graph_prefer_def Let_def split: option.splits)
    then show ?thesis using inv cap by (auto simp: g_inv_def pref_of_def intro!: providers_cong)
  next
    case added
    then have g': "g' = g\<lparr>g_pref_cap := cap, g_prefs := g_prefs g @ [\<lparr>pref_alias = a, pref_pkg_name = p\<rparr>]\<rparr>"
      "err = DEP_OK"
      using pr False r d1 d2 by (auto simp: dep_graph_prefer_def Let_def)
    have "providers g' = providers g" unfolding g' by (rule providers_cong) simp_all
    then show ?thesis
      using inv room added False unfolding g'
      by (auto simp: g_inv_def pref_of_def fun_eq_iff find_append_pref [OF False])
  qed
qed

subsection \<open>Lookup\<close>

lemma group_pick_find:
  "group_pick nodes is first =
     (case List.find (\<lambda>i. node_installed (nodes ! i)) is of
        Some i \<Rightarrow> Some i
      | None \<Rightarrow> (if first = None then (case is of [] \<Rightarrow> None | i # _ \<Rightarrow> Some i) else first))"
  by (induction "is" arbitrary: first) (auto split: option.splits list.splits)

text \<open>Lookup on the abstract graph.\<close>

lemma dep_graph_lookup_eq:
  "dep_graph_lookup g name =
     (case dep_graph_find g name of
        Some i \<Rightarrow> Some i
      | None \<Rightarrow>
          (case Option.bind (pref_of g name) (dep_graph_find g) of
             Some i \<Rightarrow> Some i
           | None \<Rightarrow> group_pick (g_nodes g) (providers g name) None))"
  by (auto simp: dep_graph_lookup_def pref_lookup_eq pref_of_def providers_def split: option.splits)

lemma find_Some_set: "List.find P xs = Some x \<Longrightarrow> x \<in> set xs \<and> P x"
  by (induction xs) (auto split: if_splits)

lemma group_pick_mem: "group_pick nodes is None = Some i \<Longrightarrow> i \<in> set is"
  by (auto simp: group_pick_find split: option.splits list.splits dest: find_Some_set)

lemma dep_graph_lookup_range:
  assumes "g_inv g" and "dep_graph_lookup g name = Some i"
  shows "i < length (g_nodes g)"
  using assms(2) find_Some_iff [OF assms(1)] providers_in_range [OF assms(1)]
  by (auto simp: dep_graph_lookup_eq split: option.splits bind_splits dest: group_pick_mem)

subsection \<open>Properties\<close>

text \<open>
  C31. Adding a package with a new name, under any pattern of allocation failures: the graph
  invariant is kept even when the call fails half way; when it returns \<open>DEP_OK\<close> the graph has
  exactly one more node, existing nodes and preferences are unchanged, and the node has been
  appended to the providers of every name it provides and of every name it replaces that is
  not the name of a real node, and to no other.
\<close>

theorem dep_graph_add_effect:
  assumes "g_inv g" and "meta_name p = Some name" and "dep_graph_find g name = None"
    and "dep_graph_add g (Some p) mem = Some (err, g', mem')"
  shows "g_inv g' \<and> g_prefs g' = g_prefs g \<and>
    (err = DEP_OK \<longrightarrow>
       g_nodes g' = g_nodes g @ [\<lparr>node_name = name, node_pkg = p, node_installed = False\<rparr>] \<and>
       (\<forall>a. providers g' a = providers g a @
          replicate (count_list (meta_provides p) (Some a)) (length (g_nodes g)) @
          (if a = name \<or> dep_graph_find g a \<noteq> None then []
           else replicate (count_list (meta_replaces p) (Some a)) (length (g_nodes g)))))"
  using add_node_new [OF assms(1-3), of False mem err g' mem'] assms(4)
  by (simp add: dep_graph_add_def node_of_def new_providers_def)

definition example_graph :: dep_graph where
  "example_graph = the (fst (dep_graph_new []))"

definition mta_pkg :: package_metadata where
  "mta_pkg = zero_metadata\<lparr>meta_name := Some ''postfix'', meta_provides := [Some ''mta'']\<rparr>"

lemma example_graph_inv: "g_inv example_graph \<and> g_nodes example_graph = []"
proof -
  obtain g mem' where "dep_graph_new [] = (Some g, mem')"
    by (auto simp: dep_graph_new_def str_map_init_def)
  then show ?thesis using dep_graph_new_inv by (simp add: example_graph_def)
qed

lemma example_graph_find: "dep_graph_find example_graph a = None"
  using find_None_iff [of example_graph a] example_graph_inv by simp

lemma mta_strings_ok: "strings_ok mta_pkg"
  by (simp add: strings_ok_def mta_pkg_def zero_metadata_def)

theorem dep_graph_add_effect_witness:
  "\<exists>g' mem'. dep_graph_add example_graph (Some mta_pkg) [] = Some (DEP_OK, g', mem') \<and> g_inv g' \<and>
     providers g' ''mta'' = providers example_graph ''mta'' @ [0]"
proof -
  obtain g' mem' where a: "dep_graph_add example_graph (Some mta_pkg) [] = Some (DEP_OK, g', mem')"
    using add_node_no_oom [OF _ mta_strings_ok no_oom_Nil, of example_graph False] example_graph_inv
    by (auto simp: dep_graph_add_def)
  have "meta_name mta_pkg = Some ''postfix''" by (simp add: mta_pkg_def)
  then show ?thesis
    using dep_graph_add_effect [OF _ _ example_graph_find a] a example_graph_inv
    by (simp add: mta_pkg_def zero_metadata_def)
qed

text \<open>
  C32. What a name resolves to: a real package of that name; else the preferred package, if one
  was set and is in the graph; else the first installed provider in insertion order; else the
  first provider; else nothing.  The result is always a valid index of a package that bears
  the name, was preferred for it, or declares it.
\<close>

theorem dep_graph_lookup_spec:
  assumes "g_inv g"
  shows "dep_graph_lookup g name =
     (case dep_graph_find g name of
        Some i \<Rightarrow> Some i
      | None \<Rightarrow>
          (case Option.bind (pref_of g name) (dep_graph_find g) of
             Some i \<Rightarrow> Some i
           | None \<Rightarrow>
               (case List.find (\<lambda>i. node_installed (g_nodes g ! i)) (providers g name) of
                  Some i \<Rightarrow> Some i
                | None \<Rightarrow> (case providers g name of [] \<Rightarrow> None | i # _ \<Rightarrow> Some i)))) \<and>
    (\<forall>i. dep_graph_lookup g name = Some i \<longrightarrow>
       i < length (g_nodes g) \<and>
       (node_name (g_nodes g ! i) = name \<or> pref_of g name = Some (node_name (g_nodes g ! i)) \<or>
        declares (g_nodes g ! i) name))"
proof (intro conjI allI impI)
  fix i assume l: "dep_graph_lookup g name = Some i"
  show "i < length (g_nodes g)" using assms l by (rule dep_graph_lookup_range)
  show "node_name (g_nodes g ! i) = name \<or> pref_of g name = Some (node_name (g_nodes g ! i)) \<or>
        declares (g_nodes g ! i) name"
    using l find_Some_iff [OF assms] providers_in_range [OF assms]
    by (auto simp: dep_graph_lookup_eq split: option.splits bind_splits dest: group_pick_mem)
qed (auto simp: dep_graph_lookup_eq group_pick_find split: option.splits)

theorem dep_graph_lookup_spec_witness:
  "g_inv example_graph \<and> dep_graph_lookup example_graph ''mta'' =
     (case List.find (\<lambda>i. node_installed (g_nodes example_graph ! i)) (providers example_graph ''mta'') of
        Some i \<Rightarrow> Some i
      | None \<Rightarrow> (case providers example_graph ''mta'' of [] \<Rightarrow> None | i # _ \<Rightarrow> Some i))"
proof -
  have "Option.bind (pref_of example_graph ''mta'') (dep_graph_find example_graph) = None"
    by (cases "pref_of example_graph ''mta''") (simp_all add: example_graph_find)
  then show ?thesis
    using dep_graph_lookup_spec [of example_graph "''mta''"] example_graph_inv by (simp add: example_graph_find)
qed

text \<open>
  Adding well-formed metadata never reads through NULL and succeeds while memory is
  available; afterwards the package is found under its name.
\<close>

theorem dep_graph_add_total:
  assumes "g_inv g" and "strings_ok p" and "no_oom mem"
  shows "\<exists>g' mem'. dep_graph_add g (Some p) mem = Some (DEP_OK, g', mem') \<and>
           dep_graph_find g' (the (meta_name p)) \<noteq> None"
proof -
  obtain name where name: "meta_name p = Some name" using assms(2) by (auto simp: strings_ok_def)
  obtain g' mem' where a: "add_node g (Some p) False mem = Some (DEP_OK, g', mem')"
    using add_node_no_oom [OF assms] by blast
  have "dep_graph_find g' name \<noteq> None"
  proof (cases "dep_graph_find g name")
    case None
    then have "g_inv g'" "g_nodes g' = g_nodes g @ [node_of p name False]"
      using add_node_new [OF assms(1) name None a] by auto
    then show ?thesis using find_None_iff [of g' name] by (simp add: node_of_def)
  qed (use a name in \<open>auto simp: add_node_def\<close>)
  then show ?thesis using a name by (simp add: dep_graph_add_def)
qed

theorem dep_graph_add_total_witness:
  "\<exists>g' mem'. dep_graph_add example_graph (Some mta_pkg) [True] = Some (DEP_OK, g', mem') \<and>
     dep_graph_find g' ''postfix'' \<noteq> None"
  using dep_graph_add_total [of example_graph mta_pkg "[True]"] example_graph_inv mta_strings_ok
  by (simp add: mta_pkg_def)

text \<open>
  The precondition matters: a \<open>provides\<close> array whose first element is not a string (the
  JSON reader stores NULL for it) makes \<open>dep_graph_add\<close> hash a NULL pointer.
\<close>

theorem dep_graph_add_null_provides:
  assumes "g_inv g" and "meta_name p = Some name" and "dep_graph_find g name = None"
    and "meta_provides p = None # items" and "no_oom mem"
  shows "dep_graph_add g (Some p) mem = None"
  using new_node_no_oom [OF assms(1,5), of p name False] assms
  by (auto simp: dep_graph_add_def add_node_def Let_def)

theorem dep_graph_add_null_provides_witness:
  "dep_graph_add example_graph (Some (zero_metadata\<lparr>meta_name := Some ''x'', meta_provides := [None]\<rparr>)) [] = None"
  using dep_graph_add_null_provides [OF _ _ example_graph_find, of
      "zero_metadata\<lparr>meta_name := Some ''x'', meta_provides := [None]\<rparr>" "''x''" "[]" "[]"] example_graph_inv
  by simp

end
