(* ===== verification/Demo.thy ===== *)
theory Demo
  imports Graph
begin

text \<open>
  Concrete graphs for witnesses, built by the graph operations themselves.  A plain pool has
  distinct package names and no virtual names; what such a graph contains follows from the
  lemmas on \<open>dep_graph_add\<close>, without evaluating hash values.
\<close>

definition demo_pkg :: "string \<Rightarrow> string \<Rightarrow> dep_constraint list \<Rightarrow> package_metadata" where
  "demo_pkg name version deps = zero_metadata\<lparr>meta_name := Some name, meta_version := Some version,
     meta_dependencies := deps\<rparr>"

definition any_version :: "string \<Rightarrow> dep_constraint" where
  "any_version name = \<lparr>dep_name = Some name, dep_op = VER_OP_ANY, dep_version = None\<rparr>"

definition demo_graph :: "package_metadata list \<Rightarrow> dep_graph" where
  "demo_graph ps = fold (\<lambda>p g. fst (snd (the (dep_graph_add g (Some p) [])))) ps example_graph"

definition plain_pool :: "package_metadata list \<Rightarrow> bool" where
  "plain_pool ps \<longleftrightarrow> distinct (map meta_name ps) \<and>
     (\<forall>p \<in> set ps. strings_ok p \<and> meta_provides p = [] \<and> meta_replaces p = [])"

lemma demo_graph_snoc:
  "demo_graph (ps @ [p]) = fst (snd (the (dep_graph_add (demo_graph ps) (Some p) [])))"
  by (simp add: demo_graph_def)

lemma example_graph_empty: "g_prefs example_graph = [] \<and> (\<forall>a. providers example_graph a = [])"
proof -
  obtain g mem' where "dep_graph_new [] = (Some g, mem')"
    by (auto simp: dep_graph_new_def str_map_init_def)
  then show ?thesis using dep_graph_new_inv by (simp add: example_graph_def)
qed

lemma demo_graph_effect:
  "plain_pool ps \<Longrightarrow> g_inv (demo_graph ps) \<and>
     g_nodes (demo_graph ps) = map (\<lambda>p. node_of p (the (meta_name p)) False) ps \<and>
     g_prefs (demo_graph ps) = [] \<and> (\<forall>a. providers (demo_graph ps) a = [])"
proof (induction ps rule: rev_induct)
  case Nil
  then show ?case using example_graph_inv example_graph_empty by (simp add: demo_graph_def)
next
  case (snoc p ps)
  then have ih: "g_inv (demo_graph ps)" "g_nodes (demo_graph ps) = map (\<lambda>p. node_of p (the (meta_name p)) False) ps"
    "g_prefs (demo_graph ps) = []" "\<And>a. providers (demo_graph ps) a = []"
    by (simp_all add: plain_pool_def)
  obtain name where name: "meta_name p = Some name" using snoc.prems by (auto simp: plain_pool_def strings_ok_def)
  have "\<forall>q \<in> set ps. meta_name q \<noteq> None \<and> meta_name q \<noteq> Some name"
    using snoc.prems name by (auto simp: plain_pool_def strings_ok_def image_iff)
  then have fresh: "dep_graph_find (demo_graph ps) name = None"
    using find_None_iff [OF ih(1)] by (fastforce simp: ih(2) node_of_def)
  obtain g' mem' where a: "add_node (demo_graph ps) (Some p) False [] = Some (DEP_OK, g', mem')"
    using add_node_no_oom [OF ih(1), of p "[]" False] snoc.prems by (auto simp: plain_pool_def)
  then show ?case
    using add_node_new [OF ih(1) name fresh a] ih snoc.prems name
    by (simp add: demo_graph_snoc dep_graph_add_def new_providers_def plain_pool_def)
qed

text \<open>Lookup in a plain pool is a search by name.\<close>

lemma demo_graph_lookup:
  assumes "plain_pool ps"
  shows "dep_graph_lookup (demo_graph ps) name =
    List.find (\<lambda>i. meta_name (ps ! i) = Some name) [0..<length ps]"
proof -
  note eff = demo_graph_effect [OF assms]
  have "dep_graph_lookup (demo_graph ps) name = dep_graph_find (demo_graph ps) name"
    using eff by (auto simp: dep_graph_lookup_eq pref_of_def split: option.split)
  also have "\<dots> = List.find (\<lambda>i. meta_name (ps ! i) = Some name) [0..<length ps]"
  proof (cases "List.find (\<lambda>i. meta_name (ps ! i) = Some name) [0..<length ps]")
    case None
    then have "\<forall>p \<in> set ps. meta_name p \<noteq> Some name"
      by (auto simp: List.find_None_iff in_set_conv_nth)
    moreover have "\<forall>p \<in> set ps. meta_name p \<noteq> None" using assms by (simp add: plain_pool_def strings_ok_def)
    ultimately show ?thesis
      using None Graph.find_None_iff [of "demo_graph ps" name] eff by (fastforce simp: node_of_def)
  next
    case (Some i)
    then have "i < length ps" "meta_name (ps ! i) = Some name" using find_Some_set by fastforce+
    then show ?thesis
      using Some Graph.find_Some_iff [of "demo_graph ps" name i] eff by (simp add: node_of_def)
  qed
  finally show ?thesis .
qed

lemma demo_graph_nth:
  "plain_pool ps \<Longrightarrow> i < length ps \<Longrightarrow>
     node_pkg (g_nodes (demo_graph ps) ! i) = ps ! i \<and>
     Some (node_name (g_nodes (demo_graph ps) ! i)) = meta_name (ps ! i)"
  using demo_graph_effect [of ps] by (auto simp: node_of_def plain_pool_def strings_ok_def)

lemma demo_graph_length [simp]: "plain_pool ps \<Longrightarrow> length (g_nodes (demo_graph ps)) = length ps"
  using demo_graph_effect [of ps] by simp

end
