(* ===== verification/Conflict.thy ===== *)
theory Conflict
  imports Demo
begin

text \<open>
  \<open>src/graph/conflict.c\<close>: which installed packages conflict with a package about to be
  installed.  \<open>strcmp\<close> on a NULL list item or a NULL name is undefined behaviour.
\<close>

fun str_list_contains :: "str_list \<Rightarrow> pstr \<Rightarrow> bool option" where
  "str_list_contains [] str = Some False"
| "str_list_contains (item # items) str =
     do { a \<leftarrow> item; b \<leftarrow> str; if a = b then Some True else str_list_contains items str }"

text \<open>The loops over \<open>provides\<close>: stop at the first name that is in the list.\<close>

fun any_contained :: "str_list \<Rightarrow> str_list \<Rightarrow> bool option" where
  "any_contained list [] = Some False"
| "any_contained list (name # names) =
     do { b \<leftarrow> str_list_contains list name; if b then Some True else any_contained list names }"

text \<open>The body of the loop over the installed packages.\<close>

definition breaks_one :: "dep_graph \<Rightarrow> package_metadata \<Rightarrow> string \<Rightarrow> bool option" where
  "breaks_one g pkg inst_name =
     (let inst_idx = dep_graph_lookup g inst_name in
      do {
        conflict \<leftarrow> str_list_contains (meta_conflicts pkg) (Some inst_name);
        case inst_idx of
          None \<Rightarrow> Some conflict
        | Some idx \<Rightarrow>
            if conflict then Some True
            else do {
              node \<leftarrow> arr_get (g_nodes g) idx;
              let inst = node_pkg node;
              c1 \<leftarrow> str_list_contains (meta_conflicts inst) (meta_name pkg);
              if c1 then Some True
              else do {
                c2 \<leftarrow> any_contained (meta_conflicts inst) (meta_provides pkg);
                if c2 then Some True else any_contained (meta_conflicts pkg) (meta_provides inst)
              }
            }
      })"

fun breaks_loop :: "dep_graph \<Rightarrow> package_metadata \<Rightarrow> pstr list \<Rightarrow> string list option" where
  "breaks_loop g pkg [] = Some []"
| "breaks_loop g pkg (inst # installed) =
     do {
       inst_name \<leftarrow> inst;
       conflict \<leftarrow> breaks_one g pkg inst_name;
       result \<leftarrow> breaks_loop g pkg installed;
       Some (if conflict then inst_name # result else result)
     }"

text \<open>A failed shrinking \<open>realloc\<close> at the end keeps the larger array and changes nothing.\<close>

definition dep_graph_find_breaks ::
  "dep_graph \<Rightarrow> pstr \<Rightarrow> pstr list \<Rightarrow> mem \<Rightarrow> (dep_error + string list) option" where
  "dep_graph_find_breaks g pkg_name installed mem =
     (case pkg_name of
        None \<Rightarrow> Some (Inl DEP_ERR_NOMEM)
      | Some name \<Rightarrow>
          (case dep_graph_lookup g name of
             None \<Rightarrow> Some (Inl DEP_ERR_MISSING)
           | Some pkg_idx \<Rightarrow>
               do {
                 node \<leftarrow> arr_get (g_nodes g) pkg_idx;
                 let (ok, mem1) = malloc_ok mem;
                 if \<not> ok then Some (Inl DEP_ERR_NOMEM)
                 else map_option Inr (breaks_loop g (node_pkg node) installed)
               }))"

subsection \<open>Specification\<close>

text \<open>Two packages conflict when one declares a conflict with the other's name or with a name
  the other provides.\<close>

definition declares_against :: "package_metadata \<Rightarrow> package_metadata \<Rightarrow> bool" where
  "declares_against p q \<longleftrightarrow> set (meta_conflicts p) \<inter> ({meta_name q} \<union> set (meta_provides q)) \<noteq> {}"

definition conflicting :: "package_metadata \<Rightarrow> package_metadata \<Rightarrow> bool" where
  "conflicting p q \<longleftrightarrow> declares_against p q \<or> declares_against q p"

lemma conflicting_sym: "conflicting p q \<longleftrightarrow> conflicting q p"
  by (auto simp: conflicting_def)

definition nodes_ok :: "dep_graph \<Rightarrow> bool" where
  "nodes_ok g \<longleftrightarrow> (\<forall>n \<in> set (g_nodes g). strings_ok (node_pkg n))"

lemma str_list_contains_eq:
  "None \<notin> set items \<Longrightarrow> str_list_contains items (Some s) = Some (Some s \<in> set items)"
proof (induction items)
  case (Cons item items)
  then obtain a where "item = Some a" by (cases item) auto
  then show ?case using Cons by auto
qed simp

lemma any_contained_eq:
  "None \<notin> set items \<Longrightarrow> None \<notin> set names \<Longrightarrow>
   any_contained items names = Some (set items \<inter> set names \<noteq> {})"
proof (induction names)
  case (Cons name names)
  then obtain s where "name = Some s" by (cases name) auto
  then show ?case using Cons by (auto simp: str_list_contains_eq)
qed simp

lemma breaks_one_eq:
  assumes g: "g_inv g" "nodes_ok g" and p: "strings_ok p"
  shows "breaks_one g p s = Some (Some s \<in> set (meta_conflicts p) \<or>
    (\<exists>i. dep_graph_lookup g s = Some i \<and>
       (declares_against (node_pkg (g_nodes g ! i)) p \<or>
        set (meta_conflicts p) \<inter> set (meta_provides (node_pkg (g_nodes g ! i))) \<noteq> {})))"
proof (cases "dep_graph_lookup g s")
  case None
  then show ?thesis using p by (simp add: breaks_one_def str_list_contains_eq strings_ok_def)
next
  case (Some i)
  have i: "i < length (g_nodes g)" using g(1) Some by (rule dep_graph_lookup_range)
  let ?q = "node_pkg (g_nodes g ! i)"
  have q: "strings_ok ?q" using g(2) i by (simp add: nodes_ok_def)
  obtain n where n: "meta_name p = Some n" using p by (auto simp: strings_ok_def)
  show ?thesis
    using Some i p q n
    by (simp add: breaks_one_def Let_def str_list_contains_eq any_contained_eq strings_ok_def declares_against_def
        Int_Un_distrib)
qed

lemma breaks_loop_eq:
  assumes "g_inv g" "nodes_ok g" "strings_ok p" and "None \<notin> set installed"
  shows "breaks_loop g p installed = Some (filter (\<lambda>s. the (breaks_one g p s)) (map the installed))"
  using assms(4)
proof (induction installed)
  case (Cons inst installed)
  then obtain s where "inst = Some s" by (cases inst) auto
  moreover obtain b where "breaks_one g p s = Some b" using breaks_one_eq [OF assms(1-3)] by blast
  ultimately show ?case using Cons by simp
qed simp

subsection \<open>Properties\<close>


definition conflict_pool :: "package_metadata list" where
  "conflict_pool = [(demo_pkg ''exim'' ''4'' [])\<lparr>meta_conflicts := [Some ''postfix'']\<rparr>, demo_pkg ''postfix'' ''3'' [],
     demo_pkg ''bash'' ''5'' []]"


end
