(* ===== verification/Candidates.thy ===== *)
theory Candidates
  imports Hashmap Package
begin

text \<open>
  \<open>src/graph/candidates.c\<close>: for every package name and every provided name, the packages that
  may stand for it.  The solver compares packages by address, so here a package is a pointer
  (\<open>pkg_ptr\<close>) into a store of metadata that is only read; dereferencing a pointer outside the
  store is undefined behaviour.
\<close>

type_synonym pkg_ptr = "64 word"
type_synonym pkg_store = "pkg_ptr \<rightharpoonup> package_metadata"

definition CANDIDATE_SET_INITIAL_CAP :: nat where
  "CANDIDATE_SET_INITIAL_CAP = 16"

definition CANDIDATE_GROUP_INITIAL_CAP :: nat where
  "CANDIDATE_GROUP_INITIAL_CAP = 4"

record candidate_group =
  cg_name :: string
  cg_items :: "pkg_ptr list"
  cg_cap :: nat

record candidate_set =
  cs_groups :: "candidate_group list"
  cs_cap :: nat
  cs_index :: str_map

definition candidate_set_init :: "mem \<Rightarrow> bool \<times> candidate_set \<times> mem" where
  "candidate_set_init mem =
     (let (ok, idx, mem1) = str_map_init str_map_zero mem in
      (ok, \<lparr>cs_groups = [], cs_cap = 0, cs_index = idx\<rparr>, mem1))"

text \<open>Returns the index of the group, \<open>None\<close> for the NULL of a failed allocation.\<close>

definition find_or_create_group :: "candidate_set \<Rightarrow> string \<Rightarrow> mem \<Rightarrow> nat option \<times> candidate_set \<times> mem" where
  "find_or_create_group cs name mem =
     (case str_map_get (cs_index cs) name of
        Some idx \<Rightarrow> (Some idx, cs, mem)
      | None \<Rightarrow>
          (let (ok, cap, mem1) = reserve CANDIDATE_SET_INITIAL_CAP (length (cs_groups cs)) (cs_cap cs) mem in
           if \<not> ok then (None, cs, mem1)
           else let cs1 = cs\<lparr>cs_cap := cap\<rparr>; (name_copy, mem2) = strdup_m name mem1 in
           case name_copy of
             None \<Rightarrow> (None, cs1, mem2)
           | Some nm \<Rightarrow>
               (let (ok, idx, mem3) = str_map_set (cs_index cs1) name (length (cs_groups cs1)) mem2;
                    cs2 = cs1\<lparr>cs_index := idx\<rparr> in
                if \<not> ok then (None, cs2, mem3)
                else (Some (length (cs_groups cs2)),
                      cs2\<lparr>cs_groups := cs_groups cs2 @ [\<lparr>cg_name = nm, cg_items = [], cg_cap = 0\<rparr>]\<rparr>, mem3))))"

definition candidate_set_add :: "candidate_set \<Rightarrow> string \<Rightarrow> pkg_ptr \<Rightarrow> mem \<Rightarrow> bool \<times> candidate_set \<times> mem" where
  "candidate_set_add cs name pkg mem =
     (let (gi, cs1, mem1) = find_or_create_group cs name mem in
      case gi of
        None \<Rightarrow> (False, cs1, mem1)
      | Some i \<Rightarrow>
          (let g = cs_groups cs1 ! i;
               (ok, cap, mem2) = reserve CANDIDATE_GROUP_INITIAL_CAP (length (cg_items g)) (cg_cap g) mem1 in
           if \<not> ok then (False, cs1, mem2)
           else (True, cs1\<lparr>cs_groups := (cs_groups cs1)[i := g\<lparr>cg_items := cg_items g @ [pkg], cg_cap := cap\<rparr>]\<rparr>, mem2)))"

fun add_provided :: "candidate_set \<Rightarrow> str_list \<Rightarrow> pkg_ptr \<Rightarrow> mem \<Rightarrow> (bool \<times> candidate_set \<times> mem) option" where
  "add_provided cs [] pkg mem = Some (True, cs, mem)"
| "add_provided cs (item # items) pkg mem =
     do {
       name \<leftarrow> item;
       let (ok, cs', mem') = candidate_set_add cs name pkg mem;
       if \<not> ok then Some (False, cs', mem') else add_provided cs' items pkg mem'
     }"

definition candidate_set_add_package ::
  "pkg_store \<Rightarrow> candidate_set \<Rightarrow> pkg_ptr \<Rightarrow> mem \<Rightarrow> (bool \<times> candidate_set \<times> mem) option" where
  "candidate_set_add_package st cs pkg mem =
     do {
       meta \<leftarrow> st pkg;
       name \<leftarrow> meta_name meta;
       let (ok, cs', mem') = candidate_set_add cs name pkg mem;
       if \<not> ok then Some (False, cs', mem') else add_provided cs' (meta_provides meta) pkg mem'
     }"

definition candidate_set_lookup :: "candidate_set \<Rightarrow> string \<Rightarrow> candidate_group option" where
  "candidate_set_lookup cs name =
     (case str_map_get (cs_index cs) name of None \<Rightarrow> None | Some idx \<Rightarrow> Some (cs_groups cs ! idx))"

subsection \<open>Invariant and abstraction\<close>

definition cs_inv :: "candidate_set \<Rightarrow> bool" where
  "cs_inv cs \<longleftrightarrow>
     sm_inv (cs_index cs) \<and> sm.indexes (cs_index cs) (map cg_name (cs_groups cs)) \<and>
     length (cs_groups cs) \<le> cs_cap cs \<and>
     (\<forall>g \<in> set (cs_groups cs). length (cg_items g) \<le> cg_cap g)"

definition cands :: "candidate_set \<Rightarrow> string \<Rightarrow> pkg_ptr list" where
  "cands cs name = (case candidate_set_lookup cs name of None \<Rightarrow> [] | Some g \<Rightarrow> cg_items g)"

lemma cands_eq:
  "cands cs a = (case str_map_get (cs_index cs) a of None \<Rightarrow> [] | Some j \<Rightarrow> cg_items (cs_groups cs ! j))"
  by (simp add: cands_def candidate_set_lookup_def split: option.split)

lemma cands_cong:
  "str_map_get (cs_index cs') = str_map_get (cs_index cs) \<Longrightarrow> cs_groups cs' = cs_groups cs \<Longrightarrow> cands cs' = cands cs"
  by (simp add: fun_eq_iff cands_eq split: option.split)

lemma candidate_set_init_ok:
  "candidate_set_init mem = (True, cs, mem') \<Longrightarrow> cs_inv cs \<and> (\<forall>a. cands cs a = [])"
  using str_map_init_ok [of str_map_zero mem]
  by (auto simp: candidate_set_init_def cs_inv_def cands_def candidate_set_lookup_def sm.indexes_empty
      split: prod.splits)

lemma candidate_set_init_no_oom:
  "no_oom mem \<Longrightarrow> \<exists>cs mem'. candidate_set_init mem = (True, cs, mem') \<and> no_oom mem'"
  using str_map_init_no_oom [of mem str_map_zero] by (auto simp: candidate_set_init_def)

lemma cs_index_Some:
  "cs_inv cs \<Longrightarrow> str_map_get (cs_index cs) a = Some i \<longleftrightarrow> i < length (cs_groups cs) \<and> cg_name (cs_groups cs ! i) = a"
  using sm.indexes_Some [of "cs_index cs" "map cg_name (cs_groups cs)" a i] by (auto simp: cs_inv_def)

text \<open>
  Finding or creating a group changes no candidate list; when it succeeds the group is there.
\<close>

lemma find_or_create_group_effect:
  assumes inv: "cs_inv cs" and f: "find_or_create_group cs name mem = (gi, cs', mem')"
  shows "cs_inv cs' \<and> cands cs' = cands cs \<and>
    (\<forall>i. gi = Some i \<longrightarrow> str_map_get (cs_index cs') name = Some i \<and> cg_items (cs_groups cs' ! i) = cands cs name)"
proof (cases "str_map_get (cs_index cs) name")
  case (Some idx)
  then show ?thesis using f inv by (auto simp: find_or_create_group_def cands_def candidate_set_lookup_def)
next
  case None
  obtain ok cap mem1 where r: "reserve CANDIDATE_SET_INITIAL_CAP (length (cs_groups cs)) (cs_cap cs) mem = (ok, cap, mem1)"
    by (metis prod_cases3)
  obtain dup mem2 where d: "strdup_m name mem1 = (dup, mem2)" by fastforce
  obtain ok3 idx mem3 where s: "str_map_set (cs_index cs) name (length (cs_groups cs)) mem2 = (ok3, idx, mem3)"
    by (metis prod_cases3)
  have cap: "cs_cap cs \<le> cap" using r by (rule reserve_cap_mono)
  have inv1: "cs_inv (cs\<lparr>cs_cap := cap\<rparr>)" using inv cap by (auto simp: cs_inv_def)
  have c1: "cands (cs\<lparr>cs_cap := cap\<rparr>) = cands cs" by (rule cands_cong) simp_all
  consider (oom) "\<not> ok" | (oom2) "ok" "dup = None" | (oom3) "ok" "dup = Some name" "\<not> ok3"
    | (created) "ok" "dup = Some name" "ok3" using strdup_m_cases [OF d] by blast
  then show ?thesis
  proof cases
    case oom
    then show ?thesis using f None r inv by (auto simp: find_or_create_group_def)
  next
    case oom2
    then show ?thesis using f None r d inv1 c1 by (auto simp: find_or_create_group_def Let_def)
  next
    case oom3
    then have cs': "cs' = cs\<lparr>cs_cap := cap, cs_index := idx\<rparr>" "gi = None"
      using f None r d s by (auto simp: find_or_create_group_def Let_def)
    have i: "sm_inv idx" "str_map_get idx = str_map_get (cs_index cs)"
      using sm.put_fail [of "cs_index cs" name "length (cs_groups cs)" mem2 idx mem3] s oom3 inv
      by (simp_all add: cs_inv_def)
    then have "cands cs' = cands cs" unfolding cs' by (intro cands_cong) simp_all
    then show ?thesis
      using inv cap i unfolding cs' by (simp add: cs_inv_def sm.indexes_def)
  next
    case created
    let ?g = "\<lparr>cg_name = name, cg_items = [], cg_cap = 0\<rparr>"
    have cs': "cs' = cs\<lparr>cs_cap := cap, cs_index := idx, cs_groups := cs_groups cs @ [?g]\<rparr>"
      and gi: "gi = Some (length (cs_groups cs))"
      using created f None r d s by (auto simp: find_or_create_group_def Let_def)
    have i: "sm_inv idx" "str_map_get idx = (str_map_get (cs_index cs))(name \<mapsto> length (cs_groups cs))"
      using sm.put_ok [of "cs_index cs" name "length (cs_groups cs)" mem2 idx mem3] s created inv
      by (simp_all add: cs_inv_def)
    have "sm.indexes idx (map cg_name (cs_groups cs) @ [name])"
      using sm.indexes_put [of "cs_index cs" "map cg_name (cs_groups cs)" name mem2 idx mem3] s created inv None
      by (simp add: cs_inv_def)
    moreover have "length (cs_groups cs) < cap"
      using reserve_room [of CANDIDATE_SET_INITIAL_CAP "length (cs_groups cs)" "cs_cap cs" mem cap mem1] r created inv
      by (simp add: cs_inv_def CANDIDATE_SET_INITIAL_CAP_def)
    ultimately have inv': "cs_inv cs'" using inv i unfolding cs' by (auto simp: cs_inv_def)
    have "cands cs' a = cands cs a" for a
    proof (cases "str_map_get (cs_index cs) a")
      case (Some j)
      then have "j < length (cs_groups cs)" "a \<noteq> name" using cs_index_Some [OF inv, of a j] None by auto
      then show ?thesis using Some i(2) unfolding cs' by (simp add: cands_eq nth_append)
    qed (use i(2) in \<open>simp add: cs' cands_eq\<close>)
    then show ?thesis
      using inv' gi i(2) None unfolding cs' by (auto simp: cands_def candidate_set_lookup_def)
  qed
qed

lemma find_or_create_group_no_oom:
  assumes "cs_inv cs" and "no_oom mem"
  shows "\<exists>i cs' mem'. find_or_create_group cs name mem = (Some i, cs', mem') \<and> no_oom mem'"
proof (cases "str_map_get (cs_index cs) name")
  case None
  obtain cap mem1 where r: "reserve CANDIDATE_SET_INITIAL_CAP (length (cs_groups cs)) (cs_cap cs) mem = (True, cap, mem1)"
    "no_oom mem1" using reserve_no_oomE [OF assms(2)] by blast
  obtain mem2 where d: "\<And>s. strdup_m s mem1 = (Some s, mem2)" "no_oom mem2"
    using strdup_no_oomE [OF r(2)] by blast
  obtain idx mem3 where "str_map_set (cs_index cs) name (length (cs_groups cs)) mem2 = (True, idx, mem3)" "no_oom mem3"
    using sm.put_no_oom [OF _ d(2)] assms(1) by (metis cs_inv_def)
  then show ?thesis using None r d by (simp add: find_or_create_group_def Let_def)
qed (use assms in \<open>simp add: find_or_create_group_def\<close>)

lemma candidate_set_add_effect:
  assumes inv: "cs_inv cs" and a: "candidate_set_add cs name pkg mem = (ok, cs', mem')"
  shows "cs_inv cs' \<and> cands cs' = (if ok then (cands cs)(name := cands cs name @ [pkg]) else cands cs)"
proof -
  obtain gi cs1 mem1 where f: "find_or_create_group cs name mem = (gi, cs1, mem1)" by (metis prod_cases3)
  note eff = find_or_create_group_effect [OF inv f]
  show ?thesis
  proof (cases gi)
    case None
    then show ?thesis using a f eff by (auto simp: candidate_set_add_def)
  next
    case (Some i)
    have i: "str_map_get (cs_index cs1) name = Some i" "cg_items (cs_groups cs1 ! i) = cands cs name"
      "i < length (cs_groups cs1)" using eff Some cs_index_Some [of cs1 name i] by auto
    let ?g = "cs_groups cs1 ! i"
    obtain ok2 cap mem2 where
      r: "reserve CANDIDATE_GROUP_INITIAL_CAP (length (cg_items ?g)) (cg_cap ?g) mem1 = (ok2, cap, mem2)"
      by (metis prod_cases3)
    show ?thesis
    proof (cases ok2)
      case False
      then show ?thesis using a f Some r eff by (auto simp: candidate_set_add_def)
    next
      case True
      let ?g' = "?g\<lparr>cg_items := cg_items ?g @ [pkg], cg_cap := cap\<rparr>"
      have cs': "cs' = cs1\<lparr>cs_groups := (cs_groups cs1)[i := ?g']\<rparr>" "ok"
        using a f Some r True by (auto simp: candidate_set_add_def Let_def)
      have names: "map cg_name ((cs_groups cs1)[i := ?g']) = map cg_name (cs_groups cs1)"
        using i(3) by (simp add: map_update list_update_same_conv)
      have g: "length (cg_items ?g) \<le> cg_cap ?g" using eff i(3) by (simp add: cs_inv_def)
      have "length (cg_items ?g) < cap"
        using reserve_room [of CANDIDATE_GROUP_INITIAL_CAP "length (cg_items ?g)" "cg_cap ?g" mem1 cap mem2] r True g
        by (simp add: CANDIDATE_GROUP_INITIAL_CAP_def)
      then have inv': "cs_inv cs'" using eff names unfolding cs'
        by (auto simp: cs_inv_def dest!: set_update_subset_insert [THEN subsetD])
      have "cands cs' a = (if a = name then cands cs name @ [pkg] else cands cs a)" for a
      proof -
        have "cands cs' a = (case str_map_get (cs_index cs1) a of None \<Rightarrow> [] | Some j \<Rightarrow> cg_items ((cs_groups cs1)[i := ?g'] ! j))"
          unfolding cs' by (simp add: cands_eq split: option.split)
        moreover have "cands cs a = (case str_map_get (cs_index cs1) a of None \<Rightarrow> [] | Some j \<Rightarrow> cg_items (cs_groups cs1 ! j))"
          using eff cands_eq [of cs1 a] by simp
        moreover have "str_map_get (cs_index cs1) a = Some i \<longleftrightarrow> a = name"
          using cs_index_Some [of cs1 a i] cs_index_Some [of cs1 name i] eff i(1) by auto
        ultimately show ?thesis using i by (auto split: option.splits simp: nth_list_update)
      qed
      then show ?thesis using inv' cs'(2) by auto
    qed
  qed
qed

lemma candidate_set_add_no_oom:
  assumes "cs_inv cs" and "no_oom mem"
  shows "\<exists>cs' mem'. candidate_set_add cs name pkg mem = (True, cs', mem') \<and> no_oom mem'"
proof -
  obtain i cs1 mem1 where f: "find_or_create_group cs name mem = (Some i, cs1, mem1)" "no_oom mem1"
    using find_or_create_group_no_oom [OF assms] by blast
  obtain cap mem2 where "reserve CANDIDATE_GROUP_INITIAL_CAP (length (cg_items (cs_groups cs1 ! i)))
      (cg_cap (cs_groups cs1 ! i)) mem1 = (True, cap, mem2)" "no_oom mem2"
    using reserve_no_oomE [OF f(2)] by blast
  then show ?thesis using f by (simp add: candidate_set_add_def Let_def)
qed

text \<open>Well-formed metadata behind a pointer.\<close>

definition ptr_ok :: "pkg_store \<Rightarrow> pkg_ptr \<Rightarrow> bool" where
  "ptr_ok st p \<longleftrightarrow> (\<exists>meta. st p = Some meta \<and> strings_ok meta)"

definition offers :: "pkg_store \<Rightarrow> pkg_ptr \<Rightarrow> string \<Rightarrow> bool" where
  "offers st p a \<longleftrightarrow> meta_name (the (st p)) = Some a \<or> Some a \<in> set (meta_provides (the (st p)))"

lemma add_provided_effect:
  assumes "cs_inv cs" and "add_provided cs items pkg mem = Some (ok, cs', mem')"
  shows "cs_inv cs' \<and>
    (ok \<longrightarrow> (\<forall>a. set (cands cs' a) = set (cands cs a) \<union> (if Some a \<in> set items then {pkg} else {})))"
  using assms
proof (induction items arbitrary: cs mem)
  case (Cons item items)
  then obtain name where name: "item = Some name" by (cases item) auto
  obtain ok1 cs1 mem1 where a: "candidate_set_add cs name pkg mem = (ok1, cs1, mem1)" by (metis prod_cases3)
  note eff = candidate_set_add_effect [OF Cons.prems(1) a]
  show ?case
  proof (cases ok1)
    case True
    then have "add_provided cs1 items pkg mem1 = Some (ok, cs', mem')" using Cons.prems(2) name a by simp
    then show ?thesis using Cons.IH [of cs1 mem1] eff True name by auto
  qed (use Cons.prems name a eff in auto)
qed simp

lemma add_provided_no_oom:
  assumes "cs_inv cs" and "no_oom mem" and "None \<notin> set items"
  shows "\<exists>cs' mem'. add_provided cs items pkg mem = Some (True, cs', mem') \<and> no_oom mem'"
  using assms
proof (induction items arbitrary: cs mem)
  case (Cons item items)
  obtain name where name: "item = Some name" using Cons.prems(3) by (cases item) auto
  obtain cs1 mem1 where a: "candidate_set_add cs name pkg mem = (True, cs1, mem1)" "no_oom mem1"
    using candidate_set_add_no_oom [OF Cons.prems(1,2)] by blast
  then have "cs_inv cs1" using candidate_set_add_effect [OF Cons.prems(1) a(1)] by simp
  then show ?case using Cons.IH [of cs1 mem1] Cons.prems(3) a name by auto
qed simp

lemma add_provided_safe:
  "None \<notin> set items \<Longrightarrow> add_provided cs items pkg mem \<noteq> None"
proof (induction items arbitrary: cs mem)
  case (Cons item items)
  obtain name where name: "item = Some name" using Cons.prems by (cases item) auto
  obtain ok1 cs1 mem1 where a: "candidate_set_add cs name pkg mem = (ok1, cs1, mem1)" by (metis prod_cases3)
  then show ?case using Cons.IH [of cs1 mem1] Cons.prems name by auto
qed simp

text \<open>Adding a package makes it a candidate for exactly the names it offers.\<close>

lemma candidate_set_add_package_effect:
  assumes inv: "cs_inv cs" and p: "ptr_ok st p"
    and a: "candidate_set_add_package st cs p mem = Some (ok, cs', mem')"
  shows "cs_inv cs' \<and> (ok \<longrightarrow> (\<forall>a. set (cands cs' a) = set (cands cs a) \<union> (if offers st p a then {p} else {})))"
proof -
  obtain meta name where m: "st p = Some meta" "meta_name meta = Some name"
    using p by (auto simp: ptr_ok_def strings_ok_def)
  obtain ok1 cs1 mem1 where c: "candidate_set_add cs name p mem = (ok1, cs1, mem1)" by (metis prod_cases3)
  note eff = candidate_set_add_effect [OF inv c]
  show ?thesis
  proof (cases ok1)
    case True
    then have "add_provided cs1 (meta_provides meta) p mem1 = Some (ok, cs', mem')"
      using a m c by (simp add: candidate_set_add_package_def)
    from add_provided_effect [OF _ this] show ?thesis using eff True m by (auto simp: offers_def)
  qed (use a m c eff in \<open>auto simp: candidate_set_add_package_def\<close>)
qed

lemma candidate_set_add_package_total:
  assumes "cs_inv cs" and "ptr_ok st p"
  shows "candidate_set_add_package st cs p mem \<noteq> None"
    and "no_oom mem \<Longrightarrow> \<exists>cs' mem'. candidate_set_add_package st cs p mem = Some (True, cs', mem') \<and> no_oom mem'"
proof -
  obtain meta name where m: "st p = Some meta" "meta_name meta = Some name" "None \<notin> set (meta_provides meta)"
    using assms(2) by (auto simp: ptr_ok_def strings_ok_def)
  obtain ok1 cs1 mem1 where c: "candidate_set_add cs name p mem = (ok1, cs1, mem1)" by (metis prod_cases3)
  then show "candidate_set_add_package st cs p mem \<noteq> None"
    using m add_provided_safe [OF m(3)] by (auto simp: candidate_set_add_package_def)
  assume "no_oom mem"
  then have ok: "ok1" "no_oom mem1" using candidate_set_add_no_oom [OF assms(1), of mem name p] c by auto
  have "cs_inv cs1" using candidate_set_add_effect [OF assms(1) c] by simp
  then show "\<exists>cs' mem'. candidate_set_add_package st cs p mem = Some (True, cs', mem') \<and> no_oom mem'"
    using add_provided_no_oom [OF _ ok(2) m(3), of cs1 p] m c ok by (simp add: candidate_set_add_package_def)
qed

end
