(* ===== verification/Sat_Model.thy ===== *)
theory Sat_Model
  imports Candidates
begin

unbundle bit_operations_syntax

text \<open>
  \<open>src/graph/sat_model.c\<close>: the boolean model of a package pool.  One variable per package
  (numbered from 1, found through a pointer hash), a clause per dependency, a clause per
  conflicting pair and a unit clause per required root.  A literal is a variable number or
  its negation, as in the source; there are fewer than \<open>2 ^ 31\<close> packages.
\<close>

datatype sat_clause_kind = SAT_CLAUSE_DEPENDENCY | SAT_CLAUSE_CONFLICT | SAT_CLAUSE_FORCED

record sat_clause =
  cl_lits :: "int list"
  cl_kind :: sat_clause_kind
  cl_dep_name :: pstr

record sat_model =
  mo_vars :: "pkg_ptr list"
  mo_var_cap :: nat
  mo_buckets :: "(pkg_ptr, nat) chain list"
  mo_bucket_count :: nat
  mo_clauses :: "sat_clause list"
  mo_clause_cap :: nat

definition SAT_VAR_INITIAL_CAP :: nat where "SAT_VAR_INITIAL_CAP = 16"
definition SAT_CLAUSE_INITIAL_CAP :: nat where "SAT_CLAUSE_INITIAL_CAP = 16"
definition VAR_INDEX_INITIAL_BUCKETS :: nat where "VAR_INDEX_INITIAL_BUCKETS = 16"

definition ptr_hash :: "pkg_ptr \<Rightarrow> nat" where
  "ptr_hash p =
     (let v1 = p XOR drop_bit 16 p;
          v2 = v1 * 0x9e3779b97f4a7c15;
          v3 = v2 XOR drop_bit 32 v2 in unat v3)"

definition var_index_rehash :: "sat_model \<Rightarrow> nat \<Rightarrow> mem \<Rightarrow> bool \<times> sat_model \<times> mem" where
  "var_index_rehash m new_bucket_count mem =
     (let (ok, mem1) = malloc_ok mem in
      if \<not> ok then (False, m, mem1)
      else (True, m\<lparr>mo_buckets := rehash_buckets ptr_hash new_bucket_count (mo_buckets m) (replicate new_bucket_count []),
                    mo_bucket_count := new_bucket_count\<rparr>, mem1))"

definition sat_model_init :: sat_model where
  "sat_model_init = \<lparr>mo_vars = [], mo_var_cap = 0, mo_buckets = [], mo_bucket_count = 0, mo_clauses = [], mo_clause_cap = 0\<rparr>"

text \<open>The variable of a package, created at its first use; 0 when an allocation fails.\<close>

definition sat_model_var :: "sat_model \<Rightarrow> pkg_ptr \<Rightarrow> mem \<Rightarrow> nat \<times> sat_model \<times> mem" where
  "sat_model_var m pkg mem =
     (case (if mo_bucket_count m > 0 then chain_get (mo_buckets m ! (ptr_hash pkg mod mo_bucket_count m)) pkg else None) of
        Some v \<Rightarrow> (v, m, mem)
      | None \<Rightarrow>
          (let (ok, cap, mem1) = reserve SAT_VAR_INITIAL_CAP (length (mo_vars m)) (mo_var_cap m) mem in
           if \<not> ok then (0, m, mem1)
           else let m1 = m\<lparr>mo_var_cap := cap\<rparr>;
                    (ok, m2, mem2) =
                      (if length (mo_vars m1) + 1 > mo_bucket_count m1 - mo_bucket_count m1 div 4
                       then var_index_rehash m1
                              (if mo_bucket_count m1 \<noteq> 0 then mo_bucket_count m1 * 2 else VAR_INDEX_INITIAL_BUCKETS) mem1
                       else (True, m1, mem1)) in
           if \<not> ok then (0, m2, mem2)
           else let (ok, mem3) = malloc_ok mem2 in
           if \<not> ok then (0, m2, mem3)
           else let m3 = m2\<lparr>mo_vars := mo_vars m2 @ [pkg]\<rparr>; var = length (mo_vars m3);
                    idx = ptr_hash pkg mod mo_bucket_count m3 in
           (var, m3\<lparr>mo_buckets := bucket_push (mo_buckets m3) idx (pkg, var)\<rparr>, mem3)))"

definition add_clause ::
  "sat_model \<Rightarrow> int list \<Rightarrow> sat_clause_kind \<Rightarrow> pstr \<Rightarrow> mem \<Rightarrow> bool \<times> sat_model \<times> mem" where
  "add_clause m lits kind dname mem =
     (let (ok, cap, mem1) = reserve SAT_CLAUSE_INITIAL_CAP (length (mo_clauses m)) (mo_clause_cap m) mem in
      if \<not> ok then (False, m, mem1)
      else let m1 = m\<lparr>mo_clause_cap := cap\<rparr>;
               (ok, mem2) = (if lits \<noteq> [] then malloc_ok mem1 else (True, mem1)) in
      if \<not> ok then (False, m1, mem2)
      else (True, m1\<lparr>mo_clauses := mo_clauses m1 @ [\<lparr>cl_lits = lits, cl_kind = kind, cl_dep_name = dname\<rparr>]\<rparr>, mem2))"

definition sat_model_force :: "sat_model \<Rightarrow> pkg_ptr \<Rightarrow> mem \<Rightarrow> bool \<times> sat_model \<times> mem" where
  "sat_model_force m pkg mem =
     (let (var, m1, mem1) = sat_model_var m pkg mem in
      if var = 0 then (False, m1, mem1)
      else add_clause m1 [int var] SAT_CLAUSE_FORCED None mem1)"

text \<open>The loop over the candidates of one dependency.\<close>

fun dep_lits ::
  "pkg_store \<Rightarrow> dep_constraint \<Rightarrow> pkg_ptr list \<Rightarrow> int list \<Rightarrow> sat_model \<Rightarrow> mem \<Rightarrow>
   (bool \<times> int list \<times> sat_model \<times> mem) option" where
  "dep_lits st dep [] lits m mem = Some (True, lits, m, mem)"
| "dep_lits st dep (cand # items) lits m mem =
     do {
       skip \<leftarrow> (if dep_op dep \<noteq> VER_OP_ANY
               then do { meta \<leftarrow> st cand; Some (\<not> ver_satisfies (meta_version meta) (dep_op dep) (dep_version dep)) }
               else Some False);
       if skip then dep_lits st dep items lits m mem
       else let (v, m', mem') = sat_model_var m cand mem in
       if v = 0 then Some (False, lits, m', mem')
       else dep_lits st dep items (lits @ [int v]) m' mem'
     }"

fun dependency_loop ::
  "pkg_store \<Rightarrow> candidate_set \<Rightarrow> nat \<Rightarrow> dep_constraint list \<Rightarrow> sat_model \<Rightarrow> mem \<Rightarrow> (bool \<times> sat_model \<times> mem) option" where
  "dependency_loop st cs pkg_var [] m mem = Some (True, m, mem)"
| "dependency_loop st cs pkg_var (dep # deps) m mem =
     do {
       name \<leftarrow> dep_name dep;
       let g = candidate_set_lookup cs name;
       let (ok, mem1) = malloc_ok mem;
       if \<not> ok then Some (False, m, mem1)
       else do {
         (ok, lits, m1, mem2) \<leftarrow>
           dep_lits st dep (case g of None \<Rightarrow> [] | Some grp \<Rightarrow> cg_items grp) [- int pkg_var] m mem1;
         if \<not> ok then Some (False, m1, mem2)
         else let (ok, m2, mem3) = add_clause m1 lits SAT_CLAUSE_DEPENDENCY (dep_name dep) mem2 in
         if \<not> ok then Some (False, m2, mem3) else dependency_loop st cs pkg_var deps m2 mem3
       }
     }"

definition add_dependency_clauses ::
  "pkg_store \<Rightarrow> sat_model \<Rightarrow> candidate_set \<Rightarrow> pkg_ptr \<Rightarrow> mem \<Rightarrow> (bool \<times> sat_model \<times> mem) option" where
  "add_dependency_clauses st m cs pkg mem =
     (let (pkg_var, m1, mem1) = sat_model_var m pkg mem in
      if pkg_var = 0 then Some (False, m1, mem1)
      else do { meta \<leftarrow> st pkg; dependency_loop st cs pkg_var (meta_dependencies meta) m1 mem1 })"

fun conflict_items ::
  "pkg_ptr \<Rightarrow> nat \<Rightarrow> pkg_ptr list \<Rightarrow> sat_model \<Rightarrow> mem \<Rightarrow> bool \<times> sat_model \<times> mem" where
  "conflict_items pkg pkg_var [] m mem = (True, m, mem)"
| "conflict_items pkg pkg_var (other # others) m mem =
     (if other = pkg then conflict_items pkg pkg_var others m mem
      else let (other_var, m1, mem1) = sat_model_var m other mem in
      if other_var = 0 then (False, m1, mem1)
      else let (ok, m2, mem2) = add_clause m1 [- int pkg_var, - int other_var] SAT_CLAUSE_CONFLICT None mem1 in
      if \<not> ok then (False, m2, mem2) else conflict_items pkg pkg_var others m2 mem2)"

fun conflict_loop ::
  "candidate_set \<Rightarrow> pkg_ptr \<Rightarrow> nat \<Rightarrow> str_list \<Rightarrow> sat_model \<Rightarrow> mem \<Rightarrow> bool \<times> sat_model \<times> mem" where
  "conflict_loop cs pkg pkg_var [] m mem = (True, m, mem)"
| "conflict_loop cs pkg pkg_var (item # items) m mem =
     (case item of
        None \<Rightarrow> conflict_loop cs pkg pkg_var items m mem
      | Some name \<Rightarrow>
          (case candidate_set_lookup cs name of
             None \<Rightarrow> conflict_loop cs pkg pkg_var items m mem
           | Some g \<Rightarrow>
               (let (ok, m1, mem1) = conflict_items pkg pkg_var (cg_items g) m mem in
                if \<not> ok then (False, m1, mem1) else conflict_loop cs pkg pkg_var items m1 mem1)))"

definition add_conflict_clauses ::
  "pkg_store \<Rightarrow> sat_model \<Rightarrow> candidate_set \<Rightarrow> pkg_ptr \<Rightarrow> mem \<Rightarrow> (bool \<times> sat_model \<times> mem) option" where
  "add_conflict_clauses st m cs pkg mem =
     (let (pkg_var, m1, mem1) = sat_model_var m pkg mem in
      if pkg_var = 0 then Some (False, m1, mem1)
      else do { meta \<leftarrow> st pkg; Some (conflict_loop cs pkg pkg_var (meta_conflicts meta) m1 mem1) })"

fun sat_model_build ::
  "pkg_store \<Rightarrow> sat_model \<Rightarrow> candidate_set \<Rightarrow> pkg_ptr list \<Rightarrow> mem \<Rightarrow> (bool \<times> sat_model \<times> mem) option" where
  "sat_model_build st m cs [] mem = Some (True, m, mem)"
| "sat_model_build st m cs (pkg # pkgs) mem =
     do {
       (ok, m1, mem1) \<leftarrow> add_dependency_clauses st m cs pkg mem;
       if \<not> ok then Some (False, m1, mem1)
       else do {
         (ok, m2, mem2) \<leftarrow> add_conflict_clauses st m1 cs pkg mem1;
         if \<not> ok then Some (False, m2, mem2) else sat_model_build st m2 cs pkgs mem2
       }
     }"

subsection \<open>Invariant\<close>

definition clause_wf :: "nat \<Rightarrow> sat_clause \<Rightarrow> bool" where
  "clause_wf n c \<longleftrightarrow> cl_lits c \<noteq> [] \<and> (\<forall>l \<in> set (cl_lits c). l \<noteq> 0 \<and> \<bar>l\<bar> \<le> int n) \<and>
     (cl_kind c = SAT_CLAUSE_CONFLICT \<longrightarrow> length (cl_lits c) = 2)"

text \<open>The index sends exactly the packages in \<open>vars\<close> to their position, counted from 1.\<close>

definition index_ok :: "sat_model \<Rightarrow> bool" where
  "index_ok m \<longleftrightarrow> mo_bucket_count m = length (mo_buckets m) \<and>
     (if mo_buckets m = [] then mo_vars m = []
      else buckets_ok ptr_hash (mo_buckets m) \<and>
        (\<forall>p v. bucket_lookup ptr_hash (mo_buckets m) p = Some v \<longleftrightarrow>
           (\<exists>i < length (mo_vars m). v = Suc i \<and> mo_vars m ! i = p)))"

definition mo_inv :: "sat_model \<Rightarrow> bool" where
  "mo_inv m \<longleftrightarrow> index_ok m \<and> length (mo_vars m) \<le> mo_var_cap m \<and> length (mo_clauses m) \<le> mo_clause_cap m \<and>
     (\<forall>c \<in> set (mo_clauses m). clause_wf (length (mo_vars m)) c)"

lemma index_ok_distinct: "index_ok m \<Longrightarrow> distinct (mo_vars m)"
  unfolding distinct_conv_nth index_ok_def by (metis length_0_conv less_nat_zero_code nat.inject option.inject)

lemma sat_model_init_inv: "mo_inv sat_model_init"
  by (simp add: mo_inv_def index_ok_def sat_model_init_def)

subsection \<open>Variables\<close>

lemma index_ok_lookup:
  assumes "index_ok m"
  shows "(if mo_bucket_count m > 0 then chain_get (mo_buckets m ! (ptr_hash p mod mo_bucket_count m)) p else None) = Some v \<longleftrightarrow>
    (\<exists>i < length (mo_vars m). v = Suc i \<and> mo_vars m ! i = p)"
  using assms by (auto simp: index_ok_def bucket_lookup_def split: if_splits)

lemma index_ok_rehash:
  assumes ok: "index_ok m" and n: "0 < n" and r: "var_index_rehash m n mem = (True, m', mem')"
  shows "index_ok m' \<and> mo_buckets m' \<noteq> [] \<and> mo_vars m' = mo_vars m \<and> mo_var_cap m' = mo_var_cap m \<and>
    mo_clauses m' = mo_clauses m \<and> mo_clause_cap m' = mo_clause_cap m"
proof -
  let ?bs = "rehash_buckets ptr_hash n (mo_buckets m) (replicate n [])"
  have m': "m' = m\<lparr>mo_buckets := ?bs, mo_bucket_count := n\<rparr>"
    using r by (auto simp: var_index_rehash_def split: prod.splits if_splits)
  have "length ?bs \<noteq> 0" using n by simp
  then have ne: "?bs \<noteq> []" by (metis list.size(3))
  show ?thesis
  proof (cases "mo_buckets m = []")
    case True
    then show ?thesis
      using m' ok n by (simp add: index_ok_def buckets_ok_empty bucket_lookup_empty)
  next
    case False
    then have "buckets_ok ptr_hash (mo_buckets m)" using ok by (simp add: index_ok_def)
    note re = rehash_ok [OF this n]
    show ?thesis using m' re ok False ne by (simp add: index_ok_def)
  qed
qed

lemma index_ok_push:
  assumes ok: "index_ok m" and ne: "mo_buckets m \<noteq> []" and fresh: "p \<notin> set (mo_vars m)"
  shows "index_ok (m\<lparr>mo_vars := mo_vars m @ [p],
           mo_buckets := bucket_push (mo_buckets m) (ptr_hash p mod mo_bucket_count m) (p, Suc (length (mo_vars m)))\<rparr>)"
proof -
  have b: "buckets_ok ptr_hash (mo_buckets m)" "mo_bucket_count m = length (mo_buckets m)"
    and l: "\<And>q v. bucket_lookup ptr_hash (mo_buckets m) q = Some v \<longleftrightarrow> (\<exists>i < length (mo_vars m). v = Suc i \<and> mo_vars m ! i = q)"
    using ok ne by (simp_all add: index_ok_def)
  have "bucket_lookup ptr_hash (mo_buckets m) p = None"
    using l [of p] fresh by (metis nth_mem option.exhaust)
  note push = buckets_ok_push [OF b(1) this, of "Suc (length (mo_vars m))"]
  have "bucket_push (mo_buckets m) i e \<noteq> []" for i e using ne by (simp add: bucket_push_def)
  then show ?thesis
    using push b(2) fresh l by (auto simp: index_ok_def nth_append less_Suc_eq)
qed

definition mo_grows :: "sat_model \<Rightarrow> pkg_ptr set \<Rightarrow> sat_model \<Rightarrow> bool" where
  "mo_grows m P m' \<longleftrightarrow> (\<exists>ext. mo_vars m' = mo_vars m @ ext \<and> set ext \<subseteq> P)"

lemma mo_grows_refl [simp]: "mo_grows m P m"
  by (simp add: mo_grows_def)

lemma mo_grows_trans: "mo_grows m P m' \<Longrightarrow> mo_grows m' P m'' \<Longrightarrow> mo_grows m P m''"
  by (auto simp: mo_grows_def)

lemma mo_grows_mono: "mo_grows m P m' \<Longrightarrow> P \<subseteq> Q \<Longrightarrow> mo_grows m Q m'"
  by (auto simp: mo_grows_def)

lemma clause_wf_mono: "clause_wf n c \<Longrightarrow> n \<le> k \<Longrightarrow> clause_wf k c"
  by (force simp: clause_wf_def)

lemma sat_model_var_effect:
  assumes inv: "mo_inv m" and s: "sat_model_var m p mem = (v, m', mem')"
  shows "mo_inv m' \<and> mo_clauses m' = mo_clauses m \<and> mo_grows m {p} m' \<and>
    (v \<noteq> 0 \<longrightarrow> v \<le> length (mo_vars m') \<and> mo_vars m' ! (v - 1) = p)"
proof -
  have ok: "index_ok m" using inv by (simp add: mo_inv_def)
  let ?l = "if mo_bucket_count m > 0 then chain_get (mo_buckets m ! (ptr_hash p mod mo_bucket_count m)) p else None"
  show ?thesis
  proof (cases ?l)
    case (Some w)
    then have "v = w" "m' = m" using s by (auto simp: sat_model_var_def)
    then show ?thesis using Some index_ok_lookup [OF ok, of p w] inv by auto
  next
    case None
    then have fresh: "p \<notin> set (mo_vars m)" using index_ok_lookup [OF ok, of p] by (auto simp: in_set_conv_nth)
    obtain ok1 cap mem1 where r: "reserve SAT_VAR_INITIAL_CAP (length (mo_vars m)) (mo_var_cap m) mem = (ok1, cap, mem1)"
      by (metis prod_cases3)
    have cap: "mo_var_cap m \<le> cap" using r by (rule reserve_cap_mono)
    let ?m1 = "m\<lparr>mo_var_cap := cap\<rparr>"
    let ?grow = "length (mo_vars m) + 1 > mo_bucket_count m - mo_bucket_count m div 4"
    let ?n = "if mo_bucket_count m \<noteq> 0 then mo_bucket_count m * 2 else VAR_INDEX_INITIAL_BUCKETS"
    obtain ok2 m2 mem2 where m2: "(if ?grow then var_index_rehash ?m1 ?n mem1 else (True, ?m1, mem1)) = (ok2, m2, mem2)"
      by (metis prod_cases3)
    obtain ok3 mem3 where m3: "malloc_ok mem2 = (ok3, mem3)" by fastforce
    have ok1': "index_ok ?m1" using ok by (simp add: index_ok_def)
    have ix2: "index_ok m2 \<and> mo_buckets m2 \<noteq> [] \<and> mo_vars m2 = mo_vars m \<and> mo_var_cap m2 = cap \<and>
        mo_clauses m2 = mo_clauses m \<and> mo_clause_cap m2 = mo_clause_cap m" if ok2
    proof (cases ?grow)
      case True
      moreover have "0 < ?n" by (simp add: VAR_INDEX_INITIAL_BUCKETS_def)
      ultimately show ?thesis using index_ok_rehash [OF ok1', of ?n mem1 m2 mem2] m2 that by auto
    next
      case False
      then have "mo_buckets m \<noteq> []" using ok by (auto simp: index_ok_def)
      then show ?thesis using m2 False ok1' by auto
    qed
    consider (f1) "\<not> ok1" | (f2) "ok1" "\<not> ok2" | (f3) "ok1" "ok2" "\<not> ok3" | (new) "ok1" "ok2" "ok3" by blast
    then show ?thesis
    proof cases
      case f1
      then show ?thesis using s None r inv by (simp add: sat_model_var_def)
    next
      case f2
      have "m2 = ?m1" using m2 f2 by (auto simp: var_index_rehash_def split: prod.splits if_splits)
      then have "m' = ?m1" "v = 0" using s None r m2 f2 by (auto simp: sat_model_var_def Let_def split: if_splits)
      then show ?thesis using inv cap ok1' by (auto simp: mo_inv_def mo_grows_def)
    next
      case f3
      then have "m' = m2" "v = 0" using s None r m2 m3 by (auto simp: sat_model_var_def Let_def split: if_splits)
      then show ?thesis using inv cap ix2 f3 by (simp add: mo_inv_def mo_grows_def)
    next
      case new
      let ?b = "bucket_push (mo_buckets m2) (ptr_hash p mod mo_bucket_count m2) (p, Suc (length (mo_vars m2)))"
      have m': "m' = m2\<lparr>mo_vars := mo_vars m2 @ [p], mo_buckets := ?b\<rparr>" "v = Suc (length (mo_vars m2))"
        using s None r m2 m3 new by (auto simp: sat_model_var_def Let_def split: if_splits)
      have ix: "index_ok m2" "mo_buckets m2 \<noteq> []" "mo_vars m2 = mo_vars m" "mo_var_cap m2 = cap"
        "mo_clauses m2 = mo_clauses m" "mo_clause_cap m2 = mo_clause_cap m" using ix2 new by simp_all
      have "index_ok m'" unfolding m' by (rule index_ok_push) (use ix fresh in simp_all)
      moreover have "length (mo_vars m) < cap"
        using reserve_room [of SAT_VAR_INITIAL_CAP "length (mo_vars m)" "mo_var_cap m" mem cap mem1] r new inv
        by (simp add: mo_inv_def SAT_VAR_INITIAL_CAP_def)
      ultimately show ?thesis
        using inv ix unfolding m' by (auto simp: mo_inv_def mo_grows_def intro: clause_wf_mono)
    qed
  qed
qed

lemma sat_model_var_no_oom:
  assumes "mo_inv m" and "no_oom mem"
  shows "\<exists>v m' mem'. sat_model_var m p mem = (v, m', mem') \<and> v \<noteq> 0 \<and> no_oom mem'"
proof -
  have ok: "index_ok m" using assms(1) by (simp add: mo_inv_def)
  let ?l = "if mo_bucket_count m > 0 then chain_get (mo_buckets m ! (ptr_hash p mod mo_bucket_count m)) p else None"
  show ?thesis
  proof (cases ?l)
    case (Some w)
    then show ?thesis using index_ok_lookup [OF ok, of p w] assms(2) by (auto simp: sat_model_var_def)
  next
    case None
    obtain cap mem1 where r: "reserve SAT_VAR_INITIAL_CAP (length (mo_vars m)) (mo_var_cap m) mem = (True, cap, mem1)"
      "no_oom mem1" using reserve_no_oomE [OF assms(2)] by blast
    obtain mem2 where m2: "malloc_ok mem1 = (True, mem2)" "no_oom mem2" using r(2) by (rule malloc_no_oomE)
    obtain mem3 where m3: "malloc_ok mem2 = (True, mem3)" "no_oom mem3" using m2(2) by (rule malloc_no_oomE)
    show ?thesis using None r m2 m3 by (auto simp: sat_model_var_def var_index_rehash_def Let_def)
  qed
qed

subsection \<open>What the clauses mean\<close>

text \<open>Literals, clauses and models under a set \<open>S\<close> of selected packages.\<close>

definition lit_holds :: "pkg_ptr list \<Rightarrow> pkg_ptr set \<Rightarrow> int \<Rightarrow> bool" where
  "lit_holds vars S l \<longleftrightarrow> (if l > 0 then vars ! (nat l - 1) \<in> S else vars ! (nat (- l) - 1) \<notin> S)"

definition mo_holds :: "sat_model \<Rightarrow> pkg_ptr set \<Rightarrow> bool" where
  "mo_holds m S \<longleftrightarrow> (\<forall>c \<in> set (mo_clauses m). \<exists>l \<in> set (cl_lits c). lit_holds (mo_vars m) S l)"

definition lits_wf :: "nat \<Rightarrow> int list \<Rightarrow> bool" where
  "lits_wf n lits \<longleftrightarrow> (\<forall>l \<in> set lits. l \<noteq> 0 \<and> \<bar>l\<bar> \<le> int n)"

definition var_of :: "sat_model \<Rightarrow> nat \<Rightarrow> pkg_ptr \<Rightarrow> bool" where
  "var_of m v p \<longleftrightarrow> v \<noteq> 0 \<and> v \<le> length (mo_vars m) \<and> mo_vars m ! (v - 1) = p"

lemma lit_holds_append:
  "l \<noteq> 0 \<Longrightarrow> \<bar>l\<bar> \<le> int (length vars) \<Longrightarrow> lit_holds (vars @ ext) S l \<longleftrightarrow> lit_holds vars S l"
  by (auto simp: lit_holds_def nth_append)

lemma lit_holds_grows:
  "mo_grows m P m' \<Longrightarrow> l \<noteq> 0 \<Longrightarrow> \<bar>l\<bar> \<le> int (length (mo_vars m)) \<Longrightarrow>
   lit_holds (mo_vars m') S l \<longleftrightarrow> lit_holds (mo_vars m) S l"
  by (auto simp: mo_grows_def lit_holds_append)

lemma mo_holds_grows:
  assumes "mo_inv m" and g: "mo_grows m P m'" and "mo_clauses m' = mo_clauses m"
  shows "mo_holds m' S \<longleftrightarrow> mo_holds m S"
  using assms lit_holds_grows [OF g, of _ S] unfolding mo_holds_def mo_inv_def clause_wf_def by metis

lemma var_of_grows: "var_of m v p \<Longrightarrow> mo_grows m P m' \<Longrightarrow> var_of m' v p"
  by (auto simp: var_of_def mo_grows_def nth_append)

lemma var_of_mem: "var_of m v p \<Longrightarrow> p \<in> set (mo_vars m)"
  by (auto simp: var_of_def intro!: nth_mem)

lemma mo_grows_vars: "mo_grows m P m1 \<Longrightarrow> mo_vars m' = mo_vars m1 \<Longrightarrow> mo_grows m P m'"
  by (simp add: mo_grows_def)

lemma var_of_lit:
  assumes "var_of m v p"
  shows "lit_holds (mo_vars m) S (int v) \<longleftrightarrow> p \<in> S" and "lit_holds (mo_vars m) S (- int v) \<longleftrightarrow> p \<notin> S"
  using assms by (auto simp: var_of_def lit_holds_def)

lemma var_of_wf: "var_of m v p \<Longrightarrow> lits_wf (length (mo_vars m)) [int v] \<and> lits_wf (length (mo_vars m)) [- int v]"
  by (auto simp: var_of_def lits_wf_def)

lemma lits_wf_append [simp]: "lits_wf n (xs @ ys) \<longleftrightarrow> lits_wf n xs \<and> lits_wf n ys"
  by (auto simp: lits_wf_def)

lemma lits_wf_pair: "lits_wf n [x, y] \<longleftrightarrow> lits_wf n [x] \<and> lits_wf n [y]"
  by (auto simp: lits_wf_def)

lemma lits_wf_grows: "lits_wf (length (mo_vars m)) lits \<Longrightarrow> mo_grows m P m' \<Longrightarrow> lits_wf (length (mo_vars m')) lits"
  by (fastforce simp: lits_wf_def mo_grows_def)

lemma add_clause_effect:
  assumes inv: "mo_inv m" and wf: "lits \<noteq> []" "lits_wf (length (mo_vars m)) lits"
    "kind = SAT_CLAUSE_CONFLICT \<longrightarrow> length lits = 2" and a: "add_clause m lits kind d mem = (ok, m', mem')"
  shows "mo_inv m' \<and> mo_vars m' = mo_vars m \<and>
    (ok \<longrightarrow> (\<forall>S. mo_holds m' S \<longleftrightarrow> mo_holds m S \<and> (\<exists>l \<in> set lits. lit_holds (mo_vars m) S l)))"
proof -
  obtain ok1 cap mem1 where
    r: "reserve SAT_CLAUSE_INITIAL_CAP (length (mo_clauses m)) (mo_clause_cap m) mem = (ok1, cap, mem1)"
    by (metis prod_cases3)
  obtain ok2 mem2 where m2: "malloc_ok mem1 = (ok2, mem2)" by fastforce
  have cap: "mo_clause_cap m \<le> cap" using r by (rule reserve_cap_mono)
  have room: "ok1 \<Longrightarrow> length (mo_clauses m) < cap"
    using reserve_room [of SAT_CLAUSE_INITIAL_CAP "length (mo_clauses m)" "mo_clause_cap m" mem cap mem1] r inv
    by (simp add: mo_inv_def SAT_CLAUSE_INITIAL_CAP_def)
  let ?m2 = "m\<lparr>mo_clause_cap := cap, mo_clauses := mo_clauses m @ [\<lparr>cl_lits = lits, cl_kind = kind, cl_dep_name = d\<rparr>]\<rparr>"
  have "add_clause m lits kind d mem =
      (if \<not> ok1 then (False, m, mem1) else if \<not> ok2 then (False, m\<lparr>mo_clause_cap := cap\<rparr>, mem2) else (True, ?m2, mem2))"
    using r m2 wf(1) by (simp add: add_clause_def Let_def)
  then consider (fail) "\<not> ok" "m' = m \<or> m' = m\<lparr>mo_clause_cap := cap\<rparr>" | (added) "ok" "ok1" "m' = ?m2"
    using a by (auto split: if_splits)
  then show ?thesis
  proof cases
    case fail
    then show ?thesis using inv cap by (auto simp: mo_inv_def index_ok_def)
  next
    case added
    then show ?thesis
      using inv room wf by (auto simp: mo_inv_def index_ok_def clause_wf_def lits_wf_def mo_holds_def)
  qed
qed

lemma add_clause_no_oom:
  assumes "no_oom mem"
  shows "\<exists>m' mem'. add_clause m lits kind d mem = (True, m', mem') \<and> no_oom mem'"
proof -
  obtain cap mem1 where r: "reserve SAT_CLAUSE_INITIAL_CAP (length (mo_clauses m)) (mo_clause_cap m) mem = (True, cap, mem1)"
    "no_oom mem1" using reserve_no_oomE [OF assms] by blast
  obtain mem2 where "malloc_ok mem1 = (True, mem2)" "no_oom mem2" using r(2) by (rule malloc_no_oomE)
  then show ?thesis using r by (auto simp: add_clause_def Let_def)
qed

lemma sat_model_var_step:
  assumes "mo_inv m" and "sat_model_var m p mem = (v, m', mem')"
  shows "mo_inv m'" "mo_grows m {p} m'" "mo_clauses m' = mo_clauses m" "v \<noteq> 0 \<Longrightarrow> var_of m' v p"
    "mo_holds m' S \<longleftrightarrow> mo_holds m S"
  using sat_model_var_effect [OF assms] mo_holds_grows [OF assms(1), of "{p}" m' S] by (auto simp: var_of_def)

lemma sat_model_force_effect:
  assumes "mo_inv m" and "sat_model_force m p mem = (ok, m', mem')"
  shows "mo_inv m' \<and> mo_grows m {p} m' \<and> (ok \<longrightarrow> p \<in> set (mo_vars m') \<and> (\<forall>S. mo_holds m' S \<longleftrightarrow> mo_holds m S \<and> p \<in> S))"
proof -
  obtain v m1 mem1 where v: "sat_model_var m p mem = (v, m1, mem1)" by (metis prod_cases3)
  note st = sat_model_var_step [OF assms(1) v]
  show ?thesis
  proof (cases "v = 0")
    case True
    then show ?thesis using assms(2) v st by (simp add: sat_model_force_def)
  next
    case False
    then have a: "add_clause m1 [int v] SAT_CLAUSE_FORCED None mem1 = (ok, m', mem')"
      using assms(2) v by (simp add: sat_model_force_def)
    have vo: "var_of m1 v p" using st False by simp
    from add_clause_effect [OF st(1) _ _ _ a] var_of_wf [OF vo] var_of_lit(1) [OF vo] st(5)
    show ?thesis using var_of_mem [OF vo] mo_grows_vars [OF st(2)] by auto
  qed
qed

subsection \<open>Dependencies\<close>

definition meets :: "pkg_store \<Rightarrow> dep_constraint \<Rightarrow> pkg_ptr \<Rightarrow> bool" where
  "meets st dep q \<longleftrightarrow> dep_op dep = VER_OP_ANY \<or> ver_satisfies (meta_version (the (st q))) (dep_op dep) (dep_version dep)"

definition dep_provided :: "pkg_store \<Rightarrow> candidate_set \<Rightarrow> pkg_ptr set \<Rightarrow> dep_constraint \<Rightarrow> bool" where
  "dep_provided st cs S dep \<longleftrightarrow> (\<exists>q \<in> set (cands cs (the (dep_name dep))). meets st dep q \<and> q \<in> S)"

definition all_cands :: "candidate_set \<Rightarrow> pkg_ptr set" where
  "all_cands cs = (\<Union>a. set (cands cs a))"

lemma lookup_items: "(case candidate_set_lookup cs name of None \<Rightarrow> [] | Some grp \<Rightarrow> cg_items grp) = cands cs name"
  by (simp add: cands_def)

lemma dep_lits_skip:
  "st cand \<noteq> None \<Longrightarrow>
   dep_lits st dep (cand # items) lits m mem =
     (if \<not> meets st dep cand then dep_lits st dep items lits m mem
      else let (v, m', mem') = sat_model_var m cand mem in
        if v = 0 then Some (False, lits, m', mem') else dep_lits st dep items (lits @ [int v]) m' mem')"
  by (auto simp: meets_def)

lemma dep_lits_effect:
  assumes "mo_inv m" and "\<forall>q \<in> set items. st q \<noteq> None" and "lits_wf (length (mo_vars m)) lits"
    and "dep_lits st dep items lits m mem = Some (ok, lits', m', mem')"
  shows "mo_inv m' \<and> mo_grows m (set items) m' \<and> mo_clauses m' = mo_clauses m \<and> set lits \<subseteq> set lits' \<and>
    lits_wf (length (mo_vars m')) lits' \<and>
    (ok \<longrightarrow> (\<forall>S. (\<exists>l \<in> set lits'. lit_holds (mo_vars m') S l) \<longleftrightarrow>
       (\<exists>l \<in> set lits. lit_holds (mo_vars m) S l) \<or> (\<exists>q \<in> set items. meets st dep q \<and> q \<in> S)))"
  using assms
proof (induction items arbitrary: m lits mem)
  case (Cons cand items)
  have c: "st cand \<noteq> None" using Cons.prems(2) by simp
  show ?case
  proof (cases "meets st dep cand")
    case False
    then have rest: "dep_lits st dep items lits m mem = Some (ok, lits', m', mem')"
      using Cons.prems(4) by (simp add: dep_lits_skip [of st cand, OF c] del: dep_lits.simps)
    note ih = Cons.IH [OF Cons.prems(1) _ Cons.prems(3) rest]
    then have "mo_grows m (set (cand # items)) m'"
      using Cons.prems(2) mo_grows_mono [of m "set items" m' "set (cand # items)"] by auto
    then show ?thesis using ih Cons.prems(2) False by simp
  next
    case True
    obtain v m1 mem1 where v: "sat_model_var m cand mem = (v, m1, mem1)" by (metis prod_cases3)
    note st = sat_model_var_step [OF Cons.prems(1) v]
    have wf: "lits_wf (length (mo_vars m1)) lits" using Cons.prems(3) st(2) by (rule lits_wf_grows)
    show ?thesis
    proof (cases "v = 0")
      case v0: True
      then have "ok = False" "lits' = lits" "m' = m1"
        using Cons.prems(4) v True by (auto simp: dep_lits_skip [of st cand, OF c] simp del: dep_lits.simps)
      then show ?thesis using st wf by (auto intro: mo_grows_mono)
    next
      case False
      then have rest: "dep_lits st dep items (lits @ [int v]) m1 mem1 = Some (ok, lits', m', mem')"
        using Cons.prems(4) v True by (simp add: dep_lits_skip [of st cand, OF c] del: dep_lits.simps)
      have vo: "var_of m1 v cand" using st(4) False by simp
      note ih = Cons.IH [OF st(1) _ _ rest]
      have old: "(\<exists>l \<in> set lits. lit_holds (mo_vars m1) S l) \<longleftrightarrow> (\<exists>l \<in> set lits. lit_holds (mo_vars m) S l)" for S
        using Cons.prems(3) lit_holds_grows [OF st(2)] by (auto simp: lits_wf_def)
      have "mo_grows m (set (cand # items)) m1" using st(2) by (rule mo_grows_mono) simp
      moreover have "mo_grows m1 (set items) m'" using ih Cons.prems(2) wf var_of_wf [OF vo] by simp
      ultimately have "mo_grows m (set (cand # items)) m'" by (meson mo_grows_mono mo_grows_trans set_subset_Cons)
      then show ?thesis
        using ih Cons.prems(2) wf var_of_wf [OF vo] st(3) True old var_of_lit(1) [OF vo] by auto
    qed
  qed
qed simp

lemma dep_lits_no_oom:
  assumes "mo_inv m" and "\<forall>q \<in> set items. st q \<noteq> None" and "no_oom mem"
  shows "\<exists>lits' m' mem'. dep_lits st dep items lits m mem = Some (True, lits', m', mem') \<and> no_oom mem'"
  using assms
proof (induction items arbitrary: m lits mem)
  case (Cons cand items)
  have c: "st cand \<noteq> None" using Cons.prems(2) by simp
  obtain v m1 mem1 where v: "sat_model_var m cand mem = (v, m1, mem1)" "v \<noteq> 0" "no_oom mem1"
    using sat_model_var_no_oom [OF Cons.prems(1,3)] by blast
  have "mo_inv m1" using sat_model_var_step [OF Cons.prems(1) v(1)] by simp
  then show ?case
    using Cons.IH [of m mem lits] Cons.IH [of m1 mem1 "lits @ [int v]"] Cons.prems v
    by (simp add: dep_lits_skip [of st cand, OF c] del: dep_lits.simps)
qed simp

lemma dep_lits_safe:
  "\<forall>q \<in> set items. st q \<noteq> None \<Longrightarrow> dep_lits st dep items lits m mem \<noteq> None"
proof (induction items arbitrary: m lits mem)
  case (Cons cand items)
  have c: "st cand \<noteq> None" using Cons.prems by simp
  obtain v m1 mem1 where v: "sat_model_var m cand mem = (v, m1, mem1)" by (metis prod_cases3)
  then show ?case using Cons.IH Cons.prems by (auto simp: dep_lits_skip [of st cand, OF c] simp del: dep_lits.simps)
qed simp

lemma dependency_loop_effect:
  assumes "mo_inv m" and "var_of m v p" and "\<forall>q \<in> all_cands cs. st q \<noteq> None"
    and "dependency_loop st cs v deps m mem = Some (ok, m', mem')"
  shows "mo_inv m' \<and> mo_grows m (all_cands cs) m' \<and>
    (ok \<longrightarrow> (\<forall>S. mo_holds m' S \<longleftrightarrow> mo_holds m S \<and> (p \<in> S \<longrightarrow> (\<forall>dep \<in> set deps. dep_provided st cs S dep))))"
  using assms
proof (induction deps arbitrary: m mem)
  case (Cons dep deps)
  obtain name where name: "dep_name dep = Some name" using Cons.prems(4) by (cases "dep_name dep") auto
  obtain ok1 mem1 where a1: "malloc_ok mem = (ok1, mem1)" by fastforce
  have items: "\<forall>q \<in> set (cands cs name). st q \<noteq> None" "set (cands cs name) \<subseteq> all_cands cs"
    using Cons.prems(3) by (auto simp: all_cands_def)
  show ?case
  proof (cases ok1)
    case False
    then show ?thesis using Cons.prems(1,4) name a1 by simp
  next
    case True
    obtain ok2 lits m1 mem2 where d: "dep_lits st dep (cands cs name) [- int v] m mem1 = Some (ok2, lits, m1, mem2)"
      using dep_lits_safe [OF items(1)] by (metis not_None_eq prod_cases4)
    note eff = dep_lits_effect [OF Cons.prems(1) items(1) conjunct2 [OF var_of_wf [OF Cons.prems(2)]] d]
    have g1: "mo_grows m (all_cands cs) m1" using eff items(2) by (auto intro: mo_grows_mono)
    have same: "mo_holds m1 S \<longleftrightarrow> mo_holds m S" for S using mo_holds_grows [OF Cons.prems(1) g1] eff by simp
    show ?thesis
    proof (cases ok2)
      case False
      then show ?thesis using Cons.prems(4) name a1 True d eff g1 by (auto simp: lookup_items)
    next
      case ok2: True
      obtain ok3 m2 mem3 where ac: "add_clause m1 lits SAT_CLAUSE_DEPENDENCY (Some name) mem2 = (ok3, m2, mem3)"
        by (metis prod_cases3)
      have "lits \<noteq> []" using eff by auto
      note eff2 = add_clause_effect [OF _ this _ _ ac]
      have inv2: "mo_inv m2" "mo_vars m2 = mo_vars m1" using eff2 eff by simp_all
      have g2: "mo_grows m (all_cands cs) m2" using g1 inv2(2) by (rule mo_grows_vars)
      show ?thesis
      proof (cases ok3)
        case False
        then show ?thesis using Cons.prems(4) name a1 True d ok2 ac inv2 g2 by (auto simp: lookup_items)
      next
        case ok3: True
        then have rest: "dependency_loop st cs v deps m2 mem3 = Some (ok, m', mem')"
          using Cons.prems(4) name a1 True d ok2 ac by (simp add: lookup_items)
        have vo: "var_of m2 v p" using Cons.prems(2) g2 by (rule var_of_grows)
        note ih = Cons.IH [OF inv2(1) vo Cons.prems(3) rest]
        have "mo_holds m2 S \<longleftrightarrow> mo_holds m S \<and> (p \<in> S \<longrightarrow> dep_provided st cs S dep)" for S
          using eff2 eff ok3 ok2 same var_of_lit(2) [OF Cons.prems(2), of S] name
          by (auto simp: dep_provided_def)
        then show ?thesis using ih g2 by (auto intro: mo_grows_trans)
      qed
    qed
  qed
qed simp

lemma dependency_loop_safe:
  assumes "\<forall>q \<in> all_cands cs. st q \<noteq> None" and "\<forall>dep \<in> set deps. dep_name dep \<noteq> None"
  shows "dependency_loop st cs v deps m mem \<noteq> None"
  using assms(2)
proof (induction deps arbitrary: m mem)
  case (Cons dep deps)
  obtain name where name: "dep_name dep = Some name" using Cons.prems by (cases "dep_name dep") auto
  obtain ok1 mem1 where a1: "malloc_ok mem = (ok1, mem1)" by fastforce
  have items: "\<forall>q \<in> set (cands cs name). st q \<noteq> None" using assms(1) by (auto simp: all_cands_def)
  obtain ok2 lits m1 mem2 where d: "dep_lits st dep (cands cs name) [- int v] m mem1 = Some (ok2, lits, m1, mem2)"
    using dep_lits_safe [OF items] by (metis not_None_eq prod_cases4)
  obtain ok3 m2 mem3 where "add_clause m1 lits SAT_CLAUSE_DEPENDENCY (Some name) mem2 = (ok3, m2, mem3)"
    by (metis prod_cases3)
  then show ?case using Cons name a1 d by (auto simp: lookup_items)
qed simp

lemma dependency_loop_no_oom:
  assumes "mo_inv m" and "var_of m v p" and "\<forall>q \<in> all_cands cs. st q \<noteq> None"
    and "\<forall>dep \<in> set deps. dep_name dep \<noteq> None" and "no_oom mem"
  shows "\<exists>m' mem'. dependency_loop st cs v deps m mem = Some (True, m', mem') \<and> no_oom mem'"
  using assms
proof (induction deps arbitrary: m mem)
  case (Cons dep deps)
  obtain name where name: "dep_name dep = Some name" using Cons.prems by (cases "dep_name dep") auto
  obtain mem1 where a1: "malloc_ok mem = (True, mem1)" "no_oom mem1" using Cons.prems(5) by (rule malloc_no_oomE)
  have items: "\<forall>q \<in> set (cands cs name). st q \<noteq> None" "set (cands cs name) \<subseteq> all_cands cs"
    using Cons.prems(3) by (auto simp: all_cands_def)
  obtain lits m1 mem2 where d: "dep_lits st dep (cands cs name) [- int v] m mem1 = Some (True, lits, m1, mem2)"
    "no_oom mem2" using dep_lits_no_oom [OF Cons.prems(1) items(1) a1(2)] by blast
  note eff = dep_lits_effect [OF Cons.prems(1) items(1) conjunct2 [OF var_of_wf [OF Cons.prems(2)]] d(1)]
  obtain m2 mem3 where ac: "add_clause m1 lits SAT_CLAUSE_DEPENDENCY (Some name) mem2 = (True, m2, mem3)" "no_oom mem3"
    using add_clause_no_oom [OF d(2)] by blast
  have "lits \<noteq> []" using eff by auto
  from add_clause_effect [OF _ this _ _ ac(1)] have inv2: "mo_inv m2" "mo_vars m2 = mo_vars m1" using eff by simp_all
  have "mo_grows m (set (cands cs name)) m2" by (rule mo_grows_vars [OF _ inv2(2)]) (use eff in simp)
  with Cons.prems(2) have "var_of m2 v p" by (rule var_of_grows)
  then show ?case using Cons.IH [OF inv2(1) _ Cons.prems(3) _ ac(2)] Cons.prems(4) name a1 d ac by (simp add: lookup_items)
qed simp

subsection \<open>Conflicts\<close>

lemma conflict_items_effect:
  assumes "mo_inv m" and "var_of m v p" and "conflict_items p v items m mem = (ok, m', mem')"
  shows "mo_inv m' \<and> mo_grows m (set items) m' \<and>
    (ok \<longrightarrow> (\<forall>S. mo_holds m' S \<longleftrightarrow> mo_holds m S \<and> (p \<in> S \<longrightarrow> (\<forall>q \<in> set items. q \<noteq> p \<longrightarrow> q \<notin> S))))"
  using assms
proof (induction items arbitrary: m mem)
  case (Cons q items)
  show ?case
  proof (cases "q = p")
    case True
    then have "conflict_items p v items m mem = (ok, m', mem')" using Cons.prems(3) by simp
    note ih = Cons.IH [OF Cons.prems(1,2) this]
    have "mo_grows m (set items) m' \<Longrightarrow> mo_grows m (set (q # items)) m'" by (rule mo_grows_mono) auto
    then show ?thesis using ih True by simp
  next
    case False
    obtain w m1 mem1 where w: "sat_model_var m q mem = (w, m1, mem1)" by (metis prod_cases3)
    note st = sat_model_var_step [OF Cons.prems(1) w]
    have g1: "mo_grows m (set (q # items)) m1" using st(2) by (rule mo_grows_mono) simp
    show ?thesis
    proof (cases "w = 0")
      case True
      then show ?thesis using Cons.prems(3) False w st g1 by auto
    next
      case w0: False
      have vo: "var_of m1 v p" "var_of m1 w q" using var_of_grows [OF Cons.prems(2) st(2)] st(4) w0 by simp_all
      obtain ok2 m2 mem2 where ac: "add_clause m1 [- int v, - int w] SAT_CLAUSE_CONFLICT None mem1 = (ok2, m2, mem2)"
        by (metis prod_cases3)
      have eff: "mo_inv m2" "mo_vars m2 = mo_vars m1"
        "ok2 \<Longrightarrow> mo_holds m2 S \<longleftrightarrow> mo_holds m S \<and> (p \<in> S \<longrightarrow> q \<notin> S)" for S
        using add_clause_effect [OF st(1) _ _ _ ac] var_of_wf [OF vo(1)] var_of_wf [OF vo(2)]
          var_of_lit(2) [OF vo(1)] var_of_lit(2) [OF vo(2)] st(5) by (auto simp: lits_wf_pair)
      have g2: "mo_grows m (set (q # items)) m2" using g1 eff(2) by (rule mo_grows_vars)
      show ?thesis
      proof (cases ok2)
        case True
        then have rest: "conflict_items p v items m2 mem2 = (ok, m', mem')"
          using Cons.prems(3) False w w0 ac by simp
        have vo2: "var_of m2 v p" using Cons.prems(2) g2 by (rule var_of_grows)
        note ih = Cons.IH [OF eff(1) vo2 rest]
        have "mo_grows m2 (set (q # items)) m'" using ih by (auto intro: mo_grows_mono)
        then have "mo_grows m (set (q # items)) m'" using g2 mo_grows_trans by blast
        then show ?thesis using ih eff(3) [OF True] False by auto
      qed (use Cons.prems(3) False w w0 ac eff g2 in auto)
    qed
  qed
qed simp

lemma conflict_items_no_oom:
  assumes "mo_inv m" and "var_of m v p" and "no_oom mem"
  shows "\<exists>m' mem'. conflict_items p v items m mem = (True, m', mem') \<and> no_oom mem'"
  using assms
proof (induction items arbitrary: m mem)
  case (Cons q items)
  obtain w m1 mem1 where w: "sat_model_var m q mem = (w, m1, mem1)" "w \<noteq> 0" "no_oom mem1"
    using sat_model_var_no_oom [OF Cons.prems(1,3)] by blast
  note st = sat_model_var_step [OF Cons.prems(1) w(1)]
  have vo: "var_of m1 v p" "var_of m1 w q" using var_of_grows [OF Cons.prems(2) st(2)] st(4) w by simp_all
  obtain m2 mem2 where ac: "add_clause m1 [- int v, - int w] SAT_CLAUSE_CONFLICT None mem1 = (True, m2, mem2)"
    "no_oom mem2" using add_clause_no_oom [OF w(3)] by blast
  have eff: "mo_inv m2" "mo_vars m2 = mo_vars m1"
    using add_clause_effect [OF st(1) _ _ _ ac(1)] var_of_wf [OF vo(1)] var_of_wf [OF vo(2)]
    by (auto simp: lits_wf_pair)
  have "var_of m2 v p" using vo(1) eff(2) by (simp add: var_of_def)
  then show ?case
    using Cons.IH [OF eff(1) _ ac(2)] Cons.IH [OF Cons.prems] w ac by simp
qed simp

definition conflict_free :: "candidate_set \<Rightarrow> pkg_ptr set \<Rightarrow> pkg_ptr \<Rightarrow> str_list \<Rightarrow> bool" where
  "conflict_free cs S p items \<longleftrightarrow> (\<forall>name. Some name \<in> set items \<longrightarrow> (\<forall>q \<in> set (cands cs name). q \<noteq> p \<longrightarrow> q \<notin> S))"

lemma conflict_loop_step:
  "conflict_loop cs p v (item # items) m mem =
     (case item of
        None \<Rightarrow> conflict_loop cs p v items m mem
      | Some name \<Rightarrow>
          (let (ok, m1, mem1) = conflict_items p v (cands cs name) m mem in
           if \<not> ok then (False, m1, mem1) else conflict_loop cs p v items m1 mem1))"
  by (auto simp: cands_def split: option.split)

lemma conflict_loop_effect:
  assumes "mo_inv m" and "var_of m v p" and "conflict_loop cs p v items m mem = (ok, m', mem')"
  shows "mo_inv m' \<and> mo_grows m (all_cands cs) m' \<and>
    (ok \<longrightarrow> (\<forall>S. mo_holds m' S \<longleftrightarrow> mo_holds m S \<and> (p \<in> S \<longrightarrow> conflict_free cs S p items)))"
  using assms
proof (induction items arbitrary: m mem)
  case Nil
  then show ?case by (simp add: conflict_free_def)
next
  case (Cons item items)
  show ?case
  proof (cases item)
    case None
    then show ?thesis
      using Cons.IH [OF Cons.prems(1,2)] Cons.prems(3) by (auto simp: conflict_free_def)
  next
    case (Some name)
    obtain ok1 m1 mem1 where c: "conflict_items p v (cands cs name) m mem = (ok1, m1, mem1)" by (metis prod_cases3)
    note eff = conflict_items_effect [OF Cons.prems(1,2) c]
    have "set (cands cs name) \<subseteq> all_cands cs" by (auto simp: all_cands_def)
    then have g1: "mo_grows m (all_cands cs) m1" using eff by (auto intro: mo_grows_mono)
    show ?thesis
    proof (cases ok1)
      case True
      then have rest: "conflict_loop cs p v items m1 mem1 = (ok, m', mem')"
        using Cons.prems(3) Some c by (simp add: conflict_loop_step del: conflict_loop.simps)
      have "var_of m1 v p" using Cons.prems(2) g1 by (rule var_of_grows)
      note ih = Cons.IH [OF _ this rest]
      have "mo_grows m (all_cands cs) m'" by (rule mo_grows_trans [OF g1]) (use ih eff in simp)
      then show ?thesis using ih eff True Some by (auto simp: conflict_free_def)
    qed (use Cons.prems(3) Some c eff g1 in \<open>auto simp: conflict_loop_step simp del: conflict_loop.simps\<close>)
  qed
qed

lemma conflict_loop_no_oom:
  assumes "mo_inv m" and "var_of m v p" and "no_oom mem"
  shows "\<exists>m' mem'. conflict_loop cs p v items m mem = (True, m', mem') \<and> no_oom mem'"
  using assms
proof (induction items arbitrary: m mem)
  case (Cons item items)
  show ?case
  proof (cases item)
    case (Some name)
    obtain m1 mem1 where c: "conflict_items p v (cands cs name) m mem = (True, m1, mem1)" "no_oom mem1"
      using conflict_items_no_oom [OF Cons.prems] by blast
    note eff = conflict_items_effect [OF Cons.prems(1,2) c(1)]
    then have "var_of m1 v p" using var_of_grows [OF Cons.prems(2)] by blast
    then show ?thesis
      using Cons.IH [of m1 mem1] eff c Some by (simp add: conflict_loop_step del: conflict_loop.simps)
  qed (use Cons in simp)
qed simp

subsection \<open>The whole model\<close>

text \<open>
  A selection is consistent at a package when the package, if selected, has every dependency
  provided by a selected candidate and no other selected package stands for a name it
  conflicts with.
\<close>

definition deps_met :: "pkg_store \<Rightarrow> candidate_set \<Rightarrow> pkg_ptr set \<Rightarrow> pkg_ptr \<Rightarrow> bool" where
  "deps_met st cs S p \<longleftrightarrow> (\<forall>dep \<in> set (meta_dependencies (the (st p))). dep_provided st cs S dep)"

definition pkg_consistent :: "pkg_store \<Rightarrow> candidate_set \<Rightarrow> pkg_ptr set \<Rightarrow> pkg_ptr \<Rightarrow> bool" where
  "pkg_consistent st cs S p \<longleftrightarrow> (p \<in> S \<longrightarrow> deps_met st cs S p \<and> conflict_free cs S p (meta_conflicts (the (st p))))"

definition cands_ok :: "pkg_store \<Rightarrow> candidate_set \<Rightarrow> bool" where
  "cands_ok st cs \<longleftrightarrow> (\<forall>q \<in> all_cands cs. ptr_ok st q)"

lemma cands_ok_store: "cands_ok st cs \<Longrightarrow> \<forall>q \<in> all_cands cs. st q \<noteq> None"
  by (auto simp: cands_ok_def ptr_ok_def)

lemma add_dependency_clauses_effect:
  assumes "mo_inv m" and c: "cands_ok st cs" and p: "ptr_ok st p"
    and a: "add_dependency_clauses st m cs p mem = Some (ok, m', mem')"
  shows "mo_inv m' \<and> mo_grows m (insert p (all_cands cs)) m' \<and>
    (ok \<longrightarrow> p \<in> set (mo_vars m') \<and> (\<forall>S. mo_holds m' S \<longleftrightarrow> mo_holds m S \<and> (p \<in> S \<longrightarrow> deps_met st cs S p)))"
proof -
  obtain meta where meta: "st p = Some meta" using p by (auto simp: ptr_ok_def)
  obtain v m1 mem1 where v: "sat_model_var m p mem = (v, m1, mem1)" by (metis prod_cases3)
  note st = sat_model_var_step [OF assms(1) v]
  have g1: "mo_grows m (insert p (all_cands cs)) m1" using st(2) by (rule mo_grows_mono) simp
  show ?thesis
  proof (cases "v = 0")
    case True
    then show ?thesis using a v st(1) g1 by (simp add: add_dependency_clauses_def)
  next
    case False
    then have d: "dependency_loop st cs v (meta_dependencies meta) m1 mem1 = Some (ok, m', mem')"
      using a v meta by (simp add: add_dependency_clauses_def)
    have vo: "var_of m1 v p" using st(4) False by simp
    note eff = dependency_loop_effect [OF st(1) vo cands_ok_store [OF c] d]
    then have "mo_grows m1 (insert p (all_cands cs)) m'" by (auto intro: mo_grows_mono)
    then have "mo_grows m (insert p (all_cands cs)) m'" by (rule mo_grows_trans [OF g1])
    moreover have "p \<in> set (mo_vars m')" using eff var_of_grows [OF vo] var_of_mem by blast
    ultimately show ?thesis using eff st(5) meta by (simp add: deps_met_def)
  qed
qed

lemma add_conflict_clauses_effect:
  assumes "mo_inv m" and p: "ptr_ok st p"
    and a: "add_conflict_clauses st m cs p mem = Some (ok, m', mem')"
  shows "mo_inv m' \<and> mo_grows m (insert p (all_cands cs)) m' \<and>
    (ok \<longrightarrow> (\<forall>S. mo_holds m' S \<longleftrightarrow> mo_holds m S \<and> (p \<in> S \<longrightarrow> conflict_free cs S p (meta_conflicts (the (st p))))))"
proof -
  obtain meta where meta: "st p = Some meta" using p by (auto simp: ptr_ok_def)
  obtain v m1 mem1 where v: "sat_model_var m p mem = (v, m1, mem1)" by (metis prod_cases3)
  note st = sat_model_var_step [OF assms(1) v]
  have g1: "mo_grows m (insert p (all_cands cs)) m1" using st(2) by (rule mo_grows_mono) simp
  show ?thesis
  proof (cases "v = 0")
    case True
    then show ?thesis using a v st(1) g1 by (simp add: add_conflict_clauses_def)
  next
    case False
    then have d: "conflict_loop cs p v (meta_conflicts meta) m1 mem1 = (ok, m', mem')"
      using a v meta by (simp add: add_conflict_clauses_def)
    have vo: "var_of m1 v p" using st(4) False by simp
    note eff = conflict_loop_effect [OF st(1) vo d]
    then have "mo_grows m1 (insert p (all_cands cs)) m'" by (auto intro: mo_grows_mono)
    then have "mo_grows m (insert p (all_cands cs)) m'" by (rule mo_grows_trans [OF g1])
    then show ?thesis using eff st(5) meta by simp
  qed
qed

lemma clauses_total:
  assumes "mo_inv m" and c: "cands_ok st cs" and p: "ptr_ok st p"
  shows "add_dependency_clauses st m cs p mem \<noteq> None" and "add_conflict_clauses st m cs p mem \<noteq> None"
    and "no_oom mem \<Longrightarrow> \<exists>m' mem'. add_dependency_clauses st m cs p mem = Some (True, m', mem') \<and> no_oom mem'"
    and "no_oom mem \<Longrightarrow> \<exists>m' mem'. add_conflict_clauses st m cs p mem = Some (True, m', mem') \<and> no_oom mem'"
proof -
  obtain meta where meta: "st p = Some meta" "strings_ok meta" using p by (auto simp: ptr_ok_def)
  obtain v m1 mem1 where v: "sat_model_var m p mem = (v, m1, mem1)" by (metis prod_cases3)
  note st = sat_model_var_step [OF assms(1) v]
  have names: "\<forall>dep \<in> set (meta_dependencies meta). dep_name dep \<noteq> None" using meta(2) by (simp add: strings_ok_def)
  show "add_dependency_clauses st m cs p mem \<noteq> None" "add_conflict_clauses st m cs p mem \<noteq> None"
    using v meta dependency_loop_safe [OF cands_ok_store [OF c] names, of v m1 mem1]
    by (simp_all add: add_dependency_clauses_def add_conflict_clauses_def del: not_None_eq)
  assume "no_oom mem"
  then have v': "v \<noteq> 0" "no_oom mem1" "var_of m1 v p"
    using sat_model_var_no_oom [OF assms(1), of mem p] v st(4) by auto
  show "\<exists>m' mem'. add_dependency_clauses st m cs p mem = Some (True, m', mem') \<and> no_oom mem'"
    using dependency_loop_no_oom [OF st(1) v'(3) cands_ok_store [OF c] names v'(2)] v v' meta
    by (simp add: add_dependency_clauses_def)
  show "\<exists>m' mem'. add_conflict_clauses st m cs p mem = Some (True, m', mem') \<and> no_oom mem'"
    using conflict_loop_no_oom [OF st(1) v'(3,2), of cs "meta_conflicts meta"] v v' meta
    by (auto simp: add_conflict_clauses_def)
qed

lemma sat_model_build_effect:
  assumes "mo_inv m" and c: "cands_ok st cs" and "\<forall>p \<in> set pkgs. ptr_ok st p"
    and "sat_model_build st m cs pkgs mem = Some (ok, m', mem')"
  shows "mo_inv m' \<and> mo_grows m (set pkgs \<union> all_cands cs) m' \<and>
    (ok \<longrightarrow> set pkgs \<subseteq> set (mo_vars m') \<and>
       (\<forall>S. mo_holds m' S \<longleftrightarrow> mo_holds m S \<and> (\<forall>p \<in> set pkgs. pkg_consistent st cs S p)))"
  using assms(1,3,4)
proof (induction pkgs arbitrary: m mem)
  case (Cons p pkgs)
  have p: "ptr_ok st p" using Cons.prems(2) by simp
  let ?P = "set (p # pkgs) \<union> all_cands cs"
  have sub: "insert p (all_cands cs) \<subseteq> ?P" "set pkgs \<union> all_cands cs \<subseteq> ?P" by auto
  obtain ok1 m1 mem1 where d: "add_dependency_clauses st m cs p mem = Some (ok1, m1, mem1)"
    using clauses_total(1) [OF Cons.prems(1) c p] by (metis not_None_eq prod_cases3)
  note e1 = add_dependency_clauses_effect [OF Cons.prems(1) c p d]
  have g1: "mo_grows m ?P m1" using e1 sub(1) mo_grows_mono by blast
  show ?case
  proof (cases ok1)
    case False
    then show ?thesis using Cons.prems(3) d e1 g1 by auto
  next
    case True
    obtain ok2 m2 mem2 where k: "add_conflict_clauses st m1 cs p mem1 = Some (ok2, m2, mem2)"
      using clauses_total(2) [OF _ c p] e1 by (metis not_None_eq prod_cases3)
    note e2 = add_conflict_clauses_effect [OF conjunct1 [OF e1] p k]
    have "mo_grows m1 ?P m2" using e2 sub(1) mo_grows_mono by blast
    then have g2: "mo_grows m ?P m2" by (rule mo_grows_trans [OF g1])
    show ?thesis
    proof (cases ok2)
      case False
      then show ?thesis using Cons.prems(3) d k True e2 g2 by auto
    next
      case ok2: True
      then have rest: "sat_model_build st m2 cs pkgs mem2 = Some (ok, m', mem')"
        using Cons.prems(3) d k True by simp
      note ih = Cons.IH [OF conjunct1 [OF e2] _ rest]
      have g3: "mo_grows m2 ?P m'" using ih Cons.prems(2) sub(2) mo_grows_mono by (metis list.set_intros(2))
      have "set (mo_vars m1) \<subseteq> set (mo_vars m2)" "set (mo_vars m2) \<subseteq> set (mo_vars m')"
        using e2 g3 by (auto simp: mo_grows_def)
      then show ?thesis
        using ih Cons.prems(2) e1 e2 True ok2 mo_grows_trans [OF g2 g3] by (auto simp: pkg_consistent_def)
    qed
  qed
qed simp

lemma sat_model_build_total:
  assumes "mo_inv m" and c: "cands_ok st cs" and "\<forall>p \<in> set pkgs. ptr_ok st p"
  shows "\<exists>ok m' mem'. sat_model_build st m cs pkgs mem = Some (ok, m', mem') \<and> (no_oom mem \<longrightarrow> ok \<and> no_oom mem')"
  using assms(1,3)
proof (induction pkgs arbitrary: m mem)
  case (Cons p pkgs)
  have p: "ptr_ok st p" using Cons.prems(2) by simp
  obtain ok1 m1 mem1 where d: "add_dependency_clauses st m cs p mem = Some (ok1, m1, mem1)"
    "no_oom mem \<longrightarrow> ok1 \<and> no_oom mem1"
    using clauses_total(1,3) [OF Cons.prems(1) c p, of mem] by (metis not_None_eq prod_cases3)
  have i1: "mo_inv m1" using add_dependency_clauses_effect [OF Cons.prems(1) c p d(1)] by simp
  obtain ok2 m2 mem2 where k: "add_conflict_clauses st m1 cs p mem1 = Some (ok2, m2, mem2)"
    "no_oom mem1 \<longrightarrow> ok2 \<and> no_oom mem2"
    using clauses_total(2,4) [OF i1 c p, of mem1] by (metis not_None_eq prod_cases3)
  have "mo_inv m2" using add_conflict_clauses_effect [OF i1 p k(1)] by simp
  then show ?case using Cons.IH [of m2 mem2] Cons.prems(2) d k by auto
qed auto

end
