(* ===== verification/Sat_Solve.thy ===== *)
theory Sat_Solve
  imports Sat_Model
begin

text \<open>
  \<open>src/graph/sat_solve.c\<close>: the DPLL search.  The arrays \<open>assign\<close> (1 true, -1 false, 0 open;
  one entry per variable, entry 0 unused), \<open>antecedent\<close> and \<open>trail\<close> are bounds-checked: an
  access outside them is \<open>None\<close>.  \<open>trail\<close> and \<open>trail_len\<close>, which the source passes beside the
  context, are the field \<open>sc_trail\<close>.  The recursion of \<open>dpll\<close> and the outer loop of
  \<open>propagate\<close> run on fuel; \<open>dpll_total\<close> shows that one more than the number of variables is
  always enough for both.

  The cancel flag is another thread's: \<open>sc_cancel\<close> is \<open>None\<close> for a NULL pointer, else the list
  of values the successive loads return (no cancellation once it is exhausted).
\<close>

record sat_solve_ctx =
  sc_assign :: "int list"
  sc_antecedent :: "nat option list"
  sc_trail :: "nat list"
  sc_budget :: nat
  sc_decisions :: nat
  sc_timed_out :: bool
  sc_has_conflict :: bool
  sc_conflict_clause :: nat
  sc_cancel :: "bool list option"
  sc_aborted :: bool
  sc_reverse_order :: bool
  sc_prefer_false :: bool

datatype sat_result =
  SAT_RESULT_SATISFIABLE | SAT_RESULT_UNSATISFIABLE | SAT_RESULT_BUDGET_EXCEEDED | SAT_RESULT_ERROR

subsection \<open>Unit propagation\<close>

text \<open>The loop over the literals of a clause: satisfied, number of open literals, last open one.\<close>

fun scan_lits :: "int list \<Rightarrow> int list \<Rightarrow> nat \<Rightarrow> int \<Rightarrow> (bool \<times> nat \<times> int) option" where
  "scan_lits assign [] unassigned_count unassigned_lit = Some (False, unassigned_count, unassigned_lit)"
| "scan_lits assign (lit # lits) unassigned_count unassigned_lit =
     do {
       val \<leftarrow> arr_get assign (nat \<bar>lit\<bar>);
       if val = 0 then scan_lits assign lits (unassigned_count + 1) lit
       else if (lit > 0 \<and> val = 1) \<or> (lit < 0 \<and> val = -1) then Some (True, unassigned_count, unassigned_lit)
       else scan_lits assign lits unassigned_count unassigned_lit
     }"

text \<open>The choice of the clause to report: the first antecedent that is not a root.\<close>

fun blame :: "sat_clause list \<Rightarrow> nat option list \<Rightarrow> int list \<Rightarrow> nat \<Rightarrow> nat option" where
  "blame cls antecedent [] c = Some c"
| "blame cls antecedent (lit # lits) c =
     do {
       ante \<leftarrow> arr_get antecedent (nat \<bar>lit\<bar>);
       case ante of
         None \<Rightarrow> blame cls antecedent lits c
       | Some a \<Rightarrow> do {
           cl \<leftarrow> arr_get cls a;
           if cl_kind cl \<noteq> SAT_CLAUSE_FORCED then Some a else blame cls antecedent lits c
         }
     }"

definition push_trail :: "sat_model \<Rightarrow> nat \<Rightarrow> sat_solve_ctx \<Rightarrow> sat_solve_ctx option" where
  "push_trail m var ctx =
     (if length (sc_trail ctx) < length (mo_vars m) then Some (ctx\<lparr>sc_trail := sc_trail ctx @ [var]\<rparr>) else None)"

text \<open>One round over the clauses with the given numbers; returns no conflict, changed, context.\<close>

fun propagate_pass :: "sat_model \<Rightarrow> nat list \<Rightarrow> bool \<Rightarrow> sat_solve_ctx \<Rightarrow> (bool \<times> bool \<times> sat_solve_ctx) option" where
  "propagate_pass m [] changed ctx = Some (True, changed, ctx)"
| "propagate_pass m (c # cs) changed ctx =
     do {
       clause \<leftarrow> arr_get (mo_clauses m) c;
       (satisfied, unassigned_count, unassigned_lit) \<leftarrow> scan_lits (sc_assign ctx) (cl_lits clause) 0 0;
       if satisfied then propagate_pass m cs changed ctx
       else if unassigned_count = 0 then do {
         best \<leftarrow> blame (mo_clauses m) (sc_antecedent ctx) (cl_lits clause) c;
         Some (False, changed, ctx\<lparr>sc_has_conflict := True, sc_conflict_clause := best\<rparr>)
       }
       else if unassigned_count = 1 then do {
         let var = nat \<bar>unassigned_lit\<bar>;
         assign \<leftarrow> arr_set (sc_assign ctx) var (if unassigned_lit > 0 then 1 else -1);
         antecedent \<leftarrow> arr_set (sc_antecedent ctx) var (Some c);
         ctx' \<leftarrow> push_trail m var (ctx\<lparr>sc_assign := assign, sc_antecedent := antecedent\<rparr>);
         propagate_pass m cs True ctx'
       }
       else propagate_pass m cs changed ctx
     }"

fun propagate :: "nat \<Rightarrow> sat_model \<Rightarrow> sat_solve_ctx \<Rightarrow> (bool \<times> sat_solve_ctx) option" where
  "propagate 0 m ctx = None"
| "propagate (Suc fuel) m ctx =
     do {
       (ok, changed, ctx') \<leftarrow> propagate_pass m [0..<length (mo_clauses m)] False ctx;
       if \<not> ok then Some (False, ctx')
       else if changed then propagate fuel m ctx'
       else Some (True, ctx')
     }"

subsection \<open>Search\<close>

text \<open>\<open>undo_to\<close> pops the trail down to \<open>mark\<close>, last entry first.\<close>

fun undo_vars :: "nat list \<Rightarrow> sat_solve_ctx \<Rightarrow> sat_solve_ctx option" where
  "undo_vars [] ctx = Some ctx"
| "undo_vars (var # vars) ctx =
     do {
       assign \<leftarrow> arr_set (sc_assign ctx) var 0;
       antecedent \<leftarrow> arr_set (sc_antecedent ctx) var None;
       undo_vars vars (ctx\<lparr>sc_assign := assign, sc_antecedent := antecedent\<rparr>)
     }"

definition undo_to :: "nat \<Rightarrow> sat_solve_ctx \<Rightarrow> sat_solve_ctx option" where
  "undo_to mark ctx =
     do {
       ctx' \<leftarrow> undo_vars (rev (drop mark (sc_trail ctx))) ctx;
       Some (ctx'\<lparr>sc_trail := take mark (sc_trail ctx)\<rparr>)
     }"

fun pick_loop :: "int list \<Rightarrow> nat list \<Rightarrow> nat option" where
  "pick_loop assign [] = Some 0"
| "pick_loop assign (v # vs) =
     do { val \<leftarrow> arr_get assign v; if val = 0 then Some v else pick_loop assign vs }"

definition pick_var :: "sat_model \<Rightarrow> sat_solve_ctx \<Rightarrow> nat option" where
  "pick_var m ctx =
     (let vs = [1..<length (mo_vars m) + 1] in
      pick_loop (sc_assign ctx) (if sc_reverse_order ctx then rev vs else vs))"

fun load_cancel :: "bool list option \<Rightarrow> bool \<times> bool list option" where
  "load_cancel None = (False, None)"
| "load_cancel (Some []) = (False, Some [])"
| "load_cancel (Some (b # bs)) = (b, Some bs)"

text \<open>\<open>ctx->assign[chosen] = val; trail[(*trail_len)++] = chosen\<close>\<close>

definition decide :: "sat_model \<Rightarrow> nat \<Rightarrow> int \<Rightarrow> sat_solve_ctx \<Rightarrow> sat_solve_ctx option" where
  "decide m chosen val ctx =
     do {
       assign \<leftarrow> arr_set (sc_assign ctx) chosen val;
       push_trail m chosen (ctx\<lparr>sc_assign := assign\<rparr>)
     }"

fun dpll :: "nat \<Rightarrow> sat_model \<Rightarrow> sat_solve_ctx \<Rightarrow> (bool \<times> sat_solve_ctx) option" where
  "dpll 0 m ctx = None"
| "dpll (Suc fuel) m ctx =
     (let (flag, cancel') = load_cancel (sc_cancel ctx); ctx0 = ctx\<lparr>sc_cancel := cancel'\<rparr> in
      if flag then Some (False, ctx0\<lparr>sc_aborted := True\<rparr>)
      else do {
        let mark = length (sc_trail ctx0);
        (ok, ctx1) \<leftarrow> propagate (length (mo_vars m) + 1) m ctx0;
        if \<not> ok then do { ctx2 \<leftarrow> undo_to mark ctx1; Some (False, ctx2) }
        else do {
          chosen \<leftarrow> pick_var m ctx1;
          if chosen = 0 then Some (True, ctx1)
          else if sc_decisions ctx1 \<ge> sc_budget ctx1
          then do { ctx2 \<leftarrow> undo_to mark (ctx1\<lparr>sc_timed_out := True\<rparr>); Some (False, ctx2) }
          else do {
            let first_val = (if sc_prefer_false ctx1 then -1 else 1 :: int);
            ctx2 \<leftarrow> decide m chosen first_val (ctx1\<lparr>sc_decisions := sc_decisions ctx1 + 1\<rparr>);
            (r, ctx3) \<leftarrow> dpll fuel m ctx2;
            if r then Some (True, ctx3)
            else do {
              ctx4 \<leftarrow> undo_to mark ctx3;
              if sc_timed_out ctx4 \<or> sc_aborted ctx4 then Some (False, ctx4)
              else do {
                ctx5 \<leftarrow> decide m chosen (- first_val) ctx4;
                (r, ctx6) \<leftarrow> dpll fuel m ctx5;
                if r then Some (True, ctx6) else do { ctx7 \<leftarrow> undo_to mark ctx6; Some (False, ctx7) }
              }
            }
          }
        }
      })"

subsection \<open>Explanations\<close>

text \<open>\<open>fmt\<close> allocates the formatted text, or returns NULL.\<close>

definition fmt :: "string \<Rightarrow> mem \<Rightarrow> pstr \<times> mem" where
  "fmt text mem = strdup_m text mem"

definition quoted :: "string \<Rightarrow> string" where
  "quoted s = CHR 0x22 # s @ [CHR 0x22]"

definition pkg_name_or_unknown :: "package_metadata \<Rightarrow> string" where
  "pkg_name_or_unknown pkg = (case meta_name pkg of Some name \<Rightarrow> name | None \<Rightarrow> ''?'')"

text \<open>\<open>m->vars[var - 1]\<close> for the variable of a literal, dereferenced.\<close>

definition lit_name :: "pkg_store \<Rightarrow> sat_model \<Rightarrow> int \<Rightarrow> string option" where
  "lit_name st m lit =
     do { p \<leftarrow> arr_get (mo_vars m) (nat \<bar>lit\<bar> - 1); meta \<leftarrow> st p; Some (pkg_name_or_unknown meta) }"

definition explain_conflict :: "pkg_store \<Rightarrow> sat_model \<Rightarrow> nat \<Rightarrow> mem \<Rightarrow> (pstr \<times> mem) option" where
  "explain_conflict st m clause_idx mem =
     do {
       c \<leftarrow> arr_get (mo_clauses m) clause_idx;
       if cl_lits c = [] then Some (fmt ''model contains an empty clause'' mem)
       else do {
         lit0 \<leftarrow> arr_get (cl_lits c) 0;
         name0 \<leftarrow> lit_name st m lit0;
         case cl_kind c of
           SAT_CLAUSE_DEPENDENCY \<Rightarrow>
             Some (fmt (''package '' @ quoted name0 @ '' requires '' @
               quoted (case cl_dep_name c of Some d \<Rightarrow> d | None \<Rightarrow> ''?'') @ '', but no candidate could be selected'') mem)
         | SAT_CLAUSE_CONFLICT \<Rightarrow>
             do {
               lit1 \<leftarrow> arr_get (cl_lits c) 1;
               name1 \<leftarrow> lit_name st m lit1;
               Some (fmt (''package '' @ quoted name0 @ '' conflicts with package '' @ quoted name1 @
                 '', but both were required'') mem)
             }
         | SAT_CLAUSE_FORCED \<Rightarrow>
             Some (fmt (''package '' @ quoted name0 @ '' was required but could not be selected'') mem)
       }
     }"

subsection \<open>Solving\<close>

text \<open>The result code, \<open>*out_assignment\<close> and \<open>*out_conflict\<close>.\<close>

record solve_out =
  so_result :: sat_result
  so_assignment :: "int list option"
  so_conflict :: pstr

definition no_out :: "sat_result \<Rightarrow> solve_out" where
  "no_out r = \<lparr>so_result = r, so_assignment = None, so_conflict = None\<rparr>"

definition fresh_solve_ctx :: "sat_model \<Rightarrow> nat \<Rightarrow> bool list option \<Rightarrow> bool \<Rightarrow> bool \<Rightarrow> sat_solve_ctx" where
  "fresh_solve_ctx m budget cancel reverse_order prefer_false =
     \<lparr>sc_assign = replicate (length (mo_vars m) + 1) 0, sc_antecedent = replicate (length (mo_vars m) + 1) None,
      sc_trail = [], sc_budget = budget, sc_decisions = 0, sc_timed_out = False, sc_has_conflict = False,
      sc_conflict_clause = 0, sc_cancel = cancel, sc_aborted = False, sc_reverse_order = reverse_order,
      sc_prefer_false = prefer_false\<rparr>"

definition solve_core ::
  "pkg_store \<Rightarrow> sat_model \<Rightarrow> nat \<Rightarrow> bool \<Rightarrow> bool list option \<Rightarrow> bool \<Rightarrow> bool \<Rightarrow> mem \<Rightarrow> solve_out option" where
  "solve_core st m decision_budget want_conflict cancel reverse_order prefer_false mem =
     (if mo_vars m = [] then Some (no_out SAT_RESULT_SATISFIABLE)
      else let (ok1, mem1) = malloc_ok mem; (ok2, mem2) = malloc_ok mem1; (ok3, mem3) = malloc_ok mem2 in
      if \<not> ok1 \<or> \<not> ok2 \<or> \<not> ok3 then Some (no_out SAT_RESULT_ERROR)
      else do {
        (sat, ctx) \<leftarrow> dpll (length (mo_vars m) + 1) m
                         (fresh_solve_ctx m decision_budget cancel reverse_order prefer_false);
        if sc_aborted ctx then Some (no_out SAT_RESULT_ERROR)
        else if sc_timed_out ctx then Some (no_out SAT_RESULT_BUDGET_EXCEEDED)
        else if \<not> sat then
          (if want_conflict \<and> sc_has_conflict ctx
           then do {
             (text, mem4) \<leftarrow> explain_conflict st m (sc_conflict_clause ctx) mem3;
             Some ((no_out SAT_RESULT_UNSATISFIABLE)\<lparr>so_conflict := text\<rparr>)
           }
           else Some (no_out SAT_RESULT_UNSATISFIABLE))
        else Some ((no_out SAT_RESULT_SATISFIABLE)\<lparr>so_assignment := Some (sc_assign ctx)\<rparr>)
      })"

definition sat_solve :: "pkg_store \<Rightarrow> sat_model \<Rightarrow> nat \<Rightarrow> bool \<Rightarrow> mem \<Rightarrow> solve_out option" where
  "sat_solve st m decision_budget want_conflict mem =
     solve_core st m decision_budget want_conflict None False False mem"

text \<open>
  The state the workers share: \<open>result_set\<close> with the final result, assignment and explanation,
  written under the lock; \<open>cancel\<close> is set in the same section, so it equals \<open>result_set\<close>.
\<close>

type_synonym sat_shared = "solve_out option"

definition sat_worker_fn ::
  "pkg_store \<Rightarrow> sat_model \<Rightarrow> nat \<Rightarrow> nat \<Rightarrow> bool list \<Rightarrow> mem \<Rightarrow> sat_shared \<Rightarrow> sat_shared option" where
  "sat_worker_fn st m budget i loads mem shared =
     do {
       out \<leftarrow> solve_core st m budget True (Some loads) (odd i) (odd (i div 2)) mem;
       Some (if so_result out = SAT_RESULT_SATISFIABLE \<or> so_result out = SAT_RESULT_UNSATISFIABLE
             then (case shared of None \<Rightarrow> Some out | Some _ \<Rightarrow> shared)
             else shared)
     }"

text \<open>
  Interleavings of the workers: any worker that has not finished may finish next.  Its
  loads of the cancel flag can have returned true only if a result was published before.
\<close>

inductive workers_run ::
  "pkg_store \<Rightarrow> sat_model \<Rightarrow> nat \<Rightarrow> (nat \<Rightarrow> mem) \<Rightarrow> nat set \<Rightarrow> sat_shared \<Rightarrow> nat set \<Rightarrow> sat_shared \<Rightarrow> bool"
  for st m budget mems
where
  done_refl: "workers_run st m budget mems W sh W sh"
| finish: "workers_run st m budget mems W sh W' sh' \<Longrightarrow> i \<in> W' \<Longrightarrow> (True \<in> set loads \<longrightarrow> sh' \<noteq> None) \<Longrightarrow>
    sat_worker_fn st m budget i loads (mems i) sh' = Some sh'' \<Longrightarrow>
    workers_run st m budget mems W sh (W' - {i}) sh''"

text \<open>All the outcomes of \<open>sat_solve_parallel\<close>; \<open>mem\<close> are its own allocations.\<close>

definition sat_solve_parallel ::
  "pkg_store \<Rightarrow> sat_model \<Rightarrow> nat \<Rightarrow> int \<Rightarrow> bool \<Rightarrow> mem \<Rightarrow> (nat \<Rightarrow> mem) \<Rightarrow> solve_out \<Rightarrow> bool" where
  "sat_solve_parallel st m decision_budget thread_count want_conflict mem mems out \<longleftrightarrow>
     (let (ok1, mem1) = malloc_ok mem; (ok2, mem2) = malloc_ok mem1; (ok3, mem3) = malloc_ok mem2 in
      if thread_count \<le> 1 then sat_solve st m decision_budget want_conflict mem = Some out
      else if \<not> ok1 \<or> \<not> ok2 \<or> \<not> ok3 then sat_solve st m decision_budget want_conflict mem3 = Some out
      else (\<exists>shared. workers_run st m decision_budget mems {..<nat thread_count} None {} shared \<and>
             out = (case shared of
                      None \<Rightarrow> no_out SAT_RESULT_BUDGET_EXCEEDED
                    | Some res \<Rightarrow> if want_conflict then res else res\<lparr>so_conflict := None\<rparr>)))"

subsection \<open>Valuations\<close>

definition lit_true :: "(nat \<Rightarrow> bool) \<Rightarrow> int \<Rightarrow> bool" where
  "lit_true V l \<longleftrightarrow> (if l > 0 then V (nat l) else \<not> V (nat (- l)))"

definition models :: "(nat \<Rightarrow> bool) \<Rightarrow> sat_model \<Rightarrow> bool" where
  "models V m \<longleftrightarrow> (\<forall>c \<in> set (mo_clauses m). \<exists>l \<in> set (cl_lits c). lit_true V l)"

definition agrees :: "(nat \<Rightarrow> bool) \<Rightarrow> int list \<Rightarrow> bool" where
  "agrees V a \<longleftrightarrow> (\<forall>v < length a. (a ! v = 1 \<longrightarrow> V v) \<and> (a ! v = -1 \<longrightarrow> \<not> V v))"

text \<open>A literal under a partial assignment.\<close>

definition lit_open :: "int list \<Rightarrow> int \<Rightarrow> bool" where
  "lit_open a l \<longleftrightarrow> a ! nat \<bar>l\<bar> = 0"

definition lit_sat :: "int list \<Rightarrow> int \<Rightarrow> bool" where
  "lit_sat a l \<longleftrightarrow> (l > 0 \<and> a ! nat \<bar>l\<bar> = 1) \<or> (l < 0 \<and> a ! nat \<bar>l\<bar> = -1)"

definition assign_wf :: "nat \<Rightarrow> int list \<Rightarrow> bool" where
  "assign_wf n a \<longleftrightarrow> length a = n + 1 \<and> a ! 0 = 0 \<and> (\<forall>v \<le> n. a ! v \<in> {-1, 0, 1})"

lemma lit_false:
  assumes "assign_wf n a" "l \<noteq> 0" "\<bar>l\<bar> \<le> int n" "\<not> lit_sat a l" "\<not> lit_open a l" "agrees V a"
  shows "\<not> lit_true V l"
proof -
  have k: "nat \<bar>l\<bar> < length a" "nat \<bar>l\<bar> \<le> n" using assms(1,3) by (auto simp: assign_wf_def)
  then have "a ! nat \<bar>l\<bar> = 1 \<or> a ! nat \<bar>l\<bar> = -1" using assms(1,5) by (auto simp: assign_wf_def lit_open_def)
  then show ?thesis using assms(2,4,6) k by (auto simp: lit_sat_def lit_true_def agrees_def)
qed

lemma lit_sat_true:
  "lit_sat a l \<Longrightarrow> \<bar>l\<bar> < int (length a) \<Longrightarrow> agrees V a \<Longrightarrow> lit_true V l"
  by (auto simp: lit_sat_def lit_true_def agrees_def nat_less_iff)

lemma scan_lits_spec:
  assumes "assign_wf n a" and "lits_wf n lits"
  shows "\<exists>s k l. scan_lits a lits uc ul = Some (s, k, l) \<and> (s \<longleftrightarrow> (\<exists>x \<in> set lits. lit_sat a x)) \<and>
    (\<not> s \<longrightarrow> k = uc + length (filter (lit_open a) lits) \<and>
       l = (if filter (lit_open a) lits = [] then ul else last (filter (lit_open a) lits)))"
  using assms(2)
proof (induction lits arbitrary: uc ul)
  case (Cons x lits)
  have x: "nat \<bar>x\<bar> < length a" "x \<noteq> 0" "lits_wf n lits" using Cons.prems assms(1) by (auto simp: lits_wf_def assign_wf_def)
  consider (op) "a ! nat \<bar>x\<bar> = 0" | (sat) "a ! nat \<bar>x\<bar> \<noteq> 0" "(x > 0 \<and> a ! nat \<bar>x\<bar> = 1) \<or> (x < 0 \<and> a ! nat \<bar>x\<bar> = -1)"
    | (unsat) "a ! nat \<bar>x\<bar> \<noteq> 0" "\<not> ((x > 0 \<and> a ! nat \<bar>x\<bar> = 1) \<or> (x < 0 \<and> a ! nat \<bar>x\<bar> = -1))" by blast
  then show ?case
  proof cases
    case op
    then have "scan_lits a (x # lits) uc ul = scan_lits a lits (uc + 1) x" using x by simp
    moreover have "\<not> lit_sat a x" "lit_open a x" using op by (auto simp: lit_sat_def lit_open_def)
    ultimately show ?thesis using Cons.IH [OF x(3), of "uc + 1" x] by (auto split: if_splits)
  next
    case sat
    then show ?thesis using x by (auto simp: lit_sat_def)
  next
    case unsat
    then have "scan_lits a (x # lits) uc ul = scan_lits a lits uc ul" using x by auto
    moreover have "\<not> lit_sat a x" "\<not> lit_open a x" using unsat by (auto simp: lit_sat_def lit_open_def)
    ultimately show ?thesis using Cons.IH [OF x(3), of uc ul] by auto
  qed
qed auto

subsection \<open>Well-formed contexts\<close>

definition sc_inv :: "sat_model \<Rightarrow> sat_solve_ctx \<Rightarrow> bool" where
  "sc_inv m ctx \<longleftrightarrow>
     assign_wf (length (mo_vars m)) (sc_assign ctx) \<and>
     length (sc_antecedent ctx) = length (mo_vars m) + 1 \<and>
     (\<forall>a. Some a \<in> set (sc_antecedent ctx) \<longrightarrow> a < length (mo_clauses m)) \<and>
     distinct (sc_trail ctx) \<and>
     (\<forall>v. v \<in> set (sc_trail ctx) \<longleftrightarrow> v \<le> length (mo_vars m) \<and> sc_assign ctx ! v \<noteq> 0) \<and>
     (sc_has_conflict ctx \<longrightarrow> sc_conflict_clause ctx < length (mo_clauses m))"

definition cls_wf :: "sat_model \<Rightarrow> bool" where
  "cls_wf m \<longleftrightarrow> (\<forall>c \<in> set (mo_clauses m). clause_wf (length (mo_vars m)) c)"

definition open_vars :: "sat_model \<Rightarrow> sat_solve_ctx \<Rightarrow> nat set" where
  "open_vars m ctx = {v. 1 \<le> v \<and> v \<le> length (mo_vars m) \<and> sc_assign ctx ! v = 0}"

lemma finite_open_vars [simp]: "finite (open_vars m ctx)"
  by (rule finite_subset [of _ "{..length (mo_vars m)}"]) (auto simp: open_vars_def)

text \<open>The search state that propagation and undoing leave alone.\<close>

definition same_search :: "sat_solve_ctx \<Rightarrow> sat_solve_ctx \<Rightarrow> bool" where
  "same_search ctx ctx' \<longleftrightarrow>
     sc_budget ctx' = sc_budget ctx \<and> sc_decisions ctx' = sc_decisions ctx \<and>
     sc_timed_out ctx' = sc_timed_out ctx \<and> sc_cancel ctx' = sc_cancel ctx \<and> sc_aborted ctx' = sc_aborted ctx \<and>
     sc_reverse_order ctx' = sc_reverse_order ctx \<and> sc_prefer_false ctx' = sc_prefer_false ctx"

text \<open>Assignments added since; only variables that were open change.\<close>

definition sc_extends :: "sat_solve_ctx \<Rightarrow> sat_solve_ctx \<Rightarrow> bool" where
  "sc_extends ctx ctx' \<longleftrightarrow>
     (\<exists>ext. sc_trail ctx' = sc_trail ctx @ ext \<and> (\<forall>v. v \<notin> set ext \<longrightarrow> sc_assign ctx' ! v = sc_assign ctx ! v))"

lemma sc_extends_refl [simp]: "sc_extends ctx ctx"
  by (simp add: sc_extends_def)

lemma sc_extends_trans: "sc_extends a b \<Longrightarrow> sc_extends b c \<Longrightarrow> sc_extends a c"
  unfolding sc_extends_def by (metis Un_iff append.assoc set_append)

lemma same_search_refl [simp]: "same_search ctx ctx"
  by (simp add: same_search_def)

lemma same_search_trans: "same_search a b \<Longrightarrow> same_search b c \<Longrightarrow> same_search a c"
  by (simp add: same_search_def)

text \<open>The trail has room for every open variable.\<close>

lemma trail_room:
  assumes inv: "sc_inv m ctx" and v: "v \<in> open_vars m ctx"
  shows "length (sc_trail ctx) < length (mo_vars m)"
proof -
  have "set (sc_trail ctx) \<subseteq> {1..length (mo_vars m)} - {v}"
    using inv v by (auto simp: sc_inv_def assign_wf_def open_vars_def Suc_le_eq intro: gr0I)
  then have "card (set (sc_trail ctx)) \<le> card ({1..length (mo_vars m)} - {v})" by (intro card_mono) auto
  moreover have "card ({1..length (mo_vars m)} - {v}) < card {1..length (mo_vars m)}"
    using v by (intro card_Diff1_less) (auto simp: open_vars_def)
  ultimately show ?thesis using inv distinct_card [of "sc_trail ctx"] by (simp add: sc_inv_def)
qed

lemma blame_spec:
  assumes inv: "sc_inv m ctx" and "lits_wf (length (mo_vars m)) lits" and c: "c < length (mo_clauses m)"
  shows "\<exists>b. blame (mo_clauses m) (sc_antecedent ctx) lits c = Some b \<and> b < length (mo_clauses m)"
  using assms(2)
proof (induction lits)
  case (Cons x lits)
  have x: "nat \<bar>x\<bar> < length (sc_antecedent ctx)" using Cons.prems inv by (auto simp: lits_wf_def sc_inv_def)
  have ih: "\<exists>b. blame (mo_clauses m) (sc_antecedent ctx) lits c = Some b \<and> b < length (mo_clauses m)"
    using Cons by (simp add: lits_wf_def)
  show ?case
  proof (cases "sc_antecedent ctx ! nat \<bar>x\<bar>")
    case (Some a)
    then have "a < length (mo_clauses m)" using inv x nth_mem [OF x] by (simp add: sc_inv_def)
    then show ?thesis using x Some ih by simp
  qed (use x ih in simp)
qed (use c in simp)

text \<open>Assigning one open variable.\<close>

lemma assign_step:
  assumes inv: "sc_inv m ctx" and v: "v \<in> open_vars m ctx" and b: "b = 1 \<or> b = -1"
    and an: "an = sc_antecedent ctx \<or> (\<exists>c < length (mo_clauses m). an = (sc_antecedent ctx)[v := Some c])"
  defines "ctx' \<equiv> ctx\<lparr>sc_assign := (sc_assign ctx)[v := b], sc_antecedent := an, sc_trail := sc_trail ctx @ [v]\<rparr>"
  shows "sc_inv m ctx'" and "sc_extends ctx ctx'" and "same_search ctx ctx'"
    and "open_vars m ctx' = open_vars m ctx - {v}"
    and "push_trail m v (ctx\<lparr>sc_assign := (sc_assign ctx)[v := b], sc_antecedent := an\<rparr>) = Some ctx'"
proof -
  have len: "v < length (sc_assign ctx)" "v \<noteq> 0" "v \<le> length (mo_vars m)" "sc_assign ctx ! v = 0"
    using inv v by (auto simp: sc_inv_def assign_wf_def open_vars_def)
  have fresh: "v \<notin> set (sc_trail ctx)" using inv len by (simp add: sc_inv_def)
  have a: "\<forall>a. Some a \<in> set an \<longrightarrow> a < length (mo_clauses m)" "length an = length (mo_vars m) + 1"
    using an inv by (auto simp: sc_inv_def dest!: set_update_subset_insert [THEN subsetD])
  have w: "assign_wf (length (mo_vars m)) ((sc_assign ctx)[v := b])"
    using inv len b by (auto simp: sc_inv_def assign_wf_def nth_list_update)
  show "sc_inv m ctx'"
    using inv len fresh a w b by (auto simp: sc_inv_def ctx'_def nth_list_update)
  show "sc_extends ctx ctx'"
    unfolding sc_extends_def ctx'_def by (intro exI [of _ "[v]"]) simp
  show "same_search ctx ctx'" by (simp add: same_search_def ctx'_def)
  show "open_vars m ctx' = open_vars m ctx - {v}"
    using len b by (auto simp: open_vars_def ctx'_def nth_list_update)
  show "push_trail m v (ctx\<lparr>sc_assign := (sc_assign ctx)[v := b], sc_antecedent := an\<rparr>) = Some ctx'"
    using trail_room [OF inv v] by (simp add: push_trail_def ctx'_def)
qed

subsection \<open>Propagation is sound and complete for unit clauses\<close>

text \<open>A clause that propagation has nothing to do for: satisfied, or two literals open.\<close>

definition clause_stable :: "int list \<Rightarrow> sat_clause \<Rightarrow> bool" where
  "clause_stable a c \<longleftrightarrow> (\<exists>l \<in> set (cl_lits c). lit_sat a l) \<or> 2 \<le> length (filter (lit_open a) (cl_lits c))"

definition entailed :: "sat_model \<Rightarrow> sat_solve_ctx \<Rightarrow> sat_solve_ctx \<Rightarrow> bool" where
  "entailed m ctx ctx' \<longleftrightarrow> (\<forall>V. models V m \<longrightarrow> agrees V (sc_assign ctx) \<longrightarrow> agrees V (sc_assign ctx'))"

definition refuted :: "sat_model \<Rightarrow> sat_solve_ctx \<Rightarrow> bool" where
  "refuted m ctx \<longleftrightarrow> (\<forall>V. models V m \<longrightarrow> \<not> agrees V (sc_assign ctx))"

lemma entailed_refl [simp]: "entailed m ctx ctx"
  by (simp add: entailed_def)

lemma entailed_trans: "entailed m a b \<Longrightarrow> entailed m b c \<Longrightarrow> entailed m a c"
  by (simp add: entailed_def)

lemma entailed_refuted: "entailed m a b \<Longrightarrow> refuted m b \<Longrightarrow> refuted m a"
  by (auto simp: entailed_def refuted_def)

lemma filter_single: "length (filter P xs) = 1 \<Longrightarrow> x \<in> set xs \<Longrightarrow> P x \<Longrightarrow> x = last (filter P xs)"
proof -
  assume len: "length (filter P xs) = 1" and x: "x \<in> set xs" "P x"
  then obtain y where y: "filter P xs = [y]" by (auto simp: length_Suc_conv)
  have "x \<in> set (filter P xs)" using x by simp
  then show ?thesis by (simp add: y)
qed

lemma unit_entails:
  assumes inv: "sc_inv m ctx" "cls_wf m" and c: "c \<in> set (mo_clauses m)"
    and unsat: "\<not> (\<exists>l \<in> set (cl_lits c). lit_sat (sc_assign ctx) l)"
    and one: "length (filter (lit_open (sc_assign ctx)) (cl_lits c)) = 1"
    and V: "models V m" "agrees V (sc_assign ctx)"
  shows "lit_true V (last (filter (lit_open (sc_assign ctx)) (cl_lits c)))"
proof -
  obtain l where l: "l \<in> set (cl_lits c)" "lit_true V l" using V(1) c by (auto simp: models_def)
  have wf: "l \<noteq> 0" "\<bar>l\<bar> \<le> int (length (mo_vars m))" using inv(2) c l(1) by (auto simp: cls_wf_def clause_wf_def)
  have "lit_open (sc_assign ctx) l"
    using lit_false [of "length (mo_vars m)" "sc_assign ctx" l V] wf unsat l V(2) inv(1) by (auto simp: sc_inv_def)
  then show ?thesis using filter_single [OF one l(1)] l(2) by simp
qed

lemma empty_refutes:
  assumes inv: "sc_inv m ctx" "cls_wf m" and c: "c \<in> set (mo_clauses m)"
    and unsat: "\<not> (\<exists>l \<in> set (cl_lits c). lit_sat (sc_assign ctx) l)"
    and none: "filter (lit_open (sc_assign ctx)) (cl_lits c) = []"
  shows "refuted m ctx"
  unfolding refuted_def
proof (intro allI impI notI)
  fix V assume V: "models V m" "agrees V (sc_assign ctx)"
  obtain l where l: "l \<in> set (cl_lits c)" "lit_true V l" using V(1) c by (auto simp: models_def)
  have wf: "l \<noteq> 0" "\<bar>l\<bar> \<le> int (length (mo_vars m))" using inv(2) c l(1) by (auto simp: cls_wf_def clause_wf_def)
  have "\<not> lit_open (sc_assign ctx) l" using none l(1) by (auto simp: filter_empty_conv)
  then show False
    using lit_false [of "length (mo_vars m)" "sc_assign ctx" l V] wf unsat l V(2) inv(1) by (auto simp: sc_inv_def)
qed

text \<open>What a stretch of propagation does.\<close>

definition prop_post :: "sat_model \<Rightarrow> sat_solve_ctx \<Rightarrow> bool \<Rightarrow> sat_solve_ctx \<Rightarrow> bool" where
  "prop_post m ctx ok ctx' \<longleftrightarrow>
     sc_inv m ctx' \<and> sc_extends ctx ctx' \<and> same_search ctx ctx' \<and> entailed m ctx ctx' \<and>
     open_vars m ctx' \<subseteq> open_vars m ctx \<and> (sc_has_conflict ctx \<longrightarrow> sc_has_conflict ctx') \<and>
     (\<not> ok \<longrightarrow> refuted m ctx' \<and> sc_has_conflict ctx')"

lemma prop_post_trans: "prop_post m a True b \<Longrightarrow> prop_post m b ok c \<Longrightarrow> prop_post m a ok c"
  unfolding prop_post_def using sc_extends_trans same_search_trans entailed_trans by blast

lemma unit_step:
  assumes inv: "sc_inv m ctx" "cls_wf m" and c: "i < length (mo_clauses m)"
    and unsat: "\<not> (\<exists>l \<in> set (cl_lits (mo_clauses m ! i)). lit_sat (sc_assign ctx) l)"
    and one: "length (filter (lit_open (sc_assign ctx)) (cl_lits (mo_clauses m ! i))) = 1"
  defines "l \<equiv> last (filter (lit_open (sc_assign ctx)) (cl_lits (mo_clauses m ! i)))"
  defines "b \<equiv> (if l > 0 then 1 else -1 :: int)"
  shows "nat \<bar>l\<bar> \<in> open_vars m ctx"
    and "prop_post m ctx True (ctx\<lparr>sc_assign := (sc_assign ctx)[nat \<bar>l\<bar> := b],
           sc_antecedent := (sc_antecedent ctx)[nat \<bar>l\<bar> := Some i], sc_trail := sc_trail ctx @ [nat \<bar>l\<bar>]\<rparr>)" (is "prop_post _ _ _ ?ctx'")
proof -
  let ?c = "mo_clauses m ! i" and ?a = "sc_assign ctx"
  have "filter (lit_open ?a) (cl_lits ?c) \<noteq> []" using one by auto
  then have "l \<in> set (filter (lit_open ?a) (cl_lits ?c))" unfolding l_def by (rule last_in_set)
  then have l: "l \<in> set (cl_lits ?c)" "lit_open ?a l" by auto
  have wf: "l \<noteq> 0" "\<bar>l\<bar> \<le> int (length (mo_vars m))"
    using inv(2) c l(1) by (auto simp: cls_wf_def clause_wf_def)
  then show v: "nat \<bar>l\<bar> \<in> open_vars m ctx" using l(2) by (auto simp: open_vars_def lit_open_def)
  have b: "b = 1 \<or> b = -1" by (simp add: b_def)
  note st = assign_step [OF inv(1) v b, of "(sc_antecedent ctx)[nat \<bar>l\<bar> := Some i]"]
  have "entailed m ctx ?ctx'"
    unfolding entailed_def
  proof (intro allI impI)
    fix V assume V: "models V m" "agrees V ?a"
    have "lit_true V l" unfolding l_def using inv nth_mem [OF c] unsat one V by (rule unit_entails)
    moreover have "nat \<bar>l\<bar> < length ?a" using v inv(1) by (auto simp: open_vars_def sc_inv_def assign_wf_def)
    ultimately show "agrees V (sc_assign ?ctx')"
      using V(2) wf by (auto simp: agrees_def nth_list_update lit_true_def b_def)
  qed
  then show "prop_post m ctx True ?ctx'" using st c by (auto simp: prop_post_def)
qed

lemma propagate_pass_spec:
  assumes "cls_wf m" and "sc_inv m ctx" and "set is \<subseteq> {..<length (mo_clauses m)}"
  shows "\<exists>ok changed' ctx'. propagate_pass m is changed ctx = Some (ok, changed', ctx') \<and> prop_post m ctx ok ctx' \<and>
    (ok \<and> \<not> changed' \<longrightarrow> \<not> changed \<and> ctx' = ctx \<and> (\<forall>i \<in> set is. clause_stable (sc_assign ctx) (mo_clauses m ! i))) \<and>
    (ok \<and> changed' \<and> \<not> changed \<longrightarrow> open_vars m ctx' \<subset> open_vars m ctx)"
  using assms(2,3)
proof (induction "is" arbitrary: changed ctx)
  case Nil
  then show ?case by (auto simp: prop_post_def)
next
  case (Cons i "is")
  let ?c = "mo_clauses m ! i" and ?a = "sc_assign ctx"
  have i: "i < length (mo_clauses m)" "?c \<in> set (mo_clauses m)" "set is \<subseteq> {..<length (mo_clauses m)}"
    using Cons.prems(2) by auto
  have wf: "lits_wf (length (mo_vars m)) (cl_lits ?c)" using assms(1) i(2) by (auto simp: cls_wf_def clause_wf_def lits_wf_def)
  have aw: "assign_wf (length (mo_vars m)) ?a" using Cons.prems(1) by (simp add: sc_inv_def)
  obtain s k l where scan: "scan_lits ?a (cl_lits ?c) 0 0 = Some (s, k, l)"
    "s \<longleftrightarrow> (\<exists>x \<in> set (cl_lits ?c). lit_sat ?a x)"
    "\<not> s \<longrightarrow> k = length (filter (lit_open ?a) (cl_lits ?c)) \<and>
       l = (if filter (lit_open ?a) (cl_lits ?c) = [] then 0 else last (filter (lit_open ?a) (cl_lits ?c)))"
    using scan_lits_spec [OF aw wf, of 0 0] by auto
  consider (sat) "s" | (conflict) "\<not> s" "k = 0" | (unit) "\<not> s" "k = 1" | (many) "\<not> s" "2 \<le> k" by linarith
  then show ?case
  proof cases
    case sat
    then show ?thesis
      using Cons.IH [OF Cons.prems(1) i(3), of changed] i(1) scan by (auto simp: clause_stable_def)
  next
    case conflict
    obtain best where "blame (mo_clauses m) (sc_antecedent ctx) (cl_lits ?c) i = Some best" "best < length (mo_clauses m)"
      using blame_spec [OF Cons.prems(1) wf i(1)] by blast
    moreover have "refuted m ctx"
      using empty_refutes [OF Cons.prems(1) assms(1) i(2)] conflict scan by simp
    ultimately show ?thesis
      using conflict scan(1) i(1) Cons.prems(1)
      by (auto simp: prop_post_def sc_inv_def sc_extends_def same_search_def entailed_def refuted_def open_vars_def)
  next
    case unit
    let ?ctx' = "ctx\<lparr>sc_assign := ?a[nat \<bar>l\<bar> := if l > 0 then 1 else -1],
       sc_antecedent := (sc_antecedent ctx)[nat \<bar>l\<bar> := Some i], sc_trail := sc_trail ctx @ [nat \<bar>l\<bar>]\<rparr>"
    have one: "\<not> (\<exists>x \<in> set (cl_lits ?c). lit_sat ?a x)" "length (filter (lit_open ?a) (cl_lits ?c)) = 1"
      "l = last (filter (lit_open ?a) (cl_lits ?c))" using unit scan(2,3) by auto
    note st = unit_step [OF Cons.prems(1) assms(1) i(1) one(1,2), folded one(3)]
    have v: "nat \<bar>l\<bar> < length ?a" "nat \<bar>l\<bar> < length (sc_antecedent ctx)"
      using st(1) Cons.prems(1) by (auto simp: open_vars_def sc_inv_def assign_wf_def)
    have pt: "push_trail m (nat \<bar>l\<bar>) (ctx\<lparr>sc_assign := ?a[nat \<bar>l\<bar> := if l > 0 then 1 else -1],
       sc_antecedent := (sc_antecedent ctx)[nat \<bar>l\<bar> := Some i]\<rparr>) = Some ?ctx'"
      by (rule assign_step(5) [OF Cons.prems(1) st(1)]) (use i(1) in auto)
    have "propagate_pass m (i # is) changed ctx = propagate_pass m is True ?ctx'"
      using unit scan(1) i(1) v pt by (simp add: Let_def)
    moreover have "open_vars m ?ctx' = open_vars m ctx - {nat \<bar>l\<bar>}"
      by (rule assign_step(4) [OF Cons.prems(1) st(1)]) (use i(1) in auto)
    then have lt: "open_vars m ?ctx' \<subset> open_vars m ctx" using st(1) by blast
    moreover have inv': "sc_inv m ?ctx'" using st(2) by (simp add: prop_post_def)
    obtain ok changed' ctx' where ih: "propagate_pass m is True ?ctx' = Some (ok, changed', ctx')" "prop_post m ?ctx' ok ctx'"
      "ok \<and> \<not> changed' \<longrightarrow> False" using Cons.IH [OF inv' i(3), of True] by auto
    moreover have "prop_post m ctx ok ctx'" using st(2) ih(2) by (rule prop_post_trans)
    moreover have "open_vars m ctx' \<subset> open_vars m ctx" using ih(2) lt by (auto simp: prop_post_def)
    ultimately show ?thesis by (auto simp del: propagate_pass.simps)
  next
    case many
    then show ?thesis
      using Cons.IH [OF Cons.prems(1) i(3), of changed] i(1) scan by (auto simp: clause_stable_def)
  qed
qed

lemma propagate_spec:
  assumes "cls_wf m" and "sc_inv m ctx" and "card (open_vars m ctx) < fuel"
  shows "\<exists>ok ctx'. propagate fuel m ctx = Some (ok, ctx') \<and> prop_post m ctx ok ctx' \<and>
    (ok \<longrightarrow> (\<forall>c \<in> set (mo_clauses m). clause_stable (sc_assign ctx') c))"
  using assms(2,3)
proof (induction fuel arbitrary: ctx)
  case (Suc fuel)
  obtain ok changed ctx1 where pass: "propagate_pass m [0..<length (mo_clauses m)] False ctx = Some (ok, changed, ctx1)"
    and post: "prop_post m ctx ok ctx1"
    and stable: "ok \<and> \<not> changed \<longrightarrow> ctx1 = ctx \<and>
      (\<forall>i \<in> set [0..<length (mo_clauses m)]. clause_stable (sc_assign ctx) (mo_clauses m ! i))"
    and lt: "ok \<and> changed \<longrightarrow> open_vars m ctx1 \<subset> open_vars m ctx"
    using propagate_pass_spec [OF assms(1) Suc.prems(1), of "[0..<length (mo_clauses m)]" False]
    by (auto simp: subset_eq)
  consider "\<not> ok" | "ok" "\<not> changed" | "ok" "changed" by blast
  then show ?case
  proof cases
    case 1
    then show ?thesis using pass post by auto
  next
    case 2
    then have "ctx1 = ctx" "\<forall>i < length (mo_clauses m). clause_stable (sc_assign ctx) (mo_clauses m ! i)"
      using stable by simp_all
    then have "\<forall>c \<in> set (mo_clauses m). clause_stable (sc_assign ctx1) c" by (metis in_set_conv_nth)
    then show ?thesis using pass post 2 by auto
  next
    case 3
    then have "card (open_vars m ctx1) < card (open_vars m ctx)" using lt by (intro psubset_card_mono) auto
    then have fuel: "card (open_vars m ctx1) < fuel" using Suc.prems(2) by simp
    have "sc_inv m ctx1" "prop_post m ctx True ctx1" using post 3 by (simp_all add: prop_post_def)
    moreover obtain ok' ctx' where "propagate fuel m ctx1 = Some (ok', ctx')" "prop_post m ctx1 ok' ctx'"
      "ok' \<longrightarrow> (\<forall>c \<in> set (mo_clauses m). clause_stable (sc_assign ctx') c)"
      using Suc.IH [OF calculation(1) fuel] by blast
    ultimately show ?thesis using pass 3 prop_post_trans [of m ctx ctx1 ok' ctx'] by auto
  qed
qed simp

subsection \<open>Undoing\<close>

lemma undo_vars_spec:
  assumes "\<forall>v \<in> set vs. v < length (sc_assign ctx)" and "length (sc_antecedent ctx) = length (sc_assign ctx)"
  shows "\<exists>ctx'. undo_vars vs ctx = Some ctx' \<and> same_search ctx ctx' \<and> sc_trail ctx' = sc_trail ctx \<and>
    length (sc_assign ctx') = length (sc_assign ctx) \<and> length (sc_antecedent ctx') = length (sc_antecedent ctx) \<and>
    (\<forall>v < length (sc_assign ctx). sc_assign ctx' ! v = (if v \<in> set vs then 0 else sc_assign ctx ! v)) \<and>
    (\<forall>a. Some a \<in> set (sc_antecedent ctx') \<longrightarrow> Some a \<in> set (sc_antecedent ctx)) \<and>
    sc_has_conflict ctx' = sc_has_conflict ctx \<and> sc_conflict_clause ctx' = sc_conflict_clause ctx"
  using assms
proof (induction vs arbitrary: ctx)
  case (Cons v vs)
  let ?ctx1 = "ctx\<lparr>sc_assign := (sc_assign ctx)[v := 0], sc_antecedent := (sc_antecedent ctx)[v := None]\<rparr>"
  have v: "v < length (sc_assign ctx)" "v < length (sc_antecedent ctx)" using Cons.prems by auto
  have un: "undo_vars (v # vs) ctx = undo_vars vs ?ctx1" using v by simp
  have ante: "Some a \<in> set ((sc_antecedent ctx)[v := None]) \<Longrightarrow> Some a \<in> set (sc_antecedent ctx)" for a
    using set_update_subset_insert [of "sc_antecedent ctx" v None] by auto
  have "\<forall>w \<in> set vs. w < length (sc_assign ?ctx1)" "length (sc_antecedent ?ctx1) = length (sc_assign ?ctx1)"
    using Cons.prems by auto
  from Cons.IH [OF this] obtain ctx' where "undo_vars vs ?ctx1 = Some ctx'" "same_search ?ctx1 ctx'"
    "sc_trail ctx' = sc_trail ctx" "length (sc_assign ctx') = length (sc_assign ctx)"
    "length (sc_antecedent ctx') = length (sc_antecedent ctx)"
    "\<forall>w < length (sc_assign ctx). sc_assign ctx' ! w = (if w \<in> set vs then 0 else (sc_assign ctx)[v := 0] ! w)"
    "\<forall>a. Some a \<in> set (sc_antecedent ctx') \<longrightarrow> Some a \<in> set ((sc_antecedent ctx)[v := None])"
    "sc_has_conflict ctx' = sc_has_conflict ctx" "sc_conflict_clause ctx' = sc_conflict_clause ctx" by auto
  then show ?case using un ante v by (auto simp: same_search_def nth_list_update simp del: undo_vars.simps)
qed simp

text \<open>Undoing to the mark restores the assignment exactly.\<close>

lemma undo_to_restores:
  assumes inv: "sc_inv m ctx" and inv': "sc_inv m ctx'" and ext: "sc_extends ctx ctx'"
  shows "\<exists>ctx''. undo_to (length (sc_trail ctx)) ctx' = Some ctx'' \<and> sc_inv m ctx'' \<and>
    sc_assign ctx'' = sc_assign ctx \<and> sc_trail ctx'' = sc_trail ctx \<and> same_search ctx' ctx'' \<and>
    sc_has_conflict ctx'' = sc_has_conflict ctx'"
proof -
  obtain ext where e: "sc_trail ctx' = sc_trail ctx @ ext" "\<forall>v. v \<notin> set ext \<longrightarrow> sc_assign ctx' ! v = sc_assign ctx ! v"
    using ext by (auto simp: sc_extends_def)
  let ?n = "length (mo_vars m)"
  have len: "length (sc_assign ctx') = ?n + 1" "length (sc_assign ctx) = ?n + 1" "length (sc_antecedent ctx') = ?n + 1"
    using inv inv' by (auto simp: sc_inv_def assign_wf_def)
  have "\<forall>v \<in> set (rev ext). v < length (sc_assign ctx')"
    using inv' len e(1) by (auto simp: sc_inv_def)
  from undo_vars_spec [OF this] len obtain c where c: "undo_vars (rev ext) ctx' = Some c" "same_search ctx' c"
    "length (sc_assign c) = ?n + 1" "length (sc_antecedent c) = ?n + 1"
    "\<forall>v < ?n + 1. sc_assign c ! v = (if v \<in> set ext then 0 else sc_assign ctx' ! v)"
    "\<forall>a. Some a \<in> set (sc_antecedent c) \<longrightarrow> Some a \<in> set (sc_antecedent ctx')"
    "sc_has_conflict c = sc_has_conflict ctx'" "sc_conflict_clause c = sc_conflict_clause ctx'" by auto
  have old: "sc_assign ctx ! v = 0" if "v \<in> set ext" for v
  proof -
    have "v \<le> ?n" "v \<notin> set (sc_trail ctx)" using that inv' e(1) by (auto simp: sc_inv_def)
    then show ?thesis using inv by (auto simp: sc_inv_def)
  qed
  have same: "sc_assign c = sc_assign ctx"
    using c(3,5) len e(2) old by (intro nth_equalityI) auto
  have "undo_to (length (sc_trail ctx)) ctx' = Some (c\<lparr>sc_trail := sc_trail ctx\<rparr>)"
    using c(1) e(1) by (simp add: undo_to_def)
  moreover have "sc_inv m (c\<lparr>sc_trail := sc_trail ctx\<rparr>)"
    using inv inv' c same by (auto simp: sc_inv_def)
  ultimately show ?thesis using same c(2,7) by (simp add: same_search_def)
qed

lemma pick_loop_spec:
  "\<forall>v \<in> set vs. v < length a \<and> v \<noteq> 0 \<Longrightarrow>
   \<exists>r. pick_loop a vs = Some r \<and> (r = 0 \<longrightarrow> (\<forall>v \<in> set vs. a ! v \<noteq> 0)) \<and> (r \<noteq> 0 \<longrightarrow> r \<in> set vs \<and> a ! r = 0)"
  by (induction vs) auto

lemma pick_var_spec:
  assumes "sc_inv m ctx"
  shows "\<exists>r. pick_var m ctx = Some r \<and> (r = 0 \<longrightarrow> open_vars m ctx = {}) \<and> (r \<noteq> 0 \<longrightarrow> r \<in> open_vars m ctx)"
proof -
  let ?vs = "if sc_reverse_order ctx then rev [1..<length (mo_vars m) + 1] else [1..<length (mo_vars m) + 1]"
  have set: "set ?vs = {1..length (mo_vars m)}" by auto
  have "\<forall>v \<in> set ?vs. v < length (sc_assign ctx) \<and> v \<noteq> 0"
    using assms unfolding set by (auto simp: sc_inv_def assign_wf_def)
  from pick_loop_spec [OF this] show ?thesis
    unfolding set by (auto simp: pick_var_def Let_def open_vars_def)
qed

subsection \<open>The search\<close>

definition loads :: "sat_solve_ctx \<Rightarrow> bool set" where
  "loads ctx = (case sc_cancel ctx of None \<Rightarrow> {} | Some ls \<Rightarrow> set ls)"

text \<open>What a call of \<open>dpll\<close> establishes.\<close>

definition dpll_post :: "sat_model \<Rightarrow> sat_solve_ctx \<Rightarrow> bool \<Rightarrow> sat_solve_ctx \<Rightarrow> bool" where
  "dpll_post m ctx r ctx' \<longleftrightarrow>
     sc_inv m ctx' \<and> sc_extends ctx ctx' \<and> sc_budget ctx' = sc_budget ctx \<and>
     (sc_has_conflict ctx \<longrightarrow> sc_has_conflict ctx') \<and>
     loads ctx' \<subseteq> loads ctx \<and> (sc_aborted ctx' \<longrightarrow> True \<in> loads ctx) \<and>
     (sc_timed_out ctx' \<longrightarrow> sc_budget ctx \<le> sc_decisions ctx') \<and>
     sc_decisions ctx' + 1 \<le> sc_decisions ctx + 2 ^ card (open_vars m ctx) \<and>
     (r \<longrightarrow> open_vars m ctx' = {} \<and> (\<forall>c \<in> set (mo_clauses m). clause_stable (sc_assign ctx') c) \<and>
        \<not> sc_timed_out ctx' \<and> \<not> sc_aborted ctx') \<and>
     (\<not> r \<longrightarrow> sc_assign ctx' = sc_assign ctx \<and> sc_trail ctx' = sc_trail ctx \<and>
        (\<not> sc_timed_out ctx' \<and> \<not> sc_aborted ctx' \<longrightarrow> refuted m ctx \<and> sc_has_conflict ctx'))"

lemma decide_spec:
  assumes "sc_inv m ctx" and "v \<in> open_vars m ctx" and "b = 1 \<or> b = -1"
  shows "\<exists>ctx'. decide m v b ctx = Some ctx' \<and> sc_inv m ctx' \<and> sc_extends ctx ctx' \<and> same_search ctx ctx' \<and>
    open_vars m ctx' = open_vars m ctx - {v} \<and> sc_assign ctx' = (sc_assign ctx)[v := b] \<and>
    sc_has_conflict ctx' = sc_has_conflict ctx"
proof -
  have v: "v < length (sc_assign ctx)" using assms(1,2) by (auto simp: sc_inv_def assign_wf_def open_vars_def)
  note st = assign_step [OF assms, of "sc_antecedent ctx"]
  have "decide m v b ctx = push_trail m v (ctx\<lparr>sc_assign := (sc_assign ctx)[v := b], sc_antecedent := sc_antecedent ctx\<rparr>)"
    using v by (simp add: decide_def)
  then show ?thesis using st by auto
qed

lemma refuted_branches:
  assumes ent: "entailed m ctx ctx1" and inv: "sc_inv m ctx" "sc_inv m ctx1" and v: "v \<in> open_vars m ctx1"
    and b: "b = 1 \<or> b = -1" and a2: "sc_assign ctx2 = (sc_assign ctx1)[v := b]" "refuted m ctx2"
    and a5: "sc_assign ctx5 = (sc_assign ctx)[v := - b]" "refuted m ctx5"
  shows "refuted m ctx"
  unfolding refuted_def
proof (intro allI impI notI)
  fix V assume V: "models V m" "agrees V (sc_assign ctx)"
  have V1: "agrees V (sc_assign ctx1)" using ent V by (simp add: entailed_def)
  have len: "v < length (sc_assign ctx)" "v < length (sc_assign ctx1)"
    using inv v by (auto simp: sc_inv_def assign_wf_def open_vars_def)
  have "agrees V (sc_assign ctx2) \<or> agrees V (sc_assign ctx5)"
    using V(2) V1 b len by (cases "V v") (auto simp: a2(1) a5(1) agrees_def nth_list_update)
  then show False using V(1) a2(2) a5(2) by (auto simp: refuted_def)
qed

lemma open_vars_cong: "sc_assign ctx' = sc_assign ctx \<Longrightarrow> open_vars m ctx' = open_vars m ctx"
  by (simp add: open_vars_def)

lemma loads_load_cancel:
  "load_cancel (sc_cancel ctx) = (flag, c') \<Longrightarrow>
   loads (ctx\<lparr>sc_cancel := c'\<rparr>) \<subseteq> loads ctx \<and> (flag \<longrightarrow> True \<in> loads ctx)"
  by (cases "sc_cancel ctx" rule: load_cancel.cases) (auto simp: loads_def)

lemma same_search_loads: "same_search ctx ctx' \<Longrightarrow> loads ctx' = loads ctx"
  by (simp add: same_search_def loads_def)

text \<open>The part after propagation left a variable to decide, given that the recursive calls
  meet the specification.\<close>

definition dpll_spec :: "sat_model \<Rightarrow> nat \<Rightarrow> bool" where
  "dpll_spec m fuel \<longleftrightarrow> (\<forall>ctx. sc_inv m ctx \<longrightarrow> card (open_vars m ctx) < fuel \<longrightarrow>
     \<not> sc_timed_out ctx \<longrightarrow> \<not> sc_aborted ctx \<longrightarrow>
     (\<exists>r ctx'. dpll fuel m ctx = Some (r, ctx') \<and> dpll_post m ctx r ctx'))"

definition dpll_branch :: "nat \<Rightarrow> sat_model \<Rightarrow> nat \<Rightarrow> nat \<Rightarrow> sat_solve_ctx \<Rightarrow> (bool \<times> sat_solve_ctx) option" where
  "dpll_branch fuel m mark chosen ctx1 =
     do {
       let first_val = (if sc_prefer_false ctx1 then -1 else 1 :: int);
       ctx2 \<leftarrow> decide m chosen first_val (ctx1\<lparr>sc_decisions := sc_decisions ctx1 + 1\<rparr>);
       (r, ctx3) \<leftarrow> dpll fuel m ctx2;
       if r then Some (True, ctx3)
       else do {
         ctx4 \<leftarrow> undo_to mark ctx3;
         if sc_timed_out ctx4 \<or> sc_aborted ctx4 then Some (False, ctx4)
         else do {
           ctx5 \<leftarrow> decide m chosen (- first_val) ctx4;
           (r, ctx6) \<leftarrow> dpll fuel m ctx5;
           if r then Some (True, ctx6) else do { ctx7 \<leftarrow> undo_to mark ctx6; Some (False, ctx7) }
         }
       }
     }"

definition dpll_after :: "nat \<Rightarrow> sat_model \<Rightarrow> nat \<Rightarrow> bool \<Rightarrow> sat_solve_ctx \<Rightarrow> (bool \<times> sat_solve_ctx) option" where
  "dpll_after fuel m mark ok ctx1 =
     (if \<not> ok then do { ctx2 \<leftarrow> undo_to mark ctx1; Some (False, ctx2) }
      else do {
        chosen \<leftarrow> pick_var m ctx1;
        if chosen = 0 then Some (True, ctx1)
        else if sc_decisions ctx1 \<ge> sc_budget ctx1
        then do { ctx2 \<leftarrow> undo_to mark (ctx1\<lparr>sc_timed_out := True\<rparr>); Some (False, ctx2) }
        else dpll_branch fuel m mark chosen ctx1
      })"

lemma dpll_unfold:
  "dpll (Suc fuel) m ctx =
     (let (flag, cancel') = load_cancel (sc_cancel ctx); ctx0 = ctx\<lparr>sc_cancel := cancel'\<rparr> in
      if flag then Some (False, ctx0\<lparr>sc_aborted := True\<rparr>)
      else do {
        (ok, ctx1) \<leftarrow> propagate (length (mo_vars m) + 1) m ctx0;
        dpll_after fuel m (length (sc_trail ctx0)) ok ctx1
      })"
  by (simp only: dpll.simps dpll_after_def dpll_branch_def Let_def)

text \<open>Sub-budgets of the two branches below a decision.\<close>

lemma branch_budget:
  fixes a b u :: nat
  assumes "0 < u" and "a \<le> u - 1" and "b = u - 1"
  shows "(2::nat) ^ a + 2 ^ b \<le> 2 ^ u"
proof -
  have "(2::nat) ^ a \<le> 2 ^ (u - 1)" using assms(2) by (rule power_increasing) simp
  moreover have "(2::nat) ^ u = 2 * 2 ^ (u - 1)" using assms(1) by (cases u) simp_all
  ultimately show ?thesis using assms(3) by simp
qed

text \<open>
  One branch: decide, search, and when that fails undo to the state before the decision level.
  \<open>ctx\<close> is the context at the mark, \<open>c\<close> the one the decision starts from.
\<close>

definition full_model :: "sat_model \<Rightarrow> sat_solve_ctx \<Rightarrow> bool" where
  "full_model m ctx \<longleftrightarrow> open_vars m ctx = {} \<and> (\<forall>c \<in> set (mo_clauses m). clause_stable (sc_assign ctx) c)"

definition branch_post :: "sat_model \<Rightarrow> sat_solve_ctx \<Rightarrow> sat_solve_ctx \<Rightarrow> int list \<Rightarrow> bool \<Rightarrow> sat_solve_ctx \<Rightarrow> bool" where
  "branch_post m ctx c a r c' \<longleftrightarrow>
     sc_inv m c' \<and> sc_extends ctx c' \<and> sc_budget c' = sc_budget c \<and> (sc_has_conflict c \<longrightarrow> sc_has_conflict c') \<and>
     loads c' \<subseteq> loads c \<and> (sc_aborted c' \<longrightarrow> True \<in> loads c) \<and>
     (sc_timed_out c' \<longrightarrow> sc_budget c \<le> sc_decisions c') \<and>
     sc_decisions c' + 1 \<le> sc_decisions c + 2 ^ (card (open_vars m c) - 1) \<and>
     (r \<longrightarrow> full_model m c' \<and> \<not> sc_timed_out c' \<and> \<not> sc_aborted c') \<and>
     (\<not> r \<longrightarrow> sc_assign c' = sc_assign ctx \<and> sc_trail c' = sc_trail ctx \<and>
        (\<not> sc_timed_out c' \<and> \<not> sc_aborted c' \<longrightarrow> refuted m (c\<lparr>sc_assign := a\<rparr>) \<and> sc_has_conflict c'))"

lemma try_value:
  assumes spec: "dpll_spec m fuel" and inv: "sc_inv m ctx" "sc_inv m c" and ext: "sc_extends ctx c"
    and v: "v \<in> open_vars m c" and b: "b = 1 \<or> b = -1" and go: "\<not> sc_timed_out c" "\<not> sc_aborted c"
    and fuel: "card (open_vars m c) < Suc fuel"
  shows "\<exists>c2 r c3 c4. decide m v b c = Some c2 \<and> dpll fuel m c2 = Some (r, c3) \<and>
    (if r then c4 = c3 else undo_to (length (sc_trail ctx)) c3 = Some c4) \<and>
    branch_post m ctx c ((sc_assign c)[v := b]) r c4"
proof -
  obtain c2 where c2: "decide m v b c = Some c2" "sc_inv m c2" "sc_extends c c2" "same_search c c2"
    "open_vars m c2 = open_vars m c - {v}" "sc_assign c2 = (sc_assign c)[v := b]"
    "sc_has_conflict c2 = sc_has_conflict c" using decide_spec [OF inv(2) v b] by blast
  have u: "card (open_vars m c2) = card (open_vars m c) - 1" "0 < card (open_vars m c)"
    using v c2(5) by (auto simp: card_gt_0_iff)
  have s2: "sc_budget c2 = sc_budget c" "sc_decisions c2 = sc_decisions c" "\<not> sc_timed_out c2" "\<not> sc_aborted c2"
    "loads c2 = loads c" using c2(4) go by (auto simp: same_search_def loads_def)
  have "card (open_vars m c2) < fuel" using u fuel by linarith
  then obtain r c3 where c3: "dpll fuel m c2 = Some (r, c3)" "dpll_post m c2 r c3"
    using spec c2(2) s2(3,4) unfolding dpll_spec_def by blast
  have e3: "sc_inv m c3" "sc_extends ctx c3"
    using c3(2) sc_extends_trans [OF sc_extends_trans [OF ext c2(3)]] by (auto simp: dpll_post_def)
  have ref: "refuted m c2 \<longleftrightarrow> refuted m (c\<lparr>sc_assign := (sc_assign c)[v := b]\<rparr>)" by (simp add: refuted_def c2(6))
  show ?thesis
  proof (cases r)
    case True
    then have "branch_post m ctx c ((sc_assign c)[v := b]) r c3"
      using c3(2) e3 s2 u c2(7) by (simp add: branch_post_def dpll_post_def full_model_def)
    then show ?thesis using c2(1) c3(1) True by auto
  next
    case False
    obtain c4 where c4: "undo_to (length (sc_trail ctx)) c3 = Some c4" "sc_inv m c4" "sc_assign c4 = sc_assign ctx"
      "sc_trail c4 = sc_trail ctx" "same_search c3 c4" "sc_has_conflict c4 = sc_has_conflict c3"
      using undo_to_restores [OF inv(1) e3] by blast
    have "sc_extends ctx c4" using c4(3,4) by (simp add: sc_extends_def)
    then have "branch_post m ctx c ((sc_assign c)[v := b]) r c4"
      using c3(2) c4 s2 u c2(7) False ref same_search_loads [OF c4(5)]
      by (auto simp: branch_post_def dpll_post_def same_search_def)
    then show ?thesis using c2(1) c3(1) c4(1) False by auto
  qed
qed

lemma dpll_branch_spec:
  assumes spec: "dpll_spec m fuel" and inv: "sc_inv m ctx" and post: "prop_post m ctx True ctx1"
    and v: "v \<in> open_vars m ctx1" and go: "\<not> sc_timed_out ctx" "\<not> sc_aborted ctx"
    and fuel: "card (open_vars m ctx) < Suc fuel"
  shows "\<exists>r ctx'. dpll_branch fuel m (length (sc_trail ctx)) v ctx1 = Some (r, ctx') \<and> dpll_post m ctx r ctx'"
proof -
  define b :: int where "b = (if sc_prefer_false ctx1 then -1 else 1)"
  have b: "b = 1 \<or> b = -1" "- b = 1 \<or> - b = -1" by (auto simp: b_def)
  have p: "sc_inv m ctx1" "sc_extends ctx ctx1" "same_search ctx ctx1" "entailed m ctx ctx1"
    "open_vars m ctx1 \<subseteq> open_vars m ctx" "sc_has_conflict ctx \<longrightarrow> sc_has_conflict ctx1"
    using post by (simp_all add: prop_post_def)
  define d1 where "d1 = ctx1\<lparr>sc_decisions := sc_decisions ctx1 + 1\<rparr>"
  let ?u = "card (open_vars m ctx)"
  have c1: "sc_inv m d1" "sc_extends ctx d1" "open_vars m d1 = open_vars m ctx1"
    using p(1,2) by (simp_all add: d1_def sc_inv_def sc_extends_def open_vars_def)
  have s1: "sc_budget d1 = sc_budget ctx" "sc_decisions d1 = sc_decisions ctx + 1" "loads d1 = loads ctx"
    "\<not> sc_timed_out d1" "\<not> sc_aborted d1" using p(3) go by (auto simp: d1_def same_search_def loads_def)
  have u1: "card (open_vars m d1) \<le> ?u" using p(5) by (simp add: c1(3) card_mono)
  have u: "0 < ?u" using v p(5) by (auto simp: card_gt_0_iff)
  have v1: "v \<in> open_vars m d1" and fuel1: "card (open_vars m d1) < Suc fuel" using v u1 fuel by (simp_all add: c1(3))
  obtain c2 r c3 c4 where t1: "decide m v b d1 = Some c2" "dpll fuel m c2 = Some (r, c3)"
    "if r then c4 = c3 else undo_to (length (sc_trail ctx)) c3 = Some c4"
    "branch_post m ctx d1 ((sc_assign ctx1)[v := b]) r c4"
    using try_value [OF spec inv c1(1,2) v1 b(1) s1(4,5) fuel1] by (auto simp: d1_def)
  have le1: "sc_decisions c4 \<le> sc_decisions ctx + 2 ^ (card (open_vars m d1) - 1)"
    using t1(4) s1(2) by (simp add: branch_post_def)
  have pw: "(2::nat) ^ (card (open_vars m d1) - 1) + 2 ^ (?u - 1) \<le> 2 ^ ?u" using u u1 by (intro branch_budget) auto
  moreover have "(1::nat) \<le> 2 ^ (?u - 1)" by simp
  ultimately have le2: "sc_decisions c4 + 1 \<le> sc_decisions ctx + 2 ^ ?u" using le1 by linarith
  have hc: "sc_has_conflict ctx \<longrightarrow> sc_has_conflict d1" using p(6) by (simp add: d1_def)
  consider (sat) "r" | (stop) "\<not> r" "sc_timed_out c4 \<or> sc_aborted c4" | (second) "\<not> r" "\<not> sc_timed_out c4" "\<not> sc_aborted c4"
    by blast
  then show ?thesis
  proof cases
    case sat
    then have "dpll_branch fuel m (length (sc_trail ctx)) v ctx1 = Some (True, c4)"
      using t1(1-3) unfolding dpll_branch_def Let_def b_def [symmetric] d1_def [symmetric] by simp
    moreover have "dpll_post m ctx True c4"
      using t1(4) s1 sat le2 hc unfolding dpll_post_def branch_post_def full_model_def by simp
    ultimately show ?thesis by blast
  next
    case stop
    then have "dpll_branch fuel m (length (sc_trail ctx)) v ctx1 = Some (False, c4)"
      using t1(1-3) unfolding dpll_branch_def Let_def b_def [symmetric] d1_def [symmetric] by simp
    moreover have "dpll_post m ctx False c4"
      using t1(4) s1 stop le2 hc unfolding dpll_post_def branch_post_def by auto
    ultimately show ?thesis by blast
  next
    case second
    have b4: "sc_inv m c4" "sc_extends ctx c4" "sc_assign c4 = sc_assign ctx" "sc_trail c4 = sc_trail ctx"
      "loads c4 \<subseteq> loads ctx" "refuted m (d1\<lparr>sc_assign := (sc_assign ctx1)[v := b]\<rparr>)" "sc_has_conflict c4"
      "sc_budget c4 = sc_budget ctx"
      using t1(4) second s1 by (auto simp: branch_post_def)
    have o4: "open_vars m c4 = open_vars m ctx" using b4(3) by (rule open_vars_cong)
    have v4: "v \<in> open_vars m c4" and fuel4: "card (open_vars m c4) < Suc fuel" using v p(5) fuel o4 by auto
    obtain c5 r' c6 c7 where t2: "decide m v (- b) c4 = Some c5" "dpll fuel m c5 = Some (r', c6)"
      "if r' then c7 = c6 else undo_to (length (sc_trail ctx)) c6 = Some c7"
      "branch_post m ctx c4 ((sc_assign ctx)[v := - b]) r' c7"
      using try_value [OF spec inv b4(1,2) v4 b(2) second(2,3) fuel4] b4(3) by auto
    have run: "dpll_branch fuel m (length (sc_trail ctx)) v ctx1 = Some (r', c7)"
      using t1(1-3) t2(1-3) second
      unfolding dpll_branch_def Let_def b_def [symmetric] d1_def [symmetric] by (cases r') simp_all
    have "refuted m ctx" if "refuted m (c4\<lparr>sc_assign := (sc_assign ctx)[v := - b]\<rparr>)"
      by (rule refuted_branches [OF p(4) inv p(1) v b(1) _ b4(6) _ that]) simp_all
    moreover have "sc_decisions c7 + 1 \<le> sc_decisions ctx + 2 ^ ?u"
      using t2(4) le1 pw o4 by (simp add: branch_post_def)
    ultimately have "dpll_post m ctx r' c7"
      using t2(4) b4 unfolding dpll_post_def branch_post_def full_model_def by (cases r') auto
    then show ?thesis using run by blast
  qed
qed

lemma dpll_after_spec:
  assumes spec: "dpll_spec m fuel" and inv: "sc_inv m ctx" and post: "prop_post m ctx ok ctx1"
    and stable: "ok \<longrightarrow> (\<forall>c \<in> set (mo_clauses m). clause_stable (sc_assign ctx1) c)"
    and go: "\<not> sc_timed_out ctx" "\<not> sc_aborted ctx" and fuel: "card (open_vars m ctx) < Suc fuel"
  shows "\<exists>r ctx'. dpll_after fuel m (length (sc_trail ctx)) ok ctx1 = Some (r, ctx') \<and> dpll_post m ctx r ctx'"
proof -
  have p: "sc_inv m ctx1" "sc_extends ctx ctx1" "same_search ctx ctx1" "sc_has_conflict ctx \<longrightarrow> sc_has_conflict ctx1"
    using post by (simp_all add: prop_post_def)
  note ld = same_search_loads [OF p(3)]
  have pw: "(1::nat) \<le> 2 ^ card (open_vars m ctx)" by simp
  obtain v where v: "pick_var m ctx1 = Some v" "v = 0 \<longrightarrow> open_vars m ctx1 = {}" "v \<noteq> 0 \<longrightarrow> v \<in> open_vars m ctx1"
    using pick_var_spec [OF p(1)] by blast
  consider (conflict) "\<not> ok" | (sat) "ok" "v = 0" | (budget) "ok" "v \<noteq> 0" "sc_budget ctx1 \<le> sc_decisions ctx1"
    | (branch) "ok" "v \<noteq> 0" "\<not> sc_budget ctx1 \<le> sc_decisions ctx1" by blast
  then show ?thesis
  proof cases
    case conflict
    obtain c where c: "undo_to (length (sc_trail ctx)) ctx1 = Some c" "sc_inv m c" "sc_assign c = sc_assign ctx"
      "sc_trail c = sc_trail ctx" "same_search ctx1 c" "sc_has_conflict c = sc_has_conflict ctx1"
      using undo_to_restores [OF inv p(1,2)] by blast
    have "refuted m ctx" "sc_has_conflict ctx1" using post conflict entailed_refuted by (auto simp: prop_post_def)
    then have "dpll_post m ctx False c"
      using c p ld same_search_loads [OF c(5)] go pw by (simp add: dpll_post_def sc_extends_def same_search_def)
    then show ?thesis using c(1) conflict by (auto simp: dpll_after_def)
  next
    case sat
    then have "dpll_post m ctx True ctx1"
      using p ld go pw v(2) stable by (auto simp: dpll_post_def same_search_def)
    then show ?thesis using v(1) sat by (auto simp: dpll_after_def)
  next
    case budget
    let ?c1 = "ctx1\<lparr>sc_timed_out := True\<rparr>"
    have "sc_inv m ?c1" "sc_extends ctx ?c1" using p(1,2) by (simp_all add: sc_inv_def sc_extends_def)
    then obtain c where c: "undo_to (length (sc_trail ctx)) ?c1 = Some c" "sc_inv m c" "sc_assign c = sc_assign ctx"
      "sc_trail c = sc_trail ctx" "same_search ?c1 c" "sc_has_conflict c = sc_has_conflict ctx1"
      using undo_to_restores [OF inv, of ?c1] by auto
    then have "dpll_post m ctx False c"
      using p ld go pw budget(3) by (simp add: dpll_post_def sc_extends_def same_search_def loads_def)
    then show ?thesis using v(1) c(1) budget by (auto simp: dpll_after_def)
  next
    case branch
    then show ?thesis
      using dpll_branch_spec [OF spec inv _ _ go fuel, of ctx1 v] post v by (simp add: dpll_after_def)
  qed
qed

text \<open>The recursion meets its specification, with fuel above the number of open variables.\<close>

lemma dpll_total: "cls_wf m \<Longrightarrow> dpll_spec m fuel"
proof (induction fuel)
  case 0
  then show ?case by (simp add: dpll_spec_def)
next
  case (Suc fuel)
  show ?case
    unfolding dpll_spec_def
  proof (intro allI impI)
    fix ctx
    assume inv: "sc_inv m ctx" and fuel: "card (open_vars m ctx) < Suc fuel" and go: "\<not> sc_timed_out ctx" "\<not> sc_aborted ctx"
    obtain flag c' where lc: "load_cancel (sc_cancel ctx) = (flag, c')" by fastforce
    define ctx0 where "ctx0 = ctx\<lparr>sc_cancel := c'\<rparr>"
    have z: "sc_inv m ctx0" "open_vars m ctx0 = open_vars m ctx" "\<not> sc_timed_out ctx0" "\<not> sc_aborted ctx0"
      "sc_trail ctx0 = sc_trail ctx" "sc_assign ctx0 = sc_assign ctx" "sc_budget ctx0 = sc_budget ctx"
      "sc_decisions ctx0 = sc_decisions ctx" "sc_has_conflict ctx0 = sc_has_conflict ctx"
      using inv go by (simp_all add: ctx0_def sc_inv_def open_vars_def)
    have ld: "loads ctx0 \<subseteq> loads ctx" "flag \<longrightarrow> True \<in> loads ctx" using loads_load_cancel [OF lc] by (simp_all add: ctx0_def)
    have lift: "dpll_post m ctx0 r ctx' \<Longrightarrow> dpll_post m ctx r ctx'" for r ctx'
      using z ld(1) by (auto simp: dpll_post_def sc_extends_def refuted_def)
    have pw: "(1::nat) \<le> 2 ^ card (open_vars m ctx)" by simp
    show "\<exists>r ctx'. dpll (Suc fuel) m ctx = Some (r, ctx') \<and> dpll_post m ctx r ctx'"
    proof (cases flag)
      case True
      have "dpll_post m ctx False (ctx0\<lparr>sc_aborted := True\<rparr>)"
        using z ld True pw by (simp add: dpll_post_def sc_inv_def sc_extends_def loads_def)
      then show ?thesis using lc True by (auto simp: dpll_unfold ctx0_def [symmetric] Let_def simp del: dpll.simps)
    next
      case False
      have "card (open_vars m ctx0) \<le> card {1..length (mo_vars m)}" by (intro card_mono) (auto simp: open_vars_def)
      then obtain ok ctx1 where pr: "propagate (length (mo_vars m) + 1) m ctx0 = Some (ok, ctx1)" "prop_post m ctx0 ok ctx1"
        "ok \<longrightarrow> (\<forall>c \<in> set (mo_clauses m). clause_stable (sc_assign ctx1) c)"
        using propagate_spec [OF Suc.prems z(1), of "length (mo_vars m) + 1"] by auto
      obtain r ctx' where "dpll_after fuel m (length (sc_trail ctx0)) ok ctx1 = Some (r, ctx')" "dpll_post m ctx0 r ctx'"
        using dpll_after_spec [OF Suc.IH [OF Suc.prems] z(1) pr(2,3) z(3,4)] fuel z(2) by auto
      moreover from this(1) have "dpll (Suc fuel) m ctx = Some (r, ctx')"
        using lc False pr(1) z(5) unfolding dpll_unfold Let_def
        by (simp add: ctx0_def [symmetric] del: propagate.simps)
      ultimately show ?thesis using lift by blast
    qed
  qed
qed

subsection \<open>Outcomes\<close>

text \<open>The valuation a full assignment stands for.\<close>

definition val_of :: "int list \<Rightarrow> nat \<Rightarrow> bool" where
  "val_of a v \<longleftrightarrow> a ! v = 1"

lemma full_model_models:
  assumes wf: "cls_wf m" and inv: "sc_inv m ctx" and full: "full_model m ctx"
  shows "models (val_of (sc_assign ctx)) m"
  unfolding models_def
proof
  fix c assume c: "c \<in> set (mo_clauses m)"
  let ?a = "sc_assign ctx"
  have lits: "l \<noteq> 0 \<and> \<bar>l\<bar> \<le> int (length (mo_vars m))" if "l \<in> set (cl_lits c)" for l
    using wf c that by (auto simp: cls_wf_def clause_wf_def)
  have "\<not> lit_open ?a l" if "l \<in> set (cl_lits c)" for l
  proof
    assume "lit_open ?a l"
    then have "nat \<bar>l\<bar> \<in> open_vars m ctx" using lits [OF that] by (auto simp: open_vars_def lit_open_def)
    then show False using full by (simp add: full_model_def)
  qed
  then have "filter (lit_open ?a) (cl_lits c) = []" by (simp add: filter_empty_conv)
  then obtain l where l: "l \<in> set (cl_lits c)" "lit_sat ?a l"
    using full c by (auto simp: full_model_def clause_stable_def)
  then have "lit_true (val_of ?a) l" using lits [OF l(1)] by (auto simp: lit_sat_def lit_true_def val_of_def)
  then show "\<exists>l \<in> set (cl_lits c). lit_true (val_of ?a) l" using l(1) by blast
qed

lemma fresh_solve_ctx_inv:
  "sc_inv m (fresh_solve_ctx m budget cancel ro pf)"
  "open_vars m (fresh_solve_ctx m budget cancel ro pf) = {1..length (mo_vars m)}"
  by (auto simp: sc_inv_def fresh_solve_ctx_def assign_wf_def open_vars_def nth_Cons' in_set_conv_nth
      simp del: replicate_Suc)

lemma refuted_fresh: "refuted m (fresh_solve_ctx m budget cancel ro pf) \<longleftrightarrow> (\<forall>V. \<not> models V m)"
proof -
  have "agrees V (sc_assign (fresh_solve_ctx m budget cancel ro pf))" for V
    by (auto simp: agrees_def fresh_solve_ctx_def simp del: replicate_Suc)
  then show ?thesis by (auto simp: refuted_def)
qed

text \<open>The search from a fresh context.\<close>

lemma dpll_fresh:
  assumes "cls_wf m"
  obtains r ctx where "dpll (length (mo_vars m) + 1) m (fresh_solve_ctx m budget cancel ro pf) = Some (r, ctx)"
    and "sc_inv m ctx" and "sc_aborted ctx \<longrightarrow> (\<exists>ls. cancel = Some ls \<and> True \<in> set ls)"
    and "sc_timed_out ctx \<longrightarrow> budget < 2 ^ length (mo_vars m)"
    and "r \<longrightarrow> full_model m ctx \<and> \<not> sc_aborted ctx \<and> \<not> sc_timed_out ctx"
    and "\<not> r \<and> \<not> sc_aborted ctx \<and> \<not> sc_timed_out ctx \<longrightarrow> (\<forall>V. \<not> models V m) \<and> sc_has_conflict ctx"
proof -
  let ?c = "fresh_solve_ctx m budget cancel ro pf"
  have "\<not> sc_timed_out ?c" "\<not> sc_aborted ?c" by (simp_all add: fresh_solve_ctx_def)
  then obtain r ctx where d: "dpll (length (mo_vars m) + 1) m ?c = Some (r, ctx)" "dpll_post m ?c r ctx"
    using dpll_total [OF assms, of "length (mo_vars m) + 1"] fresh_solve_ctx_inv unfolding dpll_spec_def
    by (metis (no_types, lifting) Suc_eq_plus1 card_atLeastAtMost diff_Suc_1 lessI)
  show thesis
  proof (rule that [OF d(1)])
    show "sc_inv m ctx" using d(2) by (simp add: dpll_post_def)
    show "sc_aborted ctx \<longrightarrow> (\<exists>ls. cancel = Some ls \<and> True \<in> set ls)"
      using d(2) by (cases cancel) (auto simp: dpll_post_def loads_def fresh_solve_ctx_def)
    have "sc_decisions ctx + 1 \<le> 2 ^ length (mo_vars m)" "sc_timed_out ctx \<longrightarrow> budget \<le> sc_decisions ctx"
      using d(2) fresh_solve_ctx_inv(2) by (simp_all add: dpll_post_def) (simp_all add: fresh_solve_ctx_def)
    then show "sc_timed_out ctx \<longrightarrow> budget < 2 ^ length (mo_vars m)" by linarith
    show "r \<longrightarrow> full_model m ctx \<and> \<not> sc_aborted ctx \<and> \<not> sc_timed_out ctx"
      using d(2) by (simp add: dpll_post_def full_model_def)
    show "\<not> r \<and> \<not> sc_aborted ctx \<and> \<not> sc_timed_out ctx \<longrightarrow> (\<forall>V. \<not> models V m) \<and> sc_has_conflict ctx"
      using d(2) by (simp add: dpll_post_def refuted_fresh)
  qed
qed

lemma explain_conflict_safe:
  assumes "cls_wf m" and "\<forall>p \<in> set (mo_vars m). st p \<noteq> None" and "i < length (mo_clauses m)"
  shows "\<exists>text mem'. explain_conflict st m i mem = Some (text, mem') \<and> (no_oom mem \<longrightarrow> text \<noteq> None)"
proof -
  let ?c = "mo_clauses m ! i"
  have wf: "clause_wf (length (mo_vars m)) ?c" using assms(1,3) by (simp add: cls_wf_def)
  have name: "\<exists>nm. lit_name st m l = Some nm" if "l \<in> set (cl_lits ?c)" for l
  proof -
    have l: "nat \<bar>l\<bar> - 1 < length (mo_vars m)" using wf that by (auto simp: clause_wf_def)
    then obtain meta where "st (mo_vars m ! (nat \<bar>l\<bar> - 1)) = Some meta" using assms(2) nth_mem by fastforce
    then show ?thesis using l by (simp add: lit_name_def)
  qed
  have fmt: "\<exists>t mem'. fmt s mem = (t, mem') \<and> (no_oom mem \<longrightarrow> t \<noteq> None)" for s
    by (cases mem) (auto simp: fmt_def strdup_m_def)
  have ne: "0 < length (cl_lits ?c)" using wf by (simp add: clause_wf_def)
  obtain n0 where n0: "lit_name st m (cl_lits ?c ! 0) = Some n0" using name nth_mem [OF ne] by blast
  show ?thesis
  proof (cases "cl_kind ?c")
    case SAT_CLAUSE_CONFLICT
    then have "1 < length (cl_lits ?c)" using wf by (simp add: clause_wf_def)
    then obtain n1 where "lit_name st m (cl_lits ?c ! 1) = Some n1" using name nth_mem by blast
    then show ?thesis using SAT_CLAUSE_CONFLICT n0 ne assms(3) fmt \<open>1 < length (cl_lits ?c)\<close>
      by (auto simp: explain_conflict_def)
  qed (use n0 ne assms(3) fmt in \<open>auto simp: explain_conflict_def\<close>)
qed

lemma mo_inv_cls_wf: "mo_inv m \<Longrightarrow> cls_wf m"
  by (simp add: mo_inv_def cls_wf_def)

lemma no_vars_no_clauses:
  assumes "mo_inv m" and "mo_vars m = []"
  shows "mo_clauses m = []"
proof -
  have "c \<notin> set (mo_clauses m)" for c
  proof
    assume "c \<in> set (mo_clauses m)"
    then have "clause_wf 0 c" using assms by (auto simp: mo_inv_def)
    then show False by (cases "cl_lits c") (auto simp: clause_wf_def)
  qed
  then show ?thesis by (metis list.set_intros(1) neq_Nil_conv)
qed

text \<open>What a result means.\<close>

definition answer_ok :: "sat_model \<Rightarrow> solve_out \<Rightarrow> bool" where
  "answer_ok m out \<longleftrightarrow>
     (so_result out = SAT_RESULT_SATISFIABLE \<longrightarrow>
        (mo_vars m = [] \<and> so_assignment out = None) \<or>
        (\<exists>a. so_assignment out = Some a \<and> length a = length (mo_vars m) + 1 \<and>
           (\<forall>v. 1 \<le> v \<and> v \<le> length (mo_vars m) \<longrightarrow> a ! v \<in> {-1, 1}) \<and> models (val_of a) m)) \<and>
     (so_result out = SAT_RESULT_UNSATISFIABLE \<longrightarrow> (\<forall>V. \<not> models V m))"

lemma solve_core_spec:
  assumes inv: "mo_inv m" and st: "\<forall>p \<in> set (mo_vars m). st p \<noteq> None"
  obtains out where "solve_core st m budget want cancel ro pf mem = Some out" and "answer_ok m out"
    and "so_result out = SAT_RESULT_BUDGET_EXCEEDED \<longrightarrow> budget < 2 ^ length (mo_vars m)"
    and "so_result out = SAT_RESULT_ERROR \<longrightarrow> \<not> no_oom mem \<or> (\<exists>ls. cancel = Some ls \<and> True \<in> set ls)"
    and "so_result out = SAT_RESULT_UNSATISFIABLE \<and> want \<and> no_oom mem \<longrightarrow> so_conflict out \<noteq> None"
proof (cases "mo_vars m = []")
  case True
  then show ?thesis
    using that [of "no_out SAT_RESULT_SATISFIABLE"] by (simp add: solve_core_def no_out_def answer_ok_def)
next
  case False
  note wf = mo_inv_cls_wf [OF inv]
  define mem1 where "mem1 = snd (malloc_ok mem)"
  define mem2 where "mem2 = snd (malloc_ok mem1)"
  define mem3 where "mem3 = snd (malloc_ok mem2)"
  let ?oom = "\<not> fst (malloc_ok mem) \<or> \<not> fst (malloc_ok mem1) \<or> \<not> fst (malloc_ok mem2)"
  have oom: "no_oom mem \<Longrightarrow> \<not> ?oom \<and> no_oom mem3" by (simp add: mem1_def mem2_def mem3_def)
  obtain r ctx where d: "dpll (length (mo_vars m) + 1) m (fresh_solve_ctx m budget cancel ro pf) = Some (r, ctx)"
    "sc_inv m ctx" "sc_aborted ctx \<longrightarrow> (\<exists>ls. cancel = Some ls \<and> True \<in> set ls)"
    "sc_timed_out ctx \<longrightarrow> budget < 2 ^ length (mo_vars m)"
    "r \<longrightarrow> full_model m ctx \<and> \<not> sc_aborted ctx \<and> \<not> sc_timed_out ctx"
    "\<not> r \<and> \<not> sc_aborted ctx \<and> \<not> sc_timed_out ctx \<longrightarrow> (\<forall>V. \<not> models V m) \<and> sc_has_conflict ctx"
    using dpll_fresh [OF wf] by blast
  have core: "solve_core st m budget want cancel ro pf mem =
    (if ?oom then Some (no_out SAT_RESULT_ERROR)
     else if sc_aborted ctx then Some (no_out SAT_RESULT_ERROR)
     else if sc_timed_out ctx then Some (no_out SAT_RESULT_BUDGET_EXCEEDED)
     else if \<not> r then
       (if want \<and> sc_has_conflict ctx
        then do { (text, mem4) \<leftarrow> explain_conflict st m (sc_conflict_clause ctx) mem3;
                  Some ((no_out SAT_RESULT_UNSATISFIABLE)\<lparr>so_conflict := text\<rparr>) }
        else Some (no_out SAT_RESULT_UNSATISFIABLE))
     else Some ((no_out SAT_RESULT_SATISFIABLE)\<lparr>so_assignment := Some (sc_assign ctx)\<rparr>))"
    using False d(1) by (simp add: solve_core_def split_beta Let_def mem1_def mem2_def mem3_def del: dpll.simps)
  consider (nomem) "?oom" | (abort) "\<not> ?oom" "sc_aborted ctx" | (time) "\<not> ?oom" "\<not> sc_aborted ctx" "sc_timed_out ctx"
    | (unsat) "\<not> ?oom" "\<not> sc_aborted ctx" "\<not> sc_timed_out ctx" "\<not> r" | (sat) "\<not> ?oom" "\<not> sc_aborted ctx" "\<not> sc_timed_out ctx" "r"
    by blast
  then show ?thesis
  proof cases
    case nomem
    then have "solve_core st m budget want cancel ro pf mem = Some (no_out SAT_RESULT_ERROR)" "\<not> no_oom mem"
      using core oom by auto
    then show ?thesis using that by (simp add: no_out_def answer_ok_def)
  next
    case abort
    then have "solve_core st m budget want cancel ro pf mem = Some (no_out SAT_RESULT_ERROR)" using core by simp
    then show ?thesis using that abort d(3) by (simp add: no_out_def answer_ok_def)
  next
    case time
    then have "solve_core st m budget want cancel ro pf mem = Some (no_out SAT_RESULT_BUDGET_EXCEEDED)" using core by simp
    then show ?thesis using that time d(4) by (simp add: no_out_def answer_ok_def)
  next
    case unsat
    then have no: "\<forall>V. \<not> models V m" "sc_has_conflict ctx" using d(6) by auto
    have "sc_conflict_clause ctx < length (mo_clauses m)" using d(2) no(2) by (simp add: sc_inv_def)
    then obtain msg mem4 where "explain_conflict st m (sc_conflict_clause ctx) mem3 = Some (msg, mem4)"
      "no_oom mem3 \<longrightarrow> msg \<noteq> None" using explain_conflict_safe [OF wf st] by blast
    then have "solve_core st m budget want cancel ro pf mem =
        Some ((no_out SAT_RESULT_UNSATISFIABLE)\<lparr>so_conflict := if want then msg else None\<rparr>)"
      using core unsat no by (simp add: no_out_def)
    then show ?thesis using that no oom \<open>no_oom mem3 \<longrightarrow> msg \<noteq> None\<close> by (simp add: no_out_def answer_ok_def)
  next
    case sat
    then have "models (val_of (sc_assign ctx)) m" "open_vars m ctx = {}"
      using d(2,5) full_model_models [OF wf] by (auto simp: full_model_def)
    moreover have "solve_core st m budget want cancel ro pf mem =
        Some ((no_out SAT_RESULT_SATISFIABLE)\<lparr>so_assignment := Some (sc_assign ctx)\<rparr>)" using core sat by simp
    moreover have "sc_assign ctx ! v \<in> {-1, 1}" if "1 \<le> v" "v \<le> length (mo_vars m)" for v
      using calculation(2) that d(2) by (auto simp: open_vars_def sc_inv_def assign_wf_def)
    moreover have "length (sc_assign ctx) = length (mo_vars m) + 1" using d(2) by (simp add: sc_inv_def assign_wf_def)
    ultimately show ?thesis
      using that [of "(no_out SAT_RESULT_SATISFIABLE)\<lparr>so_assignment := Some (sc_assign ctx)\<rparr>"]
      by (simp add: no_out_def answer_ok_def)
  qed
qed

lemma solve_core_ex:
  assumes "mo_inv m" and "\<forall>p \<in> set (mo_vars m). st p \<noteq> None"
  shows "\<exists>out. solve_core st m budget want cancel ro pf mem = Some out \<and> answer_ok m out \<and>
    (so_result out = SAT_RESULT_BUDGET_EXCEEDED \<longrightarrow> budget < 2 ^ length (mo_vars m)) \<and>
    (so_result out = SAT_RESULT_ERROR \<longrightarrow> \<not> no_oom mem \<or> (\<exists>ls. cancel = Some ls \<and> True \<in> set ls)) \<and>
    (so_result out = SAT_RESULT_UNSATISFIABLE \<and> want \<and> no_oom mem \<longrightarrow> so_conflict out \<noteq> None)"
  by (rule solve_core_spec [OF assms, of budget want cancel ro pf mem]) simp

subsection \<open>Workers\<close>

inductive_cases workers_runE: "workers_run st m budget mems W sh W' sh'"

lemma workers_run_answer:
  assumes "workers_run st m budget mems W sh W' sh'" and "mo_inv m" and "\<forall>p \<in> set (mo_vars m). st p \<noteq> None"
    and "\<forall>out. sh = Some out \<longrightarrow> answer_ok m out \<and> so_result out \<in> {SAT_RESULT_SATISFIABLE, SAT_RESULT_UNSATISFIABLE}"
  shows "\<forall>out. sh' = Some out \<longrightarrow> answer_ok m out \<and> so_result out \<in> {SAT_RESULT_SATISFIABLE, SAT_RESULT_UNSATISFIABLE}"
  using assms
proof (induction rule: workers_run.induct)
  case (finish W sh W' sh' i loads sh'')
  obtain out where "solve_core st m budget True (Some loads) (odd i) (odd (i div 2)) (mems i) = Some out" "answer_ok m out"
    using solve_core_ex [OF finish.prems(1,2), of budget True "Some loads" "odd i" "odd (i div 2)" "mems i"] by blast
  moreover from this(1) have "sh'' = (if so_result out = SAT_RESULT_SATISFIABLE \<or> so_result out = SAT_RESULT_UNSATISFIABLE
      then (case sh' of None \<Rightarrow> Some out | Some _ \<Rightarrow> sh') else sh')"
    using finish.hyps(4) by (simp add: sat_worker_fn_def)
  moreover note finish.IH [OF finish.prems]
  ultimately show ?case by (cases sh') (auto split: if_splits)
qed blast

text \<open>With memory and budget enough, the first worker to finish publishes an answer.\<close>

lemma workers_run_publishes:
  assumes "workers_run st m budget mems W None W' sh'" and "mo_inv m" and "\<forall>p \<in> set (mo_vars m). st p \<noteq> None"
    and "\<forall>i. no_oom (mems i)" and "2 ^ length (mo_vars m) \<le> budget"
  shows "W' = W \<or> sh' \<noteq> None"
  using assms
proof (induction W "None :: sat_shared" W' sh' rule: workers_run.induct)
  case (finish W W' sh' i loads sh'')
  obtain out where out: "solve_core st m budget True (Some loads) (odd i) (odd (i div 2)) (mems i) = Some out"
    "so_result out = SAT_RESULT_BUDGET_EXCEEDED \<longrightarrow> budget < 2 ^ length (mo_vars m)"
    "so_result out = SAT_RESULT_ERROR \<longrightarrow> \<not> no_oom (mems i) \<or> (\<exists>ls. Some loads = Some ls \<and> True \<in> set ls)"
    using solve_core_ex [OF finish.prems(1,2), of budget True "Some loads" "odd i" "odd (i div 2)" "mems i"] by blast
  show ?case
  proof (cases sh')
    case None
    then have "True \<notin> set loads" using finish.hyps(4) by blast
    then have "so_result out \<noteq> SAT_RESULT_ERROR" "so_result out \<noteq> SAT_RESULT_BUDGET_EXCEEDED"
      using out(2,3) finish.prems(3,4) by auto
    then have "so_result out = SAT_RESULT_SATISFIABLE \<or> so_result out = SAT_RESULT_UNSATISFIABLE"
      by (cases "so_result out") auto
    then show ?thesis using None out(1) finish.hyps(5) by (auto simp: sat_worker_fn_def)
  qed (use out(1) finish.hyps(5) in \<open>auto simp: sat_worker_fn_def split: if_splits\<close>)
qed simp

text \<open>Every set of workers has an interleaving in which all finish.\<close>

lemma workers_run_exists:
  assumes "mo_inv m" and "\<forall>p \<in> set (mo_vars m). st p \<noteq> None" and "finite D" and "D \<subseteq> W"
  shows "\<exists>sh. workers_run st m budget mems W None (W - D) sh"
  using assms(3,4)
proof (induction D)
  case empty
  then show ?case using done_refl [of st m budget mems W None] by auto
next
  case (insert i D)
  then obtain sh where run: "workers_run st m budget mems W None (W - D) sh" by auto
  obtain out where "solve_core st m budget True (Some []) (odd i) (odd (i div 2)) (mems i) = Some out"
    using solve_core_ex [OF assms(1,2), of budget True "Some []" "odd i" "odd (i div 2)" "mems i"] by blast
  then obtain sh' where "sat_worker_fn st m budget i [] (mems i) sh = Some sh'" by (simp add: sat_worker_fn_def)
  then have "workers_run st m budget mems W None (W - D - {i}) sh'"
    using finish [OF run, of i "[]"] insert by auto
  moreover have "W - D - {i} = W - insert i D" by blast
  ultimately show ?case by auto
qed

lemma answer_ok_conflict: "answer_ok m (out\<lparr>so_conflict := c\<rparr>) \<longleftrightarrow> answer_ok m out"
  by (simp add: answer_ok_def)

lemma sequential_answer:
  assumes "mo_inv m" and "\<forall>p \<in> set (mo_vars m). st p \<noteq> None" and "sat_solve st m budget want mem = Some out"
  shows "answer_ok m out"
    and "no_oom mem \<Longrightarrow> 2 ^ length (mo_vars m) \<le> budget \<Longrightarrow> so_result out \<in> {SAT_RESULT_SATISFIABLE, SAT_RESULT_UNSATISFIABLE}"
proof -
  have f: "answer_ok m out" "so_result out = SAT_RESULT_BUDGET_EXCEEDED \<longrightarrow> budget < 2 ^ length (mo_vars m)"
    "so_result out = SAT_RESULT_ERROR \<longrightarrow> \<not> no_oom mem"
    using solve_core_ex [OF assms(1,2), of budget want None False False mem] assms(3) by (auto simp: sat_solve_def)
  then show "answer_ok m out" by simp
  assume "no_oom mem" "2 ^ length (mo_vars m) \<le> budget"
  then show "so_result out \<in> {SAT_RESULT_SATISFIABLE, SAT_RESULT_UNSATISFIABLE}"
    using f(2,3) by (cases "so_result out") auto
qed

lemma parallel_answer:
  assumes "mo_inv m" and "\<forall>p \<in> set (mo_vars m). st p \<noteq> None"
    and "sat_solve_parallel st m budget threads want mem mems out"
  shows "answer_ok m out"
proof -
  consider mem' where "sat_solve st m budget want mem' = Some out"
    | sh where "workers_run st m budget mems {..<nat threads} None {} sh"
        "out = (case sh of None \<Rightarrow> no_out SAT_RESULT_BUDGET_EXCEEDED
                | Some res \<Rightarrow> if want then res else res\<lparr>so_conflict := None\<rparr>)"
    using assms(3) by (auto simp: sat_solve_parallel_def Let_def split_beta split: if_splits)
  then show ?thesis
  proof cases
    case 1
    then show ?thesis using sequential_answer(1) [OF assms(1,2)] by blast
  next
    case (2 sh)
    then show ?thesis
      using workers_run_answer [OF 2(1) assms(1,2)]
      by (cases sh) (auto simp: answer_ok_conflict, auto simp: answer_ok_def no_out_def)
  qed
qed

lemma parallel_definite:
  assumes "mo_inv m" and "\<forall>p \<in> set (mo_vars m). st p \<noteq> None" and "no_oom mem" and "\<forall>i. no_oom (mems i)"
    and "2 ^ length (mo_vars m) \<le> budget" and run: "sat_solve_parallel st m budget threads want mem mems out"
  shows "so_result out = (if \<exists>V. models V m then SAT_RESULT_SATISFIABLE else SAT_RESULT_UNSATISFIABLE)"
proof -
  have "so_result out \<in> {SAT_RESULT_SATISFIABLE, SAT_RESULT_UNSATISFIABLE}"
  proof (cases "threads \<le> 1")
    case True
    then have "sat_solve st m budget want mem = Some out" using run by (simp add: sat_solve_parallel_def Let_def split_beta)
    then show ?thesis using sequential_answer(2) [OF assms(1,2)] assms(3,5) by blast
  next
    case False
    then obtain sh where sh: "workers_run st m budget mems {..<nat threads} None {} sh"
      "out = (case sh of None \<Rightarrow> no_out SAT_RESULT_BUDGET_EXCEEDED
              | Some res \<Rightarrow> if want then res else res\<lparr>so_conflict := None\<rparr>)"
      using run assms(3) by (auto simp: sat_solve_parallel_def Let_def split_beta)
    have "0 \<in> {..<nat threads}" using False by auto
    then have "{} \<noteq> {..<nat threads}" by blast
    then obtain res where "sh = Some res" using workers_run_publishes [OF sh(1) assms(1,2,4,5)] by auto
    then show ?thesis using workers_run_answer [OF sh(1) assms(1,2)] sh(2) by auto
  qed
  moreover have "models V m" if "mo_vars m = []" for V
    using no_vars_no_clauses [OF assms(1) that] by (simp add: models_def)
  ultimately show ?thesis using parallel_answer [OF assms(1,2) run] by (auto simp: answer_ok_def)
qed

lemma parallel_exists:
  assumes "mo_inv m" and "\<forall>p \<in> set (mo_vars m). st p \<noteq> None"
  shows "\<exists>out. sat_solve_parallel st m budget threads want mem mems out"
  using workers_run_exists [OF assms, of "{..<nat threads}" "{..<nat threads}" budget mems]
    solve_core_ex [OF assms, of budget want None False False]
  by (auto simp: sat_solve_parallel_def Let_def split_beta sat_solve_def)

subsection \<open>Properties\<close>

text \<open>
  C24. The solver is sound and total: on a well-formed model it never leaves its arrays and
  always returns; a satisfying assignment it returns gives every variable a value and makes
  every clause true; when it reports unsatisfiable no valuation satisfies the clauses; it
  fails only for lack of memory, and an explanation accompanies every refutation.
\<close>

theorem sat_solve_sound:
  assumes "mo_inv m" and "\<forall>p \<in> set (mo_vars m). st p \<noteq> None"
  shows "\<exists>out. sat_solve st m budget True mem = Some out \<and>
    (so_result out = SAT_RESULT_SATISFIABLE \<longrightarrow>
       (mo_vars m = [] \<and> so_assignment out = None) \<or>
       (\<exists>a. so_assignment out = Some a \<and> length a = length (mo_vars m) + 1 \<and>
          (\<forall>v. 1 \<le> v \<and> v \<le> length (mo_vars m) \<longrightarrow> a ! v \<in> {-1, 1}) \<and> models (val_of a) m)) \<and>
    (so_result out = SAT_RESULT_UNSATISFIABLE \<longrightarrow>
       (\<forall>V. \<not> models V m) \<and> (no_oom mem \<longrightarrow> so_conflict out \<noteq> None)) \<and>
    (so_result out = SAT_RESULT_ERROR \<longrightarrow> \<not> no_oom mem)"
proof -
  obtain out where "sat_solve st m budget True mem = Some out" "answer_ok m out"
    "so_result out = SAT_RESULT_ERROR \<longrightarrow> \<not> no_oom mem"
    "so_result out = SAT_RESULT_UNSATISFIABLE \<and> no_oom mem \<longrightarrow> so_conflict out \<noteq> None"
    using solve_core_ex [OF assms, of budget True None False False mem] by (auto simp: sat_solve_def)
  then show ?thesis unfolding answer_ok_def by blast
qed

definition demo_model :: sat_model where
  "demo_model = fst (snd (sat_model_force sat_model_init 7 []))"

definition demo_store :: pkg_store where
  "demo_store = [7 \<mapsto> zero_metadata\<lparr>meta_name := Some ''base''\<rparr>]"

lemma demo_model_inv: "mo_inv demo_model" "set (mo_vars demo_model) = {7}"
  "\<forall>p \<in> set (mo_vars demo_model). demo_store p \<noteq> None" "\<forall>S. mo_holds demo_model S \<longleftrightarrow> 7 \<in> S"
proof -
  obtain v m1 mem1 where v: "sat_model_var sat_model_init 7 [] = (v, m1, mem1)" "v \<noteq> 0" "no_oom mem1"
    using sat_model_var_no_oom [OF sat_model_init_inv no_oom_Nil] by blast
  obtain m2 mem2 where "add_clause m1 [int v] SAT_CLAUSE_FORCED None mem1 = (True, m2, mem2)"
    using add_clause_no_oom [OF v(3)] by blast
  then have f: "sat_model_force sat_model_init 7 [] = (True, demo_model, mem2)"
    using v by (simp add: sat_model_force_def demo_model_def)
  note eff = sat_model_force_effect [OF sat_model_init_inv f]
  show "mo_inv demo_model" using eff by simp
  show vars: "set (mo_vars demo_model) = {7}" using eff by (auto simp: mo_grows_def sat_model_init_def)
  show "\<forall>p \<in> set (mo_vars demo_model). demo_store p \<noteq> None" by (simp add: vars demo_store_def)
  show "\<forall>S. mo_holds demo_model S \<longleftrightarrow> 7 \<in> S" using eff by (simp add: mo_holds_def sat_model_init_def)
qed

theorem sat_solve_sound_witness:
  "\<exists>out. sat_solve demo_store demo_model 5 True [] = Some out \<and> so_result out \<noteq> SAT_RESULT_ERROR"
  using sat_solve_sound [OF demo_model_inv(1,3), of 5 "[]"] by fastforce

text \<open>
  C25. The solver is complete: with memory available and a decision budget of at least
  \<open>2 ^ n\<close> for \<open>n\<close> variables it decides the model, so that the answer is satisfiable exactly when
  some valuation satisfies every clause.
\<close>

theorem sat_solve_decides:
  assumes "mo_inv m" and "\<forall>p \<in> set (mo_vars m). st p \<noteq> None" and "no_oom mem" and "2 ^ length (mo_vars m) \<le> budget"
  shows "\<exists>out. sat_solve st m budget want mem = Some out \<and>
    so_result out = (if \<exists>V. models V m then SAT_RESULT_SATISFIABLE else SAT_RESULT_UNSATISFIABLE)"
proof -
  obtain out where out: "sat_solve st m budget want mem = Some out" "answer_ok m out"
    "so_result out \<noteq> SAT_RESULT_ERROR" "so_result out \<noteq> SAT_RESULT_BUDGET_EXCEEDED"
    using solve_core_ex [OF assms(1,2), of budget want None False False mem] assms(3,4) by (auto simp: sat_solve_def)
  have "models V m" if "mo_vars m = []" for V
    using no_vars_no_clauses [OF assms(1) that] by (simp add: models_def)
  then show ?thesis using out by (cases "so_result out") (auto simp: answer_ok_def)
qed

theorem sat_solve_decides_witness:
  "\<exists>out. sat_solve demo_store demo_model (2 ^ length (mo_vars demo_model)) False [] = Some out \<and>
     so_result out \<in> {SAT_RESULT_SATISFIABLE, SAT_RESULT_UNSATISFIABLE}"
  using sat_solve_decides [OF demo_model_inv(1,3) no_oom_Nil order_refl, of False] by (auto split: if_splits)

text \<open>
  C26. The parallel solver is right under every interleaving of its workers, every pattern of
  cancellation and every allocation failure: whichever worker publishes first, a satisfiable
  answer carries a satisfying assignment and an unsatisfiable one means there is none.
\<close>

theorem sat_solve_parallel_sound:
  assumes "mo_inv m" and "\<forall>p \<in> set (mo_vars m). st p \<noteq> None"
    and "sat_solve_parallel st m budget threads want mem mems out"
  shows "(so_result out = SAT_RESULT_SATISFIABLE \<longrightarrow>
       (mo_vars m = [] \<and> so_assignment out = None) \<or>
       (\<exists>a. so_assignment out = Some a \<and> length a = length (mo_vars m) + 1 \<and>
          (\<forall>v. 1 \<le> v \<and> v \<le> length (mo_vars m) \<longrightarrow> a ! v \<in> {-1, 1}) \<and> models (val_of a) m)) \<and>
    (so_result out = SAT_RESULT_UNSATISFIABLE \<longrightarrow> (\<forall>V. \<not> models V m))"
  using parallel_answer [OF assms] unfolding answer_ok_def by blast

theorem sat_solve_parallel_sound_witness:
  "\<exists>out. sat_solve_parallel demo_store demo_model 5 4 True [] (\<lambda>_. [False]) out \<and>
     (so_result out = SAT_RESULT_UNSATISFIABLE \<longrightarrow> (\<forall>V. \<not> models V demo_model))"
proof -
  obtain out where "sat_solve_parallel demo_store demo_model 5 4 True [] (\<lambda>_. [False]) out"
    using parallel_exists [OF demo_model_inv(1,3)] by blast
  then show ?thesis using sat_solve_parallel_sound [OF demo_model_inv(1,3)] by blast
qed



end
