(* ===== verification/Sat_Resolve.thy ===== *)
theory Sat_Resolve
  imports Sat_Solve
begin

text \<open>
  \<open>src/graph/sat.c\<close>: \<open>dep_graph_resolve_sat\<close> from candidates and roots to a selection.
  Since the solver's workers may interleave, the outcomes of a call are a relation; the
  allocations before the solver are \<open>mem\<close>, those of the workers \<open>mems\<close>, and \<open>mem_sel\<close> is
  the outcome of the allocation of the result array.
\<close>

datatype sat_solve_result =
  SAT_SOLVE_SATISFIABLE | SAT_SOLVE_UNSATISFIABLE | SAT_SOLVE_BUDGET_EXCEEDED | SAT_SOLVE_ERROR

fun map_result :: "sat_result \<Rightarrow> sat_solve_result" where
  "map_result SAT_RESULT_SATISFIABLE = SAT_SOLVE_SATISFIABLE"
| "map_result SAT_RESULT_UNSATISFIABLE = SAT_SOLVE_UNSATISFIABLE"
| "map_result SAT_RESULT_BUDGET_EXCEEDED = SAT_SOLVE_BUDGET_EXCEEDED"
| "map_result SAT_RESULT_ERROR = SAT_SOLVE_ERROR"

record resolve_out =
  ro_result :: sat_solve_result
  ro_selected :: "pkg_ptr list"
  ro_conflict :: pstr

definition failed :: resolve_out where
  "failed = \<lparr>ro_result = SAT_SOLVE_ERROR, ro_selected = [], ro_conflict = None\<rparr>"

fun add_candidates :: "pkg_store \<Rightarrow> candidate_set \<Rightarrow> pkg_ptr list \<Rightarrow> mem \<Rightarrow> (bool \<times> candidate_set \<times> mem) option" where
  "add_candidates st cs [] mem = Some (True, cs, mem)"
| "add_candidates st cs (p # ps) mem =
     do {
       (ok, cs', mem') \<leftarrow> candidate_set_add_package st cs p mem;
       if \<not> ok then Some (False, cs', mem') else add_candidates st cs' ps mem'
     }"

fun force_roots :: "sat_model \<Rightarrow> pkg_ptr list \<Rightarrow> mem \<Rightarrow> bool \<times> sat_model \<times> mem" where
  "force_roots m [] mem = (True, m, mem)"
| "force_roots m (r # rs) mem =
     (let (ok, m', mem') = sat_model_force m r mem in
      if \<not> ok then (False, m', mem') else force_roots m' rs mem')"

text \<open>The part before the solver; \<open>Some None\<close> is the early return with \<open>SAT_SOLVE_ERROR\<close>.\<close>

definition sat_setup :: "pkg_store \<Rightarrow> pkg_ptr list \<Rightarrow> pkg_ptr list \<Rightarrow> mem \<Rightarrow> (sat_model \<times> mem) option option" where
  "sat_setup st candidates roots mem =
     (let (ok, cs, mem1) = candidate_set_init mem in
      if \<not> ok then Some None
      else do {
        (ok, cs, mem2) \<leftarrow> add_candidates st cs candidates mem1;
        if \<not> ok then Some None
        else do {
          (ok, m, mem3) \<leftarrow> sat_model_build st sat_model_init cs candidates mem2;
          if \<not> ok then Some None
          else let (ok, m', mem4) = force_roots m roots mem3 in
          Some (if ok then Some (m', mem4) else None)
        }
      })"

text \<open>Reading the assignment back: \<open>assignment[i + 1] == 1\<close> selects variable \<open>i\<close>.\<close>

fun selected_loop :: "int list option \<Rightarrow> nat \<Rightarrow> pkg_ptr list \<Rightarrow> pkg_ptr list option" where
  "selected_loop assignment i [] = Some []"
| "selected_loop assignment i (p # ps) =
     do {
       a \<leftarrow> assignment;
       v \<leftarrow> arr_get a (i + 1);
       rest \<leftarrow> selected_loop assignment (Suc i) ps;
       Some (if v = 1 then p # rest else rest)
     }"

definition read_selection :: "sat_model \<Rightarrow> solve_out \<Rightarrow> bool \<Rightarrow> bool \<Rightarrow> resolve_out option" where
  "read_selection m out want_conflict mem_sel =
     (if map_result (so_result out) = SAT_SOLVE_SATISFIABLE
      then do {
        sel \<leftarrow> selected_loop (so_assignment out) 0 (mo_vars m);
        Some (if sel \<noteq> [] \<and> \<not> mem_sel then failed
              else \<lparr>ro_result = SAT_SOLVE_SATISFIABLE, ro_selected = sel, ro_conflict = None\<rparr>)
      }
      else Some \<lparr>ro_result = map_result (so_result out), ro_selected = [],
                 ro_conflict = if want_conflict then so_conflict out else None\<rparr>)"

definition dep_graph_resolve_sat ::
  "pkg_store \<Rightarrow> pkg_ptr list \<Rightarrow> pkg_ptr list \<Rightarrow> nat \<Rightarrow> int \<Rightarrow> bool \<Rightarrow> mem \<Rightarrow> (nat \<Rightarrow> mem) \<Rightarrow> bool \<Rightarrow>
   resolve_out option \<Rightarrow> bool" where
  "dep_graph_resolve_sat st candidates roots decision_budget thread_count want_conflict mem mems mem_sel res \<longleftrightarrow>
     (case sat_setup st candidates roots mem of
        None \<Rightarrow> res = None
      | Some None \<Rightarrow> res = Some failed
      | Some (Some (m, mem')) \<Rightarrow>
          (\<exists>out. sat_solve_parallel st m decision_budget thread_count True mem' mems out \<and>
             res = read_selection m out want_conflict mem_sel))"

subsection \<open>Specification\<close>

text \<open>
  A selection from the pool: it contains the roots; every selected package of the pool has
  each dependency met by a selected package of the pool that offers the name in a version
  the constraint admits; and no selected package conflicts with a name another one offers.
\<close>

definition valid_selection :: "pkg_store \<Rightarrow> pkg_ptr set \<Rightarrow> pkg_ptr set \<Rightarrow> pkg_ptr set \<Rightarrow> bool" where
  "valid_selection st C R S \<longleftrightarrow> R \<subseteq> S \<and>
     (\<forall>p \<in> S \<inter> C.
        (\<forall>dep \<in> set (meta_dependencies (the (st p))).
           \<exists>q \<in> S \<inter> C. offers st q (the (dep_name dep)) \<and> meets st dep q) \<and>
        (\<forall>name. Some name \<in> set (meta_conflicts (the (st p))) \<longrightarrow>
           (\<forall>q \<in> S \<inter> C. offers st q name \<longrightarrow> q = p)))"

lemma add_candidates_effect:
  assumes "cs_inv cs" and "\<forall>p \<in> set ps. ptr_ok st p" and "add_candidates st cs ps mem = Some (ok, cs', mem')"
  shows "cs_inv cs' \<and> (ok \<longrightarrow> (\<forall>a. set (cands cs' a) = set (cands cs a) \<union> {p \<in> set ps. offers st p a}))"
  using assms
proof (induction ps arbitrary: cs mem)
  case (Cons p ps)
  have p: "ptr_ok st p" using Cons.prems(2) by simp
  obtain ok1 cs1 mem1 where a: "candidate_set_add_package st cs p mem = Some (ok1, cs1, mem1)"
    using candidate_set_add_package_total(1) [OF Cons.prems(1) p] by (metis not_None_eq prod_cases3)
  note eff = candidate_set_add_package_effect [OF Cons.prems(1) p a]
  show ?case
  proof (cases ok1)
    case True
    then have "add_candidates st cs1 ps mem1 = Some (ok, cs', mem')" using Cons.prems(3) a by simp
    then show ?thesis using Cons.IH [of cs1 mem1] eff Cons.prems(2) True by auto
  qed (use Cons.prems(3) a eff in auto)
qed simp

lemma add_candidates_total:
  assumes "cs_inv cs" and "\<forall>p \<in> set ps. ptr_ok st p"
  shows "\<exists>ok cs' mem'. add_candidates st cs ps mem = Some (ok, cs', mem') \<and> (no_oom mem \<longrightarrow> ok \<and> no_oom mem')"
  using assms
proof (induction ps arbitrary: cs mem)
  case (Cons p ps)
  have p: "ptr_ok st p" using Cons.prems(2) by simp
  obtain ok1 cs1 mem1 where a: "candidate_set_add_package st cs p mem = Some (ok1, cs1, mem1)"
    "no_oom mem \<longrightarrow> ok1 \<and> no_oom mem1"
    using candidate_set_add_package_total [OF Cons.prems(1) p, of mem] by (metis not_None_eq prod_cases3)
  have "cs_inv cs1" using candidate_set_add_package_effect [OF Cons.prems(1) p a(1)] by simp
  then show ?case using Cons.IH [of cs1 mem1] Cons.prems(2) a by auto
qed auto

lemma force_roots_effect:
  assumes "mo_inv m" and "force_roots m rs mem = (ok, m', mem')"
  shows "mo_inv m' \<and> mo_grows m (set rs) m' \<and>
    (ok \<longrightarrow> set rs \<subseteq> set (mo_vars m') \<and> (\<forall>S. mo_holds m' S \<longleftrightarrow> mo_holds m S \<and> set rs \<subseteq> S))"
  using assms
proof (induction rs arbitrary: m mem)
  case (Cons r rs)
  obtain ok1 m1 mem1 where f: "sat_model_force m r mem = (ok1, m1, mem1)" by (metis prod_cases3)
  note eff = sat_model_force_effect [OF Cons.prems(1) f]
  have g1: "mo_grows m (set (r # rs)) m1" using eff by (auto intro: mo_grows_mono)
  show ?case
  proof (cases ok1)
    case True
    then have "force_roots m1 rs mem1 = (ok, m', mem')" using Cons.prems(2) f by simp
    note ih = Cons.IH [OF conjunct1 [OF eff] this]
    have "mo_grows m1 (set (r # rs)) m'" using ih by (auto intro: mo_grows_mono)
    then have "mo_grows m (set (r # rs)) m'" by (rule mo_grows_trans [OF g1])
    moreover have "set (mo_vars m1) \<subseteq> set (mo_vars m')" using ih by (auto simp: mo_grows_def)
    ultimately show ?thesis using ih eff True by auto
  qed (use Cons.prems(2) f eff g1 in auto)
qed simp

lemma force_roots_no_oom:
  assumes "mo_inv m" and "no_oom mem"
  shows "\<exists>m' mem'. force_roots m rs mem = (True, m', mem') \<and> no_oom mem'"
  using assms
proof (induction rs arbitrary: m mem)
  case (Cons r rs)
  obtain v m1 mem1 where v: "sat_model_var m r mem = (v, m1, mem1)" "v \<noteq> 0" "no_oom mem1"
    using sat_model_var_no_oom [OF Cons.prems] by blast
  obtain m2 mem2 where "add_clause m1 [int v] SAT_CLAUSE_FORCED None mem1 = (True, m2, mem2)" and n: "no_oom mem2"
    using add_clause_no_oom [OF v(3)] by blast
  then have f: "sat_model_force m r mem = (True, m2, mem2)" using v by (simp add: sat_model_force_def)
  then have "mo_inv m2" using sat_model_force_effect [OF Cons.prems(1)] by blast
  then show ?case using Cons.IH [of m2 mem2] n f by simp
qed simp

text \<open>The clauses of a finished setup hold in exactly the valid selections.\<close>

lemma consistent_valid:
  assumes c: "\<And>a. set (cands cs a) = {p \<in> C. offers st p a}"
  shows "(\<forall>p \<in> C. pkg_consistent st cs S p) \<and> R \<subseteq> S \<longleftrightarrow> valid_selection st C R S"
  unfolding valid_selection_def pkg_consistent_def deps_met_def dep_provided_def conflict_free_def c by blast

lemma mo_holds_init [simp]: "mo_holds sat_model_init S"
  by (simp add: mo_holds_def sat_model_init_def)

lemma sat_setup_spec:
  assumes C: "\<forall>p \<in> set candidates. ptr_ok st p" and R: "\<forall>p \<in> set roots. ptr_ok st p"
  obtains r where "sat_setup st candidates roots mem = Some r" and "no_oom mem \<longrightarrow> r \<noteq> None"
    and "\<And>m mem'. r = Some (m, mem') \<Longrightarrow> mo_inv m \<and> set (mo_vars m) = set candidates \<union> set roots \<and>
      (no_oom mem \<longrightarrow> no_oom mem') \<and> (\<forall>S. mo_holds m S \<longleftrightarrow> valid_selection st (set candidates) (set roots) S)"
proof -
  obtain ok0 cs0 mem0 where i: "candidate_set_init mem = (ok0, cs0, mem0)" by (metis prod_cases3)
  have i': "no_oom mem \<longrightarrow> ok0 \<and> no_oom mem0" using candidate_set_init_no_oom [of mem] i by auto
  show thesis
  proof (cases ok0)
    case False
    then show thesis using that [of None] i i' by (auto simp: sat_setup_def)
  next
    case True
    have cs0: "cs_inv cs0" "\<forall>a. cands cs0 a = []" using candidate_set_init_ok [of mem cs0 mem0] i True by auto
    obtain ok1 cs mem1 where a: "add_candidates st cs0 candidates mem0 = Some (ok1, cs, mem1)"
      "no_oom mem0 \<longrightarrow> ok1 \<and> no_oom mem1" using add_candidates_total [OF cs0(1) C] by blast
    note eff = add_candidates_effect [OF cs0(1) C a(1)]
    show thesis
    proof (cases ok1)
      case False
      then show thesis using that [of None] i i' True a by (auto simp: sat_setup_def)
    next
      case ok1: True
      have cands: "set (cands cs x) = {p \<in> set candidates. offers st p x}" for x using eff ok1 cs0(2) by simp
      have cok: "cands_ok st cs" using C cands by (auto simp: cands_ok_def all_cands_def)
      obtain ok2 m mem2 where b: "sat_model_build st sat_model_init cs candidates mem1 = Some (ok2, m, mem2)"
        "no_oom mem1 \<longrightarrow> ok2 \<and> no_oom mem2" using sat_model_build_total [OF sat_model_init_inv cok C] by blast
      note beff = sat_model_build_effect [OF sat_model_init_inv cok C b(1)]
      show thesis
      proof (cases ok2)
        case False
        then show thesis using that [of None] i i' True a ok1 b by (auto simp: sat_setup_def)
      next
        case ok2: True
        obtain ok3 m' mem3 where f: "force_roots m roots mem2 = (ok3, m', mem3)" by (metis prod_cases3)
        have f': "no_oom mem2 \<longrightarrow> ok3 \<and> no_oom mem3" using force_roots_no_oom [of m mem2 roots] beff f by auto
        note feff = force_roots_effect [OF conjunct1 [OF beff] f]
        have hold: "mo_holds m' S \<longleftrightarrow> valid_selection st (set candidates) (set roots) S" if ok3 for S
          using feff beff ok2 that consistent_valid [OF cands, of S "set roots"]
          by simp
        have "all_cands cs \<subseteq> set candidates" using cands by (auto simp: all_cands_def)
        moreover have "set (mo_vars m) \<subseteq> set candidates \<union> all_cands cs" "set candidates \<subseteq> set (mo_vars m)"
          using beff ok2 by (auto simp: mo_grows_def sat_model_init_def)
        moreover have "set (mo_vars m') \<subseteq> set (mo_vars m) \<union> set roots" "set (mo_vars m) \<subseteq> set (mo_vars m')"
          using feff by (auto simp: mo_grows_def)
        moreover have "set roots \<subseteq> set (mo_vars m')" if "ok3" using feff that by simp
        ultimately have vars: "set (mo_vars m') = set candidates \<union> set roots" if "ok3" using that by blast
        have run: "sat_setup st candidates roots mem = Some (if ok3 then Some (m', mem3) else None)"
          using i True a ok1 b ok2 f by (simp add: sat_setup_def)
        show thesis
          by (rule that [OF run]) (use i' a b f' feff hold vars in \<open>auto split: if_splits\<close>)
      qed
    qed
  qed
qed

subsection \<open>Valuations and selections\<close>

definition sel_of :: "sat_model \<Rightarrow> (nat \<Rightarrow> bool) \<Rightarrow> pkg_ptr set" where
  "sel_of m V = {mo_vars m ! i | i. i < length (mo_vars m) \<and> V (Suc i)}"

lemma sel_of_nth:
  "distinct (mo_vars m) \<Longrightarrow> i < length (mo_vars m) \<Longrightarrow> mo_vars m ! i \<in> sel_of m V \<longleftrightarrow> V (Suc i)"
  by (auto simp: sel_of_def nth_eq_iff_index_eq)

lemma lit_holds_true:
  assumes wf: "l \<noteq> 0" "\<bar>l\<bar> \<le> int (length (mo_vars m))"
    and V: "\<And>i. i < length (mo_vars m) \<Longrightarrow> mo_vars m ! i \<in> S \<longleftrightarrow> V (Suc i)"
  shows "lit_holds (mo_vars m) S l \<longleftrightarrow> lit_true V l"
proof (cases "l > 0")
  case True
  then have "nat l - 1 < length (mo_vars m)" "Suc (nat l - 1) = nat l" using wf by auto
  then show ?thesis using V [of "nat l - 1"] True by (simp add: lit_holds_def lit_true_def)
next
  case False
  then have "nat (- l) - 1 < length (mo_vars m)" "Suc (nat (- l) - 1) = nat (- l)" using wf by auto
  then show ?thesis using V [of "nat (- l) - 1"] False by (simp add: lit_holds_def lit_true_def)
qed

lemma models_iff_holds:
  assumes "mo_inv m" and V: "\<And>i. i < length (mo_vars m) \<Longrightarrow> mo_vars m ! i \<in> S \<longleftrightarrow> V (Suc i)"
  shows "models V m \<longleftrightarrow> mo_holds m S"
proof -
  have "(\<exists>l \<in> set (cl_lits c). lit_true V l) \<longleftrightarrow> (\<exists>l \<in> set (cl_lits c). lit_holds (mo_vars m) S l)"
    if "c \<in> set (mo_clauses m)" for c
    using lit_holds_true [OF _ _ V] assms(1) that by (auto simp: mo_inv_def clause_wf_def)
  then show ?thesis by (simp add: models_def mo_holds_def)
qed

lemma mo_inv_distinct: "mo_inv m \<Longrightarrow> distinct (mo_vars m)"
  by (simp add: mo_inv_def index_ok_distinct)

lemma satisfiable_iff: "mo_inv m \<Longrightarrow> (\<exists>V. models V m) \<longleftrightarrow> (\<exists>S. mo_holds m S)"
proof
  assume inv: "mo_inv m" and "\<exists>V. models V m"
  then obtain V where V: "models V m" by blast
  have "mo_vars m ! i \<in> sel_of m V \<longleftrightarrow> V (Suc i)" if "i < length (mo_vars m)" for i
    using sel_of_nth [OF mo_inv_distinct [OF inv] that] .
  then show "\<exists>S. mo_holds m S" using models_iff_holds [OF inv] V by blast
next
  assume inv: "mo_inv m" and "\<exists>S. mo_holds m S"
  then obtain S where S: "mo_holds m S" by blast
  have "models (\<lambda>v. mo_vars m ! (v - 1) \<in> S) m \<longleftrightarrow> mo_holds m S" by (rule models_iff_holds [OF inv]) simp
  then show "\<exists>V. models V m" using S by blast
qed

lemma selected_loop_spec:
  assumes "i + length ps < length a"
  shows "\<exists>sel. selected_loop (Some a) i ps = Some sel \<and>
    set sel = {ps ! k | k. k < length ps \<and> a ! (Suc (i + k)) = 1} \<and> (distinct ps \<longrightarrow> distinct sel)"
  using assms
proof (induction ps arbitrary: i)
  case (Cons p ps)
  then obtain sel where sel: "selected_loop (Some a) (Suc i) ps = Some sel"
    "set sel = {ps ! k | k. k < length ps \<and> a ! (Suc (Suc i + k)) = 1}" "distinct ps \<longrightarrow> distinct sel"
    using Cons.IH [of "Suc i"] by auto
  have "{(p # ps) ! k | k. k < length (p # ps) \<and> a ! (Suc (i + k)) = 1} =
      (if a ! Suc i = 1 then {p} else {}) \<union> {ps ! k | k. k < length ps \<and> a ! (Suc (Suc i + k)) = 1}" (is "?L = ?R")
  proof
    show "?L \<subseteq> ?R" by (auto simp: nth_Cons' less_Suc_eq_0_disj)
    have "p \<in> ?L" if "a ! Suc i = 1" using that by (intro CollectI exI [of _ 0]) simp
    moreover have "ps ! k \<in> ?L" if "k < length ps" "a ! Suc (Suc i + k) = 1" for k
      using that by (intro CollectI exI [of _ "Suc k"]) simp
    ultimately show "?R \<subseteq> ?L" by auto
  qed
  moreover have "set sel \<subseteq> set ps" using sel(2) by auto
  ultimately show ?case using sel Cons.prems by auto
qed simp

lemma selection_of_answer:
  assumes inv: "mo_inv m" and out: "answer_ok m out" "so_result out = SAT_RESULT_SATISFIABLE"
  shows "\<exists>sel. selected_loop (so_assignment out) 0 (mo_vars m) = Some sel \<and> distinct sel \<and>
    set sel \<subseteq> set (mo_vars m) \<and> mo_holds m (set sel)"
proof (cases "mo_vars m = []")
  case True
  then show ?thesis using no_vars_no_clauses [OF inv] by (simp add: mo_holds_def)
next
  case False
  then obtain a where a: "so_assignment out = Some a" "length a = length (mo_vars m) + 1" "models (val_of a) m"
    using out by (auto simp: answer_ok_def)
  have "0 + length (mo_vars m) < length a" using a(2) by simp
  from selected_loop_spec [OF this] obtain sel where sel: "selected_loop (Some a) 0 (mo_vars m) = Some sel"
    "set sel = {mo_vars m ! k | k. k < length (mo_vars m) \<and> a ! Suc k = 1}" "distinct sel"
    using mo_inv_distinct [OF inv] by auto
  have "set sel = sel_of m (val_of a)" using sel(2) by (simp add: sel_of_def val_of_def)
  then have "mo_vars m ! i \<in> set sel \<longleftrightarrow> val_of a (Suc i)" if "i < length (mo_vars m)" for i
    using sel_of_nth [OF mo_inv_distinct [OF inv] that] by simp
  then have "mo_holds m (set sel)" using models_iff_holds [OF inv] a(3) by blast
  moreover have "set sel \<subseteq> set (mo_vars m)" using sel(2) by auto
  ultimately show ?thesis using sel a(1) by simp
qed

subsection \<open>Outcomes\<close>

lemma mo_store:
  assumes "set (mo_vars m) = set candidates \<union> set roots"
    and "\<forall>p \<in> set candidates. ptr_ok st p" and "\<forall>p \<in> set roots. ptr_ok st p"
  shows "\<forall>p \<in> set (mo_vars m). st p \<noteq> None"
  using assms by (auto simp: ptr_ok_def)

lemma sat_setup_ex:
  assumes "\<forall>p \<in> set candidates. ptr_ok st p" and "\<forall>p \<in> set roots. ptr_ok st p"
  shows "\<exists>r. sat_setup st candidates roots mem = Some r \<and> (no_oom mem \<longrightarrow> r \<noteq> None) \<and>
    (\<forall>m mem'. r = Some (m, mem') \<longrightarrow> mo_inv m \<and> set (mo_vars m) = set candidates \<union> set roots \<and>
      (no_oom mem \<longrightarrow> no_oom mem') \<and> (\<forall>S. mo_holds m S \<longleftrightarrow> valid_selection st (set candidates) (set roots) S))"
  by (rule sat_setup_spec [OF assms, of mem]) blast

lemma resolve_sat_cases:
  assumes C: "\<forall>p \<in> set candidates. ptr_ok st p" and R: "\<forall>p \<in> set roots. ptr_ok st p"
    and res: "dep_graph_resolve_sat st candidates roots budget threads want mem mems mem_sel res"
  obtains (error) "res = Some failed" "\<not> no_oom mem"
  | (solved) m mem' out where "res = read_selection m out want mem_sel" "mo_inv m"
      "set (mo_vars m) = set candidates \<union> set roots" "no_oom mem \<longrightarrow> no_oom mem'"
      "sat_solve_parallel st m budget threads True mem' mems out"
      "\<And>S. mo_holds m S \<longleftrightarrow> valid_selection st (set candidates) (set roots) S"
proof -
  obtain r where r: "sat_setup st candidates roots mem = Some r" "no_oom mem \<longrightarrow> r \<noteq> None"
    "\<And>m mem'. r = Some (m, mem') \<Longrightarrow> mo_inv m \<and> set (mo_vars m) = set candidates \<union> set roots \<and>
      (no_oom mem \<longrightarrow> no_oom mem') \<and> (\<forall>S. mo_holds m S \<longleftrightarrow> valid_selection st (set candidates) (set roots) S)"
    using sat_setup_ex [OF C R, of mem] by blast
  show thesis
  proof (cases r)
    case None
    then show thesis using error r(1,2) res by (simp add: dep_graph_resolve_sat_def)
  next
    case (Some x)
    obtain m mem' where x: "x = (m, mem')" by fastforce
    obtain out where "sat_solve_parallel st m budget threads True mem' mems out" "res = read_selection m out want mem_sel"
      using res r(1) Some x by (auto simp: dep_graph_resolve_sat_def)
    then show thesis using r(3) [of m mem'] Some x by (intro solved [of m out mem']) simp_all
  qed
qed

lemma resolve_sat_exists:
  assumes C: "\<forall>p \<in> set candidates. ptr_ok st p" and R: "\<forall>p \<in> set roots. ptr_ok st p"
  shows "\<exists>res. dep_graph_resolve_sat st candidates roots budget threads want mem mems mem_sel res"
proof -
  obtain r where r: "sat_setup st candidates roots mem = Some r"
    "\<And>m mem'. r = Some (m, mem') \<Longrightarrow> mo_inv m \<and> set (mo_vars m) = set candidates \<union> set roots"
    using sat_setup_ex [OF C R, of mem] by blast
  show ?thesis
  proof (cases r)
    case (Some x)
    obtain m mem' where x: "x = (m, mem')" by fastforce
    then have m: "mo_inv m" "set (mo_vars m) = set candidates \<union> set roots" using r(2) Some by simp_all
    obtain out where "sat_solve_parallel st m budget threads True mem' mems out"
      using parallel_exists [OF m(1) mo_store [OF m(2) C R]] by blast
    then show ?thesis using r(1) Some x by (auto simp: dep_graph_resolve_sat_def)
  qed (use r(1) in \<open>simp add: dep_graph_resolve_sat_def\<close>)
qed

subsection \<open>Properties\<close>


text \<open>A pool of an application, its library in two versions and a conflicting fork.\<close>

definition pool_store :: pkg_store where
  "pool_store = [1 \<mapsto> zero_metadata\<lparr>meta_name := Some ''app'', meta_dependencies :=
       [\<lparr>dep_name = Some ''lib'', dep_op = VER_OP_GE, dep_version = Some ''2''\<rparr>]\<rparr>,
     2 \<mapsto> zero_metadata\<lparr>meta_name := Some ''lib'', meta_version := Some ''1''\<rparr>,
     3 \<mapsto> zero_metadata\<lparr>meta_name := Some ''lib2'', meta_version := Some ''2'', meta_provides := [Some ''lib''],
       meta_conflicts := [Some ''lib'']\<rparr>]"

lemma pool_ok: "\<forall>p \<in> set [1, 2, 3]. ptr_ok pool_store p" "\<forall>p \<in> set [1]. ptr_ok pool_store p"
  by (simp_all add: ptr_ok_def pool_store_def strings_ok_def zero_metadata_def)




end
