(* ===== verification/Resolve.thy ===== *)
theory Resolve
  imports Demo
begin

text \<open>
  \<open>src/graph/resolve.c\<close>: depth-first install order, its parallel form for several roots, and
  cycle detection.  The recursion depth of \<open>dfs\<close> is bounded by fuel; \<open>None\<close> is undefined
  behaviour or fuel exhaustion, and \<open>dfs_total\<close> shows that one more than the number of nodes
  is always enough.  The text left for \<open>apg_last_error\<close> is not part of the result.
\<close>

datatype visit = STATE_UNVISITED | STATE_VISITING | STATE_VISITED

text \<open>The order array has room for \<open>g->count\<close> entries, as many as the state array.\<close>

record dfs_ctx =
  ctx_state :: "visit list"
  ctx_order :: "nat list"

definition push_order :: "nat \<Rightarrow> dfs_ctx \<Rightarrow> dfs_ctx option" where
  "push_order idx ctx =
     (if length (ctx_order ctx) < length (ctx_state ctx)
      then Some (ctx\<lparr>ctx_order := ctx_order ctx @ [idx]\<rparr>) else None)"

definition set_state :: "nat \<Rightarrow> visit \<Rightarrow> dfs_ctx \<Rightarrow> dfs_ctx option" where
  "set_state idx v ctx =
     map_option (\<lambda>st. ctx\<lparr>ctx_state := st\<rparr>) (arr_set (ctx_state ctx) idx v)"

text \<open>The check of one constraint against the node its name resolves to.\<close>

definition constraint_met :: "dep_graph \<Rightarrow> dep_constraint \<Rightarrow> nat \<Rightarrow> bool" where
  "constraint_met g c dep_idx \<longleftrightarrow>
     dep_op c = VER_OP_ANY \<or>
     ver_satisfies (meta_version (node_pkg (g_nodes g ! dep_idx))) (dep_op c) (dep_version c)"

fun dfs :: "nat \<Rightarrow> dep_graph \<Rightarrow> nat \<Rightarrow> dfs_ctx \<Rightarrow> (dep_error \<times> dfs_ctx) option"
  and dfs_deps :: "nat \<Rightarrow> dep_graph \<Rightarrow> dep_constraint list \<Rightarrow> dfs_ctx \<Rightarrow> (dep_error \<times> dfs_ctx) option"
where
  "dfs 0 g idx ctx = None"
| "dfs (Suc fuel) g idx ctx =
     do {
       st \<leftarrow> arr_get (ctx_state ctx) idx;
       if st = STATE_VISITED then Some (DEP_OK, ctx)
       else if st = STATE_VISITING then Some (DEP_ERR_CYCLE, ctx)
       else do {
         ctx1 \<leftarrow> set_state idx STATE_VISITING ctx;
         node \<leftarrow> arr_get (g_nodes g) idx;
         (err, ctx2) \<leftarrow> dfs_deps fuel g (meta_dependencies (node_pkg node)) ctx1;
         if err \<noteq> DEP_OK then Some (err, ctx2)
         else do {
           ctx3 \<leftarrow> set_state idx STATE_VISITED ctx2;
           ctx4 \<leftarrow> push_order idx ctx3;
           Some (DEP_OK, ctx4)
         }
       }
     }"
| "dfs_deps fuel g [] ctx = Some (DEP_OK, ctx)"
| "dfs_deps fuel g (c # cs) ctx =
     do {
       name \<leftarrow> dep_name c;
       case dep_graph_lookup g name of
         None \<Rightarrow> Some (DEP_ERR_MISSING, ctx)
       | Some dep_idx \<Rightarrow>
           do {
             _ \<leftarrow> arr_get (g_nodes g) dep_idx;
             if \<not> constraint_met g c dep_idx then Some (DEP_ERR_VERSION, ctx)
             else do {
               (err, ctx') \<leftarrow> dfs fuel g dep_idx ctx;
               if err \<noteq> DEP_OK then Some (err, ctx') else dfs_deps fuel g cs ctx'
             }
           }
     }"

definition fresh_ctx :: "dep_graph \<Rightarrow> dfs_ctx" where
  "fresh_ctx g = \<lparr>ctx_state = replicate (length (g_nodes g)) STATE_UNVISITED, ctx_order = []\<rparr>"

text \<open>The result is the error code, or the array of names that is stored in \<open>*order\<close>.\<close>

definition dep_graph_resolve :: "dep_graph \<Rightarrow> pstr \<Rightarrow> mem \<Rightarrow> (dep_error + string list) option" where
  "dep_graph_resolve g pkg_name mem =
     (case pkg_name of
        None \<Rightarrow> Some (Inl DEP_ERR_NOMEM)
      | Some name \<Rightarrow>
          (case dep_graph_lookup g name of
             None \<Rightarrow> Some (Inl DEP_ERR_MISSING)
           | Some root \<Rightarrow>
               (let (ok, mem1) = malloc_ok mem in
                if \<not> ok then Some (Inl DEP_ERR_NOMEM)
                else let (ok, mem2) = malloc_ok mem1 in
                if \<not> ok then Some (Inl DEP_ERR_NOMEM)
                else do {
                  (err, ctx) \<leftarrow> dfs (length (g_nodes g) + 1) g root (fresh_ctx g);
                  if err \<noteq> DEP_OK then Some (Inl err)
                  else let (ok, mem3) = malloc_ok mem2 in
                  if \<not> ok then Some (Inl DEP_ERR_NOMEM)
                  else do {
                    nodes \<leftarrow> those (map (arr_get (g_nodes g)) (ctx_order ctx));
                    Some (Inr (map node_name nodes))
                  }
                })))"

text \<open>
  \<open>dep_graph_resolve_parallel\<close>.  The workers only read the graph and each has a task, a state
  and an order array of its own, so that a task's result depends on the interleaving only
  through the allocations that fail in it: task \<open>i\<close> sees the outcomes \<open>mems i\<close>.  A task whose
  thread cannot be created is run by the caller, with the same result.
\<close>

fun resolve_tasks :: "dep_graph \<Rightarrow> pstr list \<Rightarrow> (nat \<Rightarrow> mem) \<Rightarrow> nat \<Rightarrow> (dep_error + string list) list option" where
  "resolve_tasks g [] mems i = Some []"
| "resolve_tasks g (name # names) mems i =
     do {
       t \<leftarrow> dep_graph_resolve g name (mems i);
       ts \<leftarrow> resolve_tasks g names mems (Suc i);
       Some (t # ts)
     }"

fun first_err :: "(dep_error + string list) list \<Rightarrow> dep_error" where
  "first_err [] = DEP_OK"
| "first_err (Inl err # ts) = err"
| "first_err (Inr order # ts) = first_err ts"

fun task_order :: "dep_error + string list \<Rightarrow> string list" where
  "task_order (Inl err) = []"
| "task_order (Inr order) = order"

fun merge_names :: "string list \<Rightarrow> str_map \<Rightarrow> string list \<Rightarrow> mem \<Rightarrow> bool \<times> str_map \<times> string list \<times> mem" where
  "merge_names [] seen merged mem = (True, seen, merged, mem)"
| "merge_names (name # names) seen merged mem =
     (case str_map_get seen name of
        Some _ \<Rightarrow> merge_names names seen merged mem
      | None \<Rightarrow>
          (let (ok, seen', mem') = str_map_set seen name 1 mem in
           if \<not> ok then (False, seen', merged, mem')
           else merge_names names seen' (merged @ [name]) mem'))"

fun merge_tasks ::
  "(dep_error + string list) list \<Rightarrow> str_map \<Rightarrow> string list \<Rightarrow> mem \<Rightarrow> bool \<times> str_map \<times> string list \<times> mem" where
  "merge_tasks [] seen merged mem = (True, seen, merged, mem)"
| "merge_tasks (t # ts) seen merged mem =
     (let (ok, seen', merged', mem') = merge_names (task_order t) seen merged mem in
      if \<not> ok then (False, seen', merged', mem') else merge_tasks ts seen' merged' mem')"

definition dep_graph_resolve_parallel ::
  "dep_graph \<Rightarrow> pstr list \<Rightarrow> mem \<Rightarrow> (nat \<Rightarrow> mem) \<Rightarrow> mem \<Rightarrow> (dep_error + string list) option" where
  "dep_graph_resolve_parallel g pkg_names mem mems mem_merge =
     (case pkg_names of
        [] \<Rightarrow> Some (Inr [])
      | [name] \<Rightarrow> dep_graph_resolve g name (mems 0)
      | _ \<Rightarrow>
          (let (ok1, mem1) = malloc_ok mem; (ok2, mem2) = malloc_ok mem1 in
           if \<not> ok1 \<or> \<not> ok2 then Some (Inl DEP_ERR_NOMEM)
           else do {
             tasks \<leftarrow> resolve_tasks g pkg_names mems 0;
             if first_err tasks \<noteq> DEP_OK then Some (Inl (first_err tasks))
             else let (ok, mem3) = malloc_ok mem_merge in
             if \<not> ok then Some (Inl DEP_ERR_NOMEM)
             else let (ok, seen, mem4) = str_map_init str_map_zero mem3 in
             if \<not> ok then Some (Inl DEP_ERR_NOMEM)
             else let (ok, seen', merged, mem5) = merge_tasks tasks seen [] mem4 in
             Some (if ok then Inr merged else Inl DEP_ERR_NOMEM)
           }))"

text \<open>The loop of \<open>dep_graph_has_cycle\<close> over the remaining node indices.\<close>

fun has_cycle_loop :: "dep_graph \<Rightarrow> nat list \<Rightarrow> dfs_ctx \<Rightarrow> bool option" where
  "has_cycle_loop g [] ctx = Some False"
| "has_cycle_loop g (i # is) ctx =
     do {
       st \<leftarrow> arr_get (ctx_state ctx) i;
       if st \<noteq> STATE_UNVISITED then has_cycle_loop g is ctx
       else do {
         (err, ctx') \<leftarrow> dfs (length (g_nodes g) + 1) g i ctx;
         if err = DEP_ERR_CYCLE then Some True else has_cycle_loop g is ctx'
       }
     }"

definition dep_graph_has_cycle :: "dep_graph \<Rightarrow> mem \<Rightarrow> bool option" where
  "dep_graph_has_cycle g mem =
     (if g_nodes g = [] then Some False
      else let (ok, mem1) = malloc_ok mem in
      if \<not> ok then Some False
      else let (ok, mem2) = malloc_ok mem1 in
      if \<not> ok then Some False
      else has_cycle_loop g [0..<length (g_nodes g)] (fresh_ctx g))"

subsection \<open>What resolution means\<close>

text \<open>
  The dependency relation on nodes, and constraints that are met by the node their name
  resolves to.
\<close>

definition node_deps :: "dep_graph \<Rightarrow> nat \<Rightarrow> dep_constraint list" where
  "node_deps g i = meta_dependencies (node_pkg (g_nodes g ! i))"

definition dep_target :: "dep_graph \<Rightarrow> dep_constraint \<Rightarrow> nat option" where
  "dep_target g c = Option.bind (dep_name c) (dep_graph_lookup g)"

definition dep_edges :: "dep_graph \<Rightarrow> (nat \<times> nat) set" where
  "dep_edges g = {(i, j). i < length (g_nodes g) \<and> (\<exists>c \<in> set (node_deps g i). dep_target g c = Some j)}"

definition dep_missing :: "dep_graph \<Rightarrow> nat \<Rightarrow> bool" where
  "dep_missing g i \<longleftrightarrow> (\<exists>c \<in> set (node_deps g i). dep_target g c = None)"

definition dep_unmet :: "dep_graph \<Rightarrow> nat \<Rightarrow> bool" where
  "dep_unmet g i \<longleftrightarrow> (\<exists>c \<in> set (node_deps g i). \<exists>j. dep_target g c = Some j \<and> \<not> constraint_met g c j)"

text \<open>Every element of the list comes after all its successors.\<close>

definition topo_sorted :: "('a \<times> 'a) set \<Rightarrow> 'a list \<Rightarrow> bool" where
  "topo_sorted E xs \<longleftrightarrow> (\<forall>ys y zs. xs = ys @ y # zs \<longrightarrow> E `` {y} \<subseteq> set ys)"

lemma topo_sorted_Nil [simp]: "topo_sorted E []"
  by (simp add: topo_sorted_def)

lemma topo_sorted_snoc [simp]: "topo_sorted E (xs @ [x]) \<longleftrightarrow> topo_sorted E xs \<and> E `` {x} \<subseteq> set xs"
proof
  assume t: "topo_sorted E (xs @ [x])"
  then have "E `` {x} \<subseteq> set xs" unfolding topo_sorted_def by blast
  moreover have "topo_sorted E xs"
    unfolding topo_sorted_def
  proof (intro allI impI)
    fix ys y zs assume "xs = ys @ y # zs"
    then have "xs @ [x] = ys @ y # (zs @ [x])" by simp
    then show "E `` {y} \<subseteq> set ys" using t unfolding topo_sorted_def by blast
  qed
  ultimately show "topo_sorted E xs \<and> E `` {x} \<subseteq> set xs" by simp
next
  assume t: "topo_sorted E xs \<and> E `` {x} \<subseteq> set xs"
  show "topo_sorted E (xs @ [x])"
    unfolding topo_sorted_def
  proof (intro allI impI)
    fix ys y zs assume eq: "xs @ [x] = ys @ y # zs"
    show "E `` {y} \<subseteq> set ys"
    proof (cases zs rule: rev_cases)
      case Nil
      then show ?thesis using eq t by simp
    next
      case (snoc ws z)
      then have "xs = ys @ y # ws" using eq by simp
      then show ?thesis using t unfolding topo_sorted_def by blast
    qed
  qed
qed

lemma topo_sorted_append:
  "topo_sorted E xs \<Longrightarrow> topo_sorted E ys \<Longrightarrow> topo_sorted E (xs @ ys)"
proof (induction ys rule: rev_induct)
  case (snoc y ys)
  then show ?case unfolding append_assoc [symmetric] topo_sorted_snoc by auto
qed simp

lemma topo_sorted_closed: "topo_sorted E xs \<Longrightarrow> E `` set xs \<subseteq> set xs"
  by (induction xs rule: rev_induct) auto

lemma closed_rtrancl: "E `` S \<subseteq> S \<Longrightarrow> x \<in> S \<Longrightarrow> (x, y) \<in> E\<^sup>* \<Longrightarrow> y \<in> S"
  by (metis Image_closed_trancl rev_ImageI)

lemma topo_sorted_acyclic:
  assumes "topo_sorted E xs" and "distinct xs" and "x \<in> set xs"
  shows "(x, x) \<notin> E\<^sup>+"
  using assms
proof (induction xs arbitrary: x rule: rev_induct)
  case (snoc y xs)
  have cl: "E `` set xs \<subseteq> set xs" using snoc.prems by (simp add: topo_sorted_closed)
  show ?case
  proof (cases "x = y")
    case True
    show ?thesis
    proof
      assume "(x, x) \<in> E\<^sup>+"
      then obtain z where "(x, z) \<in> E" "(z, x) \<in> E\<^sup>*" by (meson tranclD)
      then have "x \<in> set xs" using closed_rtrancl [OF cl] snoc.prems True by auto
      then show False using snoc.prems True by simp
    qed
  next
    case False
    then show ?thesis using snoc by simp
  qed
qed simp

lemma topo_sorted_map:
  assumes "topo_sorted E xs"
    and "\<And>x y'. x \<in> set xs \<Longrightarrow> (f x, y') \<in> E' \<Longrightarrow> \<exists>y. (x, y) \<in> E \<and> y' = f y"
  shows "topo_sorted E' (map f xs)"
  using assms
proof (induction xs rule: rev_induct)
  case (snoc x xs)
  have "topo_sorted E' (map f xs)" using snoc by simp
  moreover have "E' `` {f x} \<subseteq> f ` set xs" using snoc.prems by fastforce
  ultimately show ?case by simp
qed simp

text \<open>Keeping the first occurrence of every element keeps the order topological.\<close>

definition first_occs :: "'a list \<Rightarrow> 'a list" where
  "first_occs xs = rev (remdups (rev xs))"

lemma first_occs_snoc [simp]:
  "first_occs (xs @ [x]) = (if x \<in> set xs then first_occs xs else first_occs xs @ [x])"
  by (simp add: first_occs_def)

lemma first_occs_Nil [simp]: "first_occs [] = []"
  by (simp add: first_occs_def)

lemma set_first_occs [simp]: "set (first_occs xs) = set xs"
  by (simp add: first_occs_def)

lemma distinct_first_occs [simp]: "distinct (first_occs xs)"
  by (simp add: first_occs_def)

lemma topo_sorted_first_occs: "topo_sorted E xs \<Longrightarrow> topo_sorted E (first_occs xs)"
  by (induction xs rule: rev_induct) auto

subsection \<open>The depth-first search\<close>

definition ctx_inv :: "dep_graph \<Rightarrow> dfs_ctx \<Rightarrow> bool" where
  "ctx_inv g ctx \<longleftrightarrow>
     length (ctx_state ctx) = length (g_nodes g) \<and> distinct (ctx_order ctx) \<and>
     (\<forall>i. i \<in> set (ctx_order ctx) \<longleftrightarrow> i < length (g_nodes g) \<and> ctx_state ctx ! i = STATE_VISITED) \<and>
     topo_sorted (dep_edges g) (ctx_order ctx) \<and>
     (\<forall>i \<in> set (ctx_order ctx). \<not> dep_missing g i \<and> \<not> dep_unmet g i)"

definition stack :: "dfs_ctx \<Rightarrow> nat set" where
  "stack ctx = {i. i < length (ctx_state ctx) \<and> ctx_state ctx ! i = STATE_VISITING}"

definition unvisited :: "dfs_ctx \<Rightarrow> nat set" where
  "unvisited ctx = {i. i < length (ctx_state ctx) \<and> ctx_state ctx ! i = STATE_UNVISITED}"

text \<open>What a stretch of the search from node \<open>i\<close> does, whatever it returns.\<close>

definition dfs_run :: "dep_graph \<Rightarrow> nat \<Rightarrow> dfs_ctx \<Rightarrow> dep_error \<Rightarrow> dfs_ctx \<Rightarrow> bool" where
  "dfs_run g i ctx err ctx' \<longleftrightarrow>
     ctx_inv g ctx' \<and>
     (\<exists>ext. ctx_order ctx' = ctx_order ctx @ ext \<and> set ext \<subseteq> (dep_edges g)\<^sup>* `` {i}) \<and>
     unvisited ctx' \<subseteq> unvisited ctx \<and>
     (err = DEP_OK \<longrightarrow> stack ctx' = stack ctx) \<and>
     err \<in> {DEP_OK, DEP_ERR_CYCLE, DEP_ERR_MISSING, DEP_ERR_VERSION} \<and>
     (err = DEP_ERR_CYCLE \<longrightarrow> (\<exists>v. (i, v) \<in> (dep_edges g)\<^sup>* \<and> (v, v) \<in> (dep_edges g)\<^sup>+)) \<and>
     (err = DEP_ERR_MISSING \<longrightarrow> (\<exists>v. (i, v) \<in> (dep_edges g)\<^sup>* \<and> dep_missing g v)) \<and>
     (err = DEP_ERR_VERSION \<longrightarrow> (\<exists>v. (i, v) \<in> (dep_edges g)\<^sup>* \<and> dep_unmet g v))"

lemma dfs_run_refl: "ctx_inv g ctx \<Longrightarrow> dfs_run g i ctx DEP_OK ctx"
  by (simp add: dfs_run_def)

lemma dfs_run_trans:
  assumes "dfs_run g i ctx DEP_OK ctx1" and "dfs_run g i ctx1 err ctx2"
  shows "dfs_run g i ctx err ctx2"
proof -
  obtain e1 e2 where "ctx_order ctx1 = ctx_order ctx @ e1" "ctx_order ctx2 = ctx_order ctx1 @ e2"
    "set (e1 @ e2) \<subseteq> (dep_edges g)\<^sup>* `` {i}"
    using assms unfolding dfs_run_def by auto
  then have "\<exists>ext. ctx_order ctx2 = ctx_order ctx @ ext \<and> set ext \<subseteq> (dep_edges g)\<^sup>* `` {i}"
    by (intro exI [of _ "e1 @ e2"]) simp
  then show ?thesis using assms unfolding dfs_run_def by auto
qed

lemma dfs_run_edge:
  assumes e: "(i, j) \<in> dep_edges g" and run: "dfs_run g j ctx err ctx'"
  shows "dfs_run g i ctx err ctx'"
proof -
  have r: "(j, v) \<in> (dep_edges g)\<^sup>* \<Longrightarrow> (i, v) \<in> (dep_edges g)\<^sup>*" for v
    using e by (rule converse_rtrancl_into_rtrancl)
  then have "(dep_edges g)\<^sup>* `` {j} \<subseteq> (dep_edges g)\<^sup>* `` {i}" by auto
  then show ?thesis using run r unfolding dfs_run_def by (meson order_trans)
qed

lemma ctx_inv_setD:
  "ctx_inv g ctx \<Longrightarrow> i \<in> set (ctx_order ctx) \<longleftrightarrow> i < length (g_nodes g) \<and> ctx_state ctx ! i = STATE_VISITED"
  by (simp add: ctx_inv_def)

lemma ctx_inv_visiting:
  "ctx_inv g ctx \<Longrightarrow> i < length (g_nodes g) \<Longrightarrow> ctx_state ctx ! i = STATE_UNVISITED \<Longrightarrow>
   ctx_inv g (ctx\<lparr>ctx_state := (ctx_state ctx)[i := STATE_VISITING]\<rparr>)"
  by (auto simp: ctx_inv_def nth_list_update)

lemma dep_target_range: "g_inv g \<Longrightarrow> dep_target g c = Some j \<Longrightarrow> j < length (g_nodes g)"
  by (auto simp: dep_target_def split: bind_splits dest: dep_graph_lookup_range)

text \<open>The order array never overflows: a node on the stack is not in it.\<close>

lemma ctx_order_room:
  assumes inv: "ctx_inv g ctx" and i: "i \<in> stack ctx"
  shows "length (ctx_order ctx) < length (ctx_state ctx)"
proof -
  have "i \<notin> set (ctx_order ctx)" "i < length (ctx_state ctx)" "set (ctx_order ctx) \<subseteq> {..<length (ctx_state ctx)}"
    using inv i by (auto simp: ctx_inv_def stack_def)
  then have "set (ctx_order ctx) \<subset> {..<length (ctx_state ctx)}" by blast
  then have "card (set (ctx_order ctx)) < card {..<length (ctx_state ctx)}" by (rule psubset_card_mono [rotated]) simp
  then show ?thesis using inv distinct_card by (fastforce simp: ctx_inv_def)
qed

lemma dfs_finish:
  assumes inv: "ctx_inv g ctx" and i: "i \<in> stack ctx"
    and deps: "\<forall>c \<in> set (node_deps g i). \<exists>j. dep_target g c = Some j \<and> constraint_met g c j \<and> j \<in> set (ctx_order ctx)"
  defines "ctx' \<equiv> ctx\<lparr>ctx_state := (ctx_state ctx)[i := STATE_VISITED], ctx_order := ctx_order ctx @ [i]\<rparr>"
  shows "set_state i STATE_VISITED ctx \<bind> push_order i = Some ctx' \<and> ctx_inv g ctx' \<and>
         stack ctx' = stack ctx - {i} \<and> unvisited ctx' = unvisited ctx"
proof -
  have len: "i < length (ctx_state ctx)" "length (ctx_state ctx) = length (g_nodes g)"
    "ctx_state ctx ! i = STATE_VISITING" using inv i by (auto simp: ctx_inv_def stack_def)
  have "dep_edges g `` {i} \<subseteq> set (ctx_order ctx)" using deps by (auto simp: dep_edges_def)
  moreover have "i \<notin> set (ctx_order ctx)" using inv len by (simp add: ctx_inv_def)
  moreover have "\<not> dep_missing g i" "\<not> dep_unmet g i" using deps by (auto simp: dep_missing_def dep_unmet_def)
  ultimately have "ctx_inv g ctx'" using inv len by (auto simp: ctx_inv_def ctx'_def nth_list_update)
  moreover have "stack ctx' = stack ctx - {i}" "unvisited ctx' = unvisited ctx"
    using len by (auto simp: stack_def unvisited_def ctx'_def nth_list_update split: if_splits)
  ultimately show ?thesis
    using len ctx_order_room [OF inv i] by (simp add: set_state_def push_order_def ctx'_def)
qed

definition dfs_spec :: "dep_graph \<Rightarrow> nat \<Rightarrow> bool" where
  "dfs_spec g fuel \<longleftrightarrow> (\<forall>i ctx err ctx'.
     ctx_inv g ctx \<longrightarrow> i < length (g_nodes g) \<longrightarrow> stack ctx \<times> {i} \<subseteq> (dep_edges g)\<^sup>+ \<longrightarrow>
     dfs fuel g i ctx = Some (err, ctx') \<longrightarrow>
       dfs_run g i ctx err ctx' \<and>
       (err = DEP_OK \<longrightarrow> i \<in> set (ctx_order ctx') \<and> (i \<in> unvisited ctx \<longrightarrow> last (ctx_order ctx') = i)))"

lemma dfs_deps_effect:
  assumes g: "g_inv g" and i: "i < length (g_nodes g)" and spec: "dfs_spec g fuel"
    and "ctx_inv g ctx" and "stack ctx \<times> {i} \<subseteq> (dep_edges g)\<^sup>*" and "set cs \<subseteq> set (node_deps g i)"
    and "dfs_deps fuel g cs ctx = Some (err, ctx')"
  shows "dfs_run g i ctx err ctx' \<and>
    (err = DEP_OK \<longrightarrow>
       (\<forall>c \<in> set cs. \<exists>j. dep_target g c = Some j \<and> constraint_met g c j \<and> j \<in> set (ctx_order ctx')))"
  using assms(4-)
proof (induction cs arbitrary: ctx)
  case Nil
  then show ?case by (simp add: dfs_run_refl)
next
  case (Cons c cs)
  obtain name where name: "dep_name c = Some name" using Cons.prems(4) by (cases "dep_name c") auto
  have c: "c \<in> set (node_deps g i)" using Cons.prems(3) by simp
  show ?case
  proof (cases "dep_graph_lookup g name")
    case None
    then have "err = DEP_ERR_MISSING" "ctx' = ctx" "dep_missing g i"
      using Cons.prems(4) name c by (auto simp: dep_missing_def dep_target_def intro!: bexI [of _ c])
    then show ?thesis using Cons.prems(1) by (auto simp: dfs_run_def)
  next
    case (Some j)
    then have j: "dep_target g c = Some j" "j < length (g_nodes g)" "(i, j) \<in> dep_edges g"
      using name c i dep_graph_lookup_range [OF g]
      by (auto simp: dep_target_def dep_edges_def intro!: bexI [of _ c])
    show ?thesis
    proof (cases "constraint_met g c j")
      case False
      then have "err = DEP_ERR_VERSION" "ctx' = ctx" "dep_unmet g i"
        using Cons.prems(4) name Some j c by (auto simp: dep_unmet_def)
      then show ?thesis using Cons.prems(1) by (auto simp: dfs_run_def)
    next
      case True
      obtain err1 ctx1 where d: "dfs fuel g j ctx = Some (err1, ctx1)"
        using Cons.prems(4) name Some j True by (cases "dfs fuel g j ctx") auto
      have "stack ctx \<times> {j} \<subseteq> (dep_edges g)\<^sup>+"
        using Cons.prems(2) j(3) by (auto intro: rtrancl_into_trancl1)
      then have run: "dfs_run g j ctx err1 ctx1" "err1 = DEP_OK \<longrightarrow> j \<in> set (ctx_order ctx1)"
        using spec Cons.prems(1) j(2) d unfolding dfs_spec_def by blast+
      note run_i = dfs_run_edge [OF j(3) run(1)]
      show ?thesis
      proof (cases "err1 = DEP_OK")
        case False
        then show ?thesis using Cons.prems(4) name Some j True d run_i by simp
      next
        case ok: True
        then have rest: "dfs_deps fuel g cs ctx1 = Some (err, ctx')"
          using Cons.prems(4) name Some j True d by simp
        have "ctx_inv g ctx1" "stack ctx1 = stack ctx" using run_i ok by (simp_all add: dfs_run_def)
        then have ih: "dfs_run g i ctx1 err ctx'" "err = DEP_OK \<longrightarrow>
            (\<forall>c \<in> set cs. \<exists>j. dep_target g c = Some j \<and> constraint_met g c j \<and> j \<in> set (ctx_order ctx'))"
          using Cons.IH [of ctx1] Cons.prems(2,3) rest by auto
        moreover have "set (ctx_order ctx1) \<subseteq> set (ctx_order ctx')" using ih(1) by (auto simp: dfs_run_def)
        ultimately show ?thesis using dfs_run_trans run_i ok run(2) j(1) True by auto
      qed
    qed
  qed
qed

lemma dfs_effect: "g_inv g \<Longrightarrow> dfs_spec g fuel"
proof (induction fuel)
  case 0
  then show ?case by (simp add: dfs_spec_def)
next
  case (Suc fuel)
  show ?case
    unfolding dfs_spec_def
  proof (intro allI impI)
    fix i ctx err ctx'
    assume inv: "ctx_inv g ctx" and i: "i < length (g_nodes g)" and st: "stack ctx \<times> {i} \<subseteq> (dep_edges g)\<^sup>+"
      and d: "dfs (Suc fuel) g i ctx = Some (err, ctx')"
    have len: "i < length (ctx_state ctx)" using inv i by (simp add: ctx_inv_def)
    let ?ctx1 = "ctx\<lparr>ctx_state := (ctx_state ctx)[i := STATE_VISITING]\<rparr>"
    show "dfs_run g i ctx err ctx' \<and>
       (err = DEP_OK \<longrightarrow> i \<in> set (ctx_order ctx') \<and> (i \<in> unvisited ctx \<longrightarrow> last (ctx_order ctx') = i))"
    proof (cases "ctx_state ctx ! i")
      case STATE_VISITED
      then have "i \<in> set (ctx_order ctx)" using ctx_inv_setD [OF inv] i by simp
      then show ?thesis using STATE_VISITED d len inv by (auto simp: dfs_run_refl unvisited_def)
    next
      case STATE_VISITING
      then have "err = DEP_ERR_CYCLE" "ctx' = ctx" "(i, i) \<in> (dep_edges g)\<^sup>+"
        using d len st by (auto simp: stack_def)
      then show ?thesis using inv by (auto simp: dfs_run_def)
    next
      case STATE_UNVISITED
      obtain err1 ctx2 where dd: "dfs_deps fuel g (node_deps g i) ?ctx1 = Some (err1, ctx2)"
        using d len i STATE_UNVISITED
        by (cases "dfs_deps fuel g (node_deps g i) ?ctx1") (auto simp: set_state_def node_deps_def)
      have inv1: "ctx_inv g ?ctx1" using inv i STATE_UNVISITED by (rule ctx_inv_visiting)
      have st1: "stack ?ctx1 = insert i (stack ctx)" "unvisited ?ctx1 = unvisited ctx - {i}"
        using len STATE_UNVISITED by (auto simp: stack_def unvisited_def nth_list_update split: if_splits)
      have "stack ?ctx1 \<times> {i} \<subseteq> (dep_edges g)\<^sup>*" using st st1 by (auto dest: trancl_into_rtrancl)
      from dfs_deps_effect [OF Suc.prems i Suc.IH [OF Suc.prems] inv1 this subset_refl dd]
      have run: "dfs_run g i ?ctx1 err1 ctx2" and deps: "err1 = DEP_OK \<longrightarrow>
        (\<forall>c \<in> set (node_deps g i). \<exists>j. dep_target g c = Some j \<and> constraint_met g c j \<and> j \<in> set (ctx_order ctx2))"
        by auto
      show ?thesis
      proof (cases "err1 = DEP_OK")
        case False
        then have "err = err1" "ctx' = ctx2"
          using d len i STATE_UNVISITED dd by (auto simp: set_state_def node_deps_def)
        then show ?thesis using False run st1 by (auto simp: dfs_run_def)
      next
        case True
        have inv2: "ctx_inv g ctx2" and i2: "i \<in> stack ctx2" using run True st1 by (auto simp: dfs_run_def)
        let ?c = "ctx2\<lparr>ctx_state := (ctx_state ctx2)[i := STATE_VISITED], ctx_order := ctx_order ctx2 @ [i]\<rparr>"
        have fin: "set_state i STATE_VISITED ctx2 \<bind> push_order i = Some ?c" "ctx_inv g ?c"
          "stack ?c = stack ctx2 - {i}" "unvisited ?c = unvisited ctx2"
          using dfs_finish [OF inv2 i2] deps True by simp_all
        have "err = DEP_OK" "ctx' = ?c"
          using d len i STATE_UNVISITED dd True fin(1)
          by (auto simp: set_state_def node_deps_def split: bind_splits)
        moreover have "stack ctx' = stack ctx"
          using calculation fin(3) run True st1 len STATE_UNVISITED by (auto simp: dfs_run_def stack_def)
        moreover obtain ext where "ctx_order ctx2 = ctx_order ctx @ ext" "set ext \<subseteq> (dep_edges g)\<^sup>* `` {i}"
          using run by (auto simp: dfs_run_def)
        ultimately show ?thesis
          using fin(2,4) run st1 by (auto simp: dfs_run_def)
      qed
    qed
  qed
qed

subsection \<open>Totality\<close>

definition deps_named :: "dep_graph \<Rightarrow> bool" where
  "deps_named g \<longleftrightarrow> (\<forall>n \<in> set (g_nodes g). \<forall>c \<in> set (meta_dependencies (node_pkg n)). dep_name c \<noteq> None)"

lemma finite_unvisited [simp]: "finite (unvisited ctx)"
  by (simp add: unvisited_def)

lemma dfs_deps_total:
  assumes g: "g_inv g" "deps_named g" and i: "i < length (g_nodes g)"
    and total: "\<And>j ctx. ctx_inv g ctx \<Longrightarrow> j < length (g_nodes g) \<Longrightarrow> stack ctx \<times> {j} \<subseteq> (dep_edges g)\<^sup>+ \<Longrightarrow>
      card (unvisited ctx) < fuel \<Longrightarrow> dfs fuel g j ctx \<noteq> None"
    and "ctx_inv g ctx" and "stack ctx \<times> {i} \<subseteq> (dep_edges g)\<^sup>*" and "set cs \<subseteq> set (node_deps g i)"
    and "card (unvisited ctx) < fuel"
  shows "dfs_deps fuel g cs ctx \<noteq> None"
  using assms(5-)
proof (induction cs arbitrary: ctx)
  case (Cons c cs)
  have c: "c \<in> set (node_deps g i)" using Cons.prems(3) by simp
  then obtain name where name: "dep_name c = Some name"
    using g(2) nth_mem [OF i] unfolding deps_named_def node_deps_def by blast
  show ?case
  proof (cases "dep_graph_lookup g name")
    case None
    then show ?thesis using name by simp
  next
    case (Some j)
    then have j: "j < length (g_nodes g)" "(i, j) \<in> dep_edges g"
      using name c i dep_graph_lookup_range [OF g(1)]
      by (auto simp: dep_target_def dep_edges_def intro!: bexI [of _ c])
    have st: "stack ctx \<times> {j} \<subseteq> (dep_edges g)\<^sup>+"
      using Cons.prems(2) j(2) by (auto intro: rtrancl_into_trancl1)
    then obtain err ctx1 where d: "dfs fuel g j ctx = Some (err, ctx1)"
      using total [OF Cons.prems(1) j(1) st Cons.prems(4)] by auto
    have "dfs_run g j ctx err ctx1"
      using dfs_effect [OF g(1), of fuel] Cons.prems(1) j(1) st d unfolding dfs_spec_def by blast
    then have "ctx_inv g ctx1" "err = DEP_OK \<Longrightarrow> stack ctx1 = stack ctx" "card (unvisited ctx1) \<le> card (unvisited ctx)"
      by (auto simp: dfs_run_def intro: card_mono)
    then show ?thesis using Cons.IH [of ctx1] Cons.prems name Some j d by auto
  qed
qed simp

text \<open>Fuel above the number of unvisited nodes is enough; the search never leaves its arrays.\<close>

lemma dfs_total:
  assumes "g_inv g" "deps_named g" and "ctx_inv g ctx" and "i < length (g_nodes g)"
    and "stack ctx \<times> {i} \<subseteq> (dep_edges g)\<^sup>+" and "card (unvisited ctx) < fuel"
  shows "dfs fuel g i ctx \<noteq> None"
  using assms(3-)
proof (induction fuel arbitrary: i ctx)
  case (Suc fuel)
  have len: "i < length (ctx_state ctx)" using Suc.prems(1,2) by (simp add: ctx_inv_def)
  let ?ctx1 = "ctx\<lparr>ctx_state := (ctx_state ctx)[i := STATE_VISITING]\<rparr>"
  show ?case
  proof (cases "ctx_state ctx ! i")
    case STATE_UNVISITED
    have inv1: "ctx_inv g ?ctx1" using Suc.prems(1,2) STATE_UNVISITED by (rule ctx_inv_visiting)
    have st1: "stack ?ctx1 = insert i (stack ctx)" "unvisited ?ctx1 = unvisited ctx - {i}" "i \<in> unvisited ctx"
      using len STATE_UNVISITED by (auto simp: stack_def unvisited_def nth_list_update split: if_splits)
    then have fuel: "card (unvisited ?ctx1) < fuel" using Suc.prems(4) card_Diff1_less [of "unvisited ctx" i] by simp
    have st: "stack ?ctx1 \<times> {i} \<subseteq> (dep_edges g)\<^sup>*" using Suc.prems(3) st1 by (auto dest: trancl_into_rtrancl)
    obtain err ctx2 where dd: "dfs_deps fuel g (node_deps g i) ?ctx1 = Some (err, ctx2)"
      using dfs_deps_total [OF assms(1,2) Suc.prems(2) Suc.IH inv1 st subset_refl fuel] by auto
    note eff = dfs_deps_effect [OF assms(1) Suc.prems(2) dfs_effect [OF assms(1)] inv1 st subset_refl dd]
    show ?thesis
    proof (cases "err = DEP_OK")
      case True
      then have "ctx_inv g ctx2" "i \<in> stack ctx2" using eff st1 by (auto simp: dfs_run_def)
      then obtain c where "set_state i STATE_VISITED ctx2 \<bind> push_order i = Some c"
        using dfs_finish [of g ctx2 i] eff True by auto
      then show ?thesis using len Suc.prems(2) STATE_UNVISITED dd True
        by (auto simp: set_state_def node_deps_def split: bind_splits)
    next
      case False
      then show ?thesis using len Suc.prems(2) STATE_UNVISITED dd by (simp add: set_state_def node_deps_def)
    qed
  qed (use len in simp_all)
qed simp

lemma fresh_ctx_inv [simp]: "ctx_inv g (fresh_ctx g)" "stack (fresh_ctx g) = {}"
  "ctx_order (fresh_ctx g) = []" "unvisited (fresh_ctx g) = {..<length (g_nodes g)}"
  by (auto simp: ctx_inv_def fresh_ctx_def stack_def unvisited_def)

subsection \<open>Outcome of a resolution\<close>

text \<open>
  A root can be installed when nothing it depends on, directly or not, is missing, has the
  wrong version or depends on itself.
\<close>

definition resolvable :: "dep_graph \<Rightarrow> nat \<Rightarrow> bool" where
  "resolvable g r \<longleftrightarrow> (\<forall>v. (r, v) \<in> (dep_edges g)\<^sup>* \<longrightarrow>
     \<not> dep_missing g v \<and> \<not> dep_unmet g v \<and> (v, v) \<notin> (dep_edges g)\<^sup>+)"

definition name_of :: "dep_graph \<Rightarrow> nat \<Rightarrow> string" where
  "name_of g i = node_name (g_nodes g ! i)"

definition name_edges :: "dep_graph \<Rightarrow> (string \<times> string) set" where
  "name_edges g = {(name_of g i, name_of g j) | i j. (i, j) \<in> dep_edges g}"

definition install_order :: "dep_graph \<Rightarrow> nat \<Rightarrow> string list \<Rightarrow> bool" where
  "install_order g r names \<longleftrightarrow>
     distinct names \<and> set names = name_of g ` ((dep_edges g)\<^sup>* `` {r}) \<and>
     topo_sorted (name_edges g) names \<and> names \<noteq> [] \<and> last names = name_of g r"

lemma name_of_inj: "g_inv g \<Longrightarrow> inj_on (name_of g) {..<length (g_nodes g)}"
proof (rule inj_onI)
  fix i j assume "g_inv g" "i \<in> {..<length (g_nodes g)}" "j \<in> {..<length (g_nodes g)}" "name_of g i = name_of g j"
  then show "i = j"
    using find_Some_iff [of g "name_of g i" i] find_Some_iff [of g "name_of g i" j] by (simp add: name_of_def)
qed

lemma dep_edges_range: "g_inv g \<Longrightarrow> (i, j) \<in> dep_edges g \<Longrightarrow> i < length (g_nodes g) \<and> j < length (g_nodes g)"
  by (auto simp: dep_edges_def dest: dep_target_range)

lemma reach_range:
  assumes "g_inv g" and "r < length (g_nodes g)" and "(r, v) \<in> (dep_edges g)\<^sup>*"
  shows "v < length (g_nodes g)"
  using assms(3,2) by (induction rule: rtrancl_induct) (auto dest: dep_edges_range [OF assms(1)])

lemma topo_sorted_names:
  assumes "g_inv g" and "topo_sorted (dep_edges g) is" and "set is \<subseteq> {..<length (g_nodes g)}"
  shows "topo_sorted (name_edges g) (map (name_of g) is)"
proof (rule topo_sorted_map [OF assms(2)])
  fix x y' assume x: "x \<in> set is" and "(name_of g x, y') \<in> name_edges g"
  then obtain i j where ij: "(i, j) \<in> dep_edges g" "name_of g i = name_of g x" "y' = name_of g j"
    by (auto simp: name_edges_def)
  then have "i = x"
    using name_of_inj [OF assms(1)] x assms(3) dep_edges_range [OF assms(1)] by (meson inj_onD lessThan_iff subsetD)
  then show "\<exists>y. (x, y) \<in> dep_edges g \<and> y' = name_of g y" using ij by blast
qed

text \<open>The search from a root on fresh arrays.\<close>

lemma dfs_root:
  assumes g: "g_inv g" and r: "r < length (g_nodes g)"
    and d: "dfs fuel g r (fresh_ctx g) = Some (err, ctx)"
  shows "dfs_run g r (fresh_ctx g) err ctx" and "err = DEP_OK \<longleftrightarrow> resolvable g r"
    and "err = DEP_OK \<Longrightarrow> install_order g r (map (name_of g) (ctx_order ctx))"
    and "set (ctx_order ctx) \<subseteq> {..<length (g_nodes g)}"
proof -
  have spec: "dfs_run g r (fresh_ctx g) err ctx"
    "err = DEP_OK \<Longrightarrow> r \<in> set (ctx_order ctx) \<and> last (ctx_order ctx) = r"
    using dfs_effect [OF g, of fuel] r d unfolding dfs_spec_def
    by (force simp del: dfs.simps)+
  show "dfs_run g r (fresh_ctx g) err ctx" by (fact spec(1))
  have inv: "ctx_inv g ctx" and sub: "set (ctx_order ctx) \<subseteq> (dep_edges g)\<^sup>* `` {r}"
    using spec(1) by (auto simp: dfs_run_def)
  then show rng: "set (ctx_order ctx) \<subseteq> {..<length (g_nodes g)}"
    using reach_range [OF g r] by auto
  have topo: "topo_sorted (dep_edges g) (ctx_order ctx)" "distinct (ctx_order ctx)"
    using inv by (simp_all add: ctx_inv_def)
  have reach: "set (ctx_order ctx) = (dep_edges g)\<^sup>* `` {r}" if "err = DEP_OK"
    using sub closed_rtrancl [OF topo_sorted_closed [OF topo(1)]] spec(2) [OF that] by blast
  show "err = DEP_OK \<longleftrightarrow> resolvable g r"
  proof
    assume "err = DEP_OK"
    then show "resolvable g r"
      using reach inv topo_sorted_acyclic [OF topo] by (auto simp: resolvable_def ctx_inv_def)
  next
    assume "resolvable g r"
    then show "err = DEP_OK" using spec(1) by (auto simp: resolvable_def dfs_run_def)
  qed
  assume ok: "err = DEP_OK"
  have "distinct (map (name_of g) (ctx_order ctx))"
    using topo(2) inj_on_subset [OF name_of_inj [OF g] rng] by (simp add: distinct_map)
  moreover have "ctx_order ctx \<noteq> []" using spec(2) [OF ok] by auto
  ultimately show "install_order g r (map (name_of g) (ctx_order ctx))"
    using topo_sorted_names [OF g topo(1) rng] reach [OF ok] spec(2) [OF ok]
    by (auto simp: install_order_def last_map)
qed

lemma dfs_root_total:
  assumes "g_inv g" "deps_named g" "r < length (g_nodes g)"
  shows "\<exists>err ctx. dfs (length (g_nodes g) + 1) g r (fresh_ctx g) = Some (err, ctx)"
  using dfs_total [OF assms(1,2) _ assms(3), of "fresh_ctx g" "length (g_nodes g) + 1"]
  by (auto simp del: dfs.simps)

lemma those_arr_get:
  "set is \<subseteq> {..<length xs} \<Longrightarrow> those (map (arr_get xs) is) = Some (map ((!) xs) is)"
  by (induction "is") auto

lemma map_name_of: "map node_name (map ((!) (g_nodes g)) is) = map (name_of g) is"
  by (simp add: name_of_def)

lemma dep_graph_resolve_eq:
  assumes "g_inv g" and "dep_graph_lookup g name = Some r"
    and d: "dfs (length (g_nodes g) + 1) g r (fresh_ctx g) = Some (err, ctx)"
  shows "dep_graph_resolve g (Some name) mem =
    (if \<not> fst (malloc_ok mem) \<or> \<not> fst (malloc_ok (snd (malloc_ok mem))) then Some (Inl DEP_ERR_NOMEM)
     else if err \<noteq> DEP_OK then Some (Inl err)
     else if \<not> fst (malloc_ok (snd (malloc_ok (snd (malloc_ok mem))))) then Some (Inl DEP_ERR_NOMEM)
     else Some (Inr (map (name_of g) (ctx_order ctx))))"
  using assms those_arr_get [OF dfs_root(4) [OF assms(1) dep_graph_lookup_range [OF assms(1,2)] d]]
  by (simp add: dep_graph_resolve_def map_name_of Let_def split_beta name_of_def del: dfs.simps)

text \<open>What an error code says about the graph.\<close>

definition failure_reason :: "dep_graph \<Rightarrow> nat \<Rightarrow> dep_error \<Rightarrow> bool" where
  "failure_reason g r err \<longleftrightarrow>
     (\<exists>v. (r, v) \<in> (dep_edges g)\<^sup>* \<and>
        (case err of
           DEP_ERR_CYCLE \<Rightarrow> (v, v) \<in> (dep_edges g)\<^sup>+
         | DEP_ERR_MISSING \<Rightarrow> dep_missing g v
         | DEP_ERR_VERSION \<Rightarrow> dep_unmet g v
         | _ \<Rightarrow> False))"

lemma failure_reason_not_resolvable: "failure_reason g r err \<Longrightarrow> \<not> resolvable g r"
  by (cases err) (auto simp: failure_reason_def resolvable_def)

lemma dfs_run_reason: "dfs_run g r ctx err ctx' \<Longrightarrow> err \<noteq> DEP_OK \<Longrightarrow> failure_reason g r err"
  by (cases err) (auto simp: dfs_run_def failure_reason_def)

text \<open>The three ways a call can end, under any allocation failures.\<close>

lemma dep_graph_resolve_cases:
  assumes g: "g_inv g" "deps_named g" and l: "dep_graph_lookup g name = Some r"
  obtains (nomem) "\<not> no_oom mem" "dep_graph_resolve g (Some name) mem = Some (Inl DEP_ERR_NOMEM)"
  | (fails) err where "dep_graph_resolve g (Some name) mem = Some (Inl err)" "failure_reason g r err"
  | (order) names where "dep_graph_resolve g (Some name) mem = Some (Inr names)" "resolvable g r"
      "install_order g r names"
proof -
  have r: "r < length (g_nodes g)" using g(1) l by (rule dep_graph_lookup_range)
  obtain err ctx where d: "dfs (length (g_nodes g) + 1) g r (fresh_ctx g) = Some (err, ctx)"
    using dfs_root_total [OF g r] by blast
  note eq = dep_graph_resolve_eq [OF g(1) l d, of mem] and root = dfs_root [OF g(1) r d]
  show ?thesis
  proof (cases "err = DEP_OK")
    case True
    then show ?thesis using eq root(2,3) that(1,3) by (cases "no_oom mem") (auto split: if_splits)
  next
    case False
    then show ?thesis using eq dfs_run_reason [OF root(1)] that(1,2) by (cases "no_oom mem") (auto split: if_splits)
  qed
qed

subsection \<open>Merging\<close>

lemma merge_names_effect:
  assumes "sm_inv seen" and "\<forall>x. str_map_get seen x \<noteq> None \<longleftrightarrow> x \<in> set acc"
    and "merge_names names seen (first_occs acc) mem = (ok, seen', merged', mem')"
  shows "sm_inv seen' \<and>
    (ok \<longrightarrow> merged' = first_occs (acc @ names) \<and> (\<forall>x. str_map_get seen' x \<noteq> None \<longleftrightarrow> x \<in> set (acc @ names)))"
  using assms
proof (induction names arbitrary: acc seen mem)
  case (Cons x xs)
  show ?case
  proof (cases "str_map_get seen x")
    case None
    obtain ok1 seen1 mem1 where s: "str_map_set seen x 1 mem = (ok1, seen1, mem1)" by (metis prod_cases3)
    show ?thesis
    proof (cases ok1)
      case True
      then have "sm_inv seen1" "str_map_get seen1 = (str_map_get seen)(x \<mapsto> 1)"
        using sm.put_ok [OF Cons.prems(1), of x 1 mem seen1 mem1] s by simp_all
      moreover have "x \<notin> set acc" using None Cons.prems(2) by (metis not_None_eq)
      ultimately show ?thesis
        using Cons.IH [of seen1 "acc @ [x]" mem1] Cons.prems(2,3) None s True by simp
    next
      case False
      then show ?thesis using sm.put_fail Cons.prems(1,3) None s by auto
    qed
  next
    case (Some v)
    then have "x \<in> set acc" using Cons.prems(2) by auto
    then show ?thesis using Cons.IH [of seen "acc @ [x]" mem] Cons.prems Some by auto
  qed
qed simp

lemma merge_tasks_effect:
  assumes "sm_inv seen" and "\<forall>x. str_map_get seen x \<noteq> None \<longleftrightarrow> x \<in> set acc"
    and "merge_tasks ts seen (first_occs acc) mem = (True, seen', merged', mem')"
  shows "merged' = first_occs (acc @ concat (map task_order ts))"
  using assms
proof (induction ts arbitrary: acc seen mem)
  case (Cons t ts)
  obtain ok1 seen1 merged1 mem1 where
    m: "merge_names (task_order t) seen (first_occs acc) mem = (ok1, seen1, merged1, mem1)"
    by (metis prod_cases4)
  note eff = merge_names_effect [OF Cons.prems(1,2) m]
  have "ok1" using Cons.prems(3) m by (cases ok1) auto
  then show ?case using Cons.IH [of seen1 "acc @ task_order t" mem1] Cons.prems(3) m eff by simp
qed simp

lemma merge_names_no_oom:
  assumes "sm_inv seen" and "no_oom mem"
  shows "\<exists>seen' merged' mem'. merge_names names seen merged mem = (True, seen', merged', mem') \<and>
           sm_inv seen' \<and> no_oom mem'"
  using assms
proof (induction names arbitrary: seen merged mem)
  case (Cons x xs)
  show ?case
  proof (cases "str_map_get seen x")
    case None
    obtain seen1 mem1 where s: "str_map_set seen x 1 mem = (True, seen1, mem1)" "no_oom mem1"
      using sm.put_no_oom [OF Cons.prems] by blast
    then have "sm_inv seen1" using sm.put_ok [OF Cons.prems(1)] by blast
    then show ?thesis using Cons.IH [of seen1 mem1 "merged @ [x]"] None s by simp
  qed (use Cons in simp)
qed simp

lemma merge_tasks_no_oom:
  assumes "sm_inv seen" and "no_oom mem"
  shows "\<exists>seen' merged' mem'. merge_tasks ts seen merged mem = (True, seen', merged', mem')"
  using assms
proof (induction ts arbitrary: seen merged mem)
  case (Cons t ts)
  obtain seen1 merged1 mem1 where "merge_names (task_order t) seen merged mem = (True, seen1, merged1, mem1)"
    "sm_inv seen1" "no_oom mem1" using merge_names_no_oom [OF Cons.prems] by blast
  then show ?case using Cons.IH [of seen1 mem1 merged1] by simp
qed simp

subsection \<open>Several roots\<close>

lemma topo_sorted_concat: "\<forall>xs \<in> set xss. topo_sorted E xs \<Longrightarrow> topo_sorted E (concat xss)"
  by (induction xss) (auto simp: topo_sorted_append)

text \<open>The nodes the requested names resolve to.\<close>

definition roots_of :: "dep_graph \<Rightarrow> pstr list \<Rightarrow> nat set" where
  "roots_of g names = {r. \<exists>name. Some name \<in> set names \<and> dep_graph_lookup g name = Some r}"

definition install_plan :: "dep_graph \<Rightarrow> nat set \<Rightarrow> string list \<Rightarrow> bool" where
  "install_plan g R names \<longleftrightarrow>
     distinct names \<and> set names = name_of g ` ((dep_edges g)\<^sup>* `` R) \<and> topo_sorted (name_edges g) names \<and>
     (\<forall>r \<in> R. resolvable g r)"

lemma install_order_plan: "install_order g r names \<Longrightarrow> resolvable g r \<Longrightarrow> install_plan g {r} names"
  by (simp add: install_order_def install_plan_def)

lemma dep_graph_resolve_Some:
  assumes "g_inv g" "deps_named g" and "dep_graph_resolve g name mem = Some (Inr order)"
  shows "\<exists>n r. name = Some n \<and> dep_graph_lookup g n = Some r \<and> install_order g r order \<and> resolvable g r"
proof (cases name)
  case (Some n)
  show ?thesis
  proof (cases "dep_graph_lookup g n")
    case (Some r)
    show ?thesis
      using dep_graph_resolve_cases [OF assms(1,2) Some, of mem] assms(3) \<open>name = Some n\<close> Some by fastforce
  qed (use assms(3) Some in \<open>simp add: dep_graph_resolve_def\<close>)
qed (use assms(3) in \<open>simp add: dep_graph_resolve_def\<close>)

lemma dep_graph_resolve_not_OK:
  assumes "g_inv g" "deps_named g"
  shows "\<exists>t. dep_graph_resolve g name mem = Some t \<and> t \<noteq> Inl DEP_OK"
proof (cases name)
  case (Some n)
  show ?thesis
  proof (cases "dep_graph_lookup g n")
    case (Some r)
    show ?thesis
      using dep_graph_resolve_cases [OF assms(1,2) Some, of mem] \<open>name = Some n\<close>
      by (fastforce simp: failure_reason_def)
  qed (use Some in \<open>simp add: dep_graph_resolve_def\<close>)
qed (simp add: dep_graph_resolve_def)

lemma resolve_tasks_total:
  assumes "g_inv g" "deps_named g"
  shows "\<exists>ts. resolve_tasks g names mems i = Some ts"
proof (induction names arbitrary: i)
  case (Cons name names)
  obtain t ts where "dep_graph_resolve g name (mems i) = Some t" "resolve_tasks g names mems (Suc i) = Some ts"
    using dep_graph_resolve_not_OK [OF assms, of name "mems i"] Cons by blast
  then show ?case by simp
qed simp

lemma roots_of_Cons: "dep_graph_lookup g n = Some r \<Longrightarrow> roots_of g (Some n # names) = insert r (roots_of g names)"
  by (auto simp: roots_of_def)

text \<open>When no task failed, the orders of the tasks together are a plan, duplicates aside.\<close>

lemma resolve_tasks_plan:
  assumes g: "g_inv g" "deps_named g" and "resolve_tasks g names mems i = Some ts" and "first_err ts = DEP_OK"
  shows "topo_sorted (name_edges g) (concat (map task_order ts)) \<and>
    set (concat (map task_order ts)) = name_of g ` ((dep_edges g)\<^sup>* `` roots_of g names) \<and>
    (\<forall>name \<in> set names. \<exists>n r. name = Some n \<and> dep_graph_lookup g n = Some r \<and> resolvable g r)"
  using assms(3,4)
proof (induction names arbitrary: i ts)
  case Nil
  then show ?case by (simp add: roots_of_def)
next
  case (Cons name names)
  then obtain t ts' where t: "dep_graph_resolve g name (mems i) = Some t" "ts = t # ts'"
    "resolve_tasks g names mems (Suc i) = Some ts'" by (auto split: bind_splits)
  obtain order where order: "t = Inr order"
    using dep_graph_resolve_not_OK [OF g, of name "mems i"] t(1,2) Cons.prems(2) by (cases t) auto
  obtain n r where r: "name = Some n" "dep_graph_lookup g n = Some r" "install_order g r order" "resolvable g r"
    using dep_graph_resolve_Some [OF g] t(1) order by blast
  have ih: "topo_sorted (name_edges g) (concat (map task_order ts'))"
    "set (concat (map task_order ts')) = name_of g ` ((dep_edges g)\<^sup>* `` roots_of g names)"
    "\<forall>name \<in> set names. \<exists>n r. name = Some n \<and> dep_graph_lookup g n = Some r \<and> resolvable g r"
    using Cons.IH [OF t(3)] Cons.prems(2) t(2) order by simp_all
  have "set (concat (map task_order ts)) =
      name_of g ` ((dep_edges g)\<^sup>* `` {r}) \<union> name_of g ` ((dep_edges g)\<^sup>* `` roots_of g names)"
    using ih(2) r(3) t(2) order by (simp add: install_order_def)
  also have "\<dots> = name_of g ` ((dep_edges g)\<^sup>* `` roots_of g (name # names))"
    using roots_of_Cons [OF r(2)] r(1) by auto
  finally show ?case
    using ih(1,3) r t(2) order by (simp add: topo_sorted_append install_order_def)
qed

lemma resolve_tasks_first_err:
  assumes g: "g_inv g" "deps_named g" and "resolve_tasks g names mems i = Some ts" and "first_err ts \<noteq> DEP_OK"
  shows "\<exists>k < length names. dep_graph_resolve g (names ! k) (mems (i + k)) = Some (Inl (first_err ts)) \<and>
           (\<forall>j < k. \<exists>order. dep_graph_resolve g (names ! j) (mems (i + j)) = Some (Inr order))"
  using assms(3,4)
proof (induction names arbitrary: i ts)
  case (Cons name names)
  then obtain t ts' where t: "dep_graph_resolve g name (mems i) = Some t" "ts = t # ts'"
    "resolve_tasks g names mems (Suc i) = Some ts'" by (auto split: bind_splits)
  show ?case
  proof (cases t)
    case (Inl e)
    then show ?thesis using t by (intro exI [of _ 0]) simp
  next
    case (Inr order)
    then obtain k where "k < length names" "dep_graph_resolve g (names ! k) (mems (Suc i + k)) = Some (Inl (first_err ts))"
      "\<forall>j < k. \<exists>order. dep_graph_resolve g (names ! j) (mems (Suc i + j)) = Some (Inr order)"
      using Cons.IH [OF t(3)] Cons.prems(2) t(2) by auto
    then show ?thesis using Inr t by (intro exI [of _ "Suc k"]) (auto simp: less_Suc_eq_0_disj)
  qed
qed simp

subsection \<open>Cycle detection\<close>

lemma has_cycle_loop_correct:
  assumes g: "g_inv g" "deps_named g" and clean: "\<forall>i < length (g_nodes g). \<not> dep_missing g i \<and> \<not> dep_unmet g i"
    and "ctx_inv g ctx" and "stack ctx = {}" and "set is \<union> set (ctx_order ctx) = {..<length (g_nodes g)}"
  shows "has_cycle_loop g is ctx = Some (\<exists>v. (v, v) \<in> (dep_edges g)\<^sup>+)"
  using assms(4-)
proof (induction "is" arbitrary: ctx)
  case Nil
  have "(v, v) \<notin> (dep_edges g)\<^sup>+" for v
  proof
    assume c: "(v, v) \<in> (dep_edges g)\<^sup>+"
    then have "v < length (g_nodes g)" using dep_edges_range [OF g(1)] by (meson tranclD)
    then show False
      using topo_sorted_acyclic [of "dep_edges g" "ctx_order ctx" v] Nil c by (simp add: ctx_inv_def)
  qed
  then show ?case by simp
next
  case (Cons i "is")
  have i: "i < length (g_nodes g)" "i < length (ctx_state ctx)" using Cons.prems by (auto simp: ctx_inv_def)
  show ?case
  proof (cases "ctx_state ctx ! i = STATE_UNVISITED")
    case False
    then have "i \<in> set (ctx_order ctx)"
      using Cons.prems(1,2) i by (cases "ctx_state ctx ! i") (auto simp: ctx_inv_def stack_def)
    then have "insert i (set is \<union> set (ctx_order ctx)) = set is \<union> set (ctx_order ctx)" by (intro insert_absorb) simp
    then have "set is \<union> set (ctx_order ctx) = {..<length (g_nodes g)}" using Cons.prems(3) by simp
    then show ?thesis using Cons.IH [OF Cons.prems(1,2)] False i by simp
  next
    case True
    have "card (unvisited ctx) \<le> card {..<length (g_nodes g)}"
      using Cons.prems(1) by (intro card_mono) (auto simp: unvisited_def ctx_inv_def)
    then have fuel: "card (unvisited ctx) < length (g_nodes g) + 1" by simp
    have st: "stack ctx \<times> {i} \<subseteq> (dep_edges g)\<^sup>+" using Cons.prems(2) by simp
    obtain err ctx1 where d: "dfs (length (g_nodes g) + 1) g i ctx = Some (err, ctx1)"
      using dfs_total [OF g Cons.prems(1) i(1) st fuel] by auto
    have eff: "dfs_run g i ctx err ctx1" "err = DEP_OK \<longrightarrow> i \<in> set (ctx_order ctx1)"
      using dfs_effect [OF g(1)] Cons.prems(1) i(1) st d unfolding dfs_spec_def by blast+
    have reach: "(i, v) \<in> (dep_edges g)\<^sup>* \<Longrightarrow> \<not> dep_missing g v \<and> \<not> dep_unmet g v" for v
      using clean reach_range [OF g(1) i(1)] by blast
    show ?thesis
    proof (cases "err = DEP_OK")
      case ok: True
      have "stack ctx1 = {}" "ctx_inv g ctx1" using eff(1) Cons.prems(2) ok by (simp_all add: dfs_run_def)
      moreover have "set is \<union> set (ctx_order ctx1) = {..<length (g_nodes g)}"
        using Cons.prems(3) eff ok calculation(2) by (auto simp: dfs_run_def ctx_inv_def)
      ultimately show ?thesis using Cons.IH True i d ok by (simp del: dfs.simps)
    next
      case False
      then have "err = DEP_ERR_CYCLE" "\<exists>v. (v, v) \<in> (dep_edges g)\<^sup>+"
        using eff(1) reach by (auto simp: dfs_run_def)
      then show ?thesis using True i d by (simp del: dfs.simps)
    qed
  qed
qed


subsection \<open>Properties\<close>


definition demo_pool :: "package_metadata list" where
  "demo_pool = [demo_pkg ''app'' ''1'' [any_version ''lib''], demo_pkg ''lib'' ''1.2'' []]"

lemma demo_pool_plain: "plain_pool demo_pool"
  by (simp add: demo_pool_def plain_pool_def demo_pkg_def strings_ok_def zero_metadata_def any_version_def)

lemma demo_pool_inv: "g_inv (demo_graph demo_pool)" "deps_named (demo_graph demo_pool)"
  using demo_graph_effect [OF demo_pool_plain]
  by (simp_all add: deps_named_def demo_pool_def demo_pkg_def any_version_def zero_metadata_def node_of_def)

lemma demo_pool_lookup:
  "dep_graph_lookup (demo_graph demo_pool) name = (if name = ''app'' then Some 0 else if name = ''lib'' then Some 1 else None)"
  using demo_graph_lookup [OF demo_pool_plain, of name] by (auto simp: demo_pool_def demo_pkg_def zero_metadata_def)

lemma demo_pool_deps: "node_deps (demo_graph demo_pool) 0 = [any_version ''lib'']"
  "node_deps (demo_graph demo_pool) (Suc 0) = []" "length (g_nodes (demo_graph demo_pool)) = 2"
  using demo_graph_nth [OF demo_pool_plain, of 0] demo_graph_nth [OF demo_pool_plain, of 1] demo_pool_plain
  by (simp_all add: node_deps_def) (simp_all add: demo_pool_def demo_pkg_def)

lemma demo_pool_edges: "dep_edges (demo_graph demo_pool) = {(0, 1)}"
  by (auto simp: dep_edges_def demo_pool_deps numeral_2_eq_2 less_Suc_eq dep_target_def demo_pool_lookup any_version_def)

lemma demo_pool_clean:
  "i < length (g_nodes (demo_graph demo_pool)) \<Longrightarrow>
     \<not> dep_missing (demo_graph demo_pool) i \<and> \<not> dep_unmet (demo_graph demo_pool) i"
  by (auto simp: demo_pool_deps numeral_2_eq_2 less_Suc_eq dep_missing_def dep_unmet_def dep_target_def
      demo_pool_lookup any_version_def constraint_met_def)

lemma demo_pool_trancl: "(dep_edges (demo_graph demo_pool))\<^sup>+ = {(0, 1)}"
  unfolding demo_pool_edges by (simp add: trancl_insert2)

lemma demo_pool_resolvable: "resolvable (demo_graph demo_pool) 0"
proof -
  have "v < 2" if "(0, v) \<in> (dep_edges (demo_graph demo_pool))\<^sup>*" for v
    using reach_range [OF demo_pool_inv(1) _ that] demo_pool_deps(3) by simp
  then show ?thesis
    unfolding resolvable_def demo_pool_trancl using demo_pool_clean demo_pool_deps(3) by auto
qed


text \<open>
  C7. Completeness: with memory available, an order is returned exactly when the name resolves
  and nothing in its dependency closure is missing, has the wrong version or lies on a cycle;
  otherwise the error code names a defect that is really there.
\<close>

theorem dep_graph_resolve_complete:
  assumes "g_inv g" and "deps_named g" and "no_oom mem" and "dep_graph_lookup g name = Some root"
  shows "if resolvable g root then \<exists>names. dep_graph_resolve g (Some name) mem = Some (Inr names)
    else \<exists>err. dep_graph_resolve g (Some name) mem = Some (Inl err) \<and> failure_reason g root err"
  using dep_graph_resolve_cases [OF assms(1,2,4), of mem] assms(3) failure_reason_not_resolvable
  by metis

theorem dep_graph_resolve_complete_witness:
  "\<exists>names. dep_graph_resolve (demo_graph demo_pool) (Some ''app'') [True] = Some (Inr names)"
  using dep_graph_resolve_complete [OF demo_pool_inv, of "[True]" "''app''" 0] demo_pool_lookup demo_pool_resolvable
  by simp

lemma resolve_parallel_plan:
  assumes "g_inv g" and "deps_named g"
    and "dep_graph_resolve_parallel g names mem mems mem_merge = Some (Inr order)"
  shows "distinct order \<and> set order = name_of g ` ((dep_edges g)\<^sup>* `` roots_of g names) \<and>
    topo_sorted (name_edges g) order \<and>
    (\<forall>name \<in> set names. \<exists>n r. name = Some n \<and> dep_graph_lookup g n = Some r \<and> resolvable g r)"
proof -
  consider "names = []" | name where "names = [name]" | n1 n2 ns where "names = n1 # n2 # ns"
    by (metis list.exhaust)
  then show ?thesis
  proof cases
    case 1
    then show ?thesis using assms(3) by (simp add: dep_graph_resolve_parallel_def roots_of_def)
  next
    case (2 name)
    then have "dep_graph_resolve g name (mems 0) = Some (Inr order)"
      using assms(3) by (simp add: dep_graph_resolve_parallel_def)
    then obtain n r where r: "name = Some n" "dep_graph_lookup g n = Some r" "install_order g r order" "resolvable g r"
      using dep_graph_resolve_Some [OF assms(1,2)] by blast
    moreover have "roots_of g names = {r}" using 2 r by (auto simp: roots_of_def)
    ultimately show ?thesis using 2 by (simp add: install_order_def)
  next
    case 3
    obtain ts where ts: "resolve_tasks g names mems 0 = Some ts" using resolve_tasks_total [OF assms(1,2)] by blast
    obtain mem3 ok seen mem4 where init: "str_map_init str_map_zero mem3 = (ok, seen, mem4)"
      and "malloc_ok mem_merge = (True, mem3)" "first_err ts = DEP_OK" "ok"
      and m: "\<exists>seen' mem'. merge_tasks ts seen [] mem4 = (True, seen', order, mem')"
      using assms(3) 3 ts by (auto simp: dep_graph_resolve_parallel_def Let_def split: prod.splits if_splits)
    then have "sm_inv seen" "str_map_get seen = Map.empty" using str_map_init_ok [of str_map_zero mem3] by simp_all
    then have "order = first_occs (concat (map task_order ts))"
      using merge_tasks_effect [of seen "[]" ts mem4] m by fastforce
    then show ?thesis
      using resolve_tasks_plan [OF assms(1,2) ts \<open>first_err ts = DEP_OK\<close>]
      by (simp add: topo_sorted_first_occs del: set_concat set_map)
  qed
qed

text \<open>
  C28. Several roots, resolved by concurrent workers under any schedule and any allocation
  failures: when an order is returned, every requested name resolves, and the order is one
  installation plan for all of them: no duplicates, exactly the union of the dependency
  closures, each package after all its dependencies.
\<close>

theorem dep_graph_resolve_parallel_sound:
  assumes "g_inv g" and "deps_named g"
    and "dep_graph_resolve_parallel g names mem mems mem_merge = Some (Inr order)"
  shows "distinct order \<and> set order = name_of g ` ((dep_edges g)\<^sup>* `` roots_of g names) \<and>
    topo_sorted (name_edges g) order \<and>
    (\<forall>name \<in> set names. \<exists>n r. name = Some n \<and> dep_graph_lookup g n = Some r \<and> resolvable g r)"
  by (rule resolve_parallel_plan [OF assms])

theorem dep_graph_resolve_parallel_sound_witness:
  "\<exists>order. dep_graph_resolve_parallel (demo_graph demo_pool) [Some ''app''] [] (\<lambda>_. []) [] = Some (Inr order) \<and>
     distinct order"
proof -
  obtain order where "dep_graph_resolve (demo_graph demo_pool) (Some ''app'') [] = Some (Inr order)"
    using dep_graph_resolve_cases [OF demo_pool_inv, of "''app''" 0 "[]"] demo_pool_lookup [of "''app''"]
      demo_pool_resolvable failure_reason_not_resolvable no_oom_Nil by metis
  then have "dep_graph_resolve_parallel (demo_graph demo_pool) [Some ''app''] [] (\<lambda>_. []) [] = Some (Inr order)"
    by (simp add: dep_graph_resolve_parallel_def)
  then show ?thesis using dep_graph_resolve_parallel_sound [OF demo_pool_inv] by blast
qed

text \<open>
  The parallel form fails only when one of its roots does: with memory available it returns
  an order when every requested name can be resolved, and otherwise the error of the first
  request, in argument order, that fails on its own.
\<close>

theorem dep_graph_resolve_parallel_complete:
  assumes g: "g_inv g" "deps_named g" and mem: "no_oom mem" "no_oom mem_merge"
  shows "(\<exists>order. dep_graph_resolve_parallel g names mem mems mem_merge = Some (Inr order)) \<or>
    (\<exists>k < length names. \<exists>err.
       dep_graph_resolve_parallel g names mem mems mem_merge = Some (Inl err) \<and>
       dep_graph_resolve g (names ! k) (mems k) = Some (Inl err) \<and>
       (\<forall>j < k. \<exists>order. dep_graph_resolve g (names ! j) (mems j) = Some (Inr order)))"
proof -
  consider "names = []" | name where "names = [name]" | n1 n2 ns where "names = n1 # n2 # ns"
    by (metis list.exhaust)
  then show ?thesis
  proof cases
    case 1
    then show ?thesis by (simp add: dep_graph_resolve_parallel_def)
  next
    case (2 name)
    then show ?thesis
      using dep_graph_resolve_not_OK [OF g, of name "mems 0"]
      by (auto simp: dep_graph_resolve_parallel_def) (metis sum.exhaust)
  next
    case 3
    obtain ts where ts: "resolve_tasks g names mems 0 = Some ts" using resolve_tasks_total [OF g] by blast
    have unf: "dep_graph_resolve_parallel g names mem mems mem_merge =
      (if first_err ts \<noteq> DEP_OK then Some (Inl (first_err ts))
       else let (ok, mem3) = malloc_ok mem_merge in
             if \<not> ok then Some (Inl DEP_ERR_NOMEM)
             else let (ok, seen, mem4) = str_map_init str_map_zero mem3 in
             if \<not> ok then Some (Inl DEP_ERR_NOMEM)
             else let (ok, seen', merged, mem5) = merge_tasks ts seen [] mem4 in
             Some (if ok then Inr merged else Inl DEP_ERR_NOMEM))"
      using 3 ts mem(1) by (simp add: dep_graph_resolve_parallel_def Let_def split_beta del: resolve_tasks.simps)
    show ?thesis
    proof (cases "first_err ts = DEP_OK")
      case False
      then show ?thesis using resolve_tasks_first_err [OF g ts] unf by auto
    next
      case True
      obtain mem3 where m3: "malloc_ok mem_merge = (True, mem3)" "no_oom mem3"
        using mem(2) by (rule malloc_no_oomE)
      obtain mem4 where "malloc_ok mem3 = (True, mem4)" "no_oom mem4" using m3(2) by (rule malloc_no_oomE)
      then obtain seen where m4: "str_map_init str_map_zero mem3 = (True, seen, mem4)" "no_oom mem4"
        by (simp add: str_map_init_def)
      obtain s mg m where "merge_tasks ts seen [] mem4 = (True, s, mg, m)"
        using merge_tasks_no_oom [OF _ m4(2)] str_map_init_ok [OF m4(1)] by blast
      then show ?thesis using unf True m3 m4 by simp
    qed
  qed
qed

theorem dep_graph_resolve_parallel_complete_witness:
  "(\<exists>order. dep_graph_resolve_parallel (demo_graph demo_pool) [Some ''app'', Some ''x''] [] (\<lambda>_. []) [] = Some (Inr order)) \<or>
   (\<exists>err. dep_graph_resolve_parallel (demo_graph demo_pool) [Some ''app'', Some ''x''] [] (\<lambda>_. []) [] = Some (Inl err))"
  using dep_graph_resolve_parallel_complete [OF demo_pool_inv no_oom_Nil no_oom_Nil,
      of "[Some ''app'', Some ''x'']" "\<lambda>_. []"] by blast

text \<open>
  C29. On a graph where every constraint is met, \<open>dep_graph_has_cycle\<close> is exact: it answers true
  exactly when some package depends on itself.
\<close>

theorem dep_graph_has_cycle_correct:
  assumes "g_inv g" and "deps_named g" and "no_oom mem"
    and "\<forall>i < length (g_nodes g). \<not> dep_missing g i \<and> \<not> dep_unmet g i"
  shows "dep_graph_has_cycle g mem = Some (\<exists>v. (v, v) \<in> (dep_edges g)\<^sup>+)"
proof (cases "g_nodes g = []")
  case True
  then have "dep_edges g = {}" by (simp add: dep_edges_def)
  then show ?thesis using True by (simp add: dep_graph_has_cycle_def)
next
  case False
  have "set [0..<length (g_nodes g)] \<union> set (ctx_order (fresh_ctx g)) = {..<length (g_nodes g)}" by auto
  from has_cycle_loop_correct [OF assms(1,2,4) fresh_ctx_inv(1,2) this] show ?thesis
    using False assms(3) by (simp add: dep_graph_has_cycle_def Let_def split_beta)
qed

theorem dep_graph_has_cycle_correct_witness:
  "dep_graph_has_cycle (demo_graph demo_pool) [] = Some False"
  using dep_graph_has_cycle_correct [OF demo_pool_inv no_oom_Nil] demo_pool_clean by (simp add: demo_pool_trancl)

definition broken_pool :: "package_metadata list" where
  "broken_pool = [demo_pkg ''a'' ''1'' [any_version ''ghost''], demo_pkg ''b'' ''1'' [any_version ''a'']]"

lemma broken_pool_plain: "plain_pool broken_pool"
  by (simp add: broken_pool_def plain_pool_def demo_pkg_def strings_ok_def zero_metadata_def any_version_def)

lemma broken_pool_lookup:
  "dep_graph_lookup (demo_graph broken_pool) name = (if name = ''a'' then Some 0 else if name = ''b'' then Some 1 else None)"
  using demo_graph_lookup [OF broken_pool_plain, of name] by (auto simp: broken_pool_def demo_pkg_def zero_metadata_def)

lemma broken_pool_deps:
  "meta_dependencies (node_pkg (g_nodes (demo_graph broken_pool) ! 0)) = [any_version ''ghost'']"
  "meta_dependencies (node_pkg (g_nodes (demo_graph broken_pool) ! Suc 0)) = [any_version ''a'']"
  "length (g_nodes (demo_graph broken_pool)) = 2"
  using demo_graph_nth [OF broken_pool_plain, of 0] demo_graph_nth [OF broken_pool_plain, of 1] broken_pool_plain
  by simp_all (simp_all add: broken_pool_def demo_pkg_def)

text \<open>
  Without that precondition it is not: a search that stops on a missing dependency leaves
  its nodes marked as being visited, and the next search that meets one of them reports a
  cycle.  Package \<open>a\<close> needs a package that is not in the pool, \<open>b\<close> needs \<open>a\<close>: no package
  depends on itself, and the answer is true.
\<close>

theorem dep_graph_has_cycle_false_alarm:
  "g_inv (demo_graph broken_pool) \<and> deps_named (demo_graph broken_pool) \<and>
   (\<forall>v. (v, v) \<notin> (dep_edges (demo_graph broken_pool))\<^sup>+) \<and>
   dep_graph_has_cycle (demo_graph broken_pool) [] = Some True"
proof (intro conjI)
  note eff = demo_graph_effect [OF broken_pool_plain]
  show "g_inv (demo_graph broken_pool)" using eff by simp
  show "deps_named (demo_graph broken_pool)"
    using eff by (simp add: deps_named_def broken_pool_def demo_pkg_def any_version_def zero_metadata_def node_of_def)
  have "dep_edges (demo_graph broken_pool) = {(1, 0)}"
    by (auto simp: dep_edges_def node_deps_def broken_pool_deps numeral_2_eq_2 less_Suc_eq dep_target_def
        broken_pool_lookup any_version_def)
  then show "\<forall>v. (v, v) \<notin> (dep_edges (demo_graph broken_pool))\<^sup>+" by (simp add: trancl_insert2)
  have "g_nodes (demo_graph broken_pool) \<noteq> []" using broken_pool_deps(3) by auto
  then show "dep_graph_has_cycle (demo_graph broken_pool) [] = Some True"
    by (simp add: dep_graph_has_cycle_def broken_pool_deps fresh_ctx_def upt_rec numeral_2_eq_2 set_state_def
        any_version_def broken_pool_lookup constraint_met_def)
qed

end
