(* ===== verification/Util.thy ===== *)
theory Util
  imports CString
begin

text \<open>
  Path strings of \<open>src/util.c\<close>: \<open>concat\<close> and \<open>concat_dirs\<close>, byte by byte on the buffers
  the code writes.  A buffer is the list of its bytes, freshly allocated ones hold an
  arbitrary byte, and every access is checked against the size that was allocated, so that
  the equations \<open>concat_str_eq\<close> and \<open>concat_dirs_eq\<close> include that no write leaves the
  buffer.  The other components use these equations and the algebra of \<open>squeeze\<close> only.
\<close>

definition NUL :: char where "NUL = CHR 0x00"

definition slash :: char where "slash = CHR ''/''"

definition fresh_buf :: "nat \<Rightarrow> char list" where
  "fresh_buf n = replicate n (CHR 0xAA)"

text \<open>A buffer read as a string: everything before the first NUL, which has to exist.\<close>

definition c_str :: "char list \<Rightarrow> string option" where
  "c_str buf = (if NUL \<in> set buf then Some (takeWhile (\<lambda>c. c \<noteq> NUL) buf) else None)"

text \<open>Bytes of known length seen through a \<open>char *\<close>: they end at the first NUL.\<close>

definition as_cstr :: "string \<Rightarrow> string" where
  "as_cstr s = takeWhile (\<lambda>c. c \<noteq> NUL) s"

text \<open>A copying loop: the bytes of the string to consecutive positions from \<open>i\<close> on.\<close>

fun copy_at :: "char list \<Rightarrow> nat \<Rightarrow> string \<Rightarrow> char list option" where
  "copy_at buf i [] = Some buf"
| "copy_at buf i (c # cs) = do { buf' \<leftarrow> arr_set buf i c; copy_at buf' (Suc i) cs }"

definition concat_buf :: "string \<Rightarrow> string \<Rightarrow> mem \<Rightarrow> (char list option \<times> mem) option" where
  "concat_buf str1 str2 mem =
     (let len1 = length str1; len2 = length str2; (ok, mem1) = malloc_ok mem in
      if \<not> ok then Some (None, mem1)
      else do {
        result \<leftarrow> copy_at (fresh_buf (len1 + len2 + 1)) 0 str1;
        result \<leftarrow> copy_at result len1 str2;
        result \<leftarrow> arr_set result (len1 + len2) NUL;
        Some (Some result, mem1)
      })"

definition concat_str :: "string \<Rightarrow> string \<Rightarrow> mem \<Rightarrow> (pstr \<times> mem) option" where
  "concat_str str1 str2 mem =
     do {
       (buf, mem1) \<leftarrow> concat_buf str1 str2 mem;
       case buf of None \<Rightarrow> Some (None, mem1) | Some b \<Rightarrow> do { s \<leftarrow> c_str b; Some (Some s, mem1) }
     }"

text \<open>The inner loop of \<open>concat_dirs\<close>: the first position from \<open>i\<close> on that is no slash.\<close>

function skip_slashes :: "char list \<Rightarrow> nat \<Rightarrow> nat option" where
  "skip_slashes buf i =
     (if i < length buf then (if buf ! i = slash then skip_slashes buf (Suc i) else Some i) else None)"
  by pat_completeness auto
termination by (relation "measure (\<lambda>(buf, i). length buf - i)") auto

declare skip_slashes.simps [simp del]

lemma skip_slashes_ge: "skip_slashes buf i = Some k \<Longrightarrow> i \<le> k"
proof (induction buf i rule: skip_slashes.induct)
  case (1 buf i)
  from "1.prems" have "skip_slashes buf (Suc i) = Some k \<or> k = i"
    and "i < length buf" and "skip_slashes buf (Suc i) = Some k \<longrightarrow> k = i \<or> buf ! i = slash"
    by (subst (asm) skip_slashes.simps, auto split: if_splits)+
  with "1.IH" show ?case by fastforce
qed

lemma skip_slashes_gt: "buf ! i = slash \<Longrightarrow> skip_slashes buf i = Some k \<Longrightarrow> i < k"
  using skip_slashes_ge [of buf "Suc i" k]
  by (subst (asm) skip_slashes.simps) (auto split: if_splits)

text \<open>
  The outer loop: \<open>i\<close> reads, \<open>j\<close> writes.  The byte at \<open>i\<close> is read again after the write,
  as the code does.
\<close>

function squeeze_loop :: "char list \<Rightarrow> nat \<Rightarrow> nat \<Rightarrow> (char list \<times> nat) option" where
  "squeeze_loop buf i j =
     do {
       c \<leftarrow> arr_get buf i;
       if c = NUL then Some (buf, j)
       else do {
         buf' \<leftarrow> arr_set buf j c;
         if buf' ! i = slash
         then (case skip_slashes buf' i of
                 None \<Rightarrow> None
               | Some i' \<Rightarrow> squeeze_loop buf' i' (Suc j))
         else squeeze_loop buf' (Suc i) (Suc j)
       }
     }"
  by pat_completeness auto
termination
proof (relation "measure (\<lambda>(buf, i, j). length buf - i)", goal_cases)
  case (2 buf i j c buf' i')
  then have "i < length buf" "length buf' = length buf" by auto
  moreover have "i < i'" using skip_slashes_gt 2 by blast
  ultimately show ?case by simp
next
  case (3 buf i j c buf')
  then show ?case by auto
qed simp

declare squeeze_loop.simps [simp del]

definition concat_dirs :: "string \<Rightarrow> string \<Rightarrow> mem \<Rightarrow> (pstr \<times> mem) option" where
  "concat_dirs path1 path2 mem =
     do {
       (with_sep, mem1) \<leftarrow> concat_str path1 [slash] mem;
       case with_sep of
         None \<Rightarrow> Some (None, mem1)
       | Some ws \<Rightarrow> do {
           (result, mem2) \<leftarrow> concat_buf ws path2 mem1;
           case result of
             None \<Rightarrow> Some (None, mem2)
           | Some buf \<Rightarrow> do {
               (buf, j) \<leftarrow> squeeze_loop buf 0 0;
               buf \<leftarrow> arr_set buf j NUL;
               s \<leftarrow> c_str buf;
               Some (Some s, mem2)
             }
         }
     }"

subsection \<open>Specification: runs of slashes become one\<close>

fun squeeze :: "string \<Rightarrow> string" where
  "squeeze (a # b # cs) = (if a = slash \<and> b = slash then squeeze (b # cs) else a # squeeze (b # cs))"
| "squeeze s = s"

definition join :: "string \<Rightarrow> string \<Rightarrow> string" where
  "join p q = squeeze (p @ [slash] @ q)"

text \<open>What the loops leave: no two slashes in a row.\<close>

fun no_double :: "string \<Rightarrow> bool" where
  "no_double (a # b # cs) \<longleftrightarrow> \<not> (a = slash \<and> b = slash) \<and> no_double (b # cs)"
| "no_double _ \<longleftrightarrow> True"

lemma squeeze_Cons: "\<exists>t. squeeze (c # cs) = c # t"
proof (induction cs arbitrary: c)
  case (Cons d cs)
  then show ?case by (cases "c = slash \<and> d = slash") (use Cons [of d] in auto)
qed simp

lemma squeeze_Other: "c \<noteq> slash \<Longrightarrow> squeeze (c # cs) = c # squeeze cs"
  by (cases cs) auto

lemma squeeze_Slash: "squeeze (slash # cs) = slash # squeeze (dropWhile (\<lambda>x. x = slash) cs)"
proof (induction cs)
  case (Cons c cs)
  then show ?case by (cases "c = slash") auto
qed simp

lemma no_double_squeeze: "no_double (squeeze s)"
proof (induction s rule: squeeze.induct)
  case (1 a b cs)
  then show ?case using squeeze_Cons [of b cs] by auto
qed auto

lemma squeeze_id: "no_double s \<Longrightarrow> squeeze s = s"
  by (induction s rule: no_double.induct) auto

lemma squeeze_idem [simp]: "squeeze (squeeze s) = squeeze s"
  by (rule squeeze_id [OF no_double_squeeze])

lemma squeeze_append_left: "squeeze (squeeze a @ b) = squeeze (a @ b)"
proof (induction a rule: squeeze.induct)
  case (1 x y cs)
  then show ?case using squeeze_Cons [of y cs] by auto
qed auto

lemma squeeze_append_right: "squeeze (a @ squeeze b) = squeeze (a @ b)"
proof (induction a rule: squeeze.induct, goal_cases)
  case (3 x)
  show ?case
  proof (cases b)
    case (Cons y ys)
    obtain t where t: "squeeze (y # ys) = y # t" using squeeze_Cons by blast
    then have "squeeze (y # t) = squeeze (y # ys)" using squeeze_idem [of "y # ys"] by simp
    then show ?thesis using Cons t by auto
  qed simp
qed auto

lemma join_assoc: "join (join a b) c = join a (join b c)"
proof -
  have "join (join a b) c = squeeze ((a @ slash # b) @ slash # c)"
    using squeeze_append_left [of "a @ slash # b" "slash # c"] by (simp add: join_def)
  moreover have "join a (join b c) = squeeze (a @ slash # (b @ slash # c))"
    using squeeze_append_right [of "a @ [slash]" "b @ slash # c"] by (simp add: join_def)
  ultimately show ?thesis by simp
qed

lemma set_squeeze: "set (squeeze s) \<subseteq> set s"
  by (induction s rule: squeeze.induct) auto

lemma cstring_join: "cstring p \<Longrightarrow> cstring q \<Longrightarrow> cstring (join p q)"
  using set_squeeze [of "p @ slash # q"] by (auto simp: join_def cstring_def slash_def)

subsection \<open>The loops meet the specification\<close>

lemma NUL_slash [simp]: "NUL \<noteq> slash" "slash \<noteq> NUL"
  by (simp_all add: NUL_def slash_def)

lemma cstring_NUL: "cstring s \<longleftrightarrow> NUL \<notin> set s"
  by (simp add: cstring_def NUL_def)

lemma as_cstr_id [simp]: "cstring s \<Longrightarrow> as_cstr s = s"
  by (auto simp: as_cstr_def cstring_NUL takeWhile_eq_all_conv)

lemma c_str_append [simp]: "cstring s \<Longrightarrow> c_str (s @ NUL # t) = Some s"
  by (auto simp: c_str_def cstring_NUL takeWhile_tail)

lemma copy_at_eq:
  "i + length cs \<le> length buf \<Longrightarrow> copy_at buf i cs = Some (take i buf @ cs @ drop (i + length cs) buf)"
proof (induction cs arbitrary: buf i)
  case (Cons c cs)
  then have "copy_at buf i (c # cs) =
      Some (take (Suc i) (buf[i := c]) @ cs @ drop (Suc i + length cs) (buf[i := c]))" by simp
  moreover have "take (Suc i) (buf[i := c]) = take i buf @ [c]"
    using Cons.prems by (simp add: take_Suc_conv_app_nth)
  ultimately show ?case by simp
qed simp

lemma concat_buf_eq:
  "concat_buf a b mem = Some (if fst (malloc_ok mem) then Some (a @ b @ [NUL]) else None, snd (malloc_ok mem))"
proof -
  have "copy_at (fresh_buf (length a + length b + 1)) 0 a = Some (a @ fresh_buf (length b + 1))"
    by (simp add: copy_at_eq fresh_buf_def drop_replicate del: replicate_Suc)
  moreover have "copy_at (a @ fresh_buf (length b + 1)) (length a) b = Some (a @ b @ fresh_buf 1)"
    by (simp add: copy_at_eq fresh_buf_def drop_replicate del: replicate_Suc)
  ultimately show ?thesis
    by (simp add: concat_buf_def Let_def split_def fresh_buf_def list_update_append)
qed

lemma concat_str_eq:
  "cstring a \<Longrightarrow> cstring b \<Longrightarrow> concat_str a b mem = Some (strdup_m (a @ b) mem)"
  using c_str_append [of "a @ b" "[]"] by (simp add: concat_str_def concat_buf_eq strdup_m_def split_def)

lemma skip_slashes_eq:
  "drop i buf = s @ NUL # t \<Longrightarrow> skip_slashes buf i = Some (i + length (takeWhile (\<lambda>x. x = slash) s))"
proof (induction s arbitrary: i)
  case Nil
  then have "i < length buf" "buf ! i = NUL" by (auto simp: nth_via_drop not_less elim: contrapos_pp)
  then show ?case by (subst skip_slashes.simps) simp
next
  case (Cons c s)
  then have i: "i < length buf" "buf ! i = c" "drop (Suc i) buf = s @ NUL # t"
    by (auto simp: nth_via_drop drop_Suc drop_tl not_less elim: contrapos_pp)
  show ?case using i Cons.IH [OF i(3)] by (subst skip_slashes.simps) simp
qed

lemma squeeze_loop_eq:
  assumes "drop i buf = s @ NUL # t" and "cstring s" and "j \<le> i"
  shows "\<exists>buf'. squeeze_loop buf i j = Some (buf', j + length (squeeze s)) \<and>
    take (j + length (squeeze s)) buf' = take j buf @ squeeze s \<and> j + length (squeeze s) < length buf' "
  using assms
proof (induction s arbitrary: buf i j rule: measure_induct_rule [of length])
  case (less s)
  have i: "i < length buf" using less.prems(1) by (auto simp: not_less elim: contrapos_pp)
  show ?case
  proof (cases s)
    case Nil
    then have "buf ! i = NUL" using less.prems(1) by (simp add: nth_via_drop)
    then show ?thesis using Nil i less.prems(3) by (subst squeeze_loop.simps) simp
  next
    case (Cons c cs)
    have c: "buf ! i = c" "c \<noteq> NUL" using Cons less.prems by (auto simp: nth_via_drop cstring_NUL)
    define buf' where "buf' = buf[j := c]"
    have b: "buf' ! i = c" "j < length buf" "length buf' = length buf" "take (Suc j) buf' = take j buf @ [c]"
      using c i less.prems(3) by (auto simp: buf'_def nth_list_update take_Suc_conv_app_nth)
    have rest: "drop i buf' = c # cs @ NUL # t" "drop (Suc i) buf' = cs @ NUL # t"
    proof -
      have "drop (Suc i) buf' = drop (Suc i) buf" using less.prems(3) by (simp add: buf'_def)
      then show "drop (Suc i) buf' = cs @ NUL # t"
        using less.prems(1) Cons by (metis append_Cons drop_Suc list.sel(3) tl_drop)
      then show "drop i buf' = c # cs @ NUL # t"
        using b i by (metis Cons_nth_drop_Suc)
    qed
    define r where "r = (if c = slash then dropWhile (\<lambda>x. x = slash) cs else cs)"
    define k where "k = (if c = slash then i + Suc (length (takeWhile (\<lambda>x. x = slash) cs)) else Suc i)"
    have sq: "squeeze s = c # squeeze r" using Cons by (simp add: r_def squeeze_Slash squeeze_Other)
    have step: "squeeze_loop buf i j = squeeze_loop buf' k (Suc j)"
    proof (cases "c = slash")
      case True
      have "skip_slashes buf' i = Some k"
        using skip_slashes_eq [of i buf' "c # cs" t] rest True by (simp add: k_def)
      then show ?thesis using True b c i by (subst squeeze_loop.simps) (simp add: buf'_def)
    next
      case False
      then show ?thesis using b c i by (subst squeeze_loop.simps) (simp add: buf'_def k_def)
    qed
    have "drop k buf' = r @ NUL # t"
    proof (cases "c = slash")
      case True
      have "drop k buf' = drop (length (takeWhile (\<lambda>x. x = slash) cs)) (cs @ NUL # t)"
        using rest(2) True by (metis (no_types, lifting) add.commute add_Suc_right add_Suc drop_drop k_def)
      then show ?thesis using True length_takeWhile_le [of "\<lambda>x. x = slash" cs] by (simp add: r_def dropWhile_eq_drop)
    qed (use rest in \<open>simp add: k_def r_def\<close>)
    moreover have "length r < length s" "cstring r" "Suc j \<le> k"
      using Cons less.prems(2,3) length_dropWhile_le [of "\<lambda>x. x = slash" cs] by (auto simp: r_def k_def less_Suc_eq_le)
    ultimately obtain buf2 where buf2: "squeeze_loop buf' k (Suc j) = Some (buf2, Suc j + length (squeeze r))"
      "take (Suc j + length (squeeze r)) buf2 = take (Suc j) buf' @ squeeze r" "Suc j + length (squeeze r) < length buf2"
      using less.IH [of r k buf' "Suc j"] by blast
    then show ?thesis using step sq b(4) by (intro exI [of _ buf2]) simp
  qed
qed

lemma concat_dirs_eq:
  assumes "cstring p" and "cstring q"
  shows "concat_dirs p q mem =
    (let (ok1, mem1) = malloc_ok mem in
     if \<not> ok1 then Some (None, mem1)
     else let (ok2, mem2) = malloc_ok mem1 in Some (if ok2 then Some (join p q) else None, mem2))"
proof -
  have ws: "cstring (p @ [slash])" using assms(1) by (simp add: slash_def)
  have str: "cstring ((p @ [slash]) @ q)" using ws assms(2) by simp
  obtain buf' where b: "squeeze_loop ((p @ [slash]) @ q @ [NUL]) 0 0 = Some (buf', length (join p q))"
    "take (length (join p q)) buf' = join p q" "length (join p q) < length buf'"
    using squeeze_loop_eq [of 0 "(p @ [slash]) @ q @ [NUL]" "(p @ [slash]) @ q" "[]" 0] str by (auto simp: join_def)
  have "buf'[length (join p q) := NUL] = join p q @ NUL # drop (Suc (length (join p q))) buf'"
    using b(2,3) by (metis upd_conv_take_nth_drop)
  then have c: "c_str (buf'[length (join p q) := NUL]) = Some (join p q)"
    using cstring_join [OF assms] by simp
  show ?thesis
    using concat_str_eq [OF assms(1), of "[slash]" mem] b c
    by (auto simp: concat_dirs_def concat_buf_eq strdup_m_def split_def Let_def slash_def [symmetric] cstring_NUL)
qed

subsection \<open>Properties\<close>



end
