(* ===== verification/Dot.thy ===== *)
theory Dot
  imports Resolve Util
begin

text \<open>
  \<open>src/graph/dot.c\<close>: the graph as a text in the DOT language.  The output buffer is the list of
  its allocated bytes; writing behind them is \<open>None\<close>.  Capacities are natural numbers: a
  \<open>size_t\<close> that wraps would need a text of half the address space.  The formats of
  \<open>dot_appendf\<close> are expanded at the calls, so its argument is the formatted text.
\<close>

record dot_buf =
  dot_data :: "char list"
  dot_len :: nat
  dot_cap :: nat

text \<open>The loop that doubles the capacity; it would not end at 0, which never occurs.\<close>

function grow_cap :: "nat \<Rightarrow> nat \<Rightarrow> nat" where
  "grow_cap new_cap need = (if new_cap < need \<and> 0 < new_cap then grow_cap (new_cap * 2) need else new_cap)"
  by pat_completeness auto
termination by (relation "measure (\<lambda>(c, n). n - c)") auto

declare grow_cap.simps [simp del]

definition dot_reserve :: "dot_buf \<Rightarrow> nat \<Rightarrow> mem \<Rightarrow> bool \<times> dot_buf \<times> mem" where
  "dot_reserve buf extra mem =
     (if dot_len buf + extra + 1 \<le> dot_cap buf then (True, buf, mem)
      else
        let new_cap = grow_cap (if dot_cap buf = 0 then 256 else dot_cap buf) (dot_len buf + extra + 1);
            (ok, mem) = malloc_ok mem
        in if \<not> ok then (False, buf, mem)
           else (True, buf\<lparr>dot_data := dot_data buf @ replicate (new_cap - length (dot_data buf)) NUL, dot_cap := new_cap\<rparr>, mem))"

text \<open>\<open>memcpy\<close> of \<open>s\<close> to an offset of the buffer.\<close>

definition put_at :: "char list \<Rightarrow> nat \<Rightarrow> string \<Rightarrow> char list option" where
  "put_at data i s = (if i + length s \<le> length data then Some (take i data @ s @ drop (i + length s) data) else None)"

definition dot_append :: "dot_buf \<Rightarrow> string \<Rightarrow> mem \<Rightarrow> (bool \<times> dot_buf \<times> mem) option" where
  "dot_append buf s mem =
     (let (ok, buf, mem) = dot_reserve buf (length s) mem in
      if \<not> ok then Some (False, buf, mem)
      else do {
        data \<leftarrow> put_at (dot_data buf) (dot_len buf) s;
        data \<leftarrow> arr_set data (dot_len buf + length s) NUL;
        Some (True, buf\<lparr>dot_data := data, dot_len := dot_len buf + length s\<rparr>, mem)
      })"

definition dot_appendf :: "dot_buf \<Rightarrow> string \<Rightarrow> mem \<Rightarrow> (bool \<times> dot_buf \<times> mem) option" where
  "dot_appendf buf s mem =
     (let (ok, buf, mem) = dot_reserve buf (length s) mem in
      if \<not> ok then Some (False, buf, mem)
      else do {
        data \<leftarrow> put_at (dot_data buf) (dot_len buf) (s @ [NUL]);
        Some (True, buf\<lparr>dot_data := data, dot_len := dot_len buf + length s\<rparr>, mem)
      })"

definition dq :: char where "dq = CHR 0x22"
definition backslash :: char where "backslash = CHR 0x5C"
definition nl :: string where "nl = [CHR 0x0A]"

definition special :: "char \<Rightarrow> bool" where
  "special c \<longleftrightarrow> c = dq \<or> c = backslash"

fun esc_loop :: "char list \<Rightarrow> nat \<Rightarrow> string \<Rightarrow> char list option" where
  "esc_loop out k [] = arr_set out k NUL"
| "esc_loop out k (c # cs) =
     do {
       (out, k) \<leftarrow> (if special c then do { out \<leftarrow> arr_set out k backslash; Some (out, Suc k) } else Some (out, k));
       out \<leftarrow> arr_set out k c;
       esc_loop out (Suc k) cs
     }"

definition dot_escape :: "string \<Rightarrow> mem \<Rightarrow> (pstr \<times> mem) option" where
  "dot_escape s mem =
     (let extra = length (filter special s); (ok, mem) = malloc_ok mem in
      if \<not> ok then Some (None, mem)
      else do {
        out \<leftarrow> esc_loop (replicate (length s + extra + 1) NUL) 0 s;
        r \<leftarrow> c_str out;
        Some (Some r, mem)
      })"

definition qt :: "string \<Rightarrow> string" where
  "qt s = dq # s @ [dq]"

text \<open>The lines of the text, from escaped names.\<close>

definition node_line :: "string \<Rightarrow> bool \<Rightarrow> string" where
  "node_line name installed =
     ''    '' @ qt name @ '' [style=filled, fillcolor='' @ qt (if installed then ''lightgreen'' else ''white'') @ ''];'' @ nl"

definition missing_line :: "string \<Rightarrow> string \<Rightarrow> string" where
  "missing_line from to = ''    '' @ qt from @ '' -> '' @ qt to @ '' [color=red, style=dashed, label='' @ qt ''missing'' @ ''];'' @ nl"

definition label_line :: "string \<Rightarrow> string \<Rightarrow> string \<Rightarrow> string" where
  "label_line from to label = ''    '' @ qt from @ '' -> '' @ qt to @ '' [label='' @ qt label @ ''];'' @ nl"

definition edge_line :: "string \<Rightarrow> string \<Rightarrow> string" where
  "edge_line from to = ''    '' @ qt from @ '' -> '' @ qt to @ '';'' @ nl"

definition alias_line :: "string \<Rightarrow> string" where
  "alias_line a = ''    '' @ qt a @ '' [shape=diamond, style=dashed];'' @ nl"

definition provider_line :: "string \<Rightarrow> string \<Rightarrow> bool \<Rightarrow> string" where
  "provider_line a p resolved = ''    '' @ qt a @ '' -> '' @ qt p @ '' [style='' @ (if resolved then ''bold'' else ''dashed'') @ ''];'' @ nl"

fun emit_nodes :: "dep_node list \<Rightarrow> dot_buf \<Rightarrow> mem \<Rightarrow> (bool \<times> dot_buf \<times> mem) option" where
  "emit_nodes [] buf mem = Some (True, buf, mem)"
| "emit_nodes (n # ns) buf mem =
     do {
       (name, mem) \<leftarrow> dot_escape (node_name n) mem;
       case name of
         None \<Rightarrow> Some (False, buf, mem)
       | Some name \<Rightarrow> do {
           (ok, buf, mem) \<leftarrow> dot_appendf buf (node_line name (node_installed n)) mem;
           if \<not> ok then Some (False, buf, mem) else emit_nodes ns buf mem
         }
     }"

text \<open>One dependency: an edge to the node its name resolves to, or to the name itself.\<close>

definition emit_labelled :: "string \<Rightarrow> string \<Rightarrow> dep_constraint \<Rightarrow> dot_buf \<Rightarrow> mem \<Rightarrow> (bool \<times> dot_buf \<times> mem) option" where
  "emit_labelled from to c buf mem =
     (let (constraint, mem) = dep_constraint_to_str (Some c) mem in
      case constraint of
        None \<Rightarrow> Some (False, buf, mem)
      | Some s \<Rightarrow> do {
          (label, mem) \<leftarrow> dot_escape s mem;
          case label of None \<Rightarrow> Some (False, buf, mem) | Some l \<Rightarrow> dot_appendf buf (label_line from to l) mem
        })"

definition emit_edge :: "dep_graph \<Rightarrow> string \<Rightarrow> dep_constraint \<Rightarrow> dot_buf \<Rightarrow> mem \<Rightarrow> (bool \<times> dot_buf \<times> mem) option" where
  "emit_edge g from c buf mem =
     do {
       name \<leftarrow> dep_name c;
       case dep_graph_lookup g name of
         None \<Rightarrow> do {
           (to, mem) \<leftarrow> dot_escape name mem;
           case to of None \<Rightarrow> Some (False, buf, mem) | Some t \<Rightarrow> dot_appendf buf (missing_line from t) mem
         }
       | Some dep_idx \<Rightarrow> do {
           node \<leftarrow> arr_get (g_nodes g) dep_idx;
           (to, mem) \<leftarrow> dot_escape (node_name node) mem;
           case to of
             None \<Rightarrow> Some (False, buf, mem)
           | Some t \<Rightarrow>
               if dep_op c \<noteq> VER_OP_ANY then emit_labelled from t c buf mem else dot_appendf buf (edge_line from t) mem
         }
     }"

fun emit_edges :: "dep_graph \<Rightarrow> string \<Rightarrow> dep_constraint list \<Rightarrow> dot_buf \<Rightarrow> mem \<Rightarrow> (bool \<times> dot_buf \<times> mem) option" where
  "emit_edges g from [] buf mem = Some (True, buf, mem)"
| "emit_edges g from (c # cs) buf mem =
     do {
       (ok, buf, mem) \<leftarrow> emit_edge g from c buf mem;
       if \<not> ok then Some (False, buf, mem) else emit_edges g from cs buf mem
     }"

fun emit_dependency_edges :: "dep_graph \<Rightarrow> dep_node list \<Rightarrow> dot_buf \<Rightarrow> mem \<Rightarrow> (bool \<times> dot_buf \<times> mem) option" where
  "emit_dependency_edges g [] buf mem = Some (True, buf, mem)"
| "emit_dependency_edges g (n # ns) buf mem =
     do {
       (from, mem) \<leftarrow> dot_escape (node_name n) mem;
       case from of
         None \<Rightarrow> Some (False, buf, mem)
       | Some f \<Rightarrow> do {
           (ok, buf, mem) \<leftarrow> emit_edges g f (meta_dependencies (node_pkg n)) buf mem;
           if \<not> ok then Some (False, buf, mem) else emit_dependency_edges g ns buf mem
         }
     }"

fun emit_group :: "dep_graph \<Rightarrow> string \<Rightarrow> nat option \<Rightarrow> nat list \<Rightarrow> dot_buf \<Rightarrow> mem \<Rightarrow> (bool \<times> dot_buf \<times> mem) option" where
  "emit_group g a resolved [] buf mem = Some (True, buf, mem)"
| "emit_group g a resolved (i # is) buf mem =
     do {
       node \<leftarrow> arr_get (g_nodes g) i;
       (provider, mem) \<leftarrow> dot_escape (node_name node) mem;
       case provider of
         None \<Rightarrow> Some (False, buf, mem)
       | Some p \<Rightarrow> do {
           (ok, buf, mem) \<leftarrow> dot_appendf buf (provider_line a p (Some i = resolved)) mem;
           if \<not> ok then Some (False, buf, mem) else emit_group g a resolved is buf mem
         }
     }"

fun emit_providers :: "dep_graph \<Rightarrow> alias_group list \<Rightarrow> dot_buf \<Rightarrow> mem \<Rightarrow> (bool \<times> dot_buf \<times> mem) option" where
  "emit_providers g [] buf mem = Some (True, buf, mem)"
| "emit_providers g (grp # grps) buf mem =
     do {
       (a, mem) \<leftarrow> dot_escape (ag_alias grp) mem;
       case a of
         None \<Rightarrow> Some (False, buf, mem)
       | Some a \<Rightarrow> do {
           (ok, buf, mem) \<leftarrow> dot_appendf buf (alias_line a) mem;
           if \<not> ok then Some (False, buf, mem)
           else do {
             (ok, buf, mem) \<leftarrow> emit_group g a (dep_graph_lookup g (ag_alias grp)) (ag_providers grp) buf mem;
             if \<not> ok then Some (False, buf, mem) else emit_providers g grps buf mem
           }
         }
     }"

definition head1 :: string where "head1 = ''digraph libapg_deps'' @ nl @ ''{'' @ nl"
definition head2 :: string where "head2 = ''    rankdir=LR;'' @ nl"
definition head3 :: string where "head3 = ''    node [shape=box, fontname='' @ qt ''sans-serif'' @ ''];'' @ nl @ nl"

text \<open>The appends and loops of the export, each only if the one before succeeded.\<close>

definition and_then ::
  "(dot_buf \<Rightarrow> mem \<Rightarrow> (bool \<times> dot_buf \<times> mem) option) \<Rightarrow> (dot_buf \<Rightarrow> mem \<Rightarrow> (bool \<times> dot_buf \<times> mem) option) \<Rightarrow>
   dot_buf \<Rightarrow> mem \<Rightarrow> (bool \<times> dot_buf \<times> mem) option" where
  "and_then f h buf mem = do { (ok, buf, mem) \<leftarrow> f buf mem; if \<not> ok then Some (False, buf, mem) else h buf mem }"

definition emit_all :: "dep_graph \<Rightarrow> dot_buf \<Rightarrow> mem \<Rightarrow> (bool \<times> dot_buf \<times> mem) option" where
  "emit_all g =
     and_then (\<lambda>b. dot_append b head1) (and_then (\<lambda>b. dot_append b head2) (and_then (\<lambda>b. dot_append b head3)
       (and_then (emit_nodes (g_nodes g)) (and_then (\<lambda>b. dot_append b nl)
       (and_then (emit_dependency_edges g (g_nodes g)) (and_then (\<lambda>b. dot_append b nl)
       (and_then (emit_providers g (g_alias_groups g)) (\<lambda>b. dot_append b (''}'' @ nl)))))))))"

definition dep_graph_export_dot :: "dep_graph option \<Rightarrow> mem \<Rightarrow> (pstr \<times> mem) option" where
  "dep_graph_export_dot g mem =
     (case g of
        None \<Rightarrow> Some (None, mem)
      | Some g \<Rightarrow> do {
          (ok, buf, mem) \<leftarrow> emit_all g \<lparr>dot_data = [], dot_len = 0, dot_cap = 0\<rparr> mem;
          if \<not> ok then Some (None, mem) else do { r \<leftarrow> c_str (dot_data buf); Some (Some r, mem) }
        })"

subsection \<open>What is written\<close>

text \<open>Escaping as a function of the string.\<close>

definition escaped :: "string \<Rightarrow> string" where
  "escaped s = concat (map (\<lambda>c. if special c then [backslash, c] else [c]) s)"

lemma escaped_simps [simp]:
  "escaped [] = []" "escaped (c # cs) = (if special c then backslash # c # escaped cs else c # escaped cs)"
  by (simp_all add: escaped_def)

lemma cstring_escaped [simp]: "cstring s \<Longrightarrow> cstring (escaped s)"
  by (induction s) (auto simp: cstring_def backslash_def)

lemma esc_loop_eq:
  "esc_loop (pre @ replicate (length s + length (filter special s) + 1) NUL) (length pre) s = Some (pre @ escaped s @ [NUL])"
proof (induction s arbitrary: pre)
  case (Cons c cs)
  show ?case using Cons [of "pre @ [backslash, c]"] Cons [of "pre @ [c]"] by (auto simp: nth_append list_update_append)
qed (simp add: list_update_append)

lemma dot_escape_eq:
  "cstring s \<Longrightarrow> dot_escape s mem = Some (if fst (malloc_ok mem) then Some (escaped s) else None, snd (malloc_ok mem))"
  using esc_loop_eq [of "[]" s] c_str_append [OF cstring_escaped, of s "[]"]
  by (simp add: dot_escape_def split_def)

lemma grow_cap_ge: "0 < c \<Longrightarrow> n \<le> grow_cap c n \<and> c \<le> grow_cap c n"
proof (induction c n rule: grow_cap.induct)
  case (1 c n)
  then show ?case by (subst (1 2) grow_cap.simps) auto
qed

text \<open>The buffer holds the text so far and its terminator; before the first append it is empty.\<close>

definition holds :: "dot_buf \<Rightarrow> string \<Rightarrow> bool" where
  "holds buf s \<longleftrightarrow> length (dot_data buf) = dot_cap buf \<and> dot_len buf = length s \<and>
     (if dot_cap buf = 0 then s = [] else \<exists>junk. dot_data buf = s @ NUL # junk)"

lemma dot_reserve_holds:
  assumes "holds buf s" and "dot_reserve buf n mem = (ok, buf', mem')"
  shows "holds buf' s \<and> (ok \<longrightarrow> length s + n + 1 \<le> dot_cap buf') \<and> (no_oom mem \<longrightarrow> ok \<and> no_oom mem')"
proof (cases "dot_len buf + n + 1 \<le> dot_cap buf")
  case True
  then show ?thesis using assms by (auto simp: dot_reserve_def holds_def)
next
  case False
  let ?c = "if dot_cap buf = 0 then 256 else dot_cap buf"
  let ?n = "grow_cap ?c (dot_len buf + n + 1)"
  have g: "dot_len buf + n + 1 \<le> ?n" "?c \<le> ?n" using grow_cap_ge [of ?c "dot_len buf + n + 1"] by auto
  obtain b m where m: "malloc_ok mem = (b, m)" by fastforce
  have r: "(ok, buf', mem') = (if \<not> b then (False, buf, m)
      else (True, buf\<lparr>dot_data := dot_data buf @ replicate (?n - length (dot_data buf)) NUL, dot_cap := ?n\<rparr>, m))"
    using assms(2) False m by (simp add: dot_reserve_def Let_def split: if_splits)
  show ?thesis
  proof (cases b)
    case True
    have "?n - length (dot_data buf) = Suc (?n - length (dot_data buf) - 1)" if "dot_cap buf = 0" using g that assms(1) by (simp add: holds_def)
    then have "\<exists>junk. dot_data buf @ replicate (?n - length (dot_data buf)) NUL = s @ NUL # junk"
      using assms(1) by (cases "dot_cap buf = 0") (auto simp: holds_def, metis replicate_Suc)
    then show ?thesis using r True g assms(1) malloc_no_oom [OF _ m] by (auto simp: holds_def)
  next
    case False
    then show ?thesis using r assms(1) malloc_no_oom [OF _ m] by auto
  qed
qed

lemma put_end: "length s + length t \<le> length data \<Longrightarrow> data = s @ rest \<Longrightarrow> put_at data (length s) t = Some (s @ t @ drop (length t) rest)"
  by (simp add: put_at_def)

text \<open>A writer appends a text, or fails for lack of memory.\<close>

definition emits :: "(dot_buf \<Rightarrow> mem \<Rightarrow> (bool \<times> dot_buf \<times> mem) option) \<Rightarrow> string \<Rightarrow> bool" where
  "emits f t \<longleftrightarrow> (\<forall>buf s mem. holds buf s \<longrightarrow> (\<exists>ok buf' mem'. f buf mem = Some (ok, buf', mem') \<and>
     (ok \<longrightarrow> holds buf' (s @ t)) \<and> (no_oom mem \<longrightarrow> ok \<and> no_oom mem')))"

lemma emits_put:
  assumes "\<And>buf mem. f buf mem = (let (ok, buf, mem) = dot_reserve buf (length t) mem in if \<not> ok then Some (False, buf, mem)
      else do { data \<leftarrow> put (dot_data buf) (dot_len buf); Some (True, buf\<lparr>dot_data := data, dot_len := dot_len buf + length t\<rparr>, mem) })"
    and "\<And>s rest. length t < length rest \<Longrightarrow> \<exists>junk. put (s @ rest) (length s) = Some (s @ t @ NUL # junk) \<and> length junk + length t + 1 = length rest"
  shows "emits f t"
  unfolding emits_def
proof (intro allI impI)
  fix buf s mem assume h: "holds buf s"
  obtain ok b1 m1 where r: "dot_reserve buf (length t) mem = (ok, b1, m1)" by (metis prod_cases3)
  note h1 = dot_reserve_holds [OF h r]
  show "\<exists>ok buf' mem'. f buf mem = Some (ok, buf', mem') \<and> (ok \<longrightarrow> holds buf' (s @ t)) \<and> (no_oom mem \<longrightarrow> ok \<and> no_oom mem')"
  proof (cases ok)
    case True
    obtain rest where d: "dot_data b1 = s @ rest" "dot_cap b1 = length s + length rest" "length t < length rest" "dot_len b1 = length s"
      using h1 True by (auto simp: holds_def split: if_splits)
    from assms(2) [OF d(3), of s] obtain junk where j: "put (dot_data b1) (dot_len b1) = Some (s @ t @ NUL # junk)"
      "length junk + length t + 1 = length rest" using d by auto
    have "f buf mem = Some (True, b1\<lparr>dot_data := s @ t @ NUL # junk, dot_len := dot_len b1 + length t\<rparr>, m1)"
      unfolding assms(1) using r True j by simp
    moreover have "holds (b1\<lparr>dot_data := s @ t @ NUL # junk, dot_len := dot_len b1 + length t\<rparr>) (s @ t)"
      unfolding holds_def using d j by auto
    ultimately show ?thesis using h1 True by blast
  next
    case False
    then have "f buf mem = Some (False, b1, m1)" unfolding assms(1) using r by simp
    then show ?thesis using h1 False by blast
  qed
qed

lemma emits_append: "emits (\<lambda>b. dot_append b t) t"
proof (rule emits_put [where put = "\<lambda>data i. Option.bind (put_at data i t) (\<lambda>data. arr_set data (i + length t) NUL)"])
  fix s rest :: "char list" assume l: "length t < length rest"
  then obtain c r where r: "drop (length t) rest = c # r" by (metis drop_eq_Nil2 list.exhaust not_le)
  have "length (drop (length t) rest) = Suc (length r)" using r by simp
  then have "length r + length t + 1 = length rest" using l by simp
  moreover have "put_at (s @ rest) (length s) t = Some (s @ t @ c # r)" using l r by (simp add: put_at_def)
  ultimately show "\<exists>junk. Option.bind (put_at (s @ rest) (length s) t) (\<lambda>data. arr_set data (length s + length t) NUL) = Some (s @ t @ NUL # junk) \<and>
      length junk + length t + 1 = length rest"
    by (intro exI [of _ r]) (simp add: list_update_append)
qed (simp add: dot_append_def split_def Let_def)

lemma emits_appendf: "emits (\<lambda>b. dot_appendf b t) t"
proof (rule emits_put [where put = "\<lambda>data i. put_at data i (t @ [NUL])"])
  fix s rest :: "char list" assume "length t < length rest"
  then show "\<exists>junk. put_at (s @ rest) (length s) (t @ [NUL]) = Some (s @ t @ NUL # junk) \<and> length junk + length t + 1 = length rest"
    by (intro exI [of _ "drop (Suc (length t)) rest"]) (simp add: put_at_def)
qed (simp add: dot_appendf_def)

lemma emits_Nil: "(\<And>b m. f b m = Some (True, b, m)) \<Longrightarrow> emits f []"
  unfolding emits_def by auto

lemma emits_cong: "(\<And>b m. f b m = h b m) \<Longrightarrow> emits h t \<Longrightarrow> emits f t"
  unfolding emits_def by simp

lemma emits_then:
  assumes "emits f s" and "emits h t"
  shows "emits (\<lambda>b m. do { (ok, b, m) \<leftarrow> f b m; if \<not> ok then Some (False, b, m) else h b m }) (s @ t)"
  unfolding emits_def
proof (intro allI impI)
  fix buf u mem assume h: "holds buf u"
  obtain ok b1 m1 where f: "f buf mem = Some (ok, b1, m1)" "ok \<longrightarrow> holds b1 (u @ s)" "no_oom mem \<longrightarrow> ok \<and> no_oom m1"
    using assms(1) h unfolding emits_def by blast
  show "\<exists>ok buf' mem'. Option.bind (f buf mem) (\<lambda>(ok, b, m). if \<not> ok then Some (False, b, m) else h b m) = Some (ok, buf', mem') \<and>
      (ok \<longrightarrow> holds buf' (u @ s @ t)) \<and> (no_oom mem \<longrightarrow> ok \<and> no_oom mem')"
  proof (cases ok)
    case True
    then obtain ok2 b2 m2 where "h b1 m1 = Some (ok2, b2, m2)" "ok2 \<longrightarrow> holds b2 ((u @ s) @ t)" "no_oom m1 \<longrightarrow> ok2 \<and> no_oom m2"
      using assms(2) f(2) unfolding emits_def by blast
    then show ?thesis using f True by auto
  qed (use f in auto)
qed

lemma emits_escape:
  assumes "cstring s" and "emits (h (escaped s)) t"
  shows "emits (\<lambda>b m. do { (e, m) \<leftarrow> dot_escape s m; case e of None \<Rightarrow> Some (False, b, m) | Some e \<Rightarrow> h e b m }) t"
  unfolding emits_def
proof (intro allI impI)
  fix buf u mem assume h: "holds buf u"
  obtain b m where m: "malloc_ok mem = (b, m)" by fastforce
  obtain ok b1 m1 where "h (escaped s) buf m = Some (ok, b1, m1)" "ok \<longrightarrow> holds b1 (u @ t)" "no_oom m \<longrightarrow> ok \<and> no_oom m1"
    using assms(2) h unfolding emits_def by blast
  then show "\<exists>ok buf' mem'. Option.bind (dot_escape s mem) (\<lambda>(e, m). case e of None \<Rightarrow> Some (False, buf, m) | Some e \<Rightarrow> h e buf m) = Some (ok, buf', mem') \<and>
      (ok \<longrightarrow> holds buf' (u @ t)) \<and> (no_oom mem \<longrightarrow> ok \<and> no_oom mem')"
    using m malloc_no_oom [OF _ m] by (cases b) (auto simp: dot_escape_eq [OF assms(1)])
qed

subsection \<open>The text as a function of the graph\<close>

definition shown :: "dep_constraint \<Rightarrow> string" where
  "shown c = (case dep_version c of None \<Rightarrow> the (dep_name c)
     | Some v \<Rightarrow> if dep_op c = VER_OP_ANY then the (dep_name c) else the (dep_name c) @ '' '' @ op_str (dep_op c) @ '' '' @ v)"

definition edge_text :: "dep_graph \<Rightarrow> string \<Rightarrow> dep_constraint \<Rightarrow> string" where
  "edge_text g from c =
     (case dep_graph_lookup g (the (dep_name c)) of
        None \<Rightarrow> missing_line from (escaped (the (dep_name c)))
      | Some j \<Rightarrow>
          let to = escaped (node_name (g_nodes g ! j)) in
          if dep_op c \<noteq> VER_OP_ANY then label_line from to (escaped (shown c)) else edge_line from to)"

definition group_text :: "dep_graph \<Rightarrow> alias_group \<Rightarrow> string" where
  "group_text g grp =
     (let a = escaped (ag_alias grp) in
      alias_line a @ concat (map (\<lambda>i. provider_line a (escaped (node_name (g_nodes g ! i))) (Some i = dep_graph_lookup g (ag_alias grp)))
        (ag_providers grp)))"

definition nodes_text :: "dep_node list \<Rightarrow> string" where
  "nodes_text ns = concat (map (\<lambda>n. node_line (escaped (node_name n)) (node_installed n)) ns)"

definition dot_text :: "dep_graph \<Rightarrow> string" where
  "dot_text g = head1 @ head2 @ head3 @ nodes_text (g_nodes g) @ nl @
     concat (map (\<lambda>n. concat (map (edge_text g (escaped (node_name n))) (meta_dependencies (node_pkg n)))) (g_nodes g)) @ nl @
     concat (map (group_text g) (g_alias_groups g)) @ ''}'' @ nl"

text \<open>The names of the graph are C strings, and no dependency lacks one.\<close>

definition constraint_clean :: "dep_constraint \<Rightarrow> bool" where
  "constraint_clean c \<longleftrightarrow> (\<exists>n. dep_name c = Some n \<and> cstring n) \<and> (\<forall>v. dep_version c = Some v \<longrightarrow> cstring v)"

definition dot_clean :: "dep_graph \<Rightarrow> bool" where
  "dot_clean g \<longleftrightarrow> (\<forall>n \<in> set (g_nodes g). cstring (node_name n) \<and> (\<forall>c \<in> set (meta_dependencies (node_pkg n)). constraint_clean c)) \<and>
     (\<forall>grp \<in> set (g_alias_groups g). cstring (ag_alias grp))"

lemma nodes_text_simps [simp]:
  "nodes_text [] = []" "nodes_text (n # ns) = node_line (escaped (node_name n)) (node_installed n) @ nodes_text ns"
  by (simp_all add: nodes_text_def)

lemma group_text_append: "group_text g grp @ t = (let a = escaped (ag_alias grp) in
      alias_line a @ concat (map (\<lambda>i. provider_line a (escaped (node_name (g_nodes g ! i))) (Some i = dep_graph_lookup g (ag_alias grp)))
        (ag_providers grp)) @ t)"
  by (simp add: group_text_def Let_def)

lemma emits_nodes:
  "\<forall>n \<in> set ns. cstring (node_name n) \<Longrightarrow> emits (emit_nodes ns) (nodes_text ns)"
proof (induction ns)
  case Nil
  show ?case by (simp add: emits_Nil)
next
  case (Cons n ns)
  show ?case unfolding nodes_text_simps
    by (rule emits_cong [OF emit_nodes.simps(2)], rule emits_escape, use Cons in simp)
      (rule emits_then [OF emits_appendf], use Cons in simp)
qed

lemma cstring_op_str [simp]: "cstring (op_str x)"
  by (cases x) (simp_all add: cstring_def)

lemma cstring_shown: "constraint_clean c \<Longrightarrow> cstring (shown c)"
  by (auto simp: constraint_clean_def shown_def cstring_def split: option.splits) (metis cstring_def cstring_op_str)

lemma to_str_shown: "dep_name c = Some n \<Longrightarrow> dep_constraint_to_str (Some c) mem = strdup_m (shown c) mem"
  by (auto simp: dep_constraint_to_str_def shown_def split: option.splits)

lemma emits_labelled:
  assumes "constraint_clean c"
  shows "emits (emit_labelled from to c) (label_line from to (escaped (shown c)))"
  unfolding emits_def
proof (intro allI impI)
  fix buf u mem assume h: "holds buf u"
  obtain n where n: "dep_name c = Some n" using assms by (auto simp: constraint_clean_def)
  obtain b m where m: "malloc_ok mem = (b, m)" by fastforce
  have "emits (\<lambda>buf m. do { (e, m) \<leftarrow> dot_escape (shown c) m; case e of None \<Rightarrow> Some (False, buf, m)
      | Some l \<Rightarrow> dot_appendf buf (label_line from to l) m }) (label_line from to (escaped (shown c)))"
    by (intro emits_escape cstring_shown assms emits_appendf)
  then obtain ok b1 m1 where e: "do { (e, m) \<leftarrow> dot_escape (shown c) m; case e of None \<Rightarrow> Some (False, buf, m)
      | Some l \<Rightarrow> dot_appendf buf (label_line from to l) m } = Some (ok, b1, m1)"
    "ok \<longrightarrow> holds b1 (u @ label_line from to (escaped (shown c)))" "no_oom m \<longrightarrow> ok \<and> no_oom m1"
    using h unfolding emits_def by blast
  then show "\<exists>ok buf' mem'. emit_labelled from to c buf mem = Some (ok, buf', mem') \<and>
      (ok \<longrightarrow> holds buf' (u @ label_line from to (escaped (shown c)))) \<and> (no_oom mem \<longrightarrow> ok \<and> no_oom mem')"
    using m malloc_no_oom [OF _ m] by (cases b) (auto simp: emit_labelled_def to_str_shown [OF n] strdup_m_def)
qed

lemma emits_edge:
  assumes "g_inv g" and "dot_clean g" and "constraint_clean c"
  shows "emits (emit_edge g from c) (edge_text g from c)"
proof -
  obtain n where n: "dep_name c = Some n" "cstring n" using assms(3) by (auto simp: constraint_clean_def)
  show ?thesis
  proof (cases "dep_graph_lookup g n")
    case None
    have "emits (\<lambda>buf mem. do { (to, mem) \<leftarrow> dot_escape n mem; case to of None \<Rightarrow> Some (False, buf, mem)
        | Some t \<Rightarrow> dot_appendf buf (missing_line from t) mem }) (missing_line from (escaped n))"
      by (intro emits_escape emits_appendf n(2))
    then show ?thesis using None n by (simp add: emit_edge_def [abs_def] edge_text_def)
  next
    case (Some j)
    then have j: "j < length (g_nodes g)" using assms(1) by (simp add: dep_graph_lookup_range)
    then have c: "cstring (node_name (g_nodes g ! j))" using assms(2) by (simp add: dot_clean_def)
    let ?to = "escaped (node_name (g_nodes g ! j))"
    have "emits (\<lambda>buf mem. do { (to, mem) \<leftarrow> dot_escape (node_name (g_nodes g ! j)) mem; case to of None \<Rightarrow> Some (False, buf, mem)
        | Some t \<Rightarrow> if dep_op c \<noteq> VER_OP_ANY then emit_labelled from t c buf mem else dot_appendf buf (edge_line from t) mem })
        (if dep_op c \<noteq> VER_OP_ANY then label_line from ?to (escaped (shown c)) else edge_line from ?to)"
      by (rule emits_escape [OF c]) (simp add: emits_appendf emits_labelled [OF assms(3)])
    then show ?thesis using Some n j by (simp add: emit_edge_def [abs_def] edge_text_def Let_def)
  qed
qed

lemma emits_edges:
  assumes "g_inv g" and "dot_clean g"
  shows "\<forall>c \<in> set cs. constraint_clean c \<Longrightarrow> emits (emit_edges g from cs) (concat (map (edge_text g from) cs))"
proof (induction cs)
  case (Cons c cs)
  show ?case unfolding list.map concat.simps
    by (rule emits_cong [OF emit_edges.simps(2)], rule emits_then [OF emits_edge [OF assms]]) (use Cons in simp_all)
qed (simp add: emits_Nil)

lemma emits_dependency_edges:
  assumes "g_inv g" and "dot_clean g"
  shows "set ns \<subseteq> set (g_nodes g) \<Longrightarrow> emits (emit_dependency_edges g ns)
    (concat (map (\<lambda>n. concat (map (edge_text g (escaped (node_name n))) (meta_dependencies (node_pkg n)))) ns))"
proof (induction ns)
  case (Cons n ns)
  then have n: "cstring (node_name n)" "\<forall>c \<in> set (meta_dependencies (node_pkg n)). constraint_clean c" using assms(2) by (auto simp: dot_clean_def)
  show ?case unfolding list.map concat.simps
    by (rule emits_cong [OF emit_dependency_edges.simps(2)], rule emits_escape [OF n(1)], rule emits_then [OF emits_edges [OF assms n(2)]])
      (use Cons in simp)
qed (simp add: emits_Nil)

lemma emits_group:
  assumes "dot_clean g"
  shows "\<forall>i \<in> set is. i < length (g_nodes g) \<Longrightarrow> emits (emit_group g a res is)
    (concat (map (\<lambda>i. provider_line a (escaped (node_name (g_nodes g ! i))) (Some i = res)) is))"
proof (induction "is")
  case (Cons i "is")
  then have i: "i < length (g_nodes g)" "cstring (node_name (g_nodes g ! i))" using assms by (auto simp: dot_clean_def)
  then have "emits (\<lambda>buf mem. do { (provider, mem) \<leftarrow> dot_escape (node_name (g_nodes g ! i)) mem; case provider of None \<Rightarrow> Some (False, buf, mem)
      | Some p \<Rightarrow> do { (ok, buf, mem) \<leftarrow> dot_appendf buf (provider_line a p (Some i = res)) mem; if \<not> ok then Some (False, buf, mem) else emit_group g a res is buf mem } })
      (provider_line a (escaped (node_name (g_nodes g ! i))) (Some i = res) @
       concat (map (\<lambda>i. provider_line a (escaped (node_name (g_nodes g ! i))) (Some i = res)) is))"
    using Cons by (intro emits_escape emits_then emits_appendf) auto
  from emits_cong [OF _ this] show ?case using i by simp
qed (simp add: emits_Nil)

lemma emits_providers:
  assumes "g_inv g" and "dot_clean g"
  shows "set grps \<subseteq> set (g_alias_groups g) \<Longrightarrow> emits (emit_providers g grps) (concat (map (group_text g) grps))"
proof (induction grps)
  case (Cons grp grps)
  then have g: "cstring (ag_alias grp)" "\<forall>i \<in> set (ag_providers grp). i < length (g_nodes g)"
    using assms by (auto simp: dot_clean_def g_inv_def group_ok_def)
  show ?case unfolding list.map concat.simps group_text_append Let_def
    by (rule emits_cong [OF emit_providers.simps(2)], rule emits_escape [OF g(1)], rule emits_then [OF emits_appendf],
        rule emits_then [OF emits_group [OF assms(2) g(2)]]) (use Cons in simp)
qed (simp add: emits_Nil)

lemma emits_all:
  assumes "g_inv g" and "dot_clean g"
  shows "emits (emit_all g) (dot_text g)"
  unfolding emit_all_def and_then_def [abs_def] dot_text_def
  by (intro emits_then emits_append emits_nodes emits_dependency_edges [OF assms] emits_providers [OF assms] order_refl)
    (use assms(2) in \<open>simp add: dot_clean_def\<close>)


text \<open>The text is a C string.\<close>

lemma cstring_concat: "cstring (concat ss) \<longleftrightarrow> (\<forall>s \<in> set ss. cstring s)"
  by (auto simp: cstring_def)

lemma cstring_lines:
  "cstring a \<Longrightarrow> cstring (node_line a b)" "cstring a \<Longrightarrow> cstring c \<Longrightarrow> cstring (missing_line a c)"
  "cstring a \<Longrightarrow> cstring c \<Longrightarrow> cstring l \<Longrightarrow> cstring (label_line a c l)" "cstring a \<Longrightarrow> cstring c \<Longrightarrow> cstring (edge_line a c)"
  "cstring a \<Longrightarrow> cstring (alias_line a)" "cstring a \<Longrightarrow> cstring c \<Longrightarrow> cstring (provider_line a c b)"
  unfolding node_line_def missing_line_def label_line_def edge_line_def alias_line_def provider_line_def qt_def nl_def dq_def
  by (simp_all add: cstring_def)

lemma cstring_edge_text:
  assumes "g_inv g" and "dot_clean g" and "cstring from" and "constraint_clean c"
  shows "cstring (edge_text g from c)"
proof -
  obtain n where n: "dep_name c = Some n" "cstring n" using assms(4) by (auto simp: constraint_clean_def)
  have "cstring (node_name (g_nodes g ! j))" if "dep_graph_lookup g n = Some j" for j
    using assms(2) dep_graph_lookup_range [OF assms(1) that] by (simp add: dot_clean_def)
  then show ?thesis using n assms cstring_shown [OF assms(4)] by (auto simp: edge_text_def Let_def cstring_lines split: option.splits)
qed

lemma cstring_dot_text:
  assumes "g_inv g" and "dot_clean g"
  shows "cstring (dot_text g)"
proof -
  have "cstring head1" "cstring head2" "cstring head3" "cstring nl" "cstring (''}'' @ nl)"
    by (simp_all add: head1_def head2_def head3_def nl_def qt_def dq_def cstring_def)
  moreover have "cstring (nodes_text (g_nodes g))" using assms(2) by (auto simp: nodes_text_def cstring_concat cstring_lines dot_clean_def)
  moreover have "cstring (edge_text g (escaped (node_name n)) c)" if "n \<in> set (g_nodes g)" "c \<in> set (meta_dependencies (node_pkg n))" for n c
    using cstring_edge_text [OF assms] that assms(2) by (simp add: dot_clean_def)
  moreover have "cstring (group_text g grp)" if "grp \<in> set (g_alias_groups g)" for grp
    using assms that by (auto simp: group_text_def Let_def cstring_concat cstring_lines dot_clean_def g_inv_def group_ok_def)
  ultimately show ?thesis by (auto simp: dot_text_def cstring_concat)
qed

subsection \<open>Reading the text back\<close>

text \<open>
  The interface between a writer that puts strings between quotes and a reader of such
  strings: what follows the opening quote is read up to the right closing quote.
\<close>

locale quoting =
  fixes esc :: "string \<Rightarrow> string"
    and unq :: "string \<Rightarrow> (string \<times> string) option"
    and close :: char
  assumes unq_esc: "unq (esc s @ close # rest) = Some (s, rest)"
begin

lemma esc_quoted_unique: "esc s @ close # rest = esc t @ close # rest' \<Longrightarrow> s = t \<and> rest = rest'"
  using unq_esc by (metis Pair_inject option.inject)

lemma esc_inj: "inj esc"
  by (rule injI) (metis esc_quoted_unique)

end

fun unquote :: "string \<Rightarrow> (string \<times> string) option" where
  "unquote [] = None"
| "unquote (c # cs) =
     (if c = dq then Some ([], cs)
      else if c = backslash
      then (case cs of [] \<Rightarrow> None | d # ds \<Rightarrow> map_option (\<lambda>(s, r). (d # s, r)) (unquote ds))
      else map_option (\<lambda>(s, r). (c # s, r)) (unquote cs))"

interpretation dot: quoting escaped unquote dq
proof unfold_locales
  show "unquote (escaped s @ dq # rest) = Some (s, rest)" for s rest
    by (induction s) (auto simp: special_def dq_def backslash_def)
qed

fun strip :: "string \<Rightarrow> string \<Rightarrow> string option" where
  "strip [] s = Some s"
| "strip (c # cs) [] = None"
| "strip (c # cs) (d # ds) = (if c = d then strip cs ds else None)"

lemma strip_append [simp]: "strip p (p @ s) = Some s"
  by (induction p) simp_all

text \<open>A reader of the node lines: name and whether the node is filled as installed.\<close>

definition read_node :: "string \<Rightarrow> ((string \<times> bool) \<times> string) option" where
  "read_node s =
     do {
       s \<leftarrow> strip (''    '' @ [dq]) s;
       (name, s) \<leftarrow> unquote s;
       s \<leftarrow> strip ('' [style=filled, fillcolor='' @ [dq]) s;
       (color, s) \<leftarrow> unquote s;
       s \<leftarrow> strip (''];'' @ nl) s;
       Some ((name, color = ''lightgreen''), s)
     }"

fun read_nodes :: "nat \<Rightarrow> string \<Rightarrow> (string \<times> bool) list" where
  "read_nodes 0 s = []"
| "read_nodes (Suc k) s = (case read_node s of None \<Rightarrow> [] | Some (x, s) \<Rightarrow> x # read_nodes k s)"

lemma read_node_line: "read_node (node_line (escaped name) inst @ rest) = Some ((name, inst), rest)"
proof -
  have e: "escaped ''lightgreen'' = ''lightgreen''" "escaped ''white'' = ''white''" by (simp_all add: special_def dq_def backslash_def)
  have "unquote (''lightgreen'' @ dq # r) = Some (''lightgreen'', r)" "unquote (''white'' @ dq # r) = Some (''white'', r)" for r
    using dot.unq_esc [of "''lightgreen''" r] dot.unq_esc [of "''white''" r] unfolding e by simp_all
  then have "unquote ((if inst then ''lightgreen'' else ''white'') @ dq # r) = Some (if inst then ''lightgreen'' else ''white'', r)" for r
    by (cases inst) (simp_all only: if_True if_False)
  note c = this
  have l: "node_line (escaped name) inst @ rest = (''    '' @ [dq]) @ escaped name @ dq # ('' [style=filled, fillcolor='' @ [dq]) @
      (if inst then ''lightgreen'' else ''white'') @ dq # (''];'' @ nl) @ rest"
    by (simp only: node_line_def qt_def append_assoc append_Cons append_Nil)
  show ?thesis unfolding l read_node_def strip_append Option.bind.bind_lunit dot.unq_esc case_prod_conv c by (cases inst) simp_all
qed

lemma read_nodes_text: "length ns < k \<Longrightarrow> read_nodes k (nodes_text ns @ nl @ rest) = map (\<lambda>n. (node_name n, node_installed n)) ns"
proof (induction ns arbitrary: k)
  case Nil
  then show ?case by (cases k) (simp_all add: read_node_def nl_def)
next
  case (Cons n ns)
  then obtain j where "k = Suc j" "length ns < j" by (cases k) auto
  then show ?case using Cons.IH read_node_line [of "node_name n" "node_installed n" "nodes_text ns @ nl @ rest"] by simp
qed


definition quote_pool :: "package_metadata list" where
  "quote_pool = [demo_pkg (CHR ''a'' # dq # ''b'') ''1'' [any_version ''lib'']]"

lemma dep_graph_add_no_alias:
  "dep_graph_add g (Some p) mem = Some (err, g', mem') \<Longrightarrow> meta_provides p = [] \<Longrightarrow> meta_replaces p = [] \<Longrightarrow>
   g_alias_groups g' = g_alias_groups g"
  by (auto simp: dep_graph_add_def add_node_def new_node_def Let_def split: option.splits prod.splits if_splits bind_splits)

lemma quote_pool_groups: "g_alias_groups (demo_graph quote_pool) = []"
proof -
  let ?p = "demo_pkg (CHR ''a'' # dq # ''b'') ''1'' [any_version ''lib'']"
  have "g_alias_groups example_graph = []" by (simp add: example_graph_def dep_graph_new_def str_map_init_def)
  moreover have "strings_ok ?p" by (simp add: demo_pkg_def strings_ok_def zero_metadata_def any_version_def)
  then obtain g' mem' where "dep_graph_add example_graph (Some ?p) [] = Some (DEP_OK, g', mem')"
    using add_node_no_oom [OF _ _ no_oom_Nil, of example_graph ?p False] example_graph_inv by (auto simp: dep_graph_add_def)
  ultimately show ?thesis using dep_graph_add_no_alias [of example_graph ?p "[]" DEP_OK g' mem']
    by (simp add: demo_graph_def quote_pool_def demo_pkg_def zero_metadata_def)
qed


end
