(* ===== verification/Posix.thy ===== *)
theory Posix
  imports Util Package
begin

text \<open>
  The operating system as the library uses it: the calls of \<open>src/util.c\<close>, \<open>src/install/\<close>,
  \<open>src/transaction/backup.c\<close>, \<open>commit.c\<close> and \<open>src/package.c\<close> on files, directories and
  processes.  They are a parameter, the record \<open>posix\<close> over a type \<open>'w\<close> of worlds: what a call
  returns and what it does to the world is any function.  A call that reports its outcome
  through \<open>errno\<close> returns the error number, 0 for success.  The entries that \<open>readdir\<close> yields
  are those the directory has when it is opened.  A stream that is read yields its bytes up to
  the end of the file or an error, and whether there was an error.

  The state \<open>proc\<close> of the process holds the world, the allocator and the atomic counters that
  make temporary names unique.  Two logs are kept beside it for the theorems: the paths given
  to calls that change the file system, and the scripts that were started.  No definition
  reads a log.
\<close>

datatype child_exit = Exec_Failed int | Exited int | Signaled int | Wait_Failed

record 'w posix =
  os_stat :: "'w \<Rightarrow> string \<Rightarrow> 32 word option"
  os_lstat :: "'w \<Rightarrow> string \<Rightarrow> 32 word option"
  os_readlink :: "'w \<Rightarrow> string \<Rightarrow> string option"
  os_opendir :: "'w \<Rightarrow> string \<Rightarrow> string list option"
  os_access_x :: "'w \<Rightarrow> string \<Rightarrow> bool"
  os_open_read :: "'w \<Rightarrow> string \<Rightarrow> (string \<times> bool) option"
  os_getenv_home :: "'w \<Rightarrow> string option"
  os_getpid :: "'w \<Rightarrow> int"
  os_realpath :: "'w \<Rightarrow> string \<Rightarrow> string option"
  os_mkdir :: "string \<Rightarrow> 32 word \<Rightarrow> 'w \<Rightarrow> int \<times> 'w"
  os_chmod :: "string \<Rightarrow> 32 word \<Rightarrow> 'w \<Rightarrow> bool \<times> 'w"
  os_unlink :: "string \<Rightarrow> 'w \<Rightarrow> bool \<times> 'w"
  os_rmdir :: "string \<Rightarrow> 'w \<Rightarrow> bool \<times> 'w"
  os_symlink :: "string \<Rightarrow> string \<Rightarrow> 'w \<Rightarrow> bool \<times> 'w"
  os_rename :: "string \<Rightarrow> string \<Rightarrow> 'w \<Rightarrow> bool \<times> 'w"
  os_open_write :: "string \<Rightarrow> 'w \<Rightarrow> bool \<times> 'w"
  os_write :: "string \<Rightarrow> string \<Rightarrow> 'w \<Rightarrow> bool \<times> 'w"
  os_close :: "string \<Rightarrow> 'w \<Rightarrow> bool \<times> 'w"
  os_pipe :: "'w \<Rightarrow> bool \<times> 'w"
  os_fork :: "'w \<Rightarrow> bool \<times> 'w"
  os_unshare :: "'w \<Rightarrow> int"
  os_chroot :: "'w \<Rightarrow> string \<Rightarrow> int"
  os_execl :: "string option \<Rightarrow> string \<Rightarrow> 'w \<Rightarrow> child_exit \<times> 'w"

definition EPERM :: int where "EPERM = 1"
definition EEXIST :: int where "EEXIST = 17"
definition EINVAL :: int where "EINVAL = 22"
definition PATH_MAX :: nat where "PATH_MAX = 4096"

subsection \<open>Modes\<close>

definition S_ISDIR :: "32 word \<Rightarrow> bool" where "S_ISDIR m \<longleftrightarrow> and m 0xF000 = 0x4000"
definition S_ISREG :: "32 word \<Rightarrow> bool" where "S_ISREG m \<longleftrightarrow> and m 0xF000 = 0x8000"
definition S_ISLNK :: "32 word \<Rightarrow> bool" where "S_ISLNK m \<longleftrightarrow> and m 0xF000 = 0xA000"

definition perm_bits :: "32 word \<Rightarrow> 32 word" where "perm_bits m = and m 0xFFF"

definition is_dir :: "32 word option \<Rightarrow> bool" where
  "is_dir st = (case st of None \<Rightarrow> False | Some m \<Rightarrow> S_ISDIR m)"

subsection \<open>The process\<close>

record 'w proc =
  world :: 'w
  pmem :: mem
  script_seq :: "64 word"
  backup_seq :: "64 word"
  extract_seq :: "64 word"
  touched :: "string list"
  started :: "(string option \<times> string) list"

definition fs_call :: "string \<Rightarrow> ('w \<Rightarrow> 'r \<times> 'w) \<Rightarrow> 'w proc \<Rightarrow> 'r \<times> 'w proc" where
  "fs_call path f s = (let (r, w) = f (world s) in (r, s\<lparr>world := w, touched := touched s @ [path]\<rparr>))"

definition os_call :: "('w \<Rightarrow> 'r \<times> 'w) \<Rightarrow> 'w proc \<Rightarrow> 'r \<times> 'w proc" where
  "os_call f s = (let (r, w) = f (world s) in (r, s\<lparr>world := w\<rparr>))"

definition mem_call :: "(mem \<Rightarrow> 'r \<times> mem) \<Rightarrow> 'w proc \<Rightarrow> 'r \<times> 'w proc" where
  "mem_call f s = (let (r, m) = f (pmem s) in (r, s\<lparr>pmem := m\<rparr>))"

definition join_dirs :: "string \<Rightarrow> string \<Rightarrow> 'w proc \<Rightarrow> (pstr \<times> 'w proc) option" where
  "join_dirs a b s = do { (r, m) \<leftarrow> concat_dirs a b (pmem s); Some (r, s\<lparr>pmem := m\<rparr>) }"

definition mkdir_p_call :: "'w posix \<Rightarrow> string \<Rightarrow> 32 word \<Rightarrow> 'w proc \<Rightarrow> int \<times> 'w proc" where
  "mkdir_p_call P path mode s = fs_call path (os_mkdir P path mode) s"

definition unlink_call :: "'w posix \<Rightarrow> string \<Rightarrow> 'w proc \<Rightarrow> 'w proc" where
  "unlink_call P path s = snd (fs_call path (os_unlink P path) s)"

definition rmdir_call :: "'w posix \<Rightarrow> string \<Rightarrow> 'w proc \<Rightarrow> 'w proc" where
  "rmdir_call P path s = snd (fs_call path (os_rmdir P path) s)"

text \<open>\<open>snprintf\<close> into a buffer of \<open>n\<close> bytes.\<close>

definition snprintf_to :: "nat \<Rightarrow> string \<Rightarrow> string" where
  "snprintf_to n s = take (n - 1) s"

text \<open>The increment of an atomic counter, and the value it returns.\<close>

definition next_script_seq :: "'w proc \<Rightarrow> 64 word \<times> 'w proc" where
  "next_script_seq s = (script_seq s + 1, s\<lparr>script_seq := script_seq s + 1\<rparr>)"

definition next_backup_seq :: "'w proc \<Rightarrow> 64 word \<times> 'w proc" where
  "next_backup_seq s = (backup_seq s + 1, s\<lparr>backup_seq := backup_seq s + 1\<rparr>)"

definition next_extract_seq :: "'w proc \<Rightarrow> 64 word \<times> 'w proc" where
  "next_extract_seq s = (extract_seq s + 1, s\<lparr>extract_seq := extract_seq s + 1\<rparr>)"

subsection \<open>Paths below a directory\<close>

text \<open>A name that \<open>readdir\<close> can yield; the loops skip \<open>.\<close> and \<open>..\<close>.\<close>

definition entry_name :: "string \<Rightarrow> bool" where
  "entry_name n \<longleftrightarrow> n \<noteq> [] \<and> slash \<notin> set n \<and> cstring n"

definition dot_entry :: "string \<Rightarrow> bool" where
  "dot_entry n \<longleftrightarrow> n = ''.'' \<or> n = ''..''"

definition posix_names :: "'w posix \<Rightarrow> bool" where
  "posix_names P \<longleftrightarrow> (\<forall>w d es. os_opendir P w d = Some es \<longrightarrow> (\<forall>e \<in> set es. entry_name e))"

text \<open>The directory itself or a path to something inside, through proper names only.\<close>

definition under :: "string \<Rightarrow> string \<Rightarrow> bool" where
  "under d p \<longleftrightarrow> p = d \<or> (\<exists>ns. ns \<noteq> [] \<and> (\<forall>n \<in> set ns. entry_name n \<and> \<not> dot_entry n) \<and> squeeze p = squeeze (foldl join d ns))"

lemma squeeze_join [simp]: "squeeze (join a b) = join a b"
  by (simp add: join_def)

lemma join_squeeze [simp]: "join (squeeze a) b = join a b"
  by (simp add: join_def squeeze_append_left)

lemma under_refl [simp]: "under d d"
  by (simp add: under_def)

lemma foldl_join_squeeze: "ns \<noteq> [] \<Longrightarrow> squeeze (foldl join d ns) = foldl join d ns"
  by (induction ns rule: rev_induct) simp_all

lemma under_step:
  assumes "under d p" and "entry_name n" and "\<not> dot_entry n"
  shows "under d (join p n)" and "under d (p @ slash # n)"
proof -
  obtain ns where ns: "\<forall>n \<in> set ns. entry_name n \<and> \<not> dot_entry n" "squeeze p = squeeze (foldl join d ns)"
    using assms(1) unfolding under_def by (metis empty_iff empty_set foldl_Nil)
  have "join p n = foldl join d (ns @ [n])" using ns(2) by (metis foldl_Cons foldl_Nil foldl_append join_squeeze)
  then have "squeeze (join p n) = squeeze (foldl join d (ns @ [n]))" by simp
  moreover have "squeeze (p @ slash # n) = squeeze (join p n)" by (simp add: join_def)
  moreover have "\<forall>m \<in> set (ns @ [n]). entry_name m \<and> \<not> dot_entry m" using ns(1) assms(2,3) by auto
  ultimately show "under d (join p n)" and "under d (p @ slash # n)"
    unfolding under_def by (metis snoc_eq_iff_butlast)+
qed

lemma under_trans:
  assumes "under a b" and "under b c"
  shows "under a c"
proof (cases "b = a \<or> c = b")
  case False
  then obtain ms ns where m: "ms \<noteq> []" "\<forall>n \<in> set ms. entry_name n \<and> \<not> dot_entry n" "squeeze b = squeeze (foldl join a ms)"
    and n: "ns \<noteq> []" "\<forall>n \<in> set ns. entry_name n \<and> \<not> dot_entry n" "squeeze c = squeeze (foldl join b ns)"
    using assms by (auto simp: under_def)
  obtain k ks where k: "ns = k # ks" using n(1) by (cases ns) auto
  have "foldl join b ns = foldl join (join (foldl join a ms) k) ks" using k m(3) by (metis foldl_Cons join_squeeze)
  then have "squeeze c = squeeze (foldl join a (ms @ ns))" using n(3) k by simp
  then show ?thesis using m n unfolding under_def by (intro disjI2 exI [of _ "ms @ ns"]) auto
qed (use assms in auto)

subsection \<open>How paths grow\<close>

lemma squeeze_no_slash: "slash \<notin> set s \<Longrightarrow> squeeze s = s"
  by (induction s rule: squeeze.induct) auto

lemma squeeze_append:
  "squeeze (a @ b) = squeeze a @ squeeze (if a \<noteq> [] \<and> last a = slash then dropWhile (\<lambda>c. c = slash) b else b)"
proof (induction a rule: squeeze.induct, goal_cases)
  case (1 x y cs)
  then show ?case using squeeze_Cons [of y "cs @ b"] squeeze_Cons [of y cs] by auto
next
  case (3 x)
  then show ?case by (cases "x = slash") (simp_all add: squeeze_Slash squeeze_Other)
qed simp

lemma join_entry:
  assumes "entry_name e"
  shows "join d e = squeeze d @ (if d \<noteq> [] \<and> last d = slash then e else slash # e)"
proof -
  obtain c cs where e: "e = c # cs" "c \<noteq> slash" using assms by (cases e) (auto simp: entry_name_def)
  have "squeeze e = e" using assms by (simp add: squeeze_no_slash entry_name_def)
  moreover have "dropWhile (\<lambda>c. c = slash) e = e" using e by simp
  ultimately show ?thesis by (simp add: join_def squeeze_append squeeze_Slash)
qed

lemma length_join_entry: "entry_name e \<Longrightarrow> length (squeeze d) < length (join d e)"
  by (auto simp: join_entry entry_name_def)

lemma length_squeeze: "length (squeeze s) \<le> length s"
  by (induction s rule: squeeze.induct) auto

definition posix_path_max :: "'w posix \<Rightarrow> bool" where
  "posix_path_max P \<longleftrightarrow> (\<forall>w p. PATH_MAX \<le> length p \<longrightarrow> os_stat P w p = None \<and> os_lstat P w p = None \<and> os_opendir P w p = None)"

lemma posix_path_maxD:
  assumes "posix_path_max P"
  shows "os_stat P w p = Some m \<Longrightarrow> length p < PATH_MAX" and "os_lstat P w p = Some m \<Longrightarrow> length p < PATH_MAX"
    and "os_opendir P w p = Some es \<Longrightarrow> length p < PATH_MAX"
  using assms unfolding posix_path_max_def by (metis not_le option.distinct(1))+

text \<open>Enough recursion depth for anything below a path.\<close>

definition DEPTH :: nat where "DEPTH = PATH_MAX + 1"

definition deep :: "nat \<Rightarrow> string \<Rightarrow> bool" where
  "deep n p \<longleftrightarrow> 0 < n \<and> PATH_MAX < length (squeeze p) + n"

lemma deep_DEPTH [simp]: "deep DEPTH p"
  by (simp add: deep_def DEPTH_def)

lemma deep_step: "deep (Suc n) p \<Longrightarrow> length p < PATH_MAX \<Longrightarrow> entry_name e \<Longrightarrow> deep n (join p e)"
  using length_join_entry [of e p] length_squeeze [of p] by (simp add: deep_def)

lemma deep_join: "deep (Suc n) p \<Longrightarrow> 0 < n \<Longrightarrow> entry_name e \<Longrightarrow> deep n (join p e)"
  using length_join_entry [of e p] by (simp add: deep_def)

lemma deep_step_raw: "deep (Suc n) p \<Longrightarrow> length p < PATH_MAX \<Longrightarrow> entry_name e \<Longrightarrow> deep n (p @ slash # e)"
  using deep_step [of n p e] by (simp add: deep_def join_def)

subsection \<open>What a piece of code touches\<close>

text \<open>
  From \<open>s\<close> to \<open>s'\<close> only paths of \<open>D\<close> were changed, only scripts of \<open>C\<close> started, and memory did
  not run out by itself.
\<close>

definition frame :: "string set \<Rightarrow> (string option \<times> string) set \<Rightarrow> 'w proc \<Rightarrow> 'w proc \<Rightarrow> bool" where
  "frame D C s s' \<longleftrightarrow> (\<exists>ps. touched s' = touched s @ ps \<and> set ps \<subseteq> D) \<and> (\<exists>cs. started s' = started s @ cs \<and> set cs \<subseteq> C) \<and>
     (no_oom (pmem s) \<longrightarrow> no_oom (pmem s'))"

abbreviation touches :: "string set \<Rightarrow> 'w proc \<Rightarrow> 'w proc \<Rightarrow> bool" where
  "touches D \<equiv> frame D {}"

lemma touches_refl [simp]: "frame D C s s"
  by (simp add: frame_def)

lemma touches_trans: "frame D C s s1 \<Longrightarrow> frame D C s1 s2 \<Longrightarrow> frame D C s s2"
  by (auto simp: frame_def)

lemma touches_mono: "frame D C s s' \<Longrightarrow> D \<subseteq> E \<Longrightarrow> frame E C s s'"
  by (auto simp: frame_def)

lemma frame_mono: "frame D C s s' \<Longrightarrow> D \<subseteq> E \<Longrightarrow> C \<subseteq> B \<Longrightarrow> frame E B s s'"
  by (auto simp: frame_def)

lemma frame_oom: "frame D C s s' \<Longrightarrow> no_oom (pmem s) \<Longrightarrow> no_oom (pmem s')"
  by (simp add: frame_def)

lemma touches_fs_call: "fs_call p f s = (r, s') \<Longrightarrow> p \<in> D \<Longrightarrow> frame D C s s'"
  by (auto simp: fs_call_def frame_def split: prod.splits)

lemma frame_os_call: "os_call f s = (r, s') \<Longrightarrow> frame D C s s'"
  by (auto simp: os_call_def frame_def split: prod.splits)

lemma frame_mem_call:
  "mem_call f s = (r, s') \<Longrightarrow> (\<And>m. no_oom m \<Longrightarrow> no_oom (snd (f m))) \<Longrightarrow> frame D C s s' \<and> world s' = world s"
  by (auto simp: mem_call_def frame_def split: prod.splits) (metis snd_conv)

lemma touches_mem_call:
  "mem_call malloc_ok s = (r, s') \<Longrightarrow> frame D C s s' \<and> world s' = world s"
  "mem_call (strdup_m x) s = (p, s') \<Longrightarrow> frame D C s s' \<and> world s' = world s"
  by (erule frame_mem_call; simp)+

lemma concat_dirs_oom: "concat_dirs a b mem = Some (r, mem') \<Longrightarrow> no_oom mem \<Longrightarrow> no_oom mem'"
  by (auto simp: concat_dirs_def concat_str_def concat_buf_eq split: bind_splits option.splits if_splits)

lemma touches_join_dirs: "join_dirs a b s = Some (r, s') \<Longrightarrow> frame D C s s' \<and> world s' = world s"
  by (auto simp: join_dirs_def frame_def split: bind_splits dest: concat_dirs_oom)

lemma touches_calls [simp]:
  "p \<in> D \<Longrightarrow> frame D C s (unlink_call P p s)" "p \<in> D \<Longrightarrow> frame D C s (rmdir_call P p s)"
  "p \<in> D \<Longrightarrow> frame D C s (snd (mkdir_p_call P p m s))"
  by (auto simp: unlink_call_def rmdir_call_def mkdir_p_call_def fs_call_def frame_def split_def Let_def)

lemma join_dirs_eq:
  assumes "cstring a" and "cstring b"
  obtains r s' where "join_dirs a b s = Some (r, s')" and "r = None \<or> r = Some (join a b)" and "frame D C s s'" and "world s' = world s"
    and "no_oom (pmem s) \<Longrightarrow> r = Some (join a b) \<and> no_oom (pmem s')"
proof -
  have "\<exists>r m. concat_dirs a b (pmem s) = Some (r, m) \<and> (r = None \<or> r = Some (join a b)) \<and>
      (no_oom (pmem s) \<longrightarrow> r = Some (join a b) \<and> no_oom m)"
    by (auto simp: concat_dirs_eq [OF assms] split_def Let_def)
  then obtain r m where c: "concat_dirs a b (pmem s) = Some (r, m)" "r = None \<or> r = Some (join a b)"
    "no_oom (pmem s) \<Longrightarrow> r = Some (join a b) \<and> no_oom m" by blast
  then have "join_dirs a b s = Some (r, s\<lparr>pmem := m\<rparr>)" by (simp add: join_dirs_def)
  then show ?thesis using c that by (simp add: frame_def)
qed

subsection \<open>A file system for concrete runs\<close>

text \<open>A list of nodes under their full paths; links are not followed, programs do nothing.\<close>

datatype ref_node = RDir "32 word" | RReg "32 word" string | RLnk string

type_synonym ref_world = "(string \<times> ref_node) list"

fun ref_mode :: "ref_node \<Rightarrow> 32 word" where
  "ref_mode (RDir m) = or 0x4000 (perm_bits m)"
| "ref_mode (RReg m bytes) = or 0x8000 (perm_bits m)"
| "ref_mode (RLnk tgt) = 0xA1FF"

definition ref_at :: "ref_world \<Rightarrow> string \<Rightarrow> ref_node option" where
  "ref_at w p = (if length p < PATH_MAX then map_of w p else None)"

definition ref_put :: "string \<Rightarrow> ref_node \<Rightarrow> ref_world \<Rightarrow> ref_world" where
  "ref_put p n w = filter (\<lambda>(q, _). q \<noteq> p) w @ [(p, n)]"

definition ref_del :: "string \<Rightarrow> ref_world \<Rightarrow> bool \<times> ref_world" where
  "ref_del p w = (ref_at w p \<noteq> None, filter (\<lambda>(q, _). q \<noteq> p) w)"

definition ref_entries :: "ref_world \<Rightarrow> string \<Rightarrow> string list" where
  "ref_entries w d =
     filter entry_name (map (\<lambda>(p, _). drop (length d + 1) p) (filter (\<lambda>(p, _). take (length d + 1) p = d @ [slash]) w))"

definition ref_append :: "string \<Rightarrow> string \<Rightarrow> ref_world \<Rightarrow> bool \<times> ref_world" where
  "ref_append p b w =
     (case ref_at w p of Some (RReg m bytes) \<Rightarrow> (True, ref_put p (RReg m (bytes @ b)) w) | _ \<Rightarrow> (False, w))"

definition ref_chmod :: "string \<Rightarrow> 32 word \<Rightarrow> ref_world \<Rightarrow> bool \<times> ref_world" where
  "ref_chmod p m w =
     (case ref_at w p of
        Some (RReg _ bytes) \<Rightarrow> (True, ref_put p (RReg m bytes) w)
      | Some (RDir _) \<Rightarrow> (True, ref_put p (RDir m) w)
      | _ \<Rightarrow> (False, w))"

definition ref_posix :: "ref_world posix" where
  "ref_posix =
     \<lparr>os_stat = (\<lambda>w p. map_option ref_mode (ref_at w p)), os_lstat = (\<lambda>w p. map_option ref_mode (ref_at w p)),
      os_readlink = (\<lambda>w p. case ref_at w p of Some (RLnk tgt) \<Rightarrow> Some tgt | _ \<Rightarrow> None),
      os_opendir = (\<lambda>w p. case ref_at w p of Some (RDir _) \<Rightarrow> Some (ref_entries w p) | _ \<Rightarrow> None),
      os_access_x = (\<lambda>w p. ref_at w p \<noteq> None),
      os_open_read = (\<lambda>w p. case ref_at w p of Some (RReg _ bytes) \<Rightarrow> Some (bytes, False) | _ \<Rightarrow> None),
      os_getenv_home = (\<lambda>w. None), os_getpid = (\<lambda>w. 1), os_realpath = (\<lambda>w p. Some p),
      os_mkdir = (\<lambda>p m w. if ref_at w p = None then (0, ref_put p (RDir m) w) else (EEXIST, w)),
      os_chmod = ref_chmod, os_unlink = ref_del, os_rmdir = ref_del,
      os_symlink = (\<lambda>tgt p w. if ref_at w p = None then (True, ref_put p (RLnk tgt) w) else (False, w)),
      os_rename = (\<lambda>p q w. case ref_at w p of None \<Rightarrow> (False, w) | Some n \<Rightarrow> (True, ref_put q n (snd (ref_del p w)))),
      os_open_write = (\<lambda>p w. (True, ref_put p (RReg 0x1A4 []) w)), os_write = ref_append, os_close = (\<lambda>p w. (True, w)),
      os_pipe = (\<lambda>w. (True, w)), os_fork = (\<lambda>w. (True, w)), os_unshare = (\<lambda>w. EPERM), os_chroot = (\<lambda>w r. 0),
      os_execl = (\<lambda>r p w. (Exited 0, w))\<rparr>"

lemma ref_posix_names: "posix_names ref_posix"
  by (auto simp: posix_names_def ref_posix_def ref_entries_def split: option.splits ref_node.splits)

lemma ref_posix_path_max: "posix_path_max ref_posix"
  by (auto simp: posix_path_max_def ref_posix_def ref_at_def)

definition ref_proc :: "ref_world \<Rightarrow> ref_world proc" where
  "ref_proc w = \<lparr>world = w, pmem = [], script_seq = 0, backup_seq = 0, extract_seq = 0, touched = [], started = []\<rparr>"

end
