(* ===== verification/Errors.thy ===== *)
theory Errors
  imports Posix
begin

text \<open>
  \<open>src/error.c\<close>: the message of the last failure, one buffer per thread.  The text that
  \<open>vsnprintf\<close> makes of the format is an argument.  No function of the library reads the buffer, so
  the other theories leave out the calls that write it.
\<close>

type_synonym thread = nat
type_synonym error_buffers = "thread \<Rightarrow> string"

definition ERROR_SIZE :: nat where
  "ERROR_SIZE = 1024"

definition apg_set_error :: "error_buffers \<Rightarrow> thread \<Rightarrow> string \<Rightarrow> error_buffers" where
  "apg_set_error g self msg = g(self := snprintf_to ERROR_SIZE msg)"

definition apg_clear_error :: "error_buffers \<Rightarrow> thread \<Rightarrow> error_buffers" where
  "apg_clear_error g self = g(self := [])"

definition apg_last_error :: "error_buffers \<Rightarrow> thread \<Rightarrow> pstr" where
  "apg_last_error g self = (if g self \<noteq> [] then Some (g self) else None)"

text \<open>
  A thread reads back its own last message, cut to the buffer, until it clears it, whatever the
  other threads record in between.
\<close>

inductive errors_run :: "thread \<Rightarrow> error_buffers \<Rightarrow> error_buffers \<Rightarrow> bool" for self where
  idle: "errors_run self g g"
| set_other: "errors_run self g h \<Longrightarrow> other \<noteq> self \<Longrightarrow> errors_run self g (apg_set_error h other msg)"
| clear_other: "errors_run self g h \<Longrightarrow> other \<noteq> self \<Longrightarrow> errors_run self g (apg_clear_error h other)"

lemma errors_run_own: "errors_run self g h \<Longrightarrow> h self = g self"
  by (induction rule: errors_run.induct) (simp_all add: apg_set_error_def apg_clear_error_def)

lemma last_error_thread_local:
  "errors_run self (apg_set_error g self msg) h \<Longrightarrow> msg \<noteq> [] \<Longrightarrow>
   \<exists>t. apg_last_error h self = Some t \<and> t = take 1023 msg \<and> length t < ERROR_SIZE"
  by (drule errors_run_own) (simp add: apg_last_error_def apg_set_error_def snprintf_to_def ERROR_SIZE_def)

lemma last_error_cleared: "errors_run self (apg_clear_error g self) h \<Longrightarrow> apg_last_error h self = None"
  by (drule errors_run_own) (simp add: apg_last_error_def apg_clear_error_def)

end
