(* ===== verification/Json.thy ===== *)
theory Json
  imports Package Util
begin

text \<open>
  \<open>src/json.c\<close>: package records to and from JSON text.  The text layer belongs to yyjson,
  which is a parameter: \<open>yyjson_read\<close> and \<open>yyjson_read_file\<close> give the value of a document or
  NULL, \<open>yyjson_mut_write\<close> the text of a value or NULL.  The values themselves are the
  datatype \<open>json\<close>, and the type tests of yyjson (\<open>yyjson_is_str\<close> and the like, false on
  NULL) are pattern matches on \<open>json option\<close>.  Every call that builds a part of a document
  may fail for lack of memory, and the code does not look at these results: the part is then
  missing.

  What is relied on of yyjson is \<open>yyjson_spec\<close>: a value whose strings are valid text is
  written, and reading what was written gives the value back.
\<close>

datatype json = JNull | JBool bool | JNum string | JStr string | JArr "json list" | JObj "(string \<times> json) list"

record yyjson =
  yyjson_read :: "string \<Rightarrow> json option"
  yyjson_read_file :: "string \<Rightarrow> json option"
  yyjson_mut_write :: "json \<Rightarrow> pstr"

definition yyjson_obj_get :: "json option \<Rightarrow> string \<Rightarrow> json option" where
  "yyjson_obj_get obj key = (case obj of Some (JObj kvs) \<Rightarrow> map_of kvs key | _ \<Rightarrow> None)"

subsection \<open>Reading\<close>

fun dup_items :: "json list \<Rightarrow> mem \<Rightarrow> str_list \<times> mem" where
  "dup_items [] mem = ([], mem)"
| "dup_items (v # vs) mem =
     (let (item, mem1) = (case v of JStr s \<Rightarrow> strdup_m (as_cstr s) mem | _ \<Rightarrow> (None, mem));
          (items, mem2) = dup_items vs mem1
      in (item # items, mem2))"

definition parse_str_array :: "json option \<Rightarrow> mem \<Rightarrow> str_list \<times> mem" where
  "parse_str_array arr mem =
     (case arr of
        Some (JArr vs) \<Rightarrow>
          (if vs = [] then ([], mem)
           else let (ok, mem1) = malloc_ok mem in if \<not> ok then ([], mem1) else dup_items vs mem1)
      | _ \<Rightarrow> ([], mem))"

fun parse_items :: "json list \<Rightarrow> mem \<Rightarrow> dep_constraint list \<times> mem" where
  "parse_items [] mem = ([], mem)"
| "parse_items (v # vs) mem =
     (let (item, mem1) =
            (case v of
               JStr s \<Rightarrow> dep_constraint_parse (Some (as_cstr s)) mem
             | _ \<Rightarrow> (\<lparr>dep_name = None, dep_op = VER_OP_ANY, dep_version = None\<rparr>, mem));
          (items, mem2) = parse_items vs mem1
      in (item # items, mem2))"

definition parse_dep_array :: "json option \<Rightarrow> mem \<Rightarrow> dep_constraint list \<times> mem" where
  "parse_dep_array arr mem =
     (case arr of
        Some (JArr vs) \<Rightarrow>
          (if vs = [] then ([], mem)
           else let (ok, mem1) = malloc_ok mem in if \<not> ok then ([], mem1) else parse_items vs mem1)
      | _ \<Rightarrow> ([], mem))"

text \<open>One text field: a string value is duplicated, anything else leaves the field NULL.\<close>

definition get_str :: "json option \<Rightarrow> string \<Rightarrow> mem \<Rightarrow> pstr \<times> mem" where
  "get_str root key mem =
     (case yyjson_obj_get root key of Some (JStr s) \<Rightarrow> strdup_m (as_cstr s) mem | _ \<Rightarrow> (None, mem))"

definition get_bool :: "json option \<Rightarrow> string \<Rightarrow> bool" where
  "get_bool root key = (case yyjson_obj_get root key of Some (JBool b) \<Rightarrow> b | _ \<Rightarrow> False)"

definition parse_metadata_from_root :: "json option \<Rightarrow> mem \<Rightarrow> package_metadata option \<times> mem" where
  "parse_metadata_from_root root mem =
     (let (meta, mem) = package_metadata_new mem in
      case meta of
        None \<Rightarrow> (None, mem)
      | Some meta \<Rightarrow>
          let (name, mem) = get_str root ''name'' mem;
              (version, mem) = get_str root ''version'' mem;
              (type, mem) = get_str root ''type'' mem;
              (architecture, mem) = get_str root ''architecture'' mem;
              (description, mem) = get_str root ''description'' mem;
              (maintainer, mem) = get_str root ''maintainer'' mem;
              (license, mem) = get_str root ''license'' mem;
              (homepage, mem) = get_str root ''homepage'' mem;
              (tags, mem) = parse_str_array (yyjson_obj_get root ''tags'') mem;
              (dependencies, mem) = parse_dep_array (yyjson_obj_get root ''dependencies'') mem;
              (conflicts, mem) = parse_str_array (yyjson_obj_get root ''conflicts'') mem;
              (provides, mem) = parse_str_array (yyjson_obj_get root ''provides'') mem;
              (replaces, mem) = parse_str_array (yyjson_obj_get root ''replaces'') mem;
              (conf, mem) = parse_str_array (yyjson_obj_get root ''conf'') mem
          in (Some (meta\<lparr>meta_name := name, meta_version := version, meta_type := type,
                meta_architecture := architecture, meta_description := description,
                meta_maintainer := maintainer, meta_license := license, meta_homepage := homepage,
                meta_tags := tags, meta_dependencies := dependencies, meta_conflicts := conflicts,
                meta_provides := provides, meta_replaces := replaces, meta_conf := conf\<rparr>), mem))"

definition is_obj :: "json option \<Rightarrow> bool" where
  "is_obj v = (case v of Some (JObj _) \<Rightarrow> True | _ \<Rightarrow> False)"

text \<open>An empty path is no path.\<close>

definition get_path :: "json option \<Rightarrow> mem \<Rightarrow> pstr \<times> mem" where
  "get_path root mem =
     (case yyjson_obj_get root ''pkg_path'' of
        Some (JStr s) \<Rightarrow> if as_cstr s \<noteq> [] then strdup_m (as_cstr s) mem else (None, mem)
      | _ \<Rightarrow> (None, mem))"

definition package_from_json :: "yyjson \<Rightarrow> string \<Rightarrow> mem \<Rightarrow> package option \<times> mem" where
  "package_from_json J text mem =
     (let root = yyjson_read J text in
      if \<not> is_obj root then (None, mem)
      else
        let (pkg, mem) = package_new mem in
        case pkg of
          None \<Rightarrow> (None, mem)
        | Some pkg \<Rightarrow>
            let (meta, mem) = parse_metadata_from_root root mem in
            case meta of
              None \<Rightarrow> (None, mem)
            | Some meta \<Rightarrow>
                let (path, mem) = get_path root mem in (Some (pkg\<lparr>pkg_meta := Some meta, installed_by_hand := get_bool root ''installed_by_hand'',
                      held := get_bool root ''held'', pkg_path := path\<rparr>), mem))"

definition package_metadata_from_json :: "yyjson \<Rightarrow> string \<Rightarrow> mem \<Rightarrow> package_metadata option \<times> mem" where
  "package_metadata_from_json J text mem =
     (let root = yyjson_read J text in
      if is_obj root then parse_metadata_from_root root mem else (None, mem))"

definition package_metadata_from_file :: "yyjson \<Rightarrow> string \<Rightarrow> mem \<Rightarrow> package_metadata option \<times> mem" where
  "package_metadata_from_file J path mem =
     (let root = yyjson_read_file J path in
      if is_obj root then parse_metadata_from_root root mem else (None, mem))"

subsection \<open>Writing\<close>

text \<open>The fields added to the root object so far; \<open>None\<close> is a root that could not be allocated.\<close>

type_synonym obj = "(string \<times> json) list option"

definition obj_add :: "string \<Rightarrow> json option \<Rightarrow> obj \<Rightarrow> mem \<Rightarrow> obj \<times> mem" where
  "obj_add key v root mem =
     (case (root, v) of
        (Some kvs, Some v) \<Rightarrow>
          let (ok, mem1) = malloc_ok mem in (Some (if ok then kvs @ [(key, v)] else kvs), mem1)
      | _ \<Rightarrow> (root, mem))"

fun arr_items :: "string option list \<Rightarrow> mem \<Rightarrow> json list \<times> mem" where
  "arr_items [] mem = ([], mem)"
| "arr_items (None # xs) mem = arr_items xs mem"
| "arr_items (Some s # xs) mem =
     (let (ok, mem1) = malloc_ok mem; (vs, mem2) = arr_items xs mem1
      in (if ok then JStr s # vs else vs, mem2))"

definition add_str_array :: "string \<Rightarrow> str_list \<Rightarrow> obj \<Rightarrow> mem \<Rightarrow> obj \<times> mem" where
  "add_str_array key list root mem =
     (let (ok, mem1) = malloc_ok mem in
      if \<not> ok then obj_add key None root mem1
      else let (vs, mem2) = arr_items list mem1 in obj_add key (Some (JArr vs)) root mem2)"

fun dep_items :: "dep_constraint list \<Rightarrow> bool \<Rightarrow> mem \<Rightarrow> json list \<times> mem" where
  "dep_items [] arr mem = ([], mem)"
| "dep_items (c # cs) arr mem =
     (let (s, mem1) = dep_constraint_to_str (Some c) mem in
      case s of
        None \<Rightarrow> dep_items cs arr mem1
      | Some s \<Rightarrow>
          let (ok, mem2) = (if arr then malloc_ok mem1 else (False, mem1)); (vs, mem3) = dep_items cs arr mem2
          in (if ok then JStr s # vs else vs, mem3))"

definition add_dep_array :: "string \<Rightarrow> dep_constraint list \<Rightarrow> obj \<Rightarrow> mem \<Rightarrow> obj \<times> mem" where
  "add_dep_array key list root mem =
     (let (ok, mem1) = malloc_ok mem; (vs, mem2) = dep_items list ok mem1
      in obj_add key (if ok then Some (JArr vs) else None) root mem2)"

definition or_else :: "pstr \<Rightarrow> string \<Rightarrow> string" where
  "or_else p d = (case p of None \<Rightarrow> d | Some s \<Rightarrow> s)"

definition package_to_json :: "yyjson \<Rightarrow> package \<Rightarrow> mem \<Rightarrow> (pstr \<times> mem) option" where
  "package_to_json J pkg mem =
     (let (doc_ok, mem) = malloc_ok mem;
          (root_ok, mem) = (if doc_ok then malloc_ok mem else (False, mem));
          root = (if root_ok then Some [] else None)
      in do {
        m \<leftarrow> pkg_meta pkg;
        let (root, mem) = obj_add ''name'' (Some (JStr (or_else (meta_name m) ''''))) root mem;
            (root, mem) = obj_add ''version'' (Some (JStr (or_else (meta_version m) ''''))) root mem;
            (root, mem) = obj_add ''type'' (Some (JStr (or_else (meta_type m) ''misc''))) root mem;
            (root, mem) = obj_add ''architecture'' (Some (JStr (or_else (meta_architecture m) ''''))) root mem;
            (root, mem) = obj_add ''description'' (Some (JStr (or_else (meta_description m) ''''))) root mem;
            (root, mem) = obj_add ''maintainer'' (Some (JStr (or_else (meta_maintainer m) ''''))) root mem;
            (root, mem) = obj_add ''license'' (Some (JStr (or_else (meta_license m) ''''))) root mem;
            (root, mem) = obj_add ''homepage'' (Some (JStr (or_else (meta_homepage m) ''''))) root mem;
            (root, mem) = obj_add ''installed_by_hand'' (Some (JBool (installed_by_hand pkg))) root mem;
            (root, mem) = obj_add ''held'' (Some (JBool (held pkg))) root mem;
            (root, mem) = obj_add ''pkg_path'' (Some (JStr (or_else (pkg_path pkg) ''''))) root mem;
            (root, mem) = add_str_array ''tags'' (meta_tags m) root mem;
            (root, mem) = add_dep_array ''dependencies'' (meta_dependencies m) root mem;
            (root, mem) = add_str_array ''conflicts'' (meta_conflicts m) root mem;
            (root, mem) = add_str_array ''provides'' (meta_provides m) root mem;
            (root, mem) = add_str_array ''replaces'' (meta_replaces m) root mem;
            (root, mem) = add_str_array ''conf'' (meta_conf m) root mem
        in Some (case root of None \<Rightarrow> None | Some kvs \<Rightarrow> yyjson_mut_write J (JObj kvs), mem)
      })"

subsection \<open>What is relied on of yyjson\<close>

text \<open>\<open>U\<close> says which strings are valid text (UTF-8): ASCII is, and so is a concatenation.\<close>

fun json_all :: "(string \<Rightarrow> bool) \<Rightarrow> json \<Rightarrow> bool" where
  "json_all U (JStr s) \<longleftrightarrow> U s"
| "json_all U (JArr vs) \<longleftrightarrow> (\<forall>v \<in> set vs. json_all U v)"
| "json_all U (JObj kvs) \<longleftrightarrow> (\<forall>(k, v) \<in> set kvs. U k \<and> json_all U v)"
| "json_all U _ \<longleftrightarrow> True"

definition ascii :: "string \<Rightarrow> bool" where
  "ascii s \<longleftrightarrow> (\<forall>c \<in> set s. uchar c < 128)"

definition yyjson_spec :: "yyjson \<Rightarrow> (string \<Rightarrow> bool) \<Rightarrow> bool" where
  "yyjson_spec J U \<longleftrightarrow>
     (\<forall>s. ascii s \<longrightarrow> U s) \<and> (\<forall>a b. U a \<longrightarrow> U b \<longrightarrow> U (a @ b)) \<and>
     (\<forall>v. json_all U v \<longrightarrow> (\<exists>t. yyjson_mut_write J v = Some t \<and> yyjson_read J t = Some v))"

subsection \<open>Writing and reading with memory available\<close>

definition text_items :: "str_list \<Rightarrow> json list" where
  "text_items xs = map (\<lambda>x. JStr (the x)) (filter (\<lambda>x. x \<noteq> None) xs)"

definition dep_texts :: "dep_constraint list \<Rightarrow> json list" where
  "dep_texts cs = map (\<lambda>c. JStr (constraint_text c)) (filter (\<lambda>c. dep_name c \<noteq> None) cs)"

definition deps_ok :: "dep_constraint list \<Rightarrow> bool" where
  "deps_ok cs \<longleftrightarrow> (\<forall>c \<in> set cs. dep_name c = None \<or> canonical c)"

definition list_ok :: "(string \<Rightarrow> bool) \<Rightarrow> str_list \<Rightarrow> bool" where
  "list_ok P xs \<longleftrightarrow> (\<forall>s. Some s \<in> set xs \<longrightarrow> P s)"

lemma list_ok_Cons [simp]: "list_ok P (x # xs) \<longleftrightarrow> (\<forall>s. x = Some s \<longrightarrow> P s) \<and> list_ok P xs"
  by (auto simp: list_ok_def)

lemma obj_add_no_oom [simp]:
  "no_oom mem \<Longrightarrow> obj_add key (Some v) (Some kvs) mem = (Some (kvs @ [(key, v)]), snd (malloc_ok mem))"
  by (simp add: obj_add_def split_def)

lemma arr_items_no_oom:
  "no_oom mem \<Longrightarrow> fst (arr_items xs mem) = text_items xs \<and> no_oom (snd (arr_items xs mem))"
proof (induction xs arbitrary: mem)
  case (Cons x xs)
  then show ?case by (cases x) (simp_all add: text_items_def split_def Let_def)
qed (simp add: text_items_def)

lemma dep_items_no_oom:
  "no_oom mem \<Longrightarrow> deps_ok cs \<Longrightarrow> fst (dep_items cs True mem) = dep_texts cs \<and> no_oom (snd (dep_items cs True mem))"
proof (induction cs arbitrary: mem)
  case (Cons c cs)
  show ?case
  proof (cases "dep_name c")
    case None
    then have "dep_constraint_to_str (Some c) mem = (None, mem)" by (simp add: dep_constraint_to_str_def)
    then show ?thesis using Cons None by (simp add: deps_ok_def dep_texts_def)
  next
    case (Some n)
    then have "canonical c" using Cons.prems by (simp add: deps_ok_def)
    then show ?thesis using Cons Some to_str_canonical [of c mem]
      by (simp add: deps_ok_def dep_texts_def split_def Let_def)
  qed
qed (simp add: dep_texts_def)

text \<open>The allocator after an array.\<close>

definition mem_str :: "str_list \<Rightarrow> mem \<Rightarrow> mem" where
  "mem_str xs mem = snd (malloc_ok (snd (arr_items xs (snd (malloc_ok mem)))))"

definition mem_dep :: "dep_constraint list \<Rightarrow> mem \<Rightarrow> mem" where
  "mem_dep cs mem = snd (malloc_ok (snd (dep_items cs True (snd (malloc_ok mem)))))"

lemma no_oom_mem_str [simp]: "no_oom mem \<Longrightarrow> no_oom (mem_str xs mem)"
  by (simp add: mem_str_def arr_items_no_oom)

lemma no_oom_mem_dep [simp]: "no_oom mem \<Longrightarrow> deps_ok cs \<Longrightarrow> no_oom (mem_dep cs mem)"
  by (simp add: mem_dep_def dep_items_no_oom)

lemma add_str_array_no_oom [simp]:
  "no_oom mem \<Longrightarrow>
     add_str_array key xs (Some kvs) mem = (Some (kvs @ [(key, JArr (text_items xs))]), mem_str xs mem)"
  by (simp add: add_str_array_def split_def arr_items_no_oom mem_str_def)

lemma add_dep_array_no_oom [simp]:
  "no_oom mem \<Longrightarrow> deps_ok cs \<Longrightarrow>
     add_dep_array key cs (Some kvs) mem = (Some (kvs @ [(key, JArr (dep_texts cs))]), mem_dep cs mem)"
  by (simp add: add_dep_array_def split_def dep_items_no_oom mem_dep_def)

text \<open>The document of a package.\<close>

definition package_doc :: "package \<Rightarrow> package_metadata \<Rightarrow> (string \<times> json) list" where
  "package_doc p m =
     [(''name'', JStr (or_else (meta_name m) '''')), (''version'', JStr (or_else (meta_version m) '''')),
      (''type'', JStr (or_else (meta_type m) ''misc'')), (''architecture'', JStr (or_else (meta_architecture m) '''')),
      (''description'', JStr (or_else (meta_description m) '''')), (''maintainer'', JStr (or_else (meta_maintainer m) '''')),
      (''license'', JStr (or_else (meta_license m) '''')), (''homepage'', JStr (or_else (meta_homepage m) '''')),
      (''installed_by_hand'', JBool (installed_by_hand p)), (''held'', JBool (held p)),
      (''pkg_path'', JStr (or_else (pkg_path p) '''')), (''tags'', JArr (text_items (meta_tags m))),
      (''dependencies'', JArr (dep_texts (meta_dependencies m))), (''conflicts'', JArr (text_items (meta_conflicts m))),
      (''provides'', JArr (text_items (meta_provides m))), (''replaces'', JArr (text_items (meta_replaces m))),
      (''conf'', JArr (text_items (meta_conf m)))]"

lemma package_to_json_no_oom:
  assumes "no_oom mem" and "pkg_meta p = Some m" and "deps_ok (meta_dependencies m)"
  shows "\<exists>mem'. package_to_json J p mem = Some (yyjson_mut_write J (JObj (package_doc p m)), mem') \<and> no_oom mem'"
proof -
  obtain mem1 where m1: "malloc_ok mem = (True, mem1)" "no_oom mem1" using assms(1) by (rule malloc_no_oomE)
  obtain mem2 where m2: "malloc_ok mem1 = (True, mem2)" "no_oom mem2" using m1(2) by (rule malloc_no_oomE)
  show ?thesis using assms(2,3) m1 m2 by (simp add: package_to_json_def package_doc_def)
qed

lemma dup_items_no_oom:
  "no_oom mem \<Longrightarrow> list_ok cstring xs \<Longrightarrow>
     fst (dup_items (text_items xs) mem) = filter (\<lambda>x. x \<noteq> None) xs \<and> no_oom (snd (dup_items (text_items xs) mem))"
proof (induction xs arbitrary: mem)
  case (Cons x xs)
  then show ?case by (cases x) (auto simp: text_items_def split_def Let_def)
qed (simp add: text_items_def)

definition mem_strs :: "str_list \<Rightarrow> mem \<Rightarrow> mem" where
  "mem_strs xs mem = snd (parse_str_array (Some (JArr (text_items xs))) mem)"

lemma parse_str_array_no_oom:
  assumes "no_oom mem" and "list_ok cstring xs"
  shows "parse_str_array (Some (JArr (text_items xs))) mem = (filter (\<lambda>x. x \<noteq> None) xs, mem_strs xs mem)"
    and "no_oom (mem_strs xs mem)"
  using dup_items_no_oom [of "snd (malloc_ok mem)" xs] assms
  by (auto simp: mem_strs_def parse_str_array_def split_def Let_def text_items_def filter_empty_conv prod_eq_iff)

lemma parse_items_no_oom:
  "no_oom mem \<Longrightarrow> deps_ok cs \<Longrightarrow> (\<And>c. c \<in> set cs \<Longrightarrow> dep_name c \<noteq> None \<Longrightarrow> cstring (constraint_text c)) \<Longrightarrow>
     fst (parse_items (dep_texts cs) mem) = filter (\<lambda>c. dep_name c \<noteq> None) cs \<and>
     no_oom (snd (parse_items (dep_texts cs) mem))"
proof (induction cs arbitrary: mem)
  case (Cons c cs)
  show ?case
  proof (cases "dep_name c = None")
    case True
    then show ?thesis using Cons by (simp add: deps_ok_def dep_texts_def)
  next
    case False
    then have c: "canonical c" "cstring (constraint_text c)" using Cons.prems by (auto simp: deps_ok_def)
    obtain mem1 where "dep_constraint_parse (Some (constraint_text c)) mem = (c, mem1)" "no_oom mem1"
      using parse_constraint_text [OF c(1) Cons.prems(1)] by blast
    then show ?thesis using Cons False c by (simp add: deps_ok_def dep_texts_def split_def Let_def)
  qed
qed (simp add: dep_texts_def)

definition mem_deps :: "dep_constraint list \<Rightarrow> mem \<Rightarrow> mem" where
  "mem_deps cs mem = snd (parse_dep_array (Some (JArr (dep_texts cs))) mem)"

definition dep_text_ok :: "(string \<Rightarrow> bool) \<Rightarrow> dep_constraint list \<Rightarrow> bool" where
  "dep_text_ok P cs \<longleftrightarrow> (\<forall>c \<in> set cs. dep_name c \<noteq> None \<longrightarrow> P (constraint_text c))"

lemma parse_dep_array_no_oom:
  assumes "no_oom mem" and "deps_ok cs" and "dep_text_ok cstring cs"
  shows "parse_dep_array (Some (JArr (dep_texts cs))) mem = (filter (\<lambda>c. dep_name c \<noteq> None) cs, mem_deps cs mem)"
    and "no_oom (mem_deps cs mem)"
  using parse_items_no_oom [of "snd (malloc_ok mem)" cs] assms
  by (auto simp: mem_deps_def parse_dep_array_def split_def Let_def dep_texts_def dep_text_ok_def
      filter_empty_conv prod_eq_iff)

lemma get_str_no_oom:
  assumes "no_oom mem" and "yyjson_obj_get root key = Some (JStr s)" and "cstring s"
  shows "get_str root key mem = (Some s, snd (malloc_ok mem))"
  using assms by (simp add: get_str_def strdup_m_def split_def)

subsection \<open>The record that comes back\<close>

text \<open>
  What the database keeps of a package: missing texts become empty (the type \<open>misc\<close>), NULL
  list items and nameless dependencies are dropped, an empty path is no path, and the file
  list is stored elsewhere.
\<close>

definition stored_meta :: "package_metadata \<Rightarrow> package_metadata" where
  "stored_meta m =
     \<lparr>meta_name = Some (or_else (meta_name m) ''''), meta_version = Some (or_else (meta_version m) ''''),
      meta_type = Some (or_else (meta_type m) ''misc''), meta_architecture = Some (or_else (meta_architecture m) ''''),
      meta_description = Some (or_else (meta_description m) ''''), meta_maintainer = Some (or_else (meta_maintainer m) ''''),
      meta_license = Some (or_else (meta_license m) ''''), meta_homepage = Some (or_else (meta_homepage m) ''''),
      meta_tags = filter (\<lambda>x. x \<noteq> None) (meta_tags m),
      meta_dependencies = filter (\<lambda>c. dep_name c \<noteq> None) (meta_dependencies m),
      meta_conflicts = filter (\<lambda>x. x \<noteq> None) (meta_conflicts m),
      meta_provides = filter (\<lambda>x. x \<noteq> None) (meta_provides m),
      meta_replaces = filter (\<lambda>x. x \<noteq> None) (meta_replaces m),
      meta_conf = filter (\<lambda>x. x \<noteq> None) (meta_conf m)\<rparr>"

definition stored :: "package \<Rightarrow> package" where
  "stored p = p\<lparr>pkg_meta := map_option stored_meta (pkg_meta p), package_files := [],
     pkg_path := if pkg_path p = Some '''' then None else pkg_path p\<rparr>"

lemma stored_meta_idem [simp]: "stored_meta (stored_meta m) = stored_meta m"
  by (simp add: stored_meta_def or_else_def)

lemma stored_idem [simp]: "stored (stored p) = stored p"
  by (simp add: stored_def option.map_comp o_def)

text \<open>Every text of the package satisfies \<open>P\<close>, and its dependencies have a canonical text.\<close>

definition meta_ok :: "(string \<Rightarrow> bool) \<Rightarrow> package_metadata \<Rightarrow> bool" where
  "meta_ok P m \<longleftrightarrow>
     list_ok P [meta_name m, meta_version m, meta_type m, meta_architecture m, meta_description m,
       meta_maintainer m, meta_license m, meta_homepage m] \<and>
     list_ok P (meta_tags m) \<and> list_ok P (meta_conflicts m) \<and> list_ok P (meta_provides m) \<and>
     list_ok P (meta_replaces m) \<and> list_ok P (meta_conf m) \<and> dep_text_ok P (meta_dependencies m)"

definition package_ok :: "(string \<Rightarrow> bool) \<Rightarrow> package \<Rightarrow> bool" where
  "package_ok P p \<longleftrightarrow> (\<exists>m. pkg_meta p = Some m \<and> meta_ok P m \<and> meta_ok cstring m \<and> deps_ok (meta_dependencies m)) \<and>
     list_ok P [pkg_path p] \<and> list_ok cstring [pkg_path p]"

lemma or_else_ok: "(\<forall>s. x = Some s \<longrightarrow> P s) \<Longrightarrow> P d \<Longrightarrow> P (or_else x d)"
  by (cases x) (simp_all add: or_else_def)

lemma doc_get:
  fixes p m
  defines "root \<equiv> Some (JObj (package_doc p m))"
  shows "yyjson_obj_get root ''name'' = Some (JStr (or_else (meta_name m) ''''))"
    "yyjson_obj_get root ''version'' = Some (JStr (or_else (meta_version m) ''''))"
    "yyjson_obj_get root ''type'' = Some (JStr (or_else (meta_type m) ''misc''))"
    "yyjson_obj_get root ''architecture'' = Some (JStr (or_else (meta_architecture m) ''''))"
    "yyjson_obj_get root ''description'' = Some (JStr (or_else (meta_description m) ''''))"
    "yyjson_obj_get root ''maintainer'' = Some (JStr (or_else (meta_maintainer m) ''''))"
    "yyjson_obj_get root ''license'' = Some (JStr (or_else (meta_license m) ''''))"
    "yyjson_obj_get root ''homepage'' = Some (JStr (or_else (meta_homepage m) ''''))"
    "yyjson_obj_get root ''installed_by_hand'' = Some (JBool (installed_by_hand p))"
    "yyjson_obj_get root ''held'' = Some (JBool (held p))"
    "yyjson_obj_get root ''pkg_path'' = Some (JStr (or_else (pkg_path p) ''''))"
    "yyjson_obj_get root ''tags'' = Some (JArr (text_items (meta_tags m)))"
    "yyjson_obj_get root ''dependencies'' = Some (JArr (dep_texts (meta_dependencies m)))"
    "yyjson_obj_get root ''conflicts'' = Some (JArr (text_items (meta_conflicts m)))"
    "yyjson_obj_get root ''provides'' = Some (JArr (text_items (meta_provides m)))"
    "yyjson_obj_get root ''replaces'' = Some (JArr (text_items (meta_replaces m)))"
    "yyjson_obj_get root ''conf'' = Some (JArr (text_items (meta_conf m)))"
  by (simp_all add: root_def yyjson_obj_get_def package_doc_def)

lemma parse_metadata_doc:
  assumes "no_oom mem" and "meta_ok cstring m" and "deps_ok (meta_dependencies m)"
  shows "\<exists>mem'. parse_metadata_from_root (Some (JObj (package_doc p m))) mem = (Some (stored_meta m), mem') \<and> no_oom mem'"
proof -
  obtain mem1 where m1: "package_metadata_new mem = (Some zero_metadata, mem1)" "no_oom mem1"
    using assms(1) by (simp add: package_metadata_new_def split_def)
  have c: "cstring (or_else (meta_name m) '''')" "cstring (or_else (meta_version m) '''')"
    "cstring (or_else (meta_type m) ''misc'')" "cstring (or_else (meta_architecture m) '''')"
    "cstring (or_else (meta_description m) '''')" "cstring (or_else (meta_maintainer m) '''')"
    "cstring (or_else (meta_license m) '''')" "cstring (or_else (meta_homepage m) '''')"
    using assms(2) by (simp_all add: meta_ok_def or_else_def split: option.split)
  have l: "list_ok cstring (meta_tags m)" "list_ok cstring (meta_conflicts m)" "list_ok cstring (meta_provides m)"
    "list_ok cstring (meta_replaces m)" "list_ok cstring (meta_conf m)" "dep_text_ok cstring (meta_dependencies m)"
    using assms(2) by (simp_all add: meta_ok_def)
  define root where "root = Some (JObj (package_doc p m))"
  note get = doc_get [of p m, folded root_def]
  note step = get_str_no_oom [OF _ get(1)] get_str_no_oom [OF _ get(2)] get_str_no_oom [OF _ get(3)]
    get_str_no_oom [OF _ get(4)] get_str_no_oom [OF _ get(5)] get_str_no_oom [OF _ get(6)]
    get_str_no_oom [OF _ get(7)] get_str_no_oom [OF _ get(8)]
  show ?thesis
    unfolding parse_metadata_from_root_def root_def [symmetric]
    by (simp add: m1 c l assms(3) step get(12-17) parse_str_array_no_oom parse_dep_array_no_oom stored_meta_def
        zero_metadata_def)
qed

lemma package_from_doc:
  assumes "no_oom mem" and "pkg_meta p = Some m" and "package_ok P p"
    and "yyjson_read J t = Some (JObj (package_doc p m))"
  shows "\<exists>mem'. package_from_json J t mem = (Some (stored p), mem') \<and> no_oom mem'"
proof -
  have m: "meta_ok cstring m" "deps_ok (meta_dependencies m)" "list_ok cstring [pkg_path p]"
    using assms(2,3) by (auto simp: package_ok_def)
  obtain mem1 where m1: "package_new mem = (Some \<lparr>pkg_meta = Some zero_metadata, pkg_path = None, package_files = [],
      installed_by_hand = False, held = False\<rparr>, mem1)" "no_oom mem1"
    using assms(1) by (simp add: package_new_def package_metadata_new_def split_def)
  obtain mem2 where m2: "parse_metadata_from_root (Some (JObj (package_doc p m))) mem1 = (Some (stored_meta m), mem2)"
    "no_oom mem2" using parse_metadata_doc [OF m1(2) m(1,2)] by blast
  define root where "root = Some (JObj (package_doc p m))"
  have "as_cstr (or_else (pkg_path p) '''') = or_else (pkg_path p) ''''"
    using m(3) by (simp add: or_else_def split: option.split)
  moreover have "get_bool root ''installed_by_hand'' = installed_by_hand p" "get_bool root ''held'' = held p"
    by (simp_all add: get_bool_def doc_get root_def)
  moreover have "is_obj root" by (simp add: is_obj_def root_def)
  moreover have "strdup_m s mem2 = (Some s, snd (malloc_ok mem2))" for s
    using m2(2) by (simp add: strdup_m_def split_def)
  ultimately show ?thesis
    using assms(2,4) m1 m2 doc_get(11) [of p m]
    by (cases "pkg_path p") (auto simp: package_from_json_def root_def [symmetric] get_path_def stored_def or_else_def)
qed

lemma doc_text:
  assumes "yyjson_spec J U" and "pkg_meta p = Some m" and "package_ok U p"
  shows "json_all U (JObj (package_doc p m))"
proof -
  have U: "\<And>s. ascii s \<Longrightarrow> U s" using assms(1) by (simp add: yyjson_spec_def)
  have lists: "json_all U (JArr (text_items xs))" if "list_ok U xs" for xs
    using that by (auto simp: text_items_def list_ok_def)
  have strs: "U (or_else x d)" if "list_ok U [x]" "ascii d" for x d
    using that U [of d] by (cases x) (simp_all add: or_else_def)
  have m: "meta_ok U m" "list_ok U [pkg_path p]" using assms(2,3) by (auto simp: package_ok_def)
  have "json_all U (JArr (dep_texts (meta_dependencies m)))"
    using m(1) by (auto simp: meta_ok_def dep_texts_def dep_text_ok_def)
  moreover have "ascii ''misc''" "ascii []" by (simp_all add: ascii_def uchar_def)
  moreover have "\<forall>k \<in> fst ` set (package_doc p m). ascii k"
    by (simp add: package_doc_def ascii_def uchar_def)
  ultimately have "\<forall>(k, v) \<in> set (package_doc p m). json_all U v"
    using m lists strs unfolding package_doc_def meta_ok_def by (simp del: json_all.simps(2))
  then show ?thesis using U \<open>\<forall>k \<in> fst ` set (package_doc p m). ascii k\<close> by force
qed

text \<open>A package record survives the text, as its stored form.\<close>

lemma json_write_read:
  assumes "yyjson_spec J U" and "package_ok U p" and "no_oom mem" and "no_oom mem'"
  shows "\<exists>t mem1 mem2. package_to_json J p mem = Some (Some t, mem1) \<and> no_oom mem1 \<and>
    package_from_json J t mem' = (Some (stored p), mem2) \<and> no_oom mem2"
proof -
  obtain m where m: "pkg_meta p = Some m" "deps_ok (meta_dependencies m)"
    using assms(2) by (auto simp: package_ok_def)
  obtain t where t: "yyjson_mut_write J (JObj (package_doc p m)) = Some t"
    "yyjson_read J t = Some (JObj (package_doc p m))"
    using assms(1) doc_text [OF assms(1) m(1) assms(2)] unfolding yyjson_spec_def by blast
  obtain mem1 where "package_to_json J p mem = Some (Some t, mem1)" "no_oom mem1"
    using package_to_json_no_oom [OF assms(3) m, of J] t(1) by auto
  then show ?thesis using package_from_doc [OF assms(4) m(1) assms(2) t(2)] by blast
qed

subsection \<open>Reading does not exhaust the memory\<close>

lemma parse_constraint_oom: "no_oom mem \<Longrightarrow> no_oom (snd (dep_constraint_parse s mem))"
  by (auto simp: dep_constraint_parse_def trim_strdup_def trim_strndup_def split_def Let_def split: option.split)

lemma items_oom:
  "no_oom mem \<Longrightarrow> no_oom (snd (dup_items vs mem))" "no_oom mem \<Longrightarrow> no_oom (snd (parse_items vs mem))"
proof (induction vs arbitrary: mem)
  case (Cons v vs)
  { case 1
    then have "no_oom (snd (case v of JStr s \<Rightarrow> strdup_m (as_cstr s) mem | _ \<Rightarrow> (None, mem)))" by (cases v) simp_all
    then show ?case using Cons by (simp add: split_def Let_def) }
  { case 2
    then have "no_oom (snd (case v of JStr s \<Rightarrow> dep_constraint_parse (Some (as_cstr s)) mem
        | _ \<Rightarrow> (\<lparr>dep_name = None, dep_op = VER_OP_ANY, dep_version = None\<rparr>, mem)))"
      using parse_constraint_oom by (cases v) simp_all
    then show ?case using Cons by (simp add: split_def Let_def) }
qed simp_all

lemma arrays_oom:
  "no_oom mem \<Longrightarrow> no_oom (snd (parse_str_array arr mem))" "no_oom mem \<Longrightarrow> no_oom (snd (parse_dep_array arr mem))"
  "no_oom mem \<Longrightarrow> no_oom (snd (get_str arr key mem))"
  using items_oom
  by (auto simp: parse_str_array_def parse_dep_array_def get_str_def split_def Let_def split: option.split json.split)

lemma parse_metadata_oom: "no_oom mem \<Longrightarrow> no_oom (snd (parse_metadata_from_root root mem))"
  unfolding parse_metadata_from_root_def
  by (intro oom_let; (auto simp: package_metadata_new_def split_def Let_def arrays_oom split: option.split intro!: oom_let)?)

lemma package_from_json_oom:
  assumes m: "no_oom mem"
  shows "no_oom (snd (package_from_json J body mem))"
proof -
  define root where "root = yyjson_read J body"
  obtain pkg m1 where new: "package_new mem = (pkg, m1)" by fastforce
  have m1: "no_oom m1" using new m by (auto simp: package_new_def package_metadata_new_def split_def Let_def split: if_splits)
  obtain meta m2 where parse: "parse_metadata_from_root root m1 = (meta, m2)" by fastforce
  have m2: "no_oom m2" using parse_metadata_oom [OF m1, of root] parse by simp
  have "no_oom (snd (get_path root m2))" using m2 by (auto simp: get_path_def split: option.split json.split)
  then show ?thesis
    using m m1 m2 new parse unfolding package_from_json_def root_def [symmetric]
    by (cases pkg; cases meta) (simp_all add: Let_def split_def)
qed

end
