(* ===== verification/Lmdb.thy ===== *)
theory Lmdb
  imports Prelude "HOL-Library.List_Lexorder" "HOL-Library.Char_ord"
begin

text \<open>
  The interface of LMDB as libAPG uses it.  LMDB is a parameter: the operations are the
  fields of a record \<open>lmdb\<close>, over a type of environments \<open>'e\<close> and one of transactions \<open>'t\<close>.
  Every operation that can fail returns a code (\<open>MDB_SUCCESS = 0\<close>), and failing is up to the
  library at every call.  A database handle is the name it was opened with, \<open>None\<close> for the
  unnamed one; a cursor that is moved by \<open>MDB_NEXT\<close> until it fails is the list of the records
  it visits.

  \<open>lmdb_spec\<close> states the documented behaviour that is relied on, through views of the
  contents as maps: a transaction sees what was committed and its own writes; \<open>mdb_put\<close> and
  \<open>mdb_del\<close> change one record; a commit publishes the transaction's view or, when it fails,
  nothing; an aborted transaction leaves no trace; a failed write either changed nothing or
  makes the transaction unusable (\<open>doomed\<close>: it cannot be committed), and deleting a record that
  exists does not fail without that; records are visited in
  the order of their keys; names of named databases are records of the unnamed one, which
  opening with \<open>MDB_CREATE\<close> may add.
\<close>

type_synonym mdb_dbi = pstr

definition MDB_SUCCESS :: int where "MDB_SUCCESS = 0"
definition MDB_NOTFOUND :: int where "MDB_NOTFOUND = - 30798"
definition MDB_MAP_FULL :: int where "MDB_MAP_FULL = - 30792"
definition ENOMEM :: int where "ENOMEM = 12"

record ('e, 't) lmdb =
  mdb_txn_begin :: "'e \<Rightarrow> bool \<Rightarrow> (int \<times> 'e) + 't"
  mdb_dbi_open :: "'t \<Rightarrow> mdb_dbi \<Rightarrow> bool \<Rightarrow> int \<times> 't"
  mdb_get :: "'t \<Rightarrow> mdb_dbi \<Rightarrow> string \<Rightarrow> int + string"
  mdb_put :: "'t \<Rightarrow> mdb_dbi \<Rightarrow> string \<Rightarrow> string \<Rightarrow> int \<times> 't"
  mdb_del :: "'t \<Rightarrow> mdb_dbi \<Rightarrow> string \<Rightarrow> int \<times> 't"
  mdb_cursor :: "'t \<Rightarrow> mdb_dbi \<Rightarrow> (string \<times> string) list option"
  mdb_stat :: "'t \<Rightarrow> mdb_dbi \<Rightarrow> nat option"
  mdb_txn_commit :: "'t \<Rightarrow> int \<times> 'e"
  mdb_txn_abort :: "'t \<Rightarrow> 'e"
  mdb_env_info :: "'e \<Rightarrow> nat option"
  mdb_env_set_mapsize :: "'e \<Rightarrow> nat \<Rightarrow> int \<times> 'e"

type_synonym contents = "mdb_dbi \<Rightarrow> string \<Rightarrow> string option"

record ('e, 't) lmdb_view =
  env_view :: "'e \<Rightarrow> contents"
  txn_view :: "'t \<Rightarrow> contents"
  txn_base :: "'t \<Rightarrow> contents"
  doomed :: "'t \<Rightarrow> bool"

definition set_rec :: "contents \<Rightarrow> mdb_dbi \<Rightarrow> string \<Rightarrow> string option \<Rightarrow> contents" where
  "set_rec C d k v = C(d := (C d)(k := v))"

definition write_law :: "('e, 't) lmdb_view \<Rightarrow> 't \<Rightarrow> int \<times> 't \<Rightarrow> contents \<Rightarrow> bool" where
  "write_law V t r C \<longleftrightarrow> txn_base V (snd r) = txn_base V t \<and>
     (fst r = MDB_SUCCESS \<longrightarrow> txn_view V (snd r) = C) \<and>
     (fst r \<noteq> MDB_SUCCESS \<longrightarrow> txn_view V (snd r) = txn_view V t \<or> doomed V (snd r)) \<and>
     (doomed V t \<longrightarrow> doomed V (snd r))"

definition lmdb_spec :: "('e, 't) lmdb \<Rightarrow> ('e, 't) lmdb_view \<Rightarrow> bool" where
  "lmdb_spec L V \<longleftrightarrow>
     (\<forall>e ro rc e'. mdb_txn_begin L e ro = Inl (rc, e') \<longrightarrow> rc \<noteq> MDB_SUCCESS \<and> env_view V e' = env_view V e) \<and>
     (\<forall>e ro t. mdb_txn_begin L e ro = Inr t \<longrightarrow> txn_view V t = env_view V e \<and> txn_base V t = env_view V e) \<and>
     (\<forall>t d create rc t'. mdb_dbi_open L t d create = (rc, t') \<longrightarrow> txn_base V t' = txn_base V t \<and>
        (doomed V t \<longrightarrow> doomed V t') \<and>
        (\<forall>d' k. create \<and> d' = None \<and> d = Some k \<or> txn_view V t' d' k = txn_view V t d' k)) \<and>
     (\<forall>t d k v. txn_view V t d k = Some v \<longrightarrow> mdb_get L t d k = Inr v) \<and>
     (\<forall>t d k. txn_view V t d k = None \<longrightarrow> (\<exists>rc. rc \<noteq> MDB_SUCCESS \<and> mdb_get L t d k = Inl rc)) \<and>
     (\<forall>t d k v. write_law V t (mdb_put L t d k v) (set_rec (txn_view V t) d k (Some v))) \<and>
     (\<forall>t d k. write_law V t (mdb_del L t d k) (set_rec (txn_view V t) d k None)) \<and>
     (\<forall>t d k. if txn_view V t d k = None then fst (mdb_del L t d k) \<noteq> MDB_SUCCESS
        else fst (mdb_del L t d k) = MDB_SUCCESS \<or> doomed V (snd (mdb_del L t d k))) \<and>
     (\<forall>t d xs. mdb_cursor L t d = Some xs \<longrightarrow> sorted_wrt (<) (map fst xs) \<and> map_of xs = txn_view V t d) \<and>
     (\<forall>t d n. mdb_stat L t d = Some n \<longrightarrow> n = card (dom (txn_view V t d))) \<and>
     (\<forall>t rc e. mdb_txn_commit L t = (rc, e) \<longrightarrow>
        env_view V e = (if rc = MDB_SUCCESS then txn_view V t else txn_base V t) \<and>
        (rc = MDB_SUCCESS \<longrightarrow> \<not> doomed V t)) \<and>
     (\<forall>t. env_view V (mdb_txn_abort L t) = txn_base V t) \<and>
     (\<forall>e n rc e'. mdb_env_set_mapsize L e n = (rc, e') \<longrightarrow> env_view V e' = env_view V e)"

subsection \<open>The laws, one by one\<close>


lemma lmdb_laws:
  assumes "lmdb_spec L V"
  shows "\<forall>e ro rc e'. mdb_txn_begin L e ro = Inl (rc, e') \<longrightarrow> rc \<noteq> MDB_SUCCESS \<and> env_view V e' = env_view V e"
    and "\<forall>e ro t. mdb_txn_begin L e ro = Inr t \<longrightarrow> txn_view V t = env_view V e \<and> txn_base V t = env_view V e"
    and "\<forall>t d create rc t'. mdb_dbi_open L t d create = (rc, t') \<longrightarrow> txn_base V t' = txn_base V t \<and>
      (doomed V t \<longrightarrow> doomed V t') \<and>
      (\<forall>d' k. create \<and> d' = None \<and> d = Some k \<or> txn_view V t' d' k = txn_view V t d' k)"
    and "\<forall>t d k v. txn_view V t d k = Some v \<longrightarrow> mdb_get L t d k = Inr v"
    and "\<forall>t d k. txn_view V t d k = None \<longrightarrow> (\<exists>rc. rc \<noteq> MDB_SUCCESS \<and> mdb_get L t d k = Inl rc)"
    and "\<forall>t d k v. write_law V t (mdb_put L t d k v) (set_rec (txn_view V t) d k (Some v))"
    and "\<forall>t d k. write_law V t (mdb_del L t d k) (set_rec (txn_view V t) d k None)"
    and "\<forall>t d k. if txn_view V t d k = None then fst (mdb_del L t d k) \<noteq> MDB_SUCCESS
        else fst (mdb_del L t d k) = MDB_SUCCESS \<or> doomed V (snd (mdb_del L t d k))"
    and "\<forall>t d xs. mdb_cursor L t d = Some xs \<longrightarrow> sorted_wrt (<) (map fst xs) \<and> map_of xs = txn_view V t d"
    and "\<forall>t d n. mdb_stat L t d = Some n \<longrightarrow> n = card (dom (txn_view V t d))"
    and "\<forall>t rc e. mdb_txn_commit L t = (rc, e) \<longrightarrow>
      env_view V e = (if rc = MDB_SUCCESS then txn_view V t else txn_base V t) \<and>
      (rc = MDB_SUCCESS \<longrightarrow> \<not> doomed V t)"
    and "\<forall>t. env_view V (mdb_txn_abort L t) = txn_base V t"
    and "\<forall>e n rc e'. mdb_env_set_mapsize L e n = (rc, e') \<longrightarrow> env_view V e' = env_view V e"
  by (insert assms, unfold lmdb_spec_def, (elim conjE, assumption)+)

lemma lmdb_begin_fail:
  "lmdb_spec L V \<Longrightarrow> mdb_txn_begin L e ro = Inl (rc, e') \<Longrightarrow> rc \<noteq> MDB_SUCCESS \<and> env_view V e' = env_view V e"
  by (drule lmdb_laws(1)) simp

lemma lmdb_begin:
  "lmdb_spec L V \<Longrightarrow> mdb_txn_begin L e ro = Inr t \<Longrightarrow> txn_view V t = env_view V e \<and> txn_base V t = env_view V e"
  by (drule lmdb_laws(2)) simp

lemma lmdb_open:
  "lmdb_spec L V \<Longrightarrow> mdb_dbi_open L t d create = (rc, t') \<Longrightarrow> txn_base V t' = txn_base V t \<and>
     (doomed V t \<longrightarrow> doomed V t') \<and>
     (\<forall>d' k. create \<and> d' = None \<and> d = Some k \<or> txn_view V t' d' k = txn_view V t d' k)"
  by (drule lmdb_laws(3)) simp

lemma lmdb_open_same:
  "lmdb_spec L V \<Longrightarrow> mdb_dbi_open L t d False = (rc, t') \<Longrightarrow> txn_base V t' = txn_base V t \<and> txn_view V t' = txn_view V t"
  using lmdb_open [of L V t d False rc t'] by (auto simp: fun_eq_iff)

lemma lmdb_get: "lmdb_spec L V \<Longrightarrow> mdb_get L t d k = Inr v \<longleftrightarrow> txn_view V t d k = Some v"
proof -
  assume spec: "lmdb_spec L V"
  have "txn_view V t d k = Some w \<Longrightarrow> mdb_get L t d k = Inr w" for w using lmdb_laws(4) [OF spec] by blast
  moreover have "txn_view V t d k = None \<Longrightarrow> \<exists>rc. mdb_get L t d k = Inl rc" using lmdb_laws(5) [OF spec] by blast
  ultimately show ?thesis by (cases "txn_view V t d k") auto
qed

lemma lmdb_put: "lmdb_spec L V \<Longrightarrow> write_law V t (mdb_put L t d k v) (set_rec (txn_view V t) d k (Some v))"
  by (drule lmdb_laws(6)) simp

lemma lmdb_del: "lmdb_spec L V \<Longrightarrow> write_law V t (mdb_del L t d k) (set_rec (txn_view V t) d k None)"
  by (drule lmdb_laws(7)) simp

lemma lmdb_del_absent: "lmdb_spec L V \<Longrightarrow> txn_view V t d k = None \<Longrightarrow> fst (mdb_del L t d k) \<noteq> MDB_SUCCESS"
  using lmdb_laws(8) [of L V] by metis

lemma lmdb_del_present:
  "lmdb_spec L V \<Longrightarrow> txn_view V t d k = Some v \<Longrightarrow> fst (mdb_del L t d k) = MDB_SUCCESS \<or> doomed V (snd (mdb_del L t d k))"
  using lmdb_laws(8) [of L V] by (metis option.distinct(1))

lemma lmdb_cursor:
  "lmdb_spec L V \<Longrightarrow> mdb_cursor L t d = Some xs \<Longrightarrow> sorted_wrt (<) (map fst xs) \<and> map_of xs = txn_view V t d"
  by (drule lmdb_laws(9)) simp

lemma lmdb_stat: "lmdb_spec L V \<Longrightarrow> mdb_stat L t d = Some n \<Longrightarrow> n = card (dom (txn_view V t d))"
  by (drule lmdb_laws(10)) simp

lemma lmdb_commit:
  "lmdb_spec L V \<Longrightarrow> mdb_txn_commit L t = (rc, e) \<Longrightarrow>
     env_view V e = (if rc = MDB_SUCCESS then txn_view V t else txn_base V t) \<and> (rc = MDB_SUCCESS \<longrightarrow> \<not> doomed V t)"
  by (drule lmdb_laws(11)) simp

lemma lmdb_abort: "lmdb_spec L V \<Longrightarrow> env_view V (mdb_txn_abort L t) = txn_base V t"
  by (drule lmdb_laws(12)) simp

lemma lmdb_mapsize: "lmdb_spec L V \<Longrightarrow> mdb_env_set_mapsize L e n = (rc, e') \<Longrightarrow> env_view V e' = env_view V e"
  by (drule lmdb_laws(13)) simp

lemma set_rec_simps [simp]:
  "set_rec C d k v d k = v" "d' \<noteq> d \<or> k' \<noteq> k \<Longrightarrow> set_rec C d k v d' k' = C d' k'" "d' \<noteq> d \<Longrightarrow> set_rec C d k v d' = C d'"
  by (auto simp: set_rec_def)

lemma set_rec_same [simp]: "set_rec C d k v d = (C d)(k := v)"
  by (simp add: set_rec_def)

text \<open>Keys visited in strict order are distinct.\<close>

lemma cursor_distinct: "sorted_wrt (<) (map fst (xs :: (string \<times> string) list)) \<Longrightarrow> distinct (map fst xs)"
  by (simp add: strict_sorted_iff)

subsection \<open>A store that meets the specification\<close>

text \<open>Association lists in memory; no operation fails for lack of resources.\<close>

type_synonym ref_env = "mdb_dbi \<Rightarrow> (string \<times> string) list"

fun kv_put :: "string \<times> string \<Rightarrow> (string \<times> string) list \<Rightarrow> (string \<times> string) list" where
  "kv_put kv [] = [kv]"
| "kv_put kv (x # xs) =
     (if fst kv < fst x then kv # x # xs else if fst kv = fst x then kv # xs else x # kv_put kv xs)"

definition kv_sort :: "(string \<times> string) list \<Rightarrow> (string \<times> string) list" where
  "kv_sort xs = foldr kv_put xs []"

definition ref_open :: "ref_env \<Rightarrow> mdb_dbi \<Rightarrow> bool \<Rightarrow> int \<times> ref_env" where
  "ref_open C d create =
     (case d of
        None \<Rightarrow> (MDB_SUCCESS, C)
      | Some name \<Rightarrow>
          if map_of (C None) name \<noteq> None then (MDB_SUCCESS, C)
          else if create then (MDB_SUCCESS, C(None := (name, ''db'') # C None)) else (MDB_NOTFOUND, C))"

definition ref_lmdb :: "(ref_env, ref_env \<times> ref_env) lmdb" where
  "ref_lmdb = \<lparr>mdb_txn_begin = (\<lambda>e ro. Inr (e, e)),
     mdb_dbi_open = (\<lambda>(b, C) d create. let (rc, C') = ref_open C d create in (rc, (b, C'))),
     mdb_get = (\<lambda>(b, C) d k. case map_of (C d) k of None \<Rightarrow> Inl MDB_NOTFOUND | Some v \<Rightarrow> Inr v),
     mdb_put = (\<lambda>(b, C) d k v. (MDB_SUCCESS, (b, C(d := (k, v) # C d)))),
     mdb_del = (\<lambda>(b, C) d k. if map_of (C d) k = None then (MDB_NOTFOUND, (b, C))
                 else (MDB_SUCCESS, (b, C(d := filter (\<lambda>(k', v). k' \<noteq> k) (C d))))),
     mdb_cursor = (\<lambda>(b, C) d. Some (kv_sort (C d))),
     mdb_stat = (\<lambda>(b, C) d. Some (length (kv_sort (C d)))),
     mdb_txn_commit = (\<lambda>(b, C). (MDB_SUCCESS, C)),
     mdb_txn_abort = fst,
     mdb_env_info = (\<lambda>e. Some 1048576),
     mdb_env_set_mapsize = (\<lambda>e n. (MDB_SUCCESS, e))\<rparr>"

definition ref_view :: "(ref_env, ref_env \<times> ref_env) lmdb_view" where
  "ref_view = \<lparr>env_view = (\<lambda>e d. map_of (e d)), txn_view = (\<lambda>t d. map_of (snd t d)),
     txn_base = (\<lambda>t d. map_of (fst t d)), doomed = (\<lambda>_. False)\<rparr>"

lemma kv_put_set: "fst ` set (kv_put kv xs) = insert (fst kv) (fst ` set xs)"
  by (induction xs) auto

lemma kv_put_sorted: "sorted_wrt (<) (map fst xs) \<Longrightarrow> sorted_wrt (<) (map fst (kv_put kv xs))"
proof (induction xs)
  case (Cons x xs)
  have "\<forall>y \<in> fst ` set (kv_put kv xs). fst x < y" if "fst x < fst kv"
    using that Cons.prems by (simp add: kv_put_set)
  then show ?case using Cons by (auto simp: not_less dest: order.strict_trans)
qed simp

lemma kv_put_map_of: "sorted_wrt (<) (map fst xs) \<Longrightarrow> map_of (kv_put kv xs) = (map_of xs)(fst kv \<mapsto> snd kv)"
proof (induction xs)
  case (Cons x xs)
  then show ?case by (cases kv; cases x) (auto simp: fun_eq_iff)
qed (cases kv; simp)

lemma kv_sort_spec: "sorted_wrt (<) (map fst (kv_sort xs)) \<and> map_of (kv_sort xs) = map_of xs"
  by (induction xs) (auto simp: kv_sort_def kv_put_sorted kv_put_map_of)

lemma kv_sort_length: "length (kv_sort xs) = card (dom (map_of xs))"
proof -
  have "distinct (map fst (kv_sort xs))" using cursor_distinct kv_sort_spec by blast
  then have "length (kv_sort xs) = card (fst ` set (kv_sort xs))" by (metis distinct_card length_map list.set_map)
  then show ?thesis using kv_sort_spec [of xs] by (metis dom_map_of_conv_image_fst)
qed

lemma map_of_filter_key: "map_of (filter (\<lambda>(k', v). k' \<noteq> k) xs) = (map_of xs)(k := None)"
  by (induction xs) (auto simp: fun_eq_iff)

lemma ref_open_view:
  "ref_open C d create = (rc, C') \<Longrightarrow> create \<and> d' = None \<and> d = Some k \<or> map_of (C' d') k = map_of (C d') k"
  by (auto simp: ref_open_def split: option.splits if_splits)

lemmas ref_simps = ref_lmdb_def ref_view_def write_law_def set_rec_def map_of_filter_key kv_sort_spec
  kv_sort_length MDB_SUCCESS_def MDB_NOTFOUND_def

lemma ref_lmdb_spec: "lmdb_spec ref_lmdb ref_view"
proof -
  have "create \<and> d' = None \<and> d = Some k \<or> txn_view ref_view t' d' k = txn_view ref_view t d' k"
    if "mdb_dbi_open ref_lmdb t d create = (rc, t')" for t d create rc t' d' k
    using that ref_open_view [of "snd t" d create _ _ d' k]
    by (cases t) (auto simp: ref_lmdb_def ref_view_def split: prod.splits)
  moreover have "txn_base ref_view t' = txn_base ref_view t"
    if "mdb_dbi_open ref_lmdb t d create = (rc, t')" for t d create rc t'
    using that by (cases t) (auto simp: ref_lmdb_def ref_view_def split: prod.splits)
  ultimately show ?thesis
    unfolding lmdb_spec_def
    by (intro conjI allI impI) (auto simp: ref_simps fun_eq_iff split: option.splits prod.splits if_splits)
qed

end
