(* ===== verification/Journal.thy ===== *)
theory Journal
  imports Lmdb Util
begin

text \<open>
  \<open>src/db/journal.c\<close>: the operation log.  An entry is a record of the database \<open>journal\<close>; its
  key is the time and a sequence number in big-endian bytes, its value the fields as text.
  Times are \<open>time_t\<close> seen as the 64-bit word the code stores, sequence numbers and user ids are
  32-bit words.  The process-wide \<open>seq_counter\<close> and the clock are passed in.
\<close>

datatype journal_op = JOURNAL_INSTALL | JOURNAL_REMOVE | JOURNAL_ROLLBACK

datatype journal_status = JOURNAL_STATUS_OK | JOURNAL_STATUS_FAILED

record journal_entry =
  je_op :: journal_op
  je_pkg_name :: pstr
  je_pkg_version :: pstr
  je_timestamp :: "64 word"
  je_status :: journal_status
  je_uid :: "32 word"
  je_explicit :: bool

text \<open>The low byte, then shift, \<open>n\<close> times; the code fills its array from the right.\<close>

fun low_bytes :: "nat \<Rightarrow> 'a :: len word \<Rightarrow> char list" where
  "low_bytes 0 w = []"
| "low_bytes (Suc n) w = char_of (unat (take_bit 8 w)) # low_bytes n (drop_bit 8 w)"

definition pack_key :: "64 word \<Rightarrow> 32 word \<Rightarrow> string" where
  "pack_key ts seq = rev (low_bytes 8 ts) @ rev (low_bytes 4 seq)"

definition unpack_ts :: "string \<Rightarrow> 64 word" where
  "unpack_ts key = foldl (\<lambda>t c. or (push_bit 8 t) (of_nat (of_char c))) 0 (take 8 key)"

fun op_to_str :: "journal_op \<Rightarrow> string" where
  "op_to_str JOURNAL_INSTALL = ''install''"
| "op_to_str JOURNAL_ROLLBACK = ''rollback''"
| "op_to_str JOURNAL_REMOVE = ''remove''"

fun status_to_str :: "journal_status \<Rightarrow> string" where
  "status_to_str JOURNAL_STATUS_OK = ''ok''"
| "status_to_str JOURNAL_STATUS_FAILED = ''failed''"

definition bar :: char where "bar = CHR ''|''"

definition or_dash :: "pstr \<Rightarrow> string" where
  "or_dash s = (case s of None \<Rightarrow> ''-'' | Some s \<Rightarrow> s)"

text \<open>The value: \<open>snprintf\<close> into 512 bytes keeps 511 characters.\<close>

definition journal_text :: "journal_op \<Rightarrow> pstr \<Rightarrow> pstr \<Rightarrow> journal_status \<Rightarrow> 32 word \<Rightarrow> bool \<Rightarrow> string" where
  "journal_text op name version status uid explicit_op =
     take 511 (op_to_str op @ [bar] @ or_dash name @ [bar] @ or_dash version @ [bar] @ status_to_str status @ [bar] @
       print_nat (unat uid) @ [bar] @ (if explicit_op then ''1'' else ''0''))"

text \<open>Result, environment and the sequence counter.  The code does not look at the commit.\<close>

definition journal_write ::
  "('e, 't) lmdb \<Rightarrow> 'e \<Rightarrow> journal_op \<Rightarrow> pstr \<Rightarrow> pstr \<Rightarrow> journal_status \<Rightarrow> 32 word \<Rightarrow> bool \<Rightarrow> 64 word \<Rightarrow> 32 word \<Rightarrow>
   bool \<times> 'e \<times> 32 word" where
  "journal_write L env op name version status uid explicit_op now seq =
     (case mdb_txn_begin L env False of
        Inl (rc, env') \<Rightarrow> (False, env', seq)
      | Inr txn \<Rightarrow>
          let (rc, txn1) = mdb_dbi_open L txn (Some ''journal'') True in
          if rc \<noteq> MDB_SUCCESS then (False, mdb_txn_abort L txn1, seq)
          else
            let (rc, txn2) = mdb_put L txn1 (Some ''journal'') (pack_key now seq)
                               (journal_text op name version status uid explicit_op)
            in if rc = MDB_SUCCESS then (True, snd (mdb_txn_commit L txn2), seq + 1)
               else (False, mdb_txn_abort L txn2, seq + 1))"

text \<open>At most \<open>n\<close> cuts at a bar.\<close>

fun split_fields :: "nat \<Rightarrow> string \<Rightarrow> string list" where
  "split_fields n [] = [[]]"
| "split_fields 0 s = [s]"
| "split_fields (Suc n) (c # cs) =
     (if c = bar then [] # split_fields n cs
      else case split_fields (Suc n) cs of [] \<Rightarrow> [[c]] | f # fs \<Rightarrow> (c # f) # fs)"

definition dash_dup :: "string \<Rightarrow> mem \<Rightarrow> pstr \<times> mem" where
  "dash_dup f mem = (if f = ''-'' then (None, mem) else strdup_m f mem)"

definition op_of_str :: "string \<Rightarrow> journal_op" where
  "op_of_str f = (if f = ''install'' then JOURNAL_INSTALL else if f = ''rollback'' then JOURNAL_ROLLBACK else JOURNAL_REMOVE)"

text \<open>The body of the reading loop; \<open>None\<close> skips the record.\<close>

definition parse_entry :: "string \<Rightarrow> string \<Rightarrow> mem \<Rightarrow> journal_entry option \<times> mem" where
  "parse_entry key val mem =
     (if length key < 12 then (None, mem)
      else let (ok, mem1) = malloc_ok mem in
        if \<not> ok then (None, mem1)
        else let fields = split_fields 5 (as_cstr val); fi = length fields - 1 in
          if fi < 3 then (None, mem1)
          else let (ok, mem2) = malloc_ok mem1 in
            if \<not> ok then (None, mem2)
            else
              let (name, mem3) = dash_dup (fields ! 1) mem2; (version, mem4) = dash_dup (fields ! 2) mem3 in
              (Some \<lparr>je_op = op_of_str (fields ! 0),
                     je_pkg_name = name, je_pkg_version = version, je_timestamp = unpack_ts key,
                     je_status = (if fields ! 3 = ''ok'' then JOURNAL_STATUS_OK else JOURNAL_STATUS_FAILED),
                     je_uid = (if 4 \<le> fi then word_of_int (strtoul (fields ! 4)) else 0),
                     je_explicit = (5 \<le> fi \<and> cur (fields ! 5) = uchar (CHR ''1''))\<rparr>, mem4))"

fun read_loop :: "(string \<times> string) list \<Rightarrow> journal_entry list \<Rightarrow> nat \<Rightarrow> mem \<Rightarrow> journal_entry list \<times> mem" where
  "read_loop [] entries cap mem = (entries, mem)"
| "read_loop ((k, v) # r) entries cap mem =
     (let (e, mem1) = parse_entry k v mem in
      case e of
        None \<Rightarrow> read_loop r entries cap mem1
      | Some e \<Rightarrow>
          let (ok, cap', mem2) = reserve 16 (length entries) cap mem1 in
          if \<not> ok then (entries, mem2) else read_loop r (entries @ [e]) cap' mem2)"

text \<open>\<open>None\<close> is a NULL list.\<close>

definition journal_read_all :: "('e, 't) lmdb \<Rightarrow> 'e \<Rightarrow> mem \<Rightarrow> journal_entry list option \<times> 'e \<times> mem" where
  "journal_read_all L env mem =
     (case mdb_txn_begin L env True of
        Inl (rc, env') \<Rightarrow> (None, env', mem)
      | Inr txn \<Rightarrow>
          let (rc, txn1) = mdb_dbi_open L txn (Some ''journal'') False in
          if rc \<noteq> MDB_SUCCESS then (None, mdb_txn_abort L txn1, mem)
          else case mdb_cursor L txn1 (Some ''journal'') of
            None \<Rightarrow> (None, mdb_txn_abort L txn1, mem)
          | Some recs \<Rightarrow>
              let (ok, mem1) = malloc_ok mem in
              if \<not> ok then (None, mdb_txn_abort L txn1, mem1)
              else let (entries, mem2) = read_loop recs [] 16 mem1
                   in (Some entries, mdb_txn_abort L txn1, mem2))"

subsection \<open>Keys are numbers in base 256\<close>

definition be_val :: "char list \<Rightarrow> nat" where
  "be_val cs = foldl (\<lambda>a c. 256 * a + of_char c) 0 cs"

lemma foldl_be_val: "foldl (\<lambda>a c. 256 * a + of_char c) a cs = a * 256 ^ length cs + be_val cs"
proof (induction cs arbitrary: a)
  case (Cons c cs)
  have "foldl (\<lambda>a c. 256 * a + of_char c) a (c # cs) = (256 * a + of_char c) * 256 ^ length cs + be_val cs"
    using Cons [of "256 * a + of_char c"] by simp
  moreover have "be_val (c # cs) = of_char c * 256 ^ length cs + be_val cs"
    using Cons [of "of_char c"] by (simp add: be_val_def)
  ultimately show ?case by (simp add: algebra_simps)
qed (simp add: be_val_def)

lemma be_val_append: "be_val (a @ b) = be_val a * 256 ^ length b + be_val b"
  using foldl_be_val [of "be_val a" b] by (simp add: be_val_def)

lemma be_val_Cons: "be_val (c # cs) = of_char c * 256 ^ length cs + be_val cs"
  using be_val_append [of "[c]" cs] by (simp add: be_val_def)

lemma be_val_Nil [simp]: "be_val [] = 0"
  by (simp add: be_val_def)

lemma of_char_less [simp]: "(of_char c :: nat) < 256"
  using of_char_mod_256 [of c] by (metis mod_less_divisor zero_less_numeral)

lemma be_val_less_pow: "be_val cs < 256 ^ length cs"
proof (induction cs)
  case (Cons c cs)
  have "be_val (c # cs) < (of_char c + 1) * 256 ^ length cs" using Cons by (simp add: be_val_Cons)
  also have "\<dots> \<le> 256 * 256 ^ length cs" using of_char_less [of c] by (intro mult_right_mono) linarith+
  finally show ?case by simp
qed simp

text \<open>On keys of one length, the order of the database is the order of these numbers.\<close>

lemma be_val_less_iff: "length a = length b \<Longrightarrow> a < b \<longleftrightarrow> be_val a < be_val b"
proof (induction a b rule: list_induct2)
  case (Cons c a d b)
  let ?p = "256 ^ length b :: nat"
  have lt: "be_val a < ?p" "be_val b < ?p" using be_val_less_pow [of a] be_val_less_pow [of b] Cons.hyps by simp_all
  have ord: "c < d \<longleftrightarrow> (of_char c :: nat) < of_char d" by (simp add: less_char_def)
  have step: "x * ?p + be_val a < y * ?p + be_val b" if "x < y" for x y :: nat
  proof -
    have "x * ?p + be_val a < (x + 1) * ?p" using lt by simp
    also have "\<dots> \<le> y * ?p" using that by (intro mult_right_mono) simp_all
    finally show ?thesis by simp
  qed
  have step': "y * ?p + be_val b < x * ?p + be_val a" if "y < x" for x y :: nat
  proof -
    have "y * ?p + be_val b < (y + 1) * ?p" using lt by simp
    also have "\<dots> \<le> x * ?p" using that by (intro mult_right_mono) simp_all
    finally show ?thesis by simp
  qed
  consider "(of_char c :: nat) < of_char d" | "c = d" | "(of_char d :: nat) < of_char c"
    by (metis less_linear of_char_eq_iff)
  then show ?case
  proof cases
    case 1
    then show ?thesis using step [OF 1] ord Cons.hyps by (simp add: be_val_Cons)
  next
    case 2
    then show ?thesis using Cons by (simp add: be_val_Cons)
  next
    case 3
    then have "\<not> c < d" "c \<noteq> d" using ord by auto
    then show ?thesis using step' [OF 3] Cons.hyps by (simp add: be_val_Cons)
  qed
qed simp

lemma length_low_bytes [simp]: "length (low_bytes n w) = n"
  by (induction n arbitrary: w) simp_all

lemma be_val_low_bytes: "be_val (rev (low_bytes n w)) = unat w mod 256 ^ n"
proof (induction n arbitrary: w)
  case (Suc n)
  have "of_char (char_of (unat (take_bit 8 w)) :: char) = unat w mod 256"
    unfolding unsigned_take_bit_eq by (simp add: of_char_of take_bit_eq_mod)
  moreover have "unat (drop_bit 8 w) = unat w div 256"
    unfolding unsigned_drop_bit_eq by (simp add: drop_bit_eq_div div_le_dividend take_bit_nat_eq_self order.strict_trans1)
  ultimately have "be_val (rev (low_bytes (Suc n) w)) = (unat w div 256 mod 256 ^ n) * 256 + unat w mod 256"
    by (simp add: be_val_append be_val_Cons Suc)
  then show ?case by (simp add: mod_mult2_eq [of "unat w" 256 "256 ^ n"] mult.commute)
qed simp

lemma be_val_pack_key: "be_val (pack_key ts seq) = unat ts * 256 ^ 4 + unat seq"
proof -
  have "unat ts < 256 ^ 8" "unat seq < 256 ^ 4"
    using unsigned_less [of ts] unsigned_less [of seq] by simp_all
  then show ?thesis by (simp add: pack_key_def be_val_append be_val_low_bytes)
qed

lemma length_pack_key [simp]: "length (pack_key ts seq) = 12"
  by (simp add: pack_key_def)

lemma pack_key_less: "pack_key t1 s1 < pack_key t2 s2 \<longleftrightarrow> t1 < t2 \<or> t1 = t2 \<and> s1 < s2"
proof -
  have s: "unat s1 < 256 ^ 4" "unat s2 < 256 ^ 4" using unsigned_less [of s1] unsigned_less [of s2] by simp_all
  have "unat t1 * 256 ^ 4 + unat s1 < unat t2 * 256 ^ 4 + unat s2 \<longleftrightarrow>
      unat t1 < unat t2 \<or> unat t1 = unat t2 \<and> unat s1 < unat s2"
    using s by (cases "unat t1" "unat t2" rule: linorder_cases) auto
  then show ?thesis
    using be_val_less_iff [of "pack_key t1 s1" "pack_key t2 s2"]
    by (simp add: be_val_pack_key word_less_nat_alt word_unat_eq_iff)
qed

lemma or_byte: "n < 256 \<Longrightarrow> or (push_bit 8 t) (of_nat n) = t * 256 + of_nat n" for t :: "64 word"
proof -
  assume n: "n < 256"
  have "\<not> bit n k" if "8 \<le> k" for k
  proof -
    have "n < 2 ^ k" using n power_increasing [OF that, of "2 :: nat"] by simp
    then show ?thesis by (simp add: bit_iff_odd)
  qed
  then have "\<not> bit (push_bit 8 t) k \<or> \<not> bit (of_nat n :: 64 word) k" for k
    by (cases "8 \<le> k") (auto simp: bit_push_bit_iff bit_of_nat_iff)
  then have "push_bit 8 t + of_nat n = or (push_bit 8 t) (of_nat n)" by (rule disjunctive_add)
  then show ?thesis by (simp add: push_bit_eq_mult)
qed

lemma unpack_ts_eq: "unpack_ts key = of_nat (be_val (take 8 key))"
proof -
  have "foldl (\<lambda>t c. or (push_bit 8 t) (of_nat (of_char c))) (of_nat a :: 64 word) cs =
      of_nat (foldl (\<lambda>a c. 256 * a + of_char c) a cs)" for a cs
  proof (induction cs arbitrary: a)
    case (Cons c cs)
    have "or (push_bit 8 (of_nat a)) (of_nat (of_char c)) = (of_nat (256 * a + of_char c) :: 64 word)"
      using or_byte [of "of_char c" "of_nat a"] by (simp add: mult.commute)
    then show ?case using Cons [of "256 * a + of_char c"] by simp
  qed simp
  from this [of 0] show ?thesis by (simp add: unpack_ts_def be_val_def)
qed

lemma unpack_pack [simp]: "unpack_ts (pack_key ts seq) = ts"
proof -
  have "unat ts < 256 ^ 8" using unsigned_less [of ts] by simp
  then show ?thesis by (simp add: unpack_ts_eq pack_key_def be_val_low_bytes)
qed

subsection \<open>Entries read back\<close>

lemma split_fields_bar: "bar \<notin> set f \<Longrightarrow> split_fields (Suc n) (f @ bar # rest) = f # split_fields n rest"
  by (induction f) auto

lemma split_fields_last: "bar \<notin> set f \<Longrightarrow> split_fields n f = [f]"
  by (induction n f rule: split_fields.induct) auto

text \<open>Fields the text can carry: no bar, no NUL, and not the dash that stands for NULL.\<close>

definition plain_field :: "pstr \<Rightarrow> bool" where
  "plain_field x \<longleftrightarrow> (\<forall>s. x = Some s \<longrightarrow> bar \<notin> set s \<and> cstring s \<and> s \<noteq> ''-'')"

definition fits :: "journal_op \<Rightarrow> pstr \<Rightarrow> pstr \<Rightarrow> journal_status \<Rightarrow> 32 word \<Rightarrow> bool" where
  "fits op name version status uid \<longleftrightarrow>
     length (op_to_str op) + length (or_dash name) + length (or_dash version) + length (status_to_str status) +
       length (print_nat (unat uid)) + 6 \<le> 511"

lemma digit_no_bar: "bar \<notin> set (print_nat n)" "cstring (print_nat n)"
proof -
  have "\<not> c_isdigit bar" "\<not> c_isdigit (CHR 0x00)" by (simp_all add: c_isdigit_def bar_def uchar_def)
  then show "bar \<notin> set (print_nat n)" "cstring (print_nat n)" using print_nat_digits by (auto simp: cstring_def)
qed

lemma split_journal_text:
  assumes "plain_field name" and "plain_field version" and "fits op name version status uid"
  shows "split_fields 5 (as_cstr (journal_text op name version status uid expl)) =
    [op_to_str op, or_dash name, or_dash version, status_to_str status, print_nat (unat uid), if expl then ''1'' else ''0'']"
proof -
  define v where "v = (if expl then ''1'' else ''0'')"
  define s where "s = op_to_str op @ [bar] @ or_dash name @ [bar] @ or_dash version @ [bar] @ status_to_str status @
    [bar] @ print_nat (unat uid) @ [bar] @ v"
  have v: "bar \<notin> set v" "cstring v" "length v = 1" by (simp_all add: v_def bar_def)
  have nb: "bar \<notin> set (op_to_str op)" "bar \<notin> set (status_to_str status)" "bar \<notin> set (or_dash name)" "bar \<notin> set (or_dash version)"
    using assms(1,2) by (cases op; cases status; auto simp: or_dash_def plain_field_def bar_def split: option.splits)+
  have cs: "cstring (op_to_str op)" "cstring (status_to_str status)" "cstring (or_dash name)" "cstring (or_dash version)" "cstring [bar]"
    using assms(1,2) by (cases op; cases status; auto simp: or_dash_def plain_field_def bar_def split: option.splits)+
  have "length s \<le> 511" using assms(3) v(3) by (simp add: s_def fits_def)
  then have "journal_text op name version status uid expl = s" by (simp add: journal_text_def s_def v_def)
  moreover have "as_cstr s = s" using cs v(2) digit_no_bar by (intro as_cstr_id) (simp add: s_def)
  moreover have "split_fields 5 s = [op_to_str op, or_dash name, or_dash version, status_to_str status, print_nat (unat uid), v]"
    using nb v(1) digit_no_bar by (simp add: s_def eval_nat_numeral split_fields_bar split_fields_last)
  ultimately show ?thesis by (simp add: v_def)
qed

definition entry_of :: "journal_op \<Rightarrow> pstr \<Rightarrow> pstr \<Rightarrow> journal_status \<Rightarrow> 32 word \<Rightarrow> bool \<Rightarrow> 64 word \<Rightarrow> journal_entry" where
  "entry_of op name version status uid expl ts =
     \<lparr>je_op = op, je_pkg_name = name, je_pkg_version = version, je_timestamp = ts, je_status = status,
      je_uid = uid, je_explicit = expl\<rparr>"

lemma dash_dup_no_oom:
  "no_oom mem \<Longrightarrow> plain_field x \<Longrightarrow> fst (dash_dup (or_dash x) mem) = x \<and> no_oom (snd (dash_dup (or_dash x) mem))"
  by (cases x) (auto simp: dash_dup_def or_dash_def plain_field_def)

lemma parse_journal_text:
  assumes "plain_field name" and "plain_field version" and "fits op name version status uid" and "no_oom mem"
  shows "\<exists>mem'. parse_entry (pack_key ts seq) (journal_text op name version status uid expl) mem =
    (Some (entry_of op name version status uid expl ts), mem') \<and> no_oom mem'"
proof -
  have uid: "word_of_int (strtoul (print_nat (unat uid))) = uid"
    using strtoul_print [of "unat uid"] unsigned_less [of uid, where ?'a = int] by simp
  have op: "op_of_str (op_to_str op) = op" by (cases op) (simp_all add: op_of_str_def)
  have st: "(if status_to_str status = ''ok'' then JOURNAL_STATUS_OK else JOURNAL_STATUS_FAILED) = status"
    by (cases status) simp_all
  have one: "(cur (if expl then ''1'' else ''0'') = uchar (CHR ''1'')) = expl" by (simp add: uchar_def)
  note d = dash_dup_no_oom [OF _ assms(1)] dash_dup_no_oom [OF _ assms(2)]
  show ?thesis
    using assms(4) d
    by (simp add: parse_entry_def split_journal_text [OF assms(1-3)] split_def Let_def entry_of_def uid op st one
        split del: if_split)
qed

text \<open>Reading keeps the order of the keys.\<close>

lemma parse_entry_ts: "parse_entry k v mem = (Some e, mem') \<Longrightarrow> je_timestamp e = unpack_ts k \<and> 12 \<le> length k"
  by (auto simp: parse_entry_def Let_def split: if_splits prod.splits)

lemma unpack_ts_mono: "length a = length b \<Longrightarrow> 8 \<le> length a \<Longrightarrow> a < b \<Longrightarrow> unpack_ts a \<le> unpack_ts b"
proof -
  assume len: "length a = length b" "8 \<le> length a" and lt: "a < b"
  have len8: "length (take 8 a) = 8" "length (take 8 b) = 8" using len by simp_all
  have "\<not> take 8 b < take 8 a"
  proof
    assume "take 8 b < take 8 a"
    then have "be_val (take 8 b) < be_val (take 8 a)" using be_val_less_iff [of "take 8 b" "take 8 a"] len8 by simp
    moreover have "be_val a = be_val (take 8 a) * 256 ^ (length a - 8) + be_val (drop 8 a)"
      using be_val_append [of "take 8 a" "drop 8 a"] by simp
    moreover have "be_val b = be_val (take 8 b) * 256 ^ (length a - 8) + be_val (drop 8 b)"
      using be_val_append [of "take 8 b" "drop 8 b"] len by simp
    moreover have "be_val (drop 8 b) < 256 ^ (length a - 8)" using be_val_less_pow [of "drop 8 b"] len by simp
    moreover have "be_val a < be_val b" using be_val_less_iff [OF len(1)] lt by simp
    ultimately have "be_val (take 8 a) * 256 ^ (length a - 8) < (be_val (take 8 b) + 1) * 256 ^ (length a - 8)" by simp
    moreover have "(be_val (take 8 b) + 1) * 256 ^ (length a - 8) \<le> be_val (take 8 a) * 256 ^ (length a - 8)"
      using \<open>be_val (take 8 b) < be_val (take 8 a)\<close> by (intro mult_right_mono) simp_all
    ultimately show False by linarith
  qed
  then have "be_val (take 8 a) \<le> be_val (take 8 b)" using be_val_less_iff [of "take 8 b" "take 8 a"] len8 by simp
  moreover have "be_val (take 8 x) < 2 ^ 64" if "length (take 8 x) = 8" for x
    using be_val_less_pow [of "take 8 x"] that by simp
  ultimately show ?thesis using len8
    by (simp add: unpack_ts_eq word_le_nat_alt unat_of_nat take_bit_nat_eq_self)
qed

lemma read_loop_sorted:
  assumes "sorted_wrt (<) (map fst recs)" and "\<forall>k \<in> fst ` set recs. length k = 12"
    and "sorted (map je_timestamp es)" and "\<forall>e \<in> set es. \<forall>k \<in> fst ` set recs. je_timestamp e \<le> unpack_ts k"
  shows "sorted (map je_timestamp (fst (read_loop recs es cap mem)))"
  using assms
proof (induction recs es cap mem rule: read_loop.induct)
  case (2 k v r es cap mem)
  obtain e mem1 where p: "parse_entry k v mem = (e, mem1)" by fastforce
  show ?case
  proof (cases e)
    case None
    then show ?thesis using 2 p by simp
  next
    case (Some x)
    then have ts: "je_timestamp x = unpack_ts k" using p parse_entry_ts by blast
    obtain ok cap' mem2 where r: "reserve 16 (length es) cap mem1 = (ok, cap', mem2)" by (metis prod_cases3)
    have "unpack_ts k \<le> unpack_ts k'" if "k' \<in> fst ` set r" for k'
      using that "2.prems"(1,2) by (intro unpack_ts_mono) auto
    then show ?thesis using 2 p Some r ts by (auto simp: sorted_append)
  qed
qed simp

lemma dash_dup_oom: "no_oom mem \<Longrightarrow> no_oom (snd (dash_dup f mem))"
  by (simp add: dash_dup_def)

lemma parse_entry_oom: "no_oom mem \<Longrightarrow> no_oom (snd (parse_entry k v mem))"
  by (simp add: parse_entry_def Let_def split_def dash_dup_oom)

lemma parse_entry_indep:
  assumes "no_oom m" and "no_oom m'"
  shows "fst (parse_entry k v m) = fst (parse_entry k v m')"
proof (cases "length k < 12")
  case False
  have dd: "fst (dash_dup x m) = fst (dash_dup x m')" if "no_oom m" "no_oom m'" for x m m'
    using that by (simp add: dash_dup_def)
  obtain m1 m1' where m1: "malloc_ok m = (True, m1)" "malloc_ok m' = (True, m1')" "no_oom m1" "no_oom m1'"
    using assms malloc_no_oomE by metis
  obtain m2 m2' where m2: "malloc_ok m1 = (True, m2)" "malloc_ok m1' = (True, m2')" "no_oom m2" "no_oom m2'"
    using m1(3,4) malloc_no_oomE by metis
  define fields where "fields = split_fields 5 (as_cstr v)"
  have "fst (dash_dup (fields ! 1) m2) = fst (dash_dup (fields ! 1) m2')"
    "fst (dash_dup (fields ! 2) (snd (dash_dup (fields ! 1) m2))) = fst (dash_dup (fields ! 2) (snd (dash_dup (fields ! 1) m2')))"
    using dd m2(3,4) dash_dup_oom by blast+
  then show ?thesis
    using False m1 m2 unfolding parse_entry_def fields_def [symmetric] by (simp add: Let_def split_def)
qed (simp add: parse_entry_def)

lemma no_oom_reserve: "no_oom mem \<Longrightarrow> \<exists>cap' mem'. reserve init cnt cap mem = (True, cap', mem') \<and> no_oom mem'"
  by (simp add: reserve_def split_def)

text \<open>With memory available, exactly the records that parse are listed, in their order.\<close>

lemma read_loop_all:
  assumes "no_oom mem" and "\<And>k v m. (k, v) \<in> set recs \<Longrightarrow> no_oom m \<Longrightarrow> fst (parse_entry k v m) = f k v"
  shows "fst (read_loop recs es cap mem) = es @ List.map_filter (\<lambda>(k, v). f k v) recs"
  using assms
proof (induction recs arbitrary: es cap mem)
  case (Cons kv recs)
  obtain k v where kv: "kv = (k, v)" by fastforce
  obtain e mem1 where p: "parse_entry k v mem = (e, mem1)" by fastforce
  have e: "e = f k v" "no_oom mem1"
    using Cons.prems(2) [of k v mem] Cons.prems(1) p kv parse_entry_oom [of mem k v] by auto
  obtain cap' mem2 where r: "reserve 16 (length es) cap mem1 = (True, cap', mem2)" "no_oom mem2"
    using no_oom_reserve [OF e(2)] by blast
  have ih: "fst (read_loop recs es' c m) = es' @ List.map_filter (\<lambda>(k, v). f k v) recs" if "no_oom m" for es' c m
    using Cons.IH [OF that] Cons.prems(2) by simp
  show ?case using kv p e r ih by (cases "f k v") (simp_all add: List.map_filter_simps)
qed (simp add: List.map_filter_simps)

subsection \<open>Writing and reading the log\<close>

lemma journal_write_view:
  assumes spec: "lmdb_spec L V"
    and w: "journal_write L e op name version status uid expl now seq = (ok, e', seq')"
  shows "(\<forall>d k. d \<noteq> Some ''journal'' \<and> (d, k) \<noteq> (None, ''journal'') \<longrightarrow> env_view V e' d k = env_view V e d k) \<and>
    (env_view V e' (Some ''journal'') = env_view V e (Some ''journal'') \<or>
     ok \<and> env_view V e' (Some ''journal'') =
       (env_view V e (Some ''journal''))(pack_key now seq \<mapsto> journal_text op name version status uid expl)) \<and>
    (ok \<longrightarrow> seq' = seq + 1) \<and> seq' \<in> {seq, seq + 1}"
proof (cases "mdb_txn_begin L e False")
  case (Inl x)
  then show ?thesis using w lmdb_begin_fail [OF spec, of e False] by (cases x) (auto simp: journal_write_def)
next
  case (Inr t)
  note t = lmdb_begin [OF spec Inr]
  obtain rc t1 where o: "mdb_dbi_open L t (Some ''journal'') True = (rc, t1)" by fastforce
  note o1 = lmdb_open [OF spec o]
  let ?key = "pack_key now seq" and ?txt = "journal_text op name version status uid expl"
  obtain rc2 t2 where p: "mdb_put L t1 (Some ''journal'') ?key ?txt = (rc2, t2)" by fastforce
  have p2: "write_law V t1 (rc2, t2) (set_rec (txn_view V t1) (Some ''journal'') ?key (Some ?txt))"
    using lmdb_put [OF spec, of t1 "Some ''journal''" ?key ?txt] p by simp
  obtain rc3 e3 where c: "mdb_txn_commit L t2 = (rc3, e3)" by fastforce
  have base: "txn_base V t2 = env_view V e" "txn_base V t1 = env_view V e"
    using p2 o1 t by (simp_all add: write_law_def)
  show ?thesis
  proof (cases "rc = MDB_SUCCESS \<and> rc2 = MDB_SUCCESS \<and> rc3 = MDB_SUCCESS")
    case True
    then have e': "e' = e3" "ok" "seq' = seq + 1" using w Inr o p c by (auto simp: journal_write_def)
    have v: "env_view V e3 = set_rec (txn_view V t1) (Some ''journal'') ?key (Some ?txt)"
      using lmdb_commit [OF spec c] p2 True by (simp add: write_law_def)
    moreover have "txn_view V t1 (Some ''journal'') = env_view V e (Some ''journal'')" using o1 t by (auto simp: fun_eq_iff)
    moreover have "txn_view V t1 d k = env_view V e d k" if "(d, k) \<noteq> (None, ''journal'')" for d k
      using o1 t that by (metis option.inject)
    ultimately show ?thesis using e' by auto
  next
    case False
    then have "env_view V e' = env_view V e" and "ok \<longrightarrow> seq' = seq + 1" and "seq' \<in> {seq, seq + 1}"
      using w Inr o p c base lmdb_commit [OF spec c] lmdb_abort [OF spec, of t1] lmdb_abort [OF spec, of t2]
      by (auto simp: journal_write_def split: if_splits)
    then show ?thesis by simp
  qed
qed

lemma journal_read_records:
  assumes spec: "lmdb_spec L V" and r: "journal_read_all L e mem = (Some es, e', mem')"
  shows "\<exists>recs. sorted_wrt (<) (map fst recs) \<and> map_of recs = env_view V e (Some ''journal'') \<and>
    es = fst (read_loop recs [] 16 (snd (malloc_ok mem)))"
proof -
  obtain t where t: "mdb_txn_begin L e True = Inr t"
    using r by (cases "mdb_txn_begin L e True") (auto simp: journal_read_all_def)
  obtain rc t1 where o: "mdb_dbi_open L t (Some ''journal'') False = (rc, t1)" by fastforce
  obtain recs where c: "mdb_cursor L t1 (Some ''journal'') = Some recs"
    using r t o by (cases "mdb_cursor L t1 (Some ''journal'')") (auto simp: journal_read_all_def split: if_splits)
  have "es = fst (read_loop recs [] 16 (snd (malloc_ok mem)))"
    using r t o c by (auto simp: journal_read_all_def split_def Let_def split: if_splits)
  then show ?thesis
    using lmdb_cursor [OF spec c] lmdb_open_same [OF spec o] lmdb_begin [OF spec t] by auto
qed

subsection \<open>Properties\<close>

text \<open>
  C37. A journal key has twelve bytes, gives its time back exactly, and the byte order of
  keys, which is the order the database visits them in, is the order of time and, within a
  second, of the sequence number.
\<close>

theorem journal_keys_ordered:
  "length (pack_key ts seq) = 12 \<and> unpack_ts (pack_key ts seq) = ts \<and>
   (pack_key ts seq < pack_key ts' seq' \<longleftrightarrow> ts < ts' \<or> ts = ts' \<and> seq < seq')"
  by (simp add: pack_key_less)

text \<open>
  Whatever memory allows it to list, \<open>journal_read_all\<close> lists in the order of time.
\<close>

theorem journal_read_chronological:
  assumes "lmdb_spec L V" and "\<forall>k \<in> dom (env_view V e (Some ''journal'')). length k = 12"
    and "journal_read_all L e mem = (Some es, e', mem')"
  shows "sorted (map je_timestamp es)"
proof -
  obtain recs where r: "sorted_wrt (<) (map fst recs)" "map_of recs = env_view V e (Some ''journal'')"
    "es = fst (read_loop recs [] 16 (snd (malloc_ok mem)))"
    using journal_read_records [OF assms(1,3)] by blast
  have "\<forall>k \<in> fst ` set recs. length k = 12" using assms(2) r(2) by (metis dom_map_of_conv_image_fst)
  then show ?thesis using read_loop_sorted [OF r(1), of "[]"] r(3) by simp
qed

theorem journal_read_chronological_witness:
  "\<exists>es e' mem'. journal_read_all ref_lmdb ((\<lambda>_. [])(None := [(''journal'', ''db'')],
      Some ''journal'' := [(pack_key 7 1, ''a|b|c|d''), (pack_key 5 0, ''a|b|c|d'')])) [] = (Some es, e', mem') \<and>
     sorted (map je_timestamp es)"
proof -
  let ?e = "(\<lambda>_. [])(None := [(''journal'', ''db'')],
      Some ''journal'' := [(pack_key 7 1, ''a|b|c|d''), (pack_key 5 0, ''a|b|c|d'')])"
  have "fst (journal_read_all ref_lmdb ?e []) \<noteq> None"
    by (simp add: journal_read_all_def ref_lmdb_def ref_open_def split_def Let_def)
  then obtain es e' mem' where r: "journal_read_all ref_lmdb ?e [] = (Some es, e', mem')"
    by (metis not_None_eq prod.collapse)
  have "\<forall>k \<in> dom (env_view ref_view ?e (Some ''journal'')). length k = 12"
    by (auto simp: ref_view_def split: if_splits)
  then show ?thesis using journal_read_chronological [OF ref_lmdb_spec _ r] r by blast
qed

text \<open>
  C36. An entry that \<open>journal_write\<close> has put into the database is listed by the next
  \<open>journal_read_all\<close> that obtains the records, with every field, its time included: as long as
  name and version contain no bar, are not a lone dash and fit the 512 bytes of the value.
\<close>

theorem journal_write_read:
  assumes "lmdb_spec L V" and "plain_field name" and "plain_field version" and "fits op name version status uid"
    and "journal_write L e op name version status uid expl now seq = (True, e', seq')"
    and "env_view V e' (Some ''journal'') \<noteq> env_view V e (Some ''journal'')"
    and "no_oom mem" and "journal_read_all L e' mem = (Some es, e'', mem')"
  shows "entry_of op name version status uid expl now \<in> set es"
proof -
  let ?k = "pack_key now seq" and ?v = "journal_text op name version status uid expl"
  obtain recs where r: "map_of recs = env_view V e' (Some ''journal'')" "es = fst (read_loop recs [] 16 (snd (malloc_ok mem)))"
    using journal_read_records [OF assms(1,8)] by blast
  have "map_of recs ?k = Some ?v" using journal_write_view [OF assms(1,5)] assms(6) r(1) by auto
  then have kv: "(?k, ?v) \<in> set recs" by (rule map_of_SomeD)
  define f where "f k v = fst (parse_entry k v [])" for k v
  have "fst (parse_entry k v m) = f k v" if "no_oom m" for k v m
    using parse_entry_indep [OF that no_oom_Nil] by (simp add: f_def)
  then have "es = List.map_filter (\<lambda>(k, v). f k v) recs"
    using read_loop_all [of "snd (malloc_ok mem)" recs f "[]" 16] assms(7) r(2) by simp
  moreover have "f ?k ?v = Some (entry_of op name version status uid expl now)"
    using parse_journal_text [OF assms(2-4) no_oom_Nil, of now seq expl] by (auto simp: f_def)
  ultimately show ?thesis using kv by (force simp: List.map_filter_def)
qed

theorem journal_write_read_witness:
  "\<exists>e' seq' es e'' mem'. journal_write ref_lmdb (\<lambda>_. []) JOURNAL_INSTALL (Some ''app'') (Some ''1.0'') JOURNAL_STATUS_OK 0 True 5 0 =
      (True, e', seq') \<and> journal_read_all ref_lmdb e' [] = (Some es, e'', mem') \<and>
     entry_of JOURNAL_INSTALL (Some ''app'') (Some ''1.0'') JOURNAL_STATUS_OK 0 True 5 \<in> set es"
proof -
  let ?txt = "journal_text JOURNAL_INSTALL (Some ''app'') (Some ''1.0'') JOURNAL_STATUS_OK 0 True"
  define e' where "e' = ((\<lambda>_. [])(None := [(''journal'', ''db'')], Some ''journal'' := [(pack_key 5 0, ?txt)]) :: ref_env)"
  have w: "journal_write ref_lmdb (\<lambda>_. []) JOURNAL_INSTALL (Some ''app'') (Some ''1.0'') JOURNAL_STATUS_OK 0 True 5 0 = (True, e', 1)"
    by (simp add: journal_write_def ref_lmdb_def ref_open_def e'_def MDB_SUCCESS_def)
  have v: "env_view ref_view e' (Some ''journal'') \<noteq> env_view ref_view (\<lambda>_. []) (Some ''journal'')"
    by (simp add: ref_view_def e'_def)
  have "fst (journal_read_all ref_lmdb e' []) \<noteq> None"
    by (simp add: journal_read_all_def ref_lmdb_def ref_open_def split_def Let_def e'_def)
  then obtain es e'' mem' where r: "journal_read_all ref_lmdb e' [] = (Some es, e'', mem')"
    by (metis not_None_eq prod.collapse)
  have "plain_field (Some ''app'')" "plain_field (Some ''1.0'')" by (simp_all add: plain_field_def bar_def)
  moreover have "fits JOURNAL_INSTALL (Some ''app'') (Some ''1.0'') JOURNAL_STATUS_OK 0"
    by (simp add: fits_def or_dash_def print_nat.simps)
  ultimately show ?thesis
    using journal_write_read [OF ref_lmdb_spec _ _ _ w v no_oom_Nil r] w r by blast
qed

end
