(* ===== verification/Db.thy ===== *)
theory Db
  imports Json Journal
begin

text \<open>
  The package database: \<open>src/db/write.c\<close>, \<open>read.c\<close>, \<open>owner.c\<close>, \<open>str_vec.c\<close>, and the handle of
  \<open>db_priv.h\<close>.  Package records are JSON texts in the unnamed database, file lists are lines in
  \<open>files\<close>, and \<open>file_owner\<close> maps a path to the package that owns it.

  The handle carries the LMDB environment and, beside the fields of the struct, what the
  process provides: the sequence counter of the journal, the clock, the user id, and a trace
  of the calls of the hooks.  LMDB and yyjson are the parameters \<open>L\<close> and \<open>J\<close>.  A NULL handle
  makes every operation return at once; handles below are not NULL.  A read transaction opened
  while another one is open sees the same contents, so the two are modelled one after the
  other.
\<close>

datatype db_op = DB_OP_ADD | DB_OP_REMOVE

record 'e db_handle =
  db_env :: 'e
  files_dbi_open :: bool
  file_owner_dbi_open :: bool
  db_readonly :: bool
  hook_pre :: bool
  hook_post :: bool
  suppress_journal :: bool
  hook_calls :: "(bool \<times> db_op \<times> pstr) list"
  seq_counter :: "32 word"
  db_clock :: "nat \<Rightarrow> 64 word"
  db_ticks :: nat
  db_uid :: "32 word"

definition files_dbi :: mdb_dbi where "files_dbi = Some ''files''"
definition file_owner_dbi :: mdb_dbi where "file_owner_dbi = Some ''file_owner''"

definition MAP_GROW_ATTEMPTS :: nat where "MAP_GROW_ATTEMPTS = 8"

definition newline :: char where "newline = CHR 0x0A"

text \<open>\<open>memchr(p, '\n', end - p)\<close>, as an offset.\<close>

definition memchr_nl :: "string \<Rightarrow> nat option" where
  "memchr_nl s = (let n = length (takeWhile (\<lambda>c. c \<noteq> newline) s) in if n < length s then Some n else None)"

lemma memchr_nl_less: "memchr_nl s = Some n \<Longrightarrow> n < length s"
  by (auto simp: memchr_nl_def Let_def split: if_splits)

subsection \<open>Writing\<close>

function del_owner_loop :: "('e, 't) lmdb \<Rightarrow> string \<Rightarrow> string \<Rightarrow> 't \<Rightarrow> 't" where
  "del_owner_loop L pkg_name rest txn =
     (case memchr_nl rest of
        None \<Rightarrow> txn
      | Some n \<Rightarrow>
          let path = take n rest;
              txn' = (if 0 < n then
                        (case mdb_get L txn file_owner_dbi path of
                           Inr owner \<Rightarrow> if owner = pkg_name then snd (mdb_del L txn file_owner_dbi path) else txn
                         | Inl _ \<Rightarrow> txn)
                      else txn)
          in del_owner_loop L pkg_name (drop (Suc n) rest) txn')"
  by pat_completeness auto
termination by (relation "measure (\<lambda>(L, name, rest, txn). length rest)") (auto dest: memchr_nl_less)

declare del_owner_loop.simps [simp del]

definition delete_file_owner_entries :: "('e, 't) lmdb \<Rightarrow> 'e db_handle \<Rightarrow> 't \<Rightarrow> string \<Rightarrow> mem \<Rightarrow> 't \<times> mem" where
  "delete_file_owner_entries L db txn pkg_name mem =
     (if \<not> files_dbi_open db \<or> \<not> file_owner_dbi_open db then (txn, mem)
      else case mdb_get L txn files_dbi pkg_name of
        Inl _ \<Rightarrow> (txn, mem)
      | Inr fdata \<Rightarrow>
          if fdata = [] then (txn, mem)
          else let (ok, mem1) = malloc_ok mem
               in if \<not> ok then (txn, mem1) else (del_owner_loop L pkg_name fdata txn, mem1))"

fun files_size :: "str_list \<Rightarrow> nat" where
  "files_size [] = 1"
| "files_size (None # fs) = files_size fs"
| "files_size (Some s # fs) = files_size fs + (length s + 1)"

fun ser_loop :: "char list \<Rightarrow> nat \<Rightarrow> str_list \<Rightarrow> (char list \<times> nat) option" where
  "ser_loop buf p [] = Some (buf, p)"
| "ser_loop buf p (None # fs) = ser_loop buf p fs"
| "ser_loop buf p (Some s # fs) =
     do {
       buf \<leftarrow> copy_at buf p s;
       buf \<leftarrow> arr_set buf (p + length s) newline;
       ser_loop buf (p + length s + 1) fs
     }"

definition serialize_files :: "str_list \<Rightarrow> mem \<Rightarrow> (pstr \<times> mem) option" where
  "serialize_files files mem =
     (let (ok, mem1) = malloc_ok mem in
      if \<not> ok then Some (None, mem1)
      else do {
        (buf, p) \<leftarrow> ser_loop (fresh_buf (files_size files)) 0 files;
        buf \<leftarrow> arr_set buf p NUL;
        s \<leftarrow> c_str buf;
        Some (Some s, mem1)
      })"

fun put_owners :: "('e, 't) lmdb \<Rightarrow> string \<Rightarrow> str_list \<Rightarrow> 't \<Rightarrow> int \<times> 't" where
  "put_owners L name [] txn = (MDB_SUCCESS, txn)"
| "put_owners L name (None # fs) txn = put_owners L name fs txn"
| "put_owners L name (Some fp # fs) txn =
     (let (rc, txn') = mdb_put L txn file_owner_dbi fp name
      in if rc \<noteq> MDB_SUCCESS then (rc, txn') else put_owners L name fs txn')"

text \<open>The part of \<open>db_add_once\<close> for a package with files.\<close>

definition put_files :: "('e, 't) lmdb \<Rightarrow> 'e db_handle \<Rightarrow> string \<Rightarrow> str_list \<Rightarrow> 't \<Rightarrow> mem \<Rightarrow> (int \<times> 't \<times> mem) option" where
  "put_files L db name files txn mem =
     (let (txn1, mem1) = delete_file_owner_entries L db txn name mem in
      do {
        (rc, txn2, mem2) \<leftarrow>
          (if files_dbi_open db
           then do {
             (fdata, mem2) \<leftarrow> serialize_files files mem1;
             case fdata of
               None \<Rightarrow> Some (ENOMEM, txn1, mem2)
             | Some text \<Rightarrow> let (rc, txn2) = mdb_put L txn1 files_dbi name text in Some (rc, txn2, mem2)
           }
           else Some (MDB_SUCCESS, txn1, mem1));
        if rc = MDB_SUCCESS \<and> file_owner_dbi_open db
        then let (rc, txn3) = put_owners L name files txn2 in Some (rc, txn3, mem2)
        else Some (rc, txn2, mem2)
      })"

definition db_add_once :: "('e, 't) lmdb \<Rightarrow> yyjson \<Rightarrow> 'e db_handle \<Rightarrow> package \<Rightarrow> mem \<Rightarrow> (int \<times> 'e \<times> mem) option" where
  "db_add_once L J db pkg mem =
     (case mdb_txn_begin L (db_env db) False of
        Inl (rc, env) \<Rightarrow> Some (rc, env, mem)
      | Inr txn \<Rightarrow>
          let (rc, txn1) = mdb_dbi_open L txn None False in
          if rc \<noteq> MDB_SUCCESS then Some (rc, mdb_txn_abort L txn1, mem)
          else do {
            (json, mem1) \<leftarrow> package_to_json J pkg mem;
            case json of
              None \<Rightarrow> Some (ENOMEM, mdb_txn_abort L txn1, mem1)
            | Some text \<Rightarrow> do {
                m \<leftarrow> pkg_meta pkg;
                name \<leftarrow> meta_name m;
                let (rc, txn2) = mdb_put L txn1 None name text;
                (rc, txn3, mem2) \<leftarrow>
                  (if rc = MDB_SUCCESS \<and> package_files pkg \<noteq> []
                   then put_files L db name (package_files pkg) txn2 mem1 else Some (rc, txn2, mem1));
                if rc = MDB_SUCCESS then let (rc, env) = mdb_txn_commit L txn3 in Some (rc, env, mem2)
                else Some (rc, mdb_txn_abort L txn3, mem2)
              }
          })"

definition grow_map :: "('e, 't) lmdb \<Rightarrow> 'e \<Rightarrow> bool \<times> 'e" where
  "grow_map L env =
     (case mdb_env_info L env of
        None \<Rightarrow> (False, env)
      | Some mapsize \<Rightarrow> let (rc, env') = mdb_env_set_mapsize L env (mapsize * 2) in (rc = MDB_SUCCESS, env'))"

text \<open>The retry loop, with the number of attempts that are left.\<close>

fun add_retry ::
  "('e, 't) lmdb \<Rightarrow> yyjson \<Rightarrow> package \<Rightarrow> nat \<Rightarrow> int \<Rightarrow> 'e db_handle \<Rightarrow> mem \<Rightarrow> (int \<times> 'e db_handle \<times> mem) option" where
  "add_retry L J pkg 0 rc db mem = Some (rc, db, mem)"
| "add_retry L J pkg (Suc left) rc db mem =
     (if rc \<noteq> MDB_MAP_FULL then Some (rc, db, mem)
      else let (grown, env) = grow_map L (db_env db); db1 = db\<lparr>db_env := env\<rparr> in
        if \<not> grown then Some (rc, db1, mem)
        else do {
          (rc, env, mem1) \<leftarrow> db_add_once L J db1 pkg mem;
          add_retry L J pkg left rc (db1\<lparr>db_env := env\<rparr>) mem1
        })"

definition call_hook :: "bool \<Rightarrow> db_op \<Rightarrow> pstr \<Rightarrow> 'e db_handle \<Rightarrow> 'e db_handle" where
  "call_hook pre op name db =
     (if (if pre then hook_pre db else hook_post db)
      then db\<lparr>hook_calls := hook_calls db @ [(pre, op, name)]\<rparr> else db)"

text \<open>A call of \<open>journal_write\<close> on the environment of the handle.\<close>

definition db_journal ::
  "('e, 't) lmdb \<Rightarrow> journal_op \<Rightarrow> pstr \<Rightarrow> pstr \<Rightarrow> bool \<Rightarrow> bool \<Rightarrow> 'e db_handle \<Rightarrow> 'e db_handle" where
  "db_journal L op name version ok explicit_op db =
     (let (_, env, seq) = journal_write L (db_env db) op name version
            (if ok then JOURNAL_STATUS_OK else JOURNAL_STATUS_FAILED) (db_uid db) explicit_op
            (db_clock db (db_ticks db)) (seq_counter db)
      in db\<lparr>db_env := env, seq_counter := seq, db_ticks := Suc (db_ticks db)\<rparr>)"

definition db_add :: "('e, 't) lmdb \<Rightarrow> yyjson \<Rightarrow> 'e db_handle \<Rightarrow> package \<Rightarrow> mem \<Rightarrow> (bool \<times> 'e db_handle \<times> mem) option" where
  "db_add L J db pkg mem =
     (case pkg_meta pkg of
        None \<Rightarrow> Some (False, db, mem)
      | Some m \<Rightarrow>
          if db_readonly db then Some (False, db, mem)
          else
            let db1 = call_hook True DB_OP_ADD (meta_name m) db in
            do {
              (rc, env, mem1) \<leftarrow> db_add_once L J db1 pkg mem;
              (rc, db2, mem2) \<leftarrow> add_retry L J pkg MAP_GROW_ATTEMPTS rc (db1\<lparr>db_env := env\<rparr>) mem1;
              let ok = (rc = MDB_SUCCESS);
                  db3 = (if suppress_journal db2 then db2
                         else db_journal L JOURNAL_INSTALL (meta_name m) (meta_version m) ok True db2)
              in Some (ok, call_hook False DB_OP_ADD (meta_name m) db3, mem2)
            })"

subsection \<open>Reading\<close>

function des_loop :: "string \<Rightarrow> nat \<Rightarrow> mem \<Rightarrow> str_list \<times> mem" where
  "des_loop rest left mem =
     (case memchr_nl rest of
        None \<Rightarrow> ([], mem)
      | Some n \<Rightarrow>
          if left = 0 then ([], mem)
          else if 0 < n then
            let (item, mem1) = strdup_m (as_cstr (take n rest)) mem;
                (items, mem2) = des_loop (drop (Suc n) rest) (left - 1) mem1
            in (item # items, mem2)
          else des_loop (drop (Suc n) rest) left mem)"
  by pat_completeness auto
termination by (relation "measure (\<lambda>(rest, left, mem). length rest)") (auto dest: memchr_nl_less)

declare des_loop.simps [simp del]

definition deserialize_files :: "string \<Rightarrow> mem \<Rightarrow> str_list \<times> mem" where
  "deserialize_files data mem =
     (let n = length (filter (\<lambda>c. c = newline) data) in
      if n = 0 then ([], mem)
      else let (ok, mem1) = malloc_ok mem in if \<not> ok then ([], mem1) else des_loop data n mem1)"

definition load_package_files :: "('e, 't) lmdb \<Rightarrow> 'e db_handle \<Rightarrow> string \<Rightarrow> mem \<Rightarrow> str_list \<times> 'e db_handle \<times> mem" where
  "load_package_files L db pkg_name mem =
     (if \<not> files_dbi_open db then ([], db, mem)
      else case mdb_txn_begin L (db_env db) True of
        Inl (rc, env) \<Rightarrow> ([], db\<lparr>db_env := env\<rparr>, mem)
      | Inr txn \<Rightarrow>
          let (files, mem1) =
                (case mdb_get L txn files_dbi pkg_name of Inl _ \<Rightarrow> ([], mem) | Inr data \<Rightarrow> deserialize_files data mem)
          in (files, db\<lparr>db_env := mdb_txn_abort L txn\<rparr>, mem1))"

text \<open>The files of a package that was read; one without a name keeps none.\<close>

definition with_files :: "('e, 't) lmdb \<Rightarrow> 'e db_handle \<Rightarrow> package \<Rightarrow> mem \<Rightarrow> package \<times> 'e db_handle \<times> mem" where
  "with_files L db pkg mem =
     (case pkg_meta pkg of
        None \<Rightarrow> (pkg, db, mem)
      | Some m \<Rightarrow>
          (case meta_name m of
             None \<Rightarrow> (pkg, db, mem)
           | Some name \<Rightarrow>
               let (files, db1, mem1) = load_package_files L db name mem in (pkg\<lparr>package_files := files\<rparr>, db1, mem1)))"

definition db_get :: "('e, 't) lmdb \<Rightarrow> yyjson \<Rightarrow> 'e db_handle \<Rightarrow> pstr \<Rightarrow> mem \<Rightarrow> package option \<times> 'e db_handle \<times> mem" where
  "db_get L J db name mem =
     (case name of
        None \<Rightarrow> (None, db, mem)
      | Some name \<Rightarrow>
          (case mdb_txn_begin L (db_env db) True of
             Inl (rc, env) \<Rightarrow> (None, db\<lparr>db_env := env\<rparr>, mem)
           | Inr txn \<Rightarrow>
               let (rc, txn1) = mdb_dbi_open L txn None False; db1 = db\<lparr>db_env := mdb_txn_abort L txn1\<rparr> in
               if rc \<noteq> MDB_SUCCESS then (None, db1, mem)
               else case mdb_get L txn1 None name of
                 Inl _ \<Rightarrow> (None, db1, mem)
               | Inr data \<Rightarrow>
                   let (pkg, mem1) = package_from_json J data mem in
                   case pkg of
                     None \<Rightarrow> (None, db1, mem1)
                   | Some pkg \<Rightarrow> let (pkg, db2, mem2) = with_files L db1 pkg mem1 in (Some pkg, db2, mem2)))"

fun list_loop ::
  "('e, 't) lmdb \<Rightarrow> yyjson \<Rightarrow> (string \<times> string) list \<Rightarrow> package list \<Rightarrow> nat \<Rightarrow> 'e db_handle \<Rightarrow> mem \<Rightarrow>
   package list \<times> 'e db_handle \<times> mem" where
  "list_loop L J [] list cap db mem = (list, db, mem)"
| "list_loop L J ((key, data) # recs) list cap db mem =
     (let (pkg, mem1) = package_from_json J data mem in
      case pkg of
        None \<Rightarrow> list_loop L J recs list cap db mem1
      | Some pkg \<Rightarrow>
          if pkg_meta pkg = None then list_loop L J recs list cap db mem1
          else
            let (pkg, db1, mem2) = with_files L db pkg mem1;
                (ok, cap', mem3) = reserve 16 (length list) cap mem2
            in if \<not> ok then (list, db1, mem3) else list_loop L J recs (list @ [pkg]) cap' db1 mem3)"

text \<open>The records of the unnamed database; \<open>None\<close> when the read fails before the cursor moves.\<close>

definition read_records :: "('e, 't) lmdb \<Rightarrow> 'e db_handle \<Rightarrow> (string \<times> string) list option \<times> 'e db_handle" where
  "read_records L db =
     (case mdb_txn_begin L (db_env db) True of
        Inl (rc, env) \<Rightarrow> (None, db\<lparr>db_env := env\<rparr>)
      | Inr txn \<Rightarrow>
          let (rc, txn1) = mdb_dbi_open L txn None False; db1 = db\<lparr>db_env := mdb_txn_abort L txn1\<rparr> in
          if rc \<noteq> MDB_SUCCESS then (None, db1) else (mdb_cursor L txn1 None, db1))"

definition db_list :: "('e, 't) lmdb \<Rightarrow> yyjson \<Rightarrow> 'e db_handle \<Rightarrow> mem \<Rightarrow> package list option \<times> 'e db_handle \<times> mem" where
  "db_list L J db mem =
     (let (recs, db1) = read_records L db in
      case recs of
        None \<Rightarrow> (None, db1, mem)
      | Some recs \<Rightarrow>
          let (ok, mem1) = malloc_ok mem in
          if \<not> ok then (None, db1, mem1)
          else let (list, db2, mem2) = list_loop L J recs [] 16 db1 mem1 in (Some list, db2, mem2))"

definition db_owner :: "('e, 't) lmdb \<Rightarrow> 'e db_handle \<Rightarrow> pstr \<Rightarrow> mem \<Rightarrow> pstr \<times> 'e db_handle \<times> mem" where
  "db_owner L db path mem =
     (case path of
        None \<Rightarrow> (None, db, mem)
      | Some path \<Rightarrow>
          if \<not> file_owner_dbi_open db then (None, db, mem)
          else case mdb_txn_begin L (db_env db) True of
            Inl (rc, env) \<Rightarrow> (None, db\<lparr>db_env := env\<rparr>, mem)
          | Inr txn \<Rightarrow>
              let (owner, mem1) =
                    (case mdb_get L txn file_owner_dbi path of Inl _ \<Rightarrow> (None, mem) | Inr val \<Rightarrow> strdup_m (as_cstr val) mem)
              in (owner, db\<lparr>db_env := mdb_txn_abort L txn\<rparr>, mem1))"

subsection \<open>Flags, removal, hooks\<close>

definition db_set_hold :: "('e, 't) lmdb \<Rightarrow> yyjson \<Rightarrow> 'e db_handle \<Rightarrow> pstr \<Rightarrow> bool \<Rightarrow> mem \<Rightarrow> (bool \<times> 'e db_handle \<times> mem) option" where
  "db_set_hold L J db pkg_name hold mem =
     (if pkg_name = None \<or> db_readonly db then Some (False, db, mem)
      else let (pkg, db1, mem1) = db_get L J db pkg_name mem in
        case pkg of
          None \<Rightarrow> Some (False, db1, mem1)
        | Some pkg \<Rightarrow> do {
            (ok, db2, mem2) \<leftarrow> db_add L J (db1\<lparr>suppress_journal := True\<rparr>) (pkg\<lparr>held := hold\<rparr>) mem1;
            Some (ok, db2\<lparr>suppress_journal := False\<rparr>, mem2)
          })"

definition db_set_installed_by_hand ::
  "('e, 't) lmdb \<Rightarrow> yyjson \<Rightarrow> 'e db_handle \<Rightarrow> pstr \<Rightarrow> bool \<Rightarrow> mem \<Rightarrow> (bool \<times> 'e db_handle \<times> mem) option" where
  "db_set_installed_by_hand L J db pkg_name by_hand mem =
     (if pkg_name = None \<or> db_readonly db then Some (False, db, mem)
      else let (pkg, db1, mem1) = db_get L J db pkg_name mem in
        case pkg of
          None \<Rightarrow> Some (False, db1, mem1)
        | Some pkg \<Rightarrow> do {
            (ok, db2, mem2) \<leftarrow> db_add L J (db1\<lparr>suppress_journal := True\<rparr>) (pkg\<lparr>installed_by_hand := by_hand\<rparr>) mem1;
            Some (ok, db2\<lparr>suppress_journal := False\<rparr>, mem2)
          })"

text \<open>The transaction of \<open>db_remove\<close>.\<close>

definition remove_once :: "('e, 't) lmdb \<Rightarrow> 'e db_handle \<Rightarrow> string \<Rightarrow> mem \<Rightarrow> int \<times> 'e \<times> mem" where
  "remove_once L db pkg_name mem =
     (case mdb_txn_begin L (db_env db) False of
        Inl (rc, env) \<Rightarrow> (rc, env, mem)
      | Inr txn \<Rightarrow>
          let (rc, txn1) = mdb_dbi_open L txn None False in
          if rc \<noteq> MDB_SUCCESS then (rc, mdb_txn_abort L txn1, mem)
          else
            let (rc, txn2) = mdb_del L txn1 None pkg_name in
            if rc \<noteq> MDB_SUCCESS then (rc, mdb_txn_abort L txn2, mem)
            else
              let (txn4, mem1) =
                    (if files_dbi_open db
                     then let (txn3, mem1) = delete_file_owner_entries L db txn2 pkg_name mem
                          in (snd (mdb_del L txn3 files_dbi pkg_name), mem1)
                     else (txn2, mem));
                  (rc, env) = mdb_txn_commit L txn4
              in (rc, env, mem1))"

text \<open>The version \<open>db_remove\<close> writes to the journal.\<close>

definition version_for_journal :: "('e, 't) lmdb \<Rightarrow> yyjson \<Rightarrow> 'e db_handle \<Rightarrow> pstr \<Rightarrow> mem \<Rightarrow> pstr \<times> 'e db_handle \<times> mem" where
  "version_for_journal L J db pkg_name mem =
     (let (existing, db1, mem1) = db_get L J db pkg_name mem in
      case Option.bind (Option.bind existing pkg_meta) meta_version of
        None \<Rightarrow> (None, db1, mem1)
      | Some v \<Rightarrow> let (v', mem2) = strdup_m v mem1 in (v', db1, mem2))"

definition db_remove :: "('e, 't) lmdb \<Rightarrow> yyjson \<Rightarrow> 'e db_handle \<Rightarrow> pstr \<Rightarrow> mem \<Rightarrow> bool \<times> 'e db_handle \<times> mem" where
  "db_remove L J db pkg_name mem =
     (case pkg_name of
        None \<Rightarrow> (False, db, mem)
      | Some name \<Rightarrow>
          if db_readonly db then (False, db, mem)
          else
            let (version, db1, mem1) =
                  (if suppress_journal db then (None, db, mem) else version_for_journal L J db pkg_name mem);
                db2 = call_hook True DB_OP_REMOVE pkg_name db1;
                (rc, env, mem2) = remove_once L db2 name mem1;
                ok = (rc = MDB_SUCCESS);
                db3 = db2\<lparr>db_env := env\<rparr>;
                db4 = (if suppress_journal db3 then db3
                       else db_journal L JOURNAL_REMOVE pkg_name version ok True db3)
            in (ok, call_hook False DB_OP_REMOVE pkg_name db4, mem2))"

text \<open>\<open>db_set_hooks\<close>: which of the two callbacks are set; \<open>None\<close> is a NULL argument.\<close>

definition db_set_hooks :: "'e db_handle \<Rightarrow> (bool \<times> bool) option \<Rightarrow> 'e db_handle" where
  "db_set_hooks db hooks =
     (case hooks of None \<Rightarrow> db | Some (pre, post) \<Rightarrow> db\<lparr>hook_pre := pre, hook_post := post\<rparr>)"

definition audit_read_all :: "('e, 't) lmdb \<Rightarrow> 'e db_handle \<Rightarrow> mem \<Rightarrow> journal_entry list option \<times> 'e db_handle \<times> mem" where
  "audit_read_all L db mem =
     (let (entries, env, mem1) = journal_read_all L (db_env db) mem in (entries, db\<lparr>db_env := env\<rparr>, mem1))"

record str_vec =
  sv_items :: "string list"
  sv_cap :: nat

definition str_vec_push :: "str_vec \<Rightarrow> string \<Rightarrow> mem \<Rightarrow> bool \<times> str_vec \<times> mem" where
  "str_vec_push v str mem =
     (let (ok, cap, mem1) = reserve 8 (length (sv_items v)) (sv_cap v) mem in
      if \<not> ok then (False, v, mem1)
      else let (copy, mem2) = strdup_m str mem1 in
        case copy of
          None \<Rightarrow> (False, v\<lparr>sv_cap := cap\<rparr>, mem2)
        | Some s \<Rightarrow> (True, v\<lparr>sv_items := sv_items v @ [s], sv_cap := cap\<rparr>, mem2))"

subsection \<open>File lists as lines\<close>

text \<open>The complete, non-empty lines of a text: what all three loops over a file list visit.\<close>

function lines :: "string \<Rightarrow> string list" where
  "lines s =
     (case memchr_nl s of
        None \<Rightarrow> []
      | Some n \<Rightarrow> (if 0 < n then [take n s] else []) @ lines (drop (Suc n) s))"
  by pat_completeness auto
termination by (relation "measure length") (auto dest: memchr_nl_less)

declare lines.simps [simp del]

fun file_text :: "str_list \<Rightarrow> string" where
  "file_text [] = []"
| "file_text (None # fs) = file_text fs"
| "file_text (Some s # fs) = s @ newline # file_text fs"

definition somes :: "str_list \<Rightarrow> string list" where
  "somes xs = List.map_filter id xs"

lemma somes_simps [simp]: "somes [] = []" "somes (None # xs) = somes xs" "somes (Some s # xs) = s # somes xs"
  by (simp_all add: somes_def List.map_filter_simps)

lemma set_somes: "s \<in> set (somes xs) \<longleftrightarrow> Some s \<in> set xs"
  by (induction xs) (auto simp: somes_def List.map_filter_def)

lemma map_Some_somes: "map Some (somes xs) = filter (\<lambda>x. x \<noteq> None) xs"
proof (induction xs)
  case (Cons x xs)
  then show ?case by (cases x) auto
qed simp

lemma memchr_nl_append: "newline \<notin> set a \<Longrightarrow> memchr_nl (a @ newline # b) = Some (length a)"
proof -
  assume "newline \<notin> set a"
  then have "takeWhile (\<lambda>c. c \<noteq> newline) a = a" by (auto simp: takeWhile_eq_all_conv)
  then show ?thesis by (simp add: memchr_nl_def Let_def takeWhile_tail)
qed

lemma memchr_nl_split: "memchr_nl s = Some n \<Longrightarrow> \<exists>a b. s = a @ newline # b \<and> newline \<notin> set a \<and> n = length a"
proof -
  assume n: "memchr_nl s = Some n"
  have "newline \<in> set s"
  proof (rule ccontr)
    assume "newline \<notin> set s"
    then have "takeWhile (\<lambda>c. c \<noteq> newline) s = s" by (auto simp: takeWhile_eq_all_conv)
    then have "memchr_nl s = None" unfolding memchr_nl_def by (simp only: Let_def less_irrefl if_False)
    then show False using n by simp
  qed
  then obtain a b where s: "s = a @ newline # b" "newline \<notin> set a" using split_list_first by fastforce
  then show ?thesis using n memchr_nl_append by fastforce
qed

lemma memchr_nl_None: "newline \<notin> set s \<Longrightarrow> memchr_nl s = None"
  using memchr_nl_split [of s] by (cases "memchr_nl s") auto

lemma lines_append: "newline \<notin> set a \<Longrightarrow> lines (a @ newline # b) = (if a = [] then [] else [a]) @ lines b"
  by (subst lines.simps) (simp add: memchr_nl_append)

lemma lines_Nil [simp]: "lines [] = []"
  by (subst lines.simps) (simp add: memchr_nl_def)

text \<open>Paths a file list can carry.\<close>

definition path_ok :: "string \<Rightarrow> bool" where
  "path_ok p \<longleftrightarrow> p \<noteq> [] \<and> newline \<notin> set p \<and> cstring p"

lemma lines_file_text: "list_ok path_ok fs \<Longrightarrow> lines (file_text fs) = somes fs"
  by (induction fs rule: file_text.induct) (auto simp: lines_append path_ok_def)

lemma files_size_eq: "files_size fs = length (file_text fs) + 1"
  by (induction fs rule: files_size.induct) simp_all

lemma ser_loop_eq:
  "p + length (file_text fs) \<le> length buf \<Longrightarrow>
     ser_loop buf p fs = Some (take p buf @ file_text fs @ drop (p + length (file_text fs)) buf, p + length (file_text fs))"
proof (induction buf p fs rule: ser_loop.induct)
  case (3 buf p s fs)
  define buf1 where "buf1 = take p buf @ s @ drop (p + length s) buf"
  define buf2 where "buf2 = buf1[p + length s := newline]"
  have c: "copy_at buf p s = Some buf1" using "3.prems" by (simp add: copy_at_eq buf1_def)
  have len: "length buf1 = length buf" "p + length s < length buf1" using "3.prems" by (simp_all add: buf1_def)
  have t: "take (p + length s + 1) buf2 = take p buf @ s @ [newline]"
  proof -
    have "take (p + length s) buf1 = take p buf @ s" using "3.prems" by (simp add: buf1_def)
    then show ?thesis using len by (simp add: buf2_def take_Suc_conv_app_nth)
  qed
  have d: "drop (p + length s + 1 + n) buf2 = drop (p + length s + 1 + n) buf" for n
    using "3.prems" by (simp add: buf2_def buf1_def add.commute add.left_commute)
  have "ser_loop buf2 (p + length s + 1) fs = Some (take (p + length s + 1) buf2 @ file_text fs @
      drop (p + length s + 1 + length (file_text fs)) buf2, p + length s + 1 + length (file_text fs))"
    using "3.IH" [OF c, of buf2] "3.prems" len by (simp add: buf2_def)
  then show ?case using c len t d [of "length (file_text fs)"] by (simp add: buf2_def add.assoc)
qed simp_all

lemma cstring_file_text: "list_ok cstring fs \<Longrightarrow> cstring (file_text fs)"
  by (induction fs rule: file_text.induct) (auto simp: newline_def)

lemma serialize_files_eq:
  assumes "list_ok cstring fs"
  shows "serialize_files fs mem = Some (strdup_m (file_text fs) mem)"
proof -
  have "ser_loop (fresh_buf (files_size fs)) 0 fs = Some (file_text fs @ fresh_buf (Suc 0), length (file_text fs))"
    using ser_loop_eq [of 0 fs "fresh_buf (files_size fs)"] by (simp add: files_size_eq fresh_buf_def drop_replicate del: replicate_Suc)
  moreover have "(file_text fs @ fresh_buf (Suc 0))[length (file_text fs) := NUL] = file_text fs @ [NUL]"
    "fresh_buf (Suc 0) \<noteq> []" by (simp_all add: fresh_buf_def)
  ultimately show ?thesis
    using cstring_file_text [OF assms] by (simp add: serialize_files_def strdup_m_def split_def Let_def)
qed

lemma des_loop_eq:
  "no_oom mem \<Longrightarrow> length (filter (\<lambda>c. c = newline) data) \<le> left \<Longrightarrow>
     fst (des_loop data left mem) = map (\<lambda>l. Some (as_cstr l)) (lines data) \<and> no_oom (snd (des_loop data left mem))"
proof (induction data left mem rule: des_loop.induct)
  case (1 rest left mem)
  show ?case
  proof (cases "memchr_nl rest")
    case None
    then show ?thesis using "1.prems" by (subst des_loop.simps, subst lines.simps) (simp add: des_loop.simps [of rest])
  next
    case (Some n)
    then obtain a b where rest: "rest = a @ newline # b" "newline \<notin> set a" "n = length a"
      using memchr_nl_split by blast
    then have k: "left \<noteq> 0" "length (filter (\<lambda>c. c = newline) b) \<le> left - 1" using "1.prems"(2) by auto
    have db: "take n rest = a" "drop (Suc n) rest = b" using rest by simp_all
    obtain mem1 where m: "strdup_m (as_cstr (take n rest)) mem = (Some (as_cstr (take n rest)), mem1)" "no_oom mem1"
      using strdup_no_oomE [OF "1.prems"(1)] by metis
    show ?thesis
    proof (cases "0 < n")
      case True
      have "fst (des_loop b (left - 1) mem1) = map (\<lambda>l. Some (as_cstr l)) (lines b) \<and> no_oom (snd (des_loop b (left - 1) mem1))"
        using "1.IH"(1) [OF Some k(1) True refl m(1) [symmetric] m(2)] k(2) unfolding db by simp
      then show ?thesis using Some True k m db
        by (subst (1 2) des_loop.simps, subst lines.simps) (simp add: split_def)
    next
      case False
      have "fst (des_loop b left mem) = map (\<lambda>l. Some (as_cstr l)) (lines b) \<and> no_oom (snd (des_loop b left mem))"
        using "1.IH"(2) [OF Some k(1) False "1.prems"(1)] k(2) unfolding db by simp
      then show ?thesis using Some False k db
        by (subst (1 2) des_loop.simps, subst lines.simps) simp
    qed
  qed
qed

lemma no_lines: "newline \<notin> set s \<Longrightarrow> lines s = []"
  by (subst lines.simps) (simp add: memchr_nl_None)

lemma deserialize_eq:
  assumes "no_oom mem"
  shows "fst (deserialize_files data mem) = map (\<lambda>l. Some (as_cstr l)) (lines data) \<and> no_oom (snd (deserialize_files data mem))"
proof (cases "newline \<in> set data")
  case True
  then have "length (filter (\<lambda>c. c = newline) data) \<noteq> 0" by (simp add: filter_empty_conv)
  then show ?thesis
    using des_loop_eq [of "snd (malloc_ok mem)" data] assms by (simp add: deserialize_files_def Let_def split_def)
next
  case False
  then show ?thesis using assms no_lines [OF False] by (auto simp: deserialize_files_def Let_def filter_empty_conv)
qed

subsection \<open>Steps of a write transaction\<close>

text \<open>
  From \<open>t\<close> to \<open>t'\<close> the view becomes \<open>C\<close>, unless the transaction can no longer be committed;
  what an abort goes back to stays the same.
\<close>

definition txn_step :: "('e, 't) lmdb_view \<Rightarrow> 't \<Rightarrow> 't \<Rightarrow> contents \<Rightarrow> bool" where
  "txn_step V t t' C \<longleftrightarrow> txn_base V t' = txn_base V t \<and> (txn_view V t' = C \<or> doomed V t') \<and> (doomed V t \<longrightarrow> doomed V t')"

lemma txn_step_refl: "txn_step V t t (txn_view V t)"
  by (simp add: txn_step_def)

lemma txn_step_trans:
  "txn_step V t t1 C1 \<Longrightarrow> txn_step V t1 t2 (F (txn_view V t1)) \<Longrightarrow> txn_step V t t2 (F C1)"
  by (auto simp: txn_step_def)

lemma txn_step_base: "txn_step V t t' C \<Longrightarrow> txn_base V t' = txn_base V t"
  by (simp add: txn_step_def)

lemma write_law_step: "write_law V t (MDB_SUCCESS, t') C \<Longrightarrow> txn_step V t t' C"
  by (simp add: txn_step_def write_law_def)

lemma write_law_base: "write_law V t r C \<Longrightarrow> txn_base V (snd r) = txn_base V t"
  by (simp add: write_law_def)

definition drop_owners :: "contents \<Rightarrow> string \<Rightarrow> string set \<Rightarrow> contents" where
  "drop_owners C name ps =
     C(file_owner_dbi := (\<lambda>p. if p \<in> ps \<and> C file_owner_dbi p = Some name then None else C file_owner_dbi p))"

lemma drop_owners_Un: "drop_owners (drop_owners C name a) name b = drop_owners C name (a \<union> b)"
  by (auto simp: drop_owners_def fun_eq_iff)

lemma drop_owners_empty [simp]: "drop_owners C name {} = C"
  by (simp add: drop_owners_def)

lemma del_owner_step:
  assumes spec: "lmdb_spec L V"
  shows "txn_step V t (case mdb_get L t file_owner_dbi path of
      Inr owner \<Rightarrow> if owner = name then snd (mdb_del L t file_owner_dbi path) else t | Inl _ \<Rightarrow> t)
    (drop_owners (txn_view V t) name {path})"
proof (cases "txn_view V t file_owner_dbi path = Some name")
  case True
  then have get: "mdb_get L t file_owner_dbi path = Inr name" using lmdb_get [OF spec] by blast
  obtain rc t' where d: "mdb_del L t file_owner_dbi path = (rc, t')" by fastforce
  have w: "write_law V t (rc, t') (set_rec (txn_view V t) file_owner_dbi path None)"
    using lmdb_del [OF spec, of t file_owner_dbi path] d by simp
  have C: "set_rec (txn_view V t) file_owner_dbi path None = drop_owners (txn_view V t) name {path}"
    using True by (auto simp: set_rec_def drop_owners_def fun_eq_iff)
  show ?thesis
  proof (cases "rc = MDB_SUCCESS")
    case rc: True
    then show ?thesis using get d w C write_law_step by force
  next
    case rc: False
    then have "doomed V t'" using lmdb_del_present [OF spec True] d by simp
    then show ?thesis using get d w by (auto simp: txn_step_def write_law_def)
  qed
next
  case False
  then have "drop_owners (txn_view V t) name {path} = txn_view V t" by (auto simp: drop_owners_def fun_eq_iff)
  moreover have "mdb_get L t file_owner_dbi path \<noteq> Inr name" using False lmdb_get [OF spec] by blast
  ultimately show ?thesis by (auto simp: txn_step_refl split: sum.splits)
qed

lemma del_owner_loop_step:
  assumes spec: "lmdb_spec L V"
  shows "txn_step V t (del_owner_loop L name rest t) (drop_owners (txn_view V t) name (set (lines rest)))"
proof (induction rest arbitrary: t rule: lines.induct)
  case (1 rest)
  show ?case
  proof (cases "memchr_nl rest")
    case None
    then show ?thesis by (simp add: del_owner_loop.simps [of L name rest] lines.simps [of rest] txn_step_refl)
  next
    case (Some n)
    define t' where "t' = (if 0 < n then (case mdb_get L t file_owner_dbi (take n rest) of
        Inr owner \<Rightarrow> if owner = name then snd (mdb_del L t file_owner_dbi (take n rest)) else t | Inl _ \<Rightarrow> t) else t)"
    define ps where "ps = set (if 0 < n then [take n rest] else [])"
    have "txn_step V t t' (drop_owners (txn_view V t) name ps)"
      using del_owner_step [OF spec, of t name "take n rest"] txn_step_refl [of V t] by (auto simp: t'_def ps_def)
    from txn_step_trans [OF this, where F = "\<lambda>C. drop_owners C name (set (lines (drop (Suc n) rest)))", OF "1.IH" [OF Some]]
    have "txn_step V t (del_owner_loop L name (drop (Suc n) rest) t')
        (drop_owners (txn_view V t) name (ps \<union> set (lines (drop (Suc n) rest))))"
      by (simp add: drop_owners_Un)
    then show ?thesis
      using Some by (simp add: del_owner_loop.simps [of L name rest] lines.simps [of rest] t'_def ps_def Let_def)
  qed
qed

definition own_files :: "contents \<Rightarrow> string \<Rightarrow> str_list \<Rightarrow> contents" where
  "own_files C name fs = C(file_owner_dbi := (\<lambda>p. if Some p \<in> set fs then Some name else C file_owner_dbi p))"

lemma put_owners_step:
  assumes spec: "lmdb_spec L V"
  shows "put_owners L name fs t = (rc, t') \<Longrightarrow> txn_base V t' = txn_base V t \<and>
    (rc = MDB_SUCCESS \<longrightarrow> txn_step V t t' (own_files (txn_view V t) name fs))"
proof (induction fs arbitrary: t)
  case Nil
  then show ?case using txn_step_refl [of V t] by (auto simp: own_files_def)
next
  case (Cons f fs)
  show ?case
  proof (cases f)
    case None
    then show ?thesis using Cons by (auto simp: own_files_def)
  next
    case (Some fp)
    obtain rc1 t1 where p: "mdb_put L t file_owner_dbi fp name = (rc1, t1)" by fastforce
    have w: "write_law V t (rc1, t1) (set_rec (txn_view V t) file_owner_dbi fp (Some name))"
      using lmdb_put [OF spec, of t file_owner_dbi fp name] p by simp
    show ?thesis
    proof (cases "rc1 = MDB_SUCCESS")
      case False
      then show ?thesis using Cons.prems Some p w by (auto simp: write_law_def)
    next
      case True
      have put: "put_owners L name fs t1 = (rc, t')" using Cons.prems Some p True by simp
      have base: "txn_base V t1 = txn_base V t" using write_law_base [OF w] by simp
      have step: "txn_step V t t1 (set_rec (txn_view V t) file_owner_dbi fp (Some name))"
        using write_law_step [of V t t1] w True by simp
      have "own_files (set_rec C file_owner_dbi fp (Some name)) name fs = own_files C name (f # fs)" for C
        using Some by (auto simp: own_files_def set_rec_def fun_eq_iff)
      then show ?thesis using Cons.IH [OF put] base txn_step_trans [OF step, of t' "\<lambda>C. own_files C name fs"] by auto
    qed
  qed
qed

definition old_paths :: "contents \<Rightarrow> string \<Rightarrow> string set" where
  "old_paths C name = (case C files_dbi name of None \<Rightarrow> {} | Some data \<Rightarrow> set (lines data))"

lemma delete_entries_base:
  assumes spec: "lmdb_spec L V" and "delete_file_owner_entries L db t name mem = (t', mem')"
  shows "txn_base V t' = txn_base V t"
  using assms txn_step_base [OF del_owner_loop_step [OF spec]]
  by (auto simp: delete_file_owner_entries_def split: sum.splits prod.splits if_splits)

definition handle_ready :: "'e db_handle \<Rightarrow> bool" where
  "handle_ready db \<longleftrightarrow> files_dbi_open db \<and> file_owner_dbi_open db"

lemma delete_entries_step:
  assumes spec: "lmdb_spec L V" and "handle_ready db" and "no_oom mem"
    and d: "delete_file_owner_entries L db t name mem = (t', mem')"
  shows "txn_step V t t' (drop_owners (txn_view V t) name (old_paths (txn_view V t) name)) \<and> no_oom mem'"
proof (cases "txn_view V t files_dbi name")
  case None
  then have "\<exists>rc. mdb_get L t files_dbi name = Inl rc"
    using lmdb_get [OF spec] by (cases "mdb_get L t files_dbi name") (metis option.distinct(1))+
  then show ?thesis
    using d assms(2,3) None txn_step_refl [of V t]
    by (auto simp: delete_file_owner_entries_def handle_ready_def old_paths_def)
next
  case (Some data)
  then have g: "mdb_get L t files_dbi name = Inr data" using lmdb_get [OF spec] by blast
  show ?thesis
    using d assms(2,3) Some g del_owner_loop_step [OF spec, of t name data] txn_step_refl [of V t]
    by (auto simp: delete_file_owner_entries_def handle_ready_def old_paths_def split_def Let_def split: if_splits)
qed

text \<open>The file part of adding a package, on contents.\<close>

definition add_files :: "string \<Rightarrow> str_list \<Rightarrow> contents \<Rightarrow> contents" where
  "add_files name fs C =
     own_files (set_rec (drop_owners C name (old_paths C name)) files_dbi name (Some (file_text fs))) name fs"

lemma put_files_base:
  assumes spec: "lmdb_spec L V" and fs: "list_ok cstring fs"
  shows "\<exists>rc t' mem'. put_files L db name fs t mem = Some (rc, t', mem') \<and> txn_base V t' = txn_base V t"
proof -
  obtain t1 mem1 where d: "delete_file_owner_entries L db t name mem = (t1, mem1)" by fastforce
  have b1: "txn_base V t1 = txn_base V t" by (rule delete_entries_base [OF spec d])
  have b2: "txn_base V (snd (mdb_put L t1 files_dbi name x)) = txn_base V t1" for x
    by (rule write_law_base [OF lmdb_put [OF spec]])
  have b3: "txn_base V (snd (put_owners L name fs t2)) = txn_base V t2" for t2
    using put_owners_step [OF spec, of name fs t2] by (cases "put_owners L name fs t2") auto
  show ?thesis
    using d b1 b2 b3
    by (auto simp: put_files_def serialize_files_eq [OF fs] strdup_m_def split_def Let_def split: option.split)
qed

lemma put_files_step:
  assumes spec: "lmdb_spec L V" and fs: "list_ok cstring fs" and h: "handle_ready db" and "no_oom mem"
    and p: "put_files L db name fs t mem = Some (MDB_SUCCESS, t', mem')"
  shows "txn_step V t t' (add_files name fs (txn_view V t))"
proof -
  obtain t1 mem1 where d: "delete_file_owner_entries L db t name mem = (t1, mem1)" by fastforce
  have s1: "txn_step V t t1 (drop_owners (txn_view V t) name (old_paths (txn_view V t) name))" "no_oom mem1"
    using delete_entries_step [OF spec h assms(4) d] by simp_all
  obtain mem2 where m: "strdup_m (file_text fs) mem1 = (Some (file_text fs), mem2)" "no_oom mem2"
    using strdup_no_oomE [OF s1(2)] by metis
  obtain rc2 t2 where w: "mdb_put L t1 files_dbi name (file_text fs) = (rc2, t2)" by fastforce
  have rc2: "rc2 = MDB_SUCCESS" and pu: "put_owners L name fs t2 = (MDB_SUCCESS, t')"
    using p d w h m(1) by (auto simp: put_files_def handle_ready_def serialize_files_eq [OF fs] split: if_splits prod.splits)
  have s2: "txn_step V t1 t2 (set_rec (txn_view V t1) files_dbi name (Some (file_text fs)))"
    using write_law_step lmdb_put [OF spec, of t1 files_dbi name "file_text fs"] w rc2 by fastforce
  have s3: "txn_step V t2 t' (own_files (txn_view V t2) name fs)" using put_owners_step [OF spec pu] by simp
  have "txn_step V t t2 (set_rec (drop_owners (txn_view V t) name (old_paths (txn_view V t) name)) files_dbi name (Some (file_text fs)))"
    using txn_step_trans [OF s1(1), of t2 "\<lambda>C. set_rec C files_dbi name (Some (file_text fs))"] s2 by simp
  then show ?thesis
    using txn_step_trans [of V t t2 _ t' "\<lambda>C. own_files C name fs"] s3 by (simp add: add_files_def)
qed

subsection \<open>The abstract store\<close>

text \<open>
  What the three databases stand for: the record of each package, its file list, and the
  owner of each path.  The names of the named databases are not packages.
\<close>

record store =
  st_records :: "string \<Rightarrow> string option"
  st_files :: "string \<Rightarrow> string option"
  st_owners :: "string \<Rightarrow> string option"

definition reserved :: "string set" where
  "reserved = {''files'', ''file_owner'', ''journal''}"

definition store_of :: "contents \<Rightarrow> store" where
  "store_of C = \<lparr>st_records = (C None) |` (- reserved), st_files = C files_dbi, st_owners = C file_owner_dbi\<rparr>"

definition st_paths :: "store \<Rightarrow> string \<Rightarrow> string set" where
  "st_paths S name = (case st_files S name of None \<Rightarrow> {} | Some data \<Rightarrow> set (lines data))"

definition st_forget :: "string \<Rightarrow> store \<Rightarrow> store" where
  "st_forget name S = S\<lparr>st_owners := (\<lambda>p. if p \<in> st_paths S name \<and> st_owners S p = Some name then None else st_owners S p)\<rparr>"

text \<open>Recording a package: with an empty file list the file databases stay as they are.\<close>

definition st_add :: "string \<Rightarrow> string \<Rightarrow> str_list \<Rightarrow> store \<Rightarrow> store" where
  "st_add name text fs S =
     (let S1 = S\<lparr>st_records := (st_records S)(name \<mapsto> text)\<rparr> in
      if fs = [] then S1
      else let S2 = st_forget name S1 in
        S2\<lparr>st_files := (st_files S2)(name \<mapsto> file_text fs),
           st_owners := (\<lambda>p. if Some p \<in> set fs then Some name else st_owners S2 p)\<rparr>)"

definition st_remove :: "string \<Rightarrow> store \<Rightarrow> store" where
  "st_remove name S =
     (st_forget name S)\<lparr>st_records := (st_records S)(name := None), st_files := (st_files S)(name := None)\<rparr>"

lemma dbi_distinct [simp]:
  "files_dbi \<noteq> file_owner_dbi" "file_owner_dbi \<noteq> files_dbi" "files_dbi \<noteq> None" "file_owner_dbi \<noteq> None"
  "None \<noteq> files_dbi" "None \<noteq> file_owner_dbi" "files_dbi \<noteq> Some ''journal''" "file_owner_dbi \<noteq> Some ''journal''"
  by (simp_all add: files_dbi_def file_owner_dbi_def)

lemma store_of_add_files: "fs \<noteq> [] \<Longrightarrow> name \<notin> reserved \<Longrightarrow>
    store_of (add_files name fs (set_rec C None name (Some text))) = st_add name text fs (store_of C)"
  by (auto simp: store_of_def st_add_def st_forget_def st_paths_def add_files_def own_files_def drop_owners_def
      old_paths_def set_rec_def Let_def restrict_map_def fun_eq_iff)

lemma store_of_put: "name \<notin> reserved \<Longrightarrow> store_of (set_rec C None name (Some text)) = st_add name text [] (store_of C)"
  by (auto simp: store_of_def st_add_def set_rec_def restrict_map_def fun_eq_iff)

subsection \<open>Adding a package\<close>

lemma push_Some: "(let x = a in Some (f x)) = Some (let x = a in f x)"
  "(case p of (a, b) \<Rightarrow> Some (g a b)) = Some (case p of (a, b) \<Rightarrow> g a b)"
  by (simp_all add: Let_def split_def)

lemma package_to_json_total: "pkg_meta pkg = Some m \<Longrightarrow> \<exists>r mem'. package_to_json J pkg mem = Some (r, mem')"
  by (simp add: package_to_json_def push_Some del: Let_def)

lemma db_add_once_base:
  assumes spec: "lmdb_spec L V" and p: "pkg_meta pkg = Some m" "meta_name m = Some name" "list_ok cstring (package_files pkg)"
  shows "\<exists>rc env mem'. db_add_once L J db pkg mem = Some (rc, env, mem') \<and>
    (rc \<noteq> MDB_SUCCESS \<longrightarrow> env_view V env = env_view V (db_env db))"
proof (cases "mdb_txn_begin L (db_env db) False")
  case (Inl x)
  then show ?thesis using lmdb_begin_fail [OF spec] by (cases x) (auto simp: db_add_once_def)
next
  case (Inr t)
  obtain rc t1 where o1: "mdb_dbi_open L t None False = (rc, t1)" by fastforce
  have b1: "txn_base V t1 = env_view V (db_env db)" using lmdb_begin [OF spec Inr] lmdb_open_same [OF spec o1] by simp
  show ?thesis
  proof (cases "rc = MDB_SUCCESS")
    case False
    then show ?thesis using Inr o1 b1 lmdb_abort [OF spec, of t1] by (simp add: db_add_once_def)
  next
    case True
    obtain json mem1 where j: "package_to_json J pkg mem = Some (json, mem1)" using package_to_json_total [OF p(1)] by blast
    show ?thesis
    proof (cases json)
      case None
      then show ?thesis using Inr o1 b1 True j lmdb_abort [OF spec, of t1] by (simp add: db_add_once_def)
    next
      case (Some body)
      obtain rc2 t2 where w: "mdb_put L t1 None name body = (rc2, t2)" by fastforce
      have b2: "txn_base V t2 = env_view V (db_env db)"
        using write_law_base [OF lmdb_put [OF spec, of t1 None name body]] w b1 by simp
      obtain rc3 t3 mem3 where f: "(if rc2 = MDB_SUCCESS \<and> package_files pkg \<noteq> []
          then put_files L db name (package_files pkg) t2 mem1 else Some (rc2, t2, mem1)) = Some (rc3, t3, mem3)"
        and b3: "txn_base V t3 = env_view V (db_env db)"
        using put_files_base [OF spec p(3), of db name t2 mem1] b2 by (cases "rc2 = MDB_SUCCESS \<and> package_files pkg \<noteq> []") auto
      obtain rc4 env where c: "mdb_txn_commit L t3 = (rc4, env)" by fastforce
      show ?thesis
        using Inr o1 True j Some w f c b3 p lmdb_commit [OF spec c] lmdb_abort [OF spec, of t3]
        by (simp add: db_add_once_def)
    qed
  qed
qed

lemma put_files_no_oom:
  assumes fs: "list_ok cstring fs" and "no_oom mem" and p: "put_files L db name fs t mem = Some (rc, t', mem')"
  shows "no_oom mem'"
proof -
  obtain t1 mem1 where d: "delete_file_owner_entries L db t name mem = (t1, mem1)" by fastforce
  have "no_oom mem1" using d assms(2) by (auto simp: delete_file_owner_entries_def split_def Let_def split: sum.splits if_splits)
  moreover have "mem' = mem1 \<or> mem' = snd (strdup_m (file_text fs) mem1)"
    using p d by (auto simp: put_files_def serialize_files_eq [OF fs] split_def Let_def split: if_splits option.splits)
  ultimately show ?thesis by auto
qed

definition recordable :: "'e db_handle \<Rightarrow> package \<Rightarrow> bool" where
  "recordable db pkg \<longleftrightarrow> handle_ready db \<and>
     (\<exists>m name. pkg_meta pkg = Some m \<and> meta_name m = Some name \<and> name \<notin> reserved \<and> deps_ok (meta_dependencies m)) \<and>
     list_ok cstring (package_files pkg)"

definition pkg_text :: "yyjson \<Rightarrow> package \<Rightarrow> string option" where
  "pkg_text J pkg = yyjson_mut_write J (JObj (package_doc pkg (the (pkg_meta pkg))))"

definition pkg_id :: "package \<Rightarrow> string" where
  "pkg_id pkg = the (meta_name (the (pkg_meta pkg)))"

lemma db_add_once_step:
  assumes spec: "lmdb_spec L V" and p: "recordable db pkg" and mem: "no_oom mem"
    and r: "db_add_once L J db pkg mem = Some (rc, env, mem')"
  shows "no_oom mem' \<and> (rc = MDB_SUCCESS \<longrightarrow> (\<exists>body. pkg_text J pkg = Some body \<and>
    store_of (env_view V env) = st_add (pkg_id pkg) body (package_files pkg) (store_of (env_view V (db_env db)))))"
proof (cases "mdb_txn_begin L (db_env db) False")
  case (Inl x)
  then show ?thesis using lmdb_begin_fail [OF spec, of "db_env db" False] mem r by (cases x) (auto simp: db_add_once_def)
next
  case (Inr t)
  obtain m name where m: "pkg_meta pkg = Some m" "meta_name m = Some name" "name \<notin> reserved"
    "deps_ok (meta_dependencies m)" "list_ok cstring (package_files pkg)" "handle_ready db"
    using p by (auto simp: recordable_def)
  have id: "pkg_id pkg = name" using m by (simp add: pkg_id_def)
  obtain rc1 t1 where o1: "mdb_dbi_open L t None False = (rc1, t1)" by fastforce
  have v1: "txn_view V t1 = env_view V (db_env db)" using lmdb_begin [OF spec Inr] lmdb_open_same [OF spec o1] by simp
  obtain mem1 where j: "package_to_json J pkg mem = Some (pkg_text J pkg, mem1)" "no_oom mem1"
    using package_to_json_no_oom [OF mem m(1,4), of J] m(1) by (auto simp: pkg_text_def)
  show ?thesis
  proof (cases "rc1 = MDB_SUCCESS \<and> pkg_text J pkg \<noteq> None")
    case False
    then show ?thesis using r Inr o1 j mem by (auto simp: db_add_once_def ENOMEM_def MDB_SUCCESS_def split: if_splits)
  next
    case True
    then obtain body where body: "pkg_text J pkg = Some body" and rc1: "rc1 = MDB_SUCCESS" by auto
    obtain rc2 t2 where w: "mdb_put L t1 None name body = (rc2, t2)" by fastforce
    let ?put = "if rc2 = MDB_SUCCESS \<and> package_files pkg \<noteq> []
          then put_files L db name (package_files pkg) t2 mem1 else Some (rc2, t2, mem1)"
    obtain rc3 t3 mem3 where f: "?put = Some (rc3, t3, mem3)"
      using put_files_base [OF spec m(5), of db name t2 mem1] by (cases "rc2 = MDB_SUCCESS \<and> package_files pkg \<noteq> []") auto
    have oom: "no_oom mem3" using f j(2) put_files_no_oom [OF m(5) j(2)] by (auto split: if_splits)
    obtain rc4 env4 where c: "mdb_txn_commit L t3 = (rc4, env4)" by fastforce
    have res: "mem' = mem3" "rc = MDB_SUCCESS \<longrightarrow> rc3 = MDB_SUCCESS \<and> rc4 = MDB_SUCCESS \<and> env = env4"
      using r Inr o1 rc1 j body w f c m by (auto simp: db_add_once_def split: if_splits)
    have "store_of (env_view V env) = st_add name body (package_files pkg) (store_of (env_view V (db_env db)))"
      if "rc = MDB_SUCCESS"
    proof -
      have ok: "rc3 = MDB_SUCCESS" "rc4 = MDB_SUCCESS" "env = env4" using res(2) that by simp_all
      have rc2: "rc2 = MDB_SUCCESS" using f ok(1) by (auto split: if_splits)
      have s2: "txn_step V t1 t2 (set_rec (txn_view V t1) None name (Some body))"
        using lmdb_put [OF spec, of t1 None name body] w rc2 write_law_step by fastforce
      have "txn_step V t1 t3 (if package_files pkg = [] then set_rec (txn_view V t1) None name (Some body)
          else add_files name (package_files pkg) (set_rec (txn_view V t1) None name (Some body)))"
      proof (cases "package_files pkg = []")
        case True
        then show ?thesis using f s2 rc2 by simp
      next
        case False
        then have "put_files L db name (package_files pkg) t2 mem1 = Some (MDB_SUCCESS, t3, mem3)" using f rc2 ok(1) by simp
        from txn_step_trans [OF s2, of t3 "add_files name (package_files pkg)"] put_files_step [OF spec m(5,6) j(2) this]
        show ?thesis using False by simp
      qed
      moreover have "env_view V env = txn_view V t3" "\<not> doomed V t3" using lmdb_commit [OF spec c] ok by simp_all
      ultimately have "env_view V env = (if package_files pkg = [] then set_rec (txn_view V t1) None name (Some body)
          else add_files name (package_files pkg) (set_rec (txn_view V t1) None name (Some body)))"
        by (simp add: txn_step_def)
      then show ?thesis using store_of_add_files [OF _ m(3)] store_of_put [OF m(3)] v1 by simp
    qed
    then show ?thesis using oom res(1) body id by simp
  qed
qed

lemma grow_map_view: "lmdb_spec L V \<Longrightarrow> grow_map L env = (g, env') \<Longrightarrow> env_view V env' = env_view V env"
  using lmdb_mapsize [of L V env] by (auto simp: grow_map_def split: option.splits prod.splits)

lemma handle_env [simp]:
  "handle_ready (db\<lparr>db_env := e\<rparr>) = handle_ready db" "recordable (db\<lparr>db_env := e\<rparr>) pkg = recordable db pkg"
  "handle_ready (db\<lparr>hook_calls := hs\<rparr>) = handle_ready db" "recordable (db\<lparr>hook_calls := hs\<rparr>) pkg = recordable db pkg"
  by (simp_all add: handle_ready_def recordable_def)

text \<open>The retry loop ends; a failure leaves the contents \<open>C\<close> it started from.\<close>

lemma add_retry_base:
  assumes spec: "lmdb_spec L V" and p: "pkg_meta pkg = Some m" "meta_name m = Some name" "list_ok cstring (package_files pkg)"
  shows "(rc \<noteq> MDB_SUCCESS \<longrightarrow> env_view V (db_env db) = C) \<Longrightarrow>
    \<exists>rc' env mem'. add_retry L J pkg left rc db mem = Some (rc', db\<lparr>db_env := env\<rparr>, mem') \<and>
      (rc' \<noteq> MDB_SUCCESS \<longrightarrow> env_view V env = C)"
proof (induction left arbitrary: rc db mem)
  case 0
  then show ?case by (intro exI [of _ rc] exI [of _ "db_env db"] exI [of _ mem]) simp
next
  case (Suc left)
  obtain g env where g: "grow_map L (db_env db) = (g, env)" by fastforce
  have gv: "env_view V env = env_view V (db_env db)" by (rule grow_map_view [OF spec g])
  show ?case
  proof (cases "rc = MDB_MAP_FULL \<and> g")
    case False
    then show ?thesis using g gv Suc.prems
      by (cases "rc = MDB_MAP_FULL") (auto intro: exI [of _ env] exI [of _ "db_env db"])
  next
    case True
    then have C: "env_view V env = C" using Suc.prems gv by (simp add: MDB_MAP_FULL_def MDB_SUCCESS_def)
    obtain rc1 env1 mem1 where a: "db_add_once L J (db\<lparr>db_env := env\<rparr>) pkg mem = Some (rc1, env1, mem1)"
      "rc1 \<noteq> MDB_SUCCESS \<longrightarrow> env_view V env1 = C"
      using db_add_once_base [OF spec p, of J "db\<lparr>db_env := env\<rparr>" mem] C by auto
    then show ?thesis using Suc.IH [of rc1 "db\<lparr>db_env := env1\<rparr>" mem1] True g by simp
  qed
qed

lemma add_retry_step:
  assumes spec: "lmdb_spec L V" and "no_oom mem" and "recordable db pkg"
    and "add_retry L J pkg left rc db mem = Some (rc', db', mem')" and "rc' = MDB_SUCCESS"
    and "rc \<noteq> MDB_SUCCESS \<longrightarrow> store_of (env_view V (db_env db)) = S"
    and "rc = MDB_SUCCESS \<longrightarrow> (\<exists>body. pkg_text J pkg = Some body \<and> store_of (env_view V (db_env db)) = st_add (pkg_id pkg) body (package_files pkg) S)"
  shows "\<exists>body. pkg_text J pkg = Some body \<and> store_of (env_view V (db_env db')) = st_add (pkg_id pkg) body (package_files pkg) S"
  using assms(2-7)
proof (induction left arbitrary: rc db mem)
  case (Suc left)
  obtain g env where g: "grow_map L (db_env db) = (g, env)" by fastforce
  have gv: "env_view V env = env_view V (db_env db)" by (rule grow_map_view [OF spec g])
  show ?case
  proof (cases "rc = MDB_MAP_FULL \<and> g")
    case False
    then show ?thesis using g Suc.prems
      by (cases "rc = MDB_MAP_FULL") (auto simp: MDB_MAP_FULL_def MDB_SUCCESS_def)
  next
    case True
    then have rc: "rc \<noteq> MDB_SUCCESS" by (simp add: MDB_MAP_FULL_def MDB_SUCCESS_def)
    obtain m name where m: "pkg_meta pkg = Some m" "meta_name m = Some name" "list_ok cstring (package_files pkg)"
      using Suc.prems(2) by (auto simp: recordable_def)
    obtain rc1 env1 mem1 where a: "db_add_once L J (db\<lparr>db_env := env\<rparr>) pkg mem = Some (rc1, env1, mem1)"
      "rc1 \<noteq> MDB_SUCCESS \<longrightarrow> env_view V env1 = env_view V (db_env db)"
      using db_add_once_base [OF spec m, of J "db\<lparr>db_env := env\<rparr>" mem] gv by auto
    have s: "no_oom mem1 \<and> (rc1 = MDB_SUCCESS \<longrightarrow> (\<exists>body. pkg_text J pkg = Some body \<and>
        store_of (env_view V env1) = st_add (pkg_id pkg) body (package_files pkg) S))"
      using db_add_once_step [OF spec _ Suc.prems(1) a(1)] Suc.prems(2,5) gv rc by simp
    show ?thesis
      by (rule Suc.IH [of mem1 "db\<lparr>db_env := env1\<rparr>" rc1]) (use Suc.prems True rc g a s in simp_all)
  qed
qed auto

lemma db_journal_store:
  assumes spec: "lmdb_spec L V"
  shows "store_of (env_view V (db_env (db_journal L op name version ok expl db))) = store_of (env_view V (db_env db))"
proof -
  obtain ok' env seq where w: "journal_write L (db_env db) op name version
      (if ok then JOURNAL_STATUS_OK else JOURNAL_STATUS_FAILED) (db_uid db) expl (db_clock db (db_ticks db)) (seq_counter db) =
      (ok', env, seq)" by (metis prod_cases3)
  have same: "env_view V env d k = env_view V (db_env db) d k" if "d \<noteq> Some ''journal''" "(d, k) \<noteq> (None, ''journal'')" for d k
    using journal_write_view [OF spec w] that by blast
  have "env_view V env None x = env_view V (db_env db) None x" if "x \<notin> reserved" for x
    using that by (intro same) (auto simp: reserved_def)
  moreover have "env_view V env files_dbi = env_view V (db_env db) files_dbi"
    "env_view V env file_owner_dbi = env_view V (db_env db) file_owner_dbi"
    by (intro ext same; simp add: files_dbi_def file_owner_dbi_def)+
  ultimately have "store_of (env_view V env) = store_of (env_view V (db_env db))"
    by (auto simp: store_of_def restrict_map_def fun_eq_iff)
  then show ?thesis using w by (simp add: db_journal_def)
qed

lemma call_hook_env [simp]: "db_env (call_hook pre op name db) = db_env db"
  by (simp add: call_hook_def)

lemma call_hook_handle [simp]:
  "handle_ready (call_hook pre op name db) = handle_ready db" "recordable (call_hook pre op name db) pkg = recordable db pkg"
  by (simp_all add: call_hook_def)

lemma db_journal_handle [simp]:
  "handle_ready (db_journal L op name version ok expl db) = handle_ready db"
  "suppress_journal (db_journal L op name version ok expl db) = suppress_journal db"
  by (simp_all add: db_journal_def handle_ready_def split_def Let_def)

lemma call_hook_suppress [simp]: "suppress_journal (call_hook pre op name db) = suppress_journal db"
  by (simp add: call_hook_def)

text \<open>All or nothing, whatever fails.\<close>

lemma db_add_all_or_nothing:
  assumes spec: "lmdb_spec L V" and p: "recordable db pkg"
  shows "\<exists>ok db' mem'. db_add L J db pkg mem = Some (ok, db', mem') \<and> handle_ready db' \<and>
    (\<not> ok \<longrightarrow> store_of (env_view V (db_env db')) = store_of (env_view V (db_env db))) \<and>
    (ok \<and> no_oom mem \<longrightarrow> (\<exists>body. pkg_text J pkg = Some body \<and>
       store_of (env_view V (db_env db')) = st_add (pkg_id pkg) body (package_files pkg) (store_of (env_view V (db_env db)))))"
proof -
  obtain m name where m: "pkg_meta pkg = Some m" "meta_name m = Some name" "list_ok cstring (package_files pkg)"
    using p by (auto simp: recordable_def)
  define db1 where "db1 = call_hook True DB_OP_ADD (meta_name m) db"
  have db1: "db_env db1 = db_env db" "recordable db1 pkg" using p by (simp_all add: db1_def)
  obtain rc1 env1 mem1 where a: "db_add_once L J db1 pkg mem = Some (rc1, env1, mem1)"
    "rc1 \<noteq> MDB_SUCCESS \<longrightarrow> env_view V env1 = env_view V (db_env db)"
    using db_add_once_base [OF spec m, of J db1 mem] db1(1) by auto
  obtain rc2 env2 mem2 where b: "add_retry L J pkg MAP_GROW_ATTEMPTS rc1 (db1\<lparr>db_env := env1\<rparr>) mem1 = Some (rc2, db1\<lparr>db_env := env2\<rparr>, mem2)"
    "rc2 \<noteq> MDB_SUCCESS \<longrightarrow> env_view V env2 = env_view V (db_env db)"
    using add_retry_base [OF spec m, of rc1 "db1\<lparr>db_env := env1\<rparr>" "env_view V (db_env db)" J MAP_GROW_ATTEMPTS mem1] a(2) by auto
  define db2 where "db2 = db1\<lparr>db_env := env2\<rparr>"
  define db3 where "db3 = (if suppress_journal db2 then db2
      else db_journal L JOURNAL_INSTALL (meta_name m) (meta_version m) (rc2 = MDB_SUCCESS) True db2)"
  have st3: "store_of (env_view V (db_env db3)) = store_of (env_view V env2)"
    using db_journal_store [OF spec] by (simp add: db3_def db2_def)
  have res: "db_add L J db pkg mem = (if db_readonly db then Some (False, db, mem)
      else Some (rc2 = MDB_SUCCESS, call_hook False DB_OP_ADD (meta_name m) db3, mem2))"
    using m(1) a(1) b(1) by (simp add: db_add_def db1_def [symmetric] db2_def [symmetric] db3_def Let_def)
  have "\<exists>body. pkg_text J pkg = Some body \<and>
      store_of (env_view V env2) = st_add (pkg_id pkg) body (package_files pkg) (store_of (env_view V (db_env db)))"
    if ok: "rc2 = MDB_SUCCESS" and "no_oom mem"
    using add_retry_step [OF spec _ _ b(1) ok, of "store_of (env_view V (db_env db))"] a(2)
      db_add_once_step [OF spec db1(2) that(2) a(1)] db1 by simp
  moreover have "handle_ready db" "handle_ready db3" using p db1(2) by (simp_all add: recordable_def db3_def db2_def)
  ultimately show ?thesis using res st3 b(2) by (cases "db_readonly db") auto
qed

subsection \<open>Removing a package\<close>

lemma store_of_remove:
  "store_of (set_rec (drop_owners (set_rec C None name None) name (old_paths C name)) files_dbi name None) =
     st_remove name (store_of C)"
  by (auto simp: store_of_def st_remove_def st_forget_def st_paths_def drop_owners_def old_paths_def set_rec_def
      restrict_map_def fun_eq_iff)

text \<open>Deleting a record that may be missing.\<close>

lemma del_step:
  assumes spec: "lmdb_spec L V"
  shows "txn_step V t (snd (mdb_del L t d k)) (set_rec (txn_view V t) d k None)"
proof -
  obtain rc t' where d: "mdb_del L t d k = (rc, t')" by fastforce
  have w: "write_law V t (rc, t') (set_rec (txn_view V t) d k None)" using lmdb_del [OF spec, of t d k] d by simp
  have "set_rec (txn_view V t) d k None = txn_view V t" if "txn_view V t d k = None"
    using that by (auto simp: set_rec_def fun_eq_iff)
  then show ?thesis
    using w d lmdb_del_present [OF spec, of t d k] by (cases "txn_view V t d k") (auto simp: txn_step_def write_law_def)
qed

lemma remove_once_base:
  assumes spec: "lmdb_spec L V" and r: "remove_once L db name mem = (rc, env, mem')"
  shows "(rc \<noteq> MDB_SUCCESS \<longrightarrow> env_view V env = env_view V (db_env db)) \<and>
    (rc = MDB_SUCCESS \<longrightarrow> env_view V (db_env db) None name \<noteq> None) \<and>
    (rc = MDB_SUCCESS \<and> handle_ready db \<and> no_oom mem \<longrightarrow>
       store_of (env_view V env) = st_remove name (store_of (env_view V (db_env db)))) \<and> (no_oom mem \<longrightarrow> no_oom mem')"
proof (cases "mdb_txn_begin L (db_env db) False")
  case (Inl x)
  then show ?thesis using lmdb_begin_fail [OF spec, of "db_env db" False] r by (cases x) (auto simp: remove_once_def)
next
  case (Inr t)
  obtain rc1 t1 where o1: "mdb_dbi_open L t None False = (rc1, t1)" by fastforce
  have v1: "txn_view V t1 = env_view V (db_env db)" "txn_base V t1 = env_view V (db_env db)"
    using lmdb_begin [OF spec Inr] lmdb_open_same [OF spec o1] by simp_all
  obtain rc2 t2 where d: "mdb_del L t1 None name = (rc2, t2)" by fastforce
  have w: "write_law V t1 (rc2, t2) (set_rec (txn_view V t1) None name None)" using lmdb_del [OF spec, of t1 None name] d by simp
  obtain t3 mem3 where e: "delete_file_owner_entries L db t2 name mem = (t3, mem3)" by fastforce
  define t4 where "t4 = (if files_dbi_open db then snd (mdb_del L t3 files_dbi name) else t2)"
  obtain rc5 env5 where c: "mdb_txn_commit L t4 = (rc5, env5)" by fastforce
  note del = del_step [OF spec, of t3 files_dbi name]
  have base: "txn_base V t2 = env_view V (db_env db)" "txn_base V t4 = env_view V (db_env db)"
    using write_law_base [OF w] v1 delete_entries_base [OF spec e] txn_step_base [OF del] by (simp_all add: t4_def)
  have oom: "no_oom mem \<longrightarrow> no_oom mem3"
    using e by (auto simp: delete_file_owner_entries_def split_def Let_def split: sum.splits if_splits)
  show ?thesis
  proof (cases "rc1 = MDB_SUCCESS \<and> rc2 = MDB_SUCCESS")
    case False
    then show ?thesis
      using r Inr o1 d v1 base lmdb_abort [OF spec, of t1] lmdb_abort [OF spec, of t2] by (auto simp: remove_once_def split: if_splits)
  next
    case True
    then have res: "rc = rc5" "env = env5" "mem' = (if files_dbi_open db then mem3 else mem)"
      using r Inr o1 d e c by (auto simp: remove_once_def t4_def split: if_splits)
    have present: "env_view V (db_env db) None name \<noteq> None"
      using True lmdb_del_absent [OF spec, of t1 None name] d v1 by auto
    have "store_of (env_view V env5) = st_remove name (store_of (env_view V (db_env db)))"
      if "rc5 = MDB_SUCCESS" "handle_ready db" "no_oom mem"
    proof -
      have s2: "txn_step V t1 t2 (set_rec (txn_view V t1) None name None)" using write_law_step w True by auto
      have s3: "txn_step V t1 t3 (drop_owners (set_rec (txn_view V t1) None name None) name (old_paths (txn_view V t1) name))"
        using txn_step_trans [OF s2, of t3 "\<lambda>C. drop_owners C name (old_paths C name)"]
          delete_entries_step [OF spec that(2,3) e] by (simp add: old_paths_def)
      have "txn_step V t1 t4 (set_rec (drop_owners (set_rec (txn_view V t1) None name None) name (old_paths (txn_view V t1) name)) files_dbi name None)"
        using txn_step_trans [OF s3, of t4 "\<lambda>C. set_rec C files_dbi name None"] del that(2) by (simp add: t4_def handle_ready_def)
      then show ?thesis
        using lmdb_commit [OF spec c] that(1) store_of_remove [of "txn_view V t1" name] v1 by (simp add: txn_step_def)
    qed
    then show ?thesis using res present oom lmdb_commit [OF spec c] base by auto
  qed
qed

subsection \<open>Reading\<close>

text \<open>A read leaves the contents alone.\<close>

lemma load_files_view:
  assumes spec: "lmdb_spec L V" and "load_package_files L db name mem = (files, db', mem')"
  shows "\<exists>env. db' = db\<lparr>db_env := env\<rparr> \<and> env_view V env = env_view V (db_env db)"
proof (cases "mdb_txn_begin L (db_env db) True")
  case (Inl x)
  then show ?thesis using assms(2) lmdb_begin_fail [OF spec, of "db_env db" True]
    by (cases x) (auto simp: load_package_files_def intro: exI [of _ "db_env db"] split: if_splits)
next
  case (Inr t)
  then show ?thesis using assms(2) lmdb_begin [OF spec Inr] lmdb_abort [OF spec, of t]
    by (auto simp: load_package_files_def intro: exI [of _ "db_env db"] split: if_splits prod.splits)
qed

lemma with_files_view:
  assumes spec: "lmdb_spec L V" and "with_files L db pkg mem = (pkg', db', mem')"
  shows "\<exists>env. db' = db\<lparr>db_env := env\<rparr> \<and> env_view V env = env_view V (db_env db)"
  using assms load_files_view [OF spec]
  by (auto simp: with_files_def intro: exI [of _ "db_env db"] split: option.splits prod.splits)

lemma db_get_view:
  assumes spec: "lmdb_spec L V" and "db_get L J db name mem = (r, db', mem')"
  shows "\<exists>env. db' = db\<lparr>db_env := env\<rparr> \<and> env_view V env = env_view V (db_env db)"
proof (cases name)
  case None
  then show ?thesis using assms(2) by (auto simp: db_get_def intro: exI [of _ "db_env db"])
next
  case (Some n)
  show ?thesis
  proof (cases "mdb_txn_begin L (db_env db) True")
    case (Inl x)
    then show ?thesis using Some assms(2) lmdb_begin_fail [OF spec, of "db_env db" True] by (cases x) (auto simp: db_get_def)
  next
    case (Inr t)
    obtain rc t1 where o1: "mdb_dbi_open L t None False = (rc, t1)" by fastforce
    define db1 where "db1 = db\<lparr>db_env := mdb_txn_abort L t1\<rparr>"
    have v1: "env_view V (db_env db1) = env_view V (db_env db)"
      using lmdb_begin [OF spec Inr] lmdb_open_same [OF spec o1] lmdb_abort [OF spec, of t1] by (simp add: db1_def)
    have "db' = db1 \<or> (\<exists>p m p' m'. with_files L db1 p m = (p', db', m'))"
      using Some assms(2) Inr o1
      by (auto simp: db_get_def Let_def db1_def [symmetric] split: if_splits sum.splits prod.splits option.splits)
    then show ?thesis
      using with_files_view [OF spec, of db1] v1 by (auto simp: db1_def)
  qed
qed

end
