(* ===== verification/Codec.thy ===== *)
theory Codec
  imports Json
begin

text \<open>
  A text format for JSON values that meets \<open>yyjson_spec\<close> for every string, so that statements
  about an arbitrary yyjson are not vacuous.  Counts are unary, strings and lists carry their
  length; the decoder is fuelled by the length of the text.
\<close>

definition num_enc :: "nat \<Rightarrow> string" where
  "num_enc n = replicate n (CHR ''1'') @ ''0''"

definition str_enc :: "string \<Rightarrow> string" where
  "str_enc s = num_enc (length s) @ s"

fun enc :: "json \<Rightarrow> string" where
  "enc JNull = ''n''"
| "enc (JBool b) = (if b then ''t'' else ''f'')"
| "enc (JNum s) = CHR ''d'' # str_enc s"
| "enc (JStr s) = CHR ''s'' # str_enc s"
| "enc (JArr vs) = CHR ''a'' # num_enc (length vs) @ concat (map enc vs)"
| "enc (JObj kvs) = CHR ''o'' # num_enc (length kvs) @ concat (map (\<lambda>(k, v). str_enc k @ enc v) kvs)"

definition num_dec :: "string \<Rightarrow> nat \<times> string" where
  "num_dec s = (length (takeWhile (\<lambda>c. c = CHR ''1'') s), tl (dropWhile (\<lambda>c. c = CHR ''1'') s))"

definition str_dec :: "string \<Rightarrow> string \<times> string" where
  "str_dec s = (let (n, r) = num_dec s in (take n r, drop n r))"

fun dec :: "nat \<Rightarrow> string \<Rightarrow> (json \<times> string) option"
  and dec_arr :: "nat \<Rightarrow> nat \<Rightarrow> string \<Rightarrow> (json list \<times> string) option"
  and dec_obj :: "nat \<Rightarrow> nat \<Rightarrow> string \<Rightarrow> ((string \<times> json) list \<times> string) option" where
  "dec 0 s = None"
| "dec (Suc f) [] = None"
| "dec (Suc f) (c # r) =
     (if c = CHR ''n'' then Some (JNull, r)
      else if c = CHR ''t'' then Some (JBool True, r)
      else if c = CHR ''f'' then Some (JBool False, r)
      else if c = CHR ''d'' then (let (s, r) = str_dec r in Some (JNum s, r))
      else if c = CHR ''s'' then (let (s, r) = str_dec r in Some (JStr s, r))
      else if c = CHR ''a'' then (let (n, r) = num_dec r in do { (vs, r) \<leftarrow> dec_arr f n r; Some (JArr vs, r) })
      else if c = CHR ''o'' then (let (n, r) = num_dec r in do { (kvs, r) \<leftarrow> dec_obj f n r; Some (JObj kvs, r) })
      else None)"
| "dec_arr f 0 s = Some ([], s)"
| "dec_arr 0 (Suc n) s = None"
| "dec_arr (Suc f) (Suc n) s =
     do { (v, s) \<leftarrow> dec f s; (vs, s) \<leftarrow> dec_arr f n s; Some (v # vs, s) }"
| "dec_obj f 0 s = Some ([], s)"
| "dec_obj 0 (Suc n) s = None"
| "dec_obj (Suc f) (Suc n) s =
     (let (k, s) = str_dec s in
      do { (v, s) \<leftarrow> dec f s; (kvs, s) \<leftarrow> dec_obj f n s; Some ((k, v) # kvs, s) })"

definition codec :: yyjson where
  "codec = \<lparr>yyjson_read = (\<lambda>t. map_option fst (dec (length t) t)),
            yyjson_read_file = (\<lambda>_. None),
            yyjson_mut_write = (\<lambda>v. Some (enc v))\<rparr>"

lemma num_dec_enc [simp]: "num_dec (num_enc n @ r) = (n, r)"
  by (induction n) (simp_all add: num_dec_def num_enc_def)

lemma str_dec_enc [simp]: "str_dec (str_enc s @ r) = (s, r)"
  by (simp add: str_dec_def str_enc_def)

lemma length_num_enc [simp]: "length (num_enc n) = Suc n"
  by (simp add: num_enc_def)

lemma dec_arr_enc:
  assumes "\<And>v f r. v \<in> set vs \<Longrightarrow> length (enc v) \<le> f \<Longrightarrow> dec f (enc v @ r) = Some (v, r)"
    and "length (concat (map enc vs)) + length vs \<le> f"
  shows "dec_arr f (length vs) (concat (map enc vs) @ r) = Some (vs, r)"
  using assms
proof (induction vs arbitrary: f)
  case (Cons v vs)
  then obtain f' where f: "f = Suc f'" by (cases f) auto
  have "dec f' (enc v @ concat (map enc vs) @ r) = Some (v, concat (map enc vs) @ r)"
    using Cons.prems f by simp
  moreover have "dec_arr f' (length vs) (concat (map enc vs) @ r) = Some (vs, r)"
    using Cons.IH [of f'] Cons.prems f by simp
  ultimately show ?case using f by simp
qed simp

lemma dec_obj_enc:
  assumes "\<And>k v f r. (k, v) \<in> set kvs \<Longrightarrow> length (enc v) \<le> f \<Longrightarrow> dec f (enc v @ r) = Some (v, r)"
    and "length (concat (map (\<lambda>(k, v). str_enc k @ enc v) kvs)) + length kvs \<le> f"
  shows "dec_obj f (length kvs) (concat (map (\<lambda>(k, v). str_enc k @ enc v) kvs) @ r) = Some (kvs, r)"
  using assms
proof (induction kvs arbitrary: f)
  case (Cons kv kvs)
  obtain k v where kv: "kv = (k, v)" by fastforce
  obtain f' where f: "f = Suc f'" using Cons.prems(2) by (cases f) auto
  let ?rest = "concat (map (\<lambda>(k, v). str_enc k @ enc v) kvs) @ r"
  have "dec f' (enc v @ ?rest) = Some (v, ?rest)"
    by (rule Cons.prems(1) [of k]) (use Cons.prems(2) f kv in simp_all)
  moreover have "dec_obj f' (length kvs) ?rest = Some (kvs, r)"
    using Cons.IH [of f'] Cons.prems f kv by fastforce
  ultimately show ?case using f kv by simp
qed simp

lemma dec_enc_Suc: "length (enc v) \<le> Suc f \<Longrightarrow> (\<And>vs. v \<noteq> JArr vs) \<Longrightarrow> (\<And>kvs. v \<noteq> JObj kvs) \<Longrightarrow>
    dec (Suc f) (enc v @ r) = Some (v, r)"
  by (cases v) auto

lemma dec_enc: "length (enc v) \<le> f \<Longrightarrow> dec f (enc v @ r) = Some (v, r)"
proof (induction v arbitrary: f r)
  case (JArr vs)
  then obtain f' where "f = Suc f'" by (cases f) auto
  then show ?case using JArr dec_arr_enc [of vs f' r] by simp
next
  case (JObj kvs)
  then obtain f' where f: "f = Suc f'" by (cases f) auto
  have "dec_obj f' (length kvs) (concat (map (\<lambda>(k, v). str_enc k @ enc v) kvs) @ r) = Some (kvs, r)"
  proof (rule dec_obj_enc)
    show "dec f (enc v @ r) = Some (v, r)" if "(k, v) \<in> set kvs" "length (enc v) \<le> f" for k v f r
      using JObj.IH [OF that(1), of v] that(2) by simp
  qed (use JObj.prems f in simp)
  then show ?case using f by simp
next
  case JNull
  then show ?case using dec_enc_Suc [of JNull "f - 1"] by (cases f) auto
next
  case (JBool b)
  then show ?case using dec_enc_Suc [of "JBool b" "f - 1"] by (cases f; cases b) auto
next
  case (JNum s)
  then show ?case using dec_enc_Suc [of "JNum s" "f - 1"] by (cases f) auto
next
  case (JStr s)
  then show ?case using dec_enc_Suc [of "JStr s" "f - 1"] by (cases f) auto
qed

text \<open>The codec meets the specification, with every string counting as valid text.\<close>

lemma codec_spec: "yyjson_spec codec (\<lambda>_. True)"
  using dec_enc [of _ _ "[]"] by (simp add: yyjson_spec_def codec_def)

subsection \<open>Properties\<close>

text \<open>
  C35. A package that is written to JSON and read back, with memory available and texts that
  yyjson accepts, comes back as its stored form: the texts, flags and lists it had, with the
  documented defaults for missing ones; NULL entries and nameless dependencies are gone and
  nothing else is.  Writing the stored form again does not change it.
\<close>

theorem package_json_roundtrip:
  assumes "yyjson_spec J U" and "package_ok U p" and "no_oom mem" and "no_oom mem'"
  shows "\<exists>t mem1 mem2. package_to_json J p mem = Some (Some t, mem1) \<and>
    package_from_json J t mem' = (Some (stored p), mem2) \<and> stored (stored p) = stored p"
  using json_write_read [OF assms] by auto

definition sample_pkg :: package where
  "sample_pkg = \<lparr>pkg_meta = Some (zero_metadata\<lparr>meta_name := Some ''app'', meta_version := Some ''1.0'',
       meta_provides := [Some ''editor'', None],
       meta_dependencies := [\<lparr>dep_name = Some ''lib'', dep_op = VER_OP_GE, dep_version = Some ''2''\<rparr>]\<rparr>),
     pkg_path = None, package_files = [Some ''/usr/bin/app''], installed_by_hand = True, held = False\<rparr>"

lemma sample_pkg_ok: "package_ok (\<lambda>_. True) sample_pkg"
proof -
  have "op_free ''lib''" "op_free ''2''" "trim ''lib'' = ''lib''" "trim ''2'' = ''2''" by code_simp+
  then have "canonical \<lparr>dep_name = Some ''lib'', dep_op = VER_OP_GE, dep_version = Some ''2''\<rparr>"
    by (simp add: canonical_def)
  then show ?thesis
    by (simp add: package_ok_def sample_pkg_def meta_ok_def zero_metadata_def deps_ok_def dep_text_ok_def
        constraint_text_def list_ok_def)
qed

theorem package_json_roundtrip_witness:
  "\<exists>t mem1 mem2. package_to_json codec sample_pkg [] = Some (Some t, mem1) \<and>
    package_from_json codec t [] = (Some (stored sample_pkg), mem2) \<and> held (stored sample_pkg) = False"
  using package_json_roundtrip [OF codec_spec sample_pkg_ok no_oom_Nil no_oom_Nil]
  by (auto simp: stored_def sample_pkg_def)

end
