(* ===== verification/Db_Laws.thy ===== *)
theory Db_Laws
  imports Db Codec
begin

text \<open>
  What the database operations guarantee: \<open>db_add\<close> and \<open>db_remove\<close> refine the operations of the
  abstract store and are atomic, they keep the ownership of files consistent, and a package
  that was added is read back.
\<close>

subsection \<open>Reads that go through\<close>

text \<open>Read transactions can be started and the unnamed database can be opened and visited.\<close>

definition lmdb_live :: "('e, 't) lmdb \<Rightarrow> bool" where
  "lmdb_live L \<longleftrightarrow> (\<forall>e. \<exists>t t1. mdb_txn_begin L e True = Inr t \<and> mdb_dbi_open L t None False = (MDB_SUCCESS, t1) \<and>
     (\<forall>d. mdb_cursor L t1 d \<noteq> None))"

lemma ref_lmdb_live: "lmdb_live ref_lmdb"
  by (simp add: lmdb_live_def ref_lmdb_def ref_open_def)

definition file_list :: "contents \<Rightarrow> string \<Rightarrow> str_list" where
  "file_list C name = (case C files_dbi name of None \<Rightarrow> [] | Some data \<Rightarrow> map (\<lambda>l. Some (as_cstr l)) (lines data))"

lemma load_files_eq:
  assumes spec: "lmdb_spec L V" and live: "lmdb_live L" and "handle_ready db" and "no_oom mem"
  shows "\<exists>env mem'. load_package_files L db name mem = (file_list (env_view V (db_env db)) name, db\<lparr>db_env := env\<rparr>, mem') \<and>
    env_view V env = env_view V (db_env db) \<and> no_oom mem'"
proof -
  obtain t where t: "mdb_txn_begin L (db_env db) True = Inr t" using live by (auto simp: lmdb_live_def)
  have v: "txn_view V t = env_view V (db_env db)" "env_view V (mdb_txn_abort L t) = env_view V (db_env db)"
    using lmdb_begin [OF spec t] lmdb_abort [OF spec, of t] by simp_all
  show ?thesis
  proof (cases "env_view V (db_env db) files_dbi name")
    case None
    then have "\<exists>rc. mdb_get L t files_dbi name = Inl rc"
      using lmdb_get [OF spec, of t files_dbi name] v(1) by (cases "mdb_get L t files_dbi name") auto
    then show ?thesis using None t v assms(3,4) by (auto simp: load_package_files_def handle_ready_def file_list_def)
  next
    case (Some data)
    then have g: "mdb_get L t files_dbi name = Inr data" using lmdb_get [OF spec, of t files_dbi name] v(1) by simp
    show ?thesis
      using Some t v assms(3,4) g deserialize_eq [OF assms(4), of data]
      by (auto simp: load_package_files_def handle_ready_def file_list_def split_def)
  qed
qed

lemma db_get_eq:
  assumes spec: "lmdb_spec L V" and live: "lmdb_live L" and h: "handle_ready db" and mem: "no_oom mem"
    and rec: "env_view V (db_env db) None name = Some body"
    and parse: "\<And>m. no_oom m \<Longrightarrow> \<exists>m'. package_from_json J body m = (Some p, m') \<and> no_oom m'"
    and p: "pkg_meta p = Some meta" "meta_name meta = Some name"
  shows "\<exists>env mem'. db_get L J db (Some name) mem =
      (Some (p\<lparr>package_files := file_list (env_view V (db_env db)) name\<rparr>), db\<lparr>db_env := env\<rparr>, mem') \<and>
    env_view V env = env_view V (db_env db) \<and> no_oom mem'"
proof -
  obtain t t1 where t: "mdb_txn_begin L (db_env db) True = Inr t" "mdb_dbi_open L t None False = (MDB_SUCCESS, t1)"
    using live by (meson lmdb_live_def)
  have v: "txn_view V t1 = env_view V (db_env db)" "env_view V (mdb_txn_abort L t1) = env_view V (db_env db)"
    using lmdb_begin [OF spec t(1)] lmdb_open_same [OF spec t(2)] lmdb_abort [OF spec, of t1] by simp_all
  have g: "mdb_get L t1 None name = Inr body" using lmdb_get [OF spec, of t1 None name] v(1) rec by simp
  obtain m1 where m1: "package_from_json J body mem = (Some p, m1)" "no_oom m1" using parse [OF mem] by blast
  obtain env mem' where l: "load_package_files L (db\<lparr>db_env := mdb_txn_abort L t1\<rparr>) name m1 =
      (file_list (env_view V (db_env db)) name, db\<lparr>db_env := env\<rparr>, mem')"
    "env_view V env = env_view V (db_env db)" "no_oom mem'"
    using load_files_eq [OF spec live _ m1(2), of "db\<lparr>db_env := mdb_txn_abort L t1\<rparr>" name] h v by auto
  show ?thesis using t g m1 l p by (auto simp: db_get_def with_files_def)
qed

lemma db_get_absent:
  assumes spec: "lmdb_spec L V" and "env_view V (db_env db) None name = None"
  shows "fst (db_get L J db (Some name) mem) = None"
proof (cases "mdb_txn_begin L (db_env db) True")
  case (Inr t)
  obtain rc t1 where o1: "mdb_dbi_open L t None False = (rc, t1)" by fastforce
  have "txn_view V t1 None name = None" using lmdb_begin [OF spec Inr] lmdb_open_same [OF spec o1] assms(2) by simp
  then have "\<exists>rc. mdb_get L t1 None name = Inl rc"
    using lmdb_get [OF spec, of t1 None name] by (cases "mdb_get L t1 None name") auto
  then show ?thesis using Inr o1 by (auto simp: db_get_def Let_def)
qed (auto simp: db_get_def)

subsection \<open>Ownership\<close>

text \<open>
  The consistency of the store: the owner of a path lists that path, and only recorded
  packages have a file list.
\<close>

definition store_inv :: "store \<Rightarrow> bool" where
  "store_inv S \<longleftrightarrow> (\<forall>p n. st_owners S p = Some n \<longrightarrow> p \<in> st_paths S n) \<and> dom (st_files S) \<subseteq> dom (st_records S)"

lemma st_add_inv:
  assumes inv: "store_inv S" and fs: "list_ok path_ok fs"
  shows "store_inv (st_add name body fs S)"
proof (cases "fs = []")
  case True
  then show ?thesis using inv by (auto simp: store_inv_def st_add_def st_paths_def)
next
  case False
  let ?S = "st_add name body fs S"
  have paths: "st_paths ?S n = (if n = name then {p. Some p \<in> set fs} else st_paths S n)" for n
    using False lines_file_text [OF fs]
    by (auto simp: st_add_def st_paths_def st_forget_def Let_def set_somes)
  have owners: "st_owners ?S p = (if Some p \<in> set fs then Some name
      else if p \<in> st_paths S name \<and> st_owners S p = Some name then None else st_owners S p)" for p
    using False by (simp add: st_add_def st_forget_def st_paths_def Let_def)
  have "p \<in> st_paths ?S n" if "st_owners ?S p = Some n" for p n
    using that inv by (auto simp: owners paths store_inv_def split: if_splits)
  moreover have "dom (st_files ?S) \<subseteq> dom (st_records ?S)"
    using False inv by (auto simp: st_add_def st_forget_def Let_def store_inv_def)
  ultimately show ?thesis by (simp add: store_inv_def)
qed

lemma st_remove_inv: "store_inv S \<Longrightarrow> store_inv (st_remove name S)"
  by (auto simp: store_inv_def st_remove_def st_forget_def st_paths_def split: if_splits)

lemma st_remove_no_owner: "store_inv S \<Longrightarrow> st_owners (st_remove name S) p \<noteq> Some name"
  by (auto simp: store_inv_def st_remove_def st_forget_def st_paths_def split: if_splits)

abbreviation db_store :: "('e, 't) lmdb_view \<Rightarrow> 'e db_handle \<Rightarrow> store" where
  "db_store V db \<equiv> store_of (env_view V (db_env db))"

lemma load_files_oom: "no_oom mem \<Longrightarrow> no_oom (snd (snd (load_package_files L db name mem)))"
  using deserialize_eq by (auto simp: load_package_files_def split_def Let_def split: sum.split)

lemma db_get_oom: "no_oom mem \<Longrightarrow> no_oom (snd (snd (db_get L J db name mem)))"
  by (auto simp: db_get_def with_files_def load_files_oom package_from_json_oom split_def Let_def
      split: sum.split option.split)

lemma version_for_journal_view:
  assumes spec: "lmdb_spec L V" and v: "version_for_journal L J db name mem = (version, db1, mem1)"
  shows "env_view V (db_env db1) = env_view V (db_env db) \<and> handle_ready db1 = handle_ready db \<and>
    suppress_journal db1 = suppress_journal db \<and> (no_oom mem \<longrightarrow> no_oom mem1)"
proof -
  obtain g dbg memg where get: "db_get L J db name mem = (g, dbg, memg)" by (metis prod_cases3)
  obtain env where dbg: "dbg = db\<lparr>db_env := env\<rparr>" "env_view V env = env_view V (db_env db)"
    using db_get_view [OF spec get] by blast
  have memg: "no_oom mem \<Longrightarrow> no_oom memg" using db_get_oom [of mem L J db name] get by simp
  have "db1 = dbg \<and> (mem1 = memg \<or> (\<exists>v. mem1 = snd (strdup_m v memg)))"
    using v get by (auto simp: version_for_journal_def split_def Let_def split: option.splits)
  then show ?thesis using dbg memg by (auto simp: handle_ready_def)
qed

lemma db_remove_all_or_nothing:
  assumes spec: "lmdb_spec L V" and r: "db_remove L J db (Some name) mem = (ok, db', mem')"
  shows "(\<not> ok \<longrightarrow> db_store V db' = db_store V db) \<and> (ok \<longrightarrow> env_view V (db_env db) None name \<noteq> None) \<and>
    (ok \<and> handle_ready db \<and> no_oom mem \<longrightarrow> db_store V db' = st_remove name (db_store V db))"
proof (cases "db_readonly db")
  case True
  then show ?thesis using r by (auto simp: db_remove_def)
next
  case False
  obtain version db1 mem1 where v: "(if suppress_journal db then (None, db, mem)
      else version_for_journal L J db (Some name) mem) = (version, db1, mem1)" by (metis prod_cases3)
  have db1: "env_view V (db_env db1) = env_view V (db_env db)" "handle_ready db1 = handle_ready db"
    "no_oom mem \<longrightarrow> no_oom mem1"
    using v version_for_journal_view [OF spec, of J db "Some name" mem] by (auto split: if_splits)
  define db2 where "db2 = call_hook True DB_OP_REMOVE (Some name) db1"
  obtain rc env2 mem2 where o2: "remove_once L db2 name mem1 = (rc, env2, mem2)" by (metis prod_cases3)
  define db4 where "db4 = (if suppress_journal (db2\<lparr>db_env := env2\<rparr>) then db2\<lparr>db_env := env2\<rparr>
      else db_journal L JOURNAL_REMOVE (Some name) version (rc = MDB_SUCCESS) True (db2\<lparr>db_env := env2\<rparr>))"
  have res: "db_remove L J db (Some name) mem = (rc = MDB_SUCCESS, call_hook False DB_OP_REMOVE (Some name) db4, mem2)"
    using False o2 call_hook_suppress [of True DB_OP_REMOVE "Some name" db1]
    by (simp add: db_remove_def v db4_def Let_def flip: db2_def)
  moreover have "db_store V db4 = store_of (env_view V env2)"
    using db_journal_store [OF spec, of JOURNAL_REMOVE "Some name" version _ True "db2\<lparr>db_env := env2\<rparr>"] by (simp add: db4_def)
  ultimately show ?thesis using remove_once_base [OF spec o2] db1 r by (auto simp: db2_def)
qed

subsection \<open>Reading back\<close>

lemma pkg_text_read:
  assumes "yyjson_spec J U" and "package_ok U pkg" and "pkg_text J pkg = Some body" and "pkg_meta pkg = Some m"
  shows "yyjson_read J body = Some (JObj (package_doc pkg m))"
  using assms doc_text [OF assms(1,4,2)] unfolding yyjson_spec_def pkg_text_def by fastforce

lemma list_ok_mono: "(\<And>s. P s \<Longrightarrow> Q s) \<Longrightarrow> list_ok P xs \<Longrightarrow> list_ok Q xs"
  by (auto simp: list_ok_def)

lemma file_text_list:
  assumes "list_ok path_ok fs"
  shows "map (\<lambda>l. Some (as_cstr l)) (lines (file_text fs)) = filter (\<lambda>x. x \<noteq> None) fs"
proof -
  have "as_cstr l = l" if "l \<in> set (somes fs)" for l
    using that assms by (auto simp: set_somes list_ok_def path_ok_def)
  then show ?thesis using lines_file_text [OF assms] map_Some_somes [of fs] by (simp cong: map_cong)
qed

lemma db_get_recorded:
  assumes spec: "lmdb_spec L V" and live: "lmdb_live L" and J: "yyjson_spec J U" and p: "package_ok U pkg"
    and "handle_ready db" and "no_oom mem" and "pkg_text J pkg = Some body" and id: "pkg_meta pkg = Some m" "meta_name m = Some name"
    and "env_view V (db_env db) None name = Some body"
  shows "\<exists>env mem'. db_get L J db (Some name) mem =
      (Some ((stored pkg)\<lparr>package_files := file_list (env_view V (db_env db)) name\<rparr>), db\<lparr>db_env := env\<rparr>, mem') \<and>
    env_view V env = env_view V (db_env db) \<and> no_oom mem'"
proof (rule db_get_eq [OF spec live assms(5,6,10)])
  fix m' assume "no_oom m'"
  then show "\<exists>m''. package_from_json J body m' = (Some (stored pkg), m'') \<and> no_oom m''"
    using package_from_doc [OF _ id(1) p pkg_text_read [OF J p assms(7) id(1)]] by blast
next
  show "pkg_meta (stored pkg) = Some (stored_meta m)" using id by (simp add: stored_def)
  show "meta_name (stored_meta m) = Some name" using id by (simp add: stored_meta_def or_else_def)
qed

lemma st_add_read:
  assumes "store_of C = st_add name body fs S" and "fs \<noteq> []" and "name \<notin> reserved"
  shows "C None name = Some body" and "C files_dbi name = Some (file_text fs)"
    and "Some p \<in> set fs \<Longrightarrow> C file_owner_dbi p = Some name"
proof -
  have "st_records (store_of C) name = Some body" "st_files (store_of C) name = Some (file_text fs)"
    "Some p \<in> set fs \<Longrightarrow> st_owners (store_of C) p = Some name"
    unfolding assms(1) using assms(2) by (simp_all add: st_add_def st_forget_def Let_def)
  then show "C None name = Some body" "C files_dbi name = Some (file_text fs)" "Some p \<in> set fs \<Longrightarrow> C file_owner_dbi p = Some name"
    using assms(3) by (simp_all add: store_of_def)
qed

lemma db_owner_eq:
  assumes spec: "lmdb_spec L V" and live: "lmdb_live L" and "handle_ready db" and "no_oom m"
    and "env_view V (db_env db) file_owner_dbi p = Some name" and "cstring name"
  shows "fst (db_owner L db (Some p) m) = Some name"
proof -
  obtain t where t: "mdb_txn_begin L (db_env db) True = Inr t" using live by (auto simp: lmdb_live_def)
  have "mdb_get L t file_owner_dbi p = Inr name"
    using lmdb_get [OF spec, of t file_owner_dbi p] lmdb_begin [OF spec t] assms(5) by simp
  moreover have "as_cstr name = name" using assms(6) by simp
  ultimately show ?thesis using t assms(3,4) by (simp add: db_owner_def handle_ready_def split_def Let_def)
qed

subsection \<open>Writes that go through\<close>

text \<open>Write transactions can be started, every record fits and every commit succeeds.\<close>

definition lmdb_writable :: "('e, 't) lmdb \<Rightarrow> bool" where
  "lmdb_writable L \<longleftrightarrow> (\<forall>e. \<exists>t. mdb_txn_begin L e False = Inr t) \<and> (\<forall>t. fst (mdb_dbi_open L t None False) = MDB_SUCCESS) \<and>
     (\<forall>t d k v. fst (mdb_put L t d k v) = MDB_SUCCESS) \<and> (\<forall>t. fst (mdb_txn_commit L t) = MDB_SUCCESS)"

lemma ref_lmdb_writable: "lmdb_writable ref_lmdb"
  by (auto simp: lmdb_writable_def ref_lmdb_def ref_open_def split: prod.splits)

lemma put_owners_writable: "lmdb_writable L \<Longrightarrow> fst (put_owners L name fs t) = MDB_SUCCESS"
proof (induction fs arbitrary: t)
  case (Cons f fs)
  then show ?case by (cases f) (auto simp: split_def Let_def lmdb_writable_def)
qed simp

lemma put_files_writable:
  assumes w: "lmdb_writable L" and fs: "list_ok cstring fs" and "no_oom mem"
  shows "\<exists>t' mem'. put_files L db name fs t mem = Some (MDB_SUCCESS, t', mem') \<and> no_oom mem'"
proof -
  obtain t1 mem1 where d: "delete_file_owner_entries L db t name mem = (t1, mem1)" by fastforce
  have m1: "no_oom mem1" using d assms(3) by (auto simp: delete_file_owner_entries_def split_def Let_def split: sum.splits if_splits)
  obtain mem2 where s: "serialize_files fs mem1 = Some (Some (file_text fs), mem2)" "no_oom mem2"
    using serialize_files_eq [OF fs] strdup_no_oomE [OF m1] by metis
  have put: "\<exists>t'. mdb_put L u e k v = (MDB_SUCCESS, t')" for u e k v
    using w by (metis lmdb_writable_def prod.collapse)
  have own: "\<exists>t'. put_owners L name fs u = (MDB_SUCCESS, t')" for u
    using put_owners_writable [OF w] by (metis prod.collapse)
  obtain t2 where p2: "mdb_put L t1 files_dbi name (file_text fs) = (MDB_SUCCESS, t2)" using put by blast
  obtain u1 u2 where "put_owners L name fs t1 = (MDB_SUCCESS, u1)" "put_owners L name fs t2 = (MDB_SUCCESS, u2)" using own by metis
  then show ?thesis using d s p2 m1 by (simp add: put_files_def)
qed

lemma db_add_succeeds:
  assumes w: "lmdb_writable L" and p: "recordable db pkg" and "\<not> db_readonly db" and "pkg_text J pkg \<noteq> None" and mem: "no_oom mem"
  shows "\<exists>db' mem'. db_add L J db pkg mem = Some (True, db', mem') \<and> no_oom mem' \<and>
    (suppress_journal db \<longrightarrow> (\<exists>env calls. db' = db\<lparr>db_env := env, hook_calls := calls\<rparr>))"
proof -
  obtain m name where m: "pkg_meta pkg = Some m" "meta_name m = Some name" "deps_ok (meta_dependencies m)"
    "list_ok cstring (package_files pkg)" using p by (auto simp: recordable_def)
  define db1 where "db1 = call_hook True DB_OP_ADD (meta_name m) db"
  obtain body where body: "pkg_text J pkg = Some body" using assms(4) by blast
  obtain mem1 where j: "package_to_json J pkg mem = Some (Some body, mem1)" "no_oom mem1"
    using package_to_json_no_oom [OF mem m(1,3), of J] body m(1) by (auto simp: pkg_text_def)
  obtain t where t: "mdb_txn_begin L (db_env db1) False = Inr t" using w by (meson lmdb_writable_def)
  obtain t1 where t1: "mdb_dbi_open L t None False = (MDB_SUCCESS, t1)" using w by (metis lmdb_writable_def prod.collapse)
  obtain t2 where t2: "mdb_put L t1 None name body = (MDB_SUCCESS, t2)" using w by (metis lmdb_writable_def prod.collapse)
  obtain t3 mem3 where t3: "(if package_files pkg \<noteq> [] then put_files L db1 name (package_files pkg) t2 mem1 else Some (MDB_SUCCESS, t2, mem1))
      = Some (MDB_SUCCESS, t3, mem3)" "no_oom mem3"
    using put_files_writable [OF w m(4) j(2), of db1 name t2] j(2) by (cases "package_files pkg = []") auto
  obtain env where c: "mdb_txn_commit L t3 = (MDB_SUCCESS, env)" using w by (metis lmdb_writable_def prod.collapse)
  have once: "db_add_once L J db1 pkg mem = Some (MDB_SUCCESS, env, mem3)"
    using t t1 t2 t3 c j m by (simp add: db_add_once_def)
  have "add_retry L J pkg MAP_GROW_ATTEMPTS MDB_SUCCESS db2 mem3 = Some (MDB_SUCCESS, db2, mem3)" for db2
    by (simp add: MAP_GROW_ATTEMPTS_def eval_nat_numeral MDB_SUCCESS_def MDB_MAP_FULL_def)
  then have r: "db_add L J db pkg mem = Some (True, call_hook False DB_OP_ADD (meta_name m)
      (if suppress_journal db1 then db1\<lparr>db_env := env\<rparr>
       else db_journal L JOURNAL_INSTALL (meta_name m) (meta_version m) True True (db1\<lparr>db_env := env\<rparr>)), mem3)"
    using m(1) assms(3) once by (simp add: db_add_def db1_def [symmetric] Let_def)
  have "\<exists>calls. call_hook False DB_OP_ADD (meta_name m) (db1\<lparr>db_env := env\<rparr>) = db\<lparr>db_env := env, hook_calls := calls\<rparr>"
    by (cases db) (auto simp: db1_def call_hook_def)
  then show ?thesis using r t3(2) by (auto simp: db1_def)
qed

lemma db_remove_succeeds:
  assumes spec: "lmdb_spec L V" and w: "lmdb_writable L" and ro: "\<not> db_readonly db" and rec: "env_view V (db_env db) None name \<noteq> None"
    and mem: "no_oom mem" and quiet: "suppress_journal db"
  shows "\<exists>env calls mem'. db_remove L J db (Some name) mem = (True, db\<lparr>db_env := env, hook_calls := calls\<rparr>, mem') \<and> no_oom mem'"
proof -
  define db1 where "db1 = call_hook True DB_OP_REMOVE (Some name) db"
  obtain t where t: "mdb_txn_begin L (db_env db1) False = Inr t" using w by (meson lmdb_writable_def)
  obtain t1 where t1: "mdb_dbi_open L t None False = (MDB_SUCCESS, t1)" using w by (metis lmdb_writable_def prod.collapse)
  have view: "txn_view V t1 None name \<noteq> None"
    using lmdb_begin [OF spec t] lmdb_open_same [OF spec t1] rec by (simp add: db1_def call_hook_def)
  obtain rc t2 where t2: "mdb_del L t1 None name = (rc, t2)" by (metis surj_pair)
  have "\<not> doomed V t2" using lmdb_laws(11) [OF spec] w by (metis lmdb_writable_def prod.collapse)
  then have rc: "rc = MDB_SUCCESS" using lmdb_laws(8) [OF spec] view t2 by (metis fst_conv snd_conv)
  obtain t3 mem3 where d: "delete_file_owner_entries L db1 t2 name mem = (t3, mem3)" by (metis surj_pair)
  have "no_oom mem3" using d mem by (auto simp: delete_file_owner_entries_def split_def Let_def split: sum.splits if_splits)
  then obtain t4 mem1 where t4: "(if files_dbi_open db1 then let (t3, mem1) = delete_file_owner_entries L db1 t2 name mem
      in (snd (mdb_del L t3 files_dbi name), mem1) else (t2, mem)) = (t4, mem1)" "no_oom mem1"
    using d mem by (cases "files_dbi_open db1") auto
  obtain env where c: "mdb_txn_commit L t4 = (MDB_SUCCESS, env)" using w by (metis lmdb_writable_def prod.collapse)
  have "remove_once L db1 name mem = (MDB_SUCCESS, env, mem1)" using t t1 t2 rc t4 c by (simp add: remove_once_def)
  then have r: "db_remove L J db (Some name) mem = (True, call_hook False DB_OP_REMOVE (Some name) (db1\<lparr>db_env := env\<rparr>), mem1)"
    using ro quiet by (simp add: db_remove_def db1_def [symmetric] Let_def)
  have "\<exists>calls. call_hook False DB_OP_REMOVE (Some name) (db1\<lparr>db_env := env\<rparr>) = db\<lparr>db_env := env, hook_calls := calls\<rparr>"
    by (cases db) (auto simp: db1_def call_hook_def)
  then show ?thesis using r t4(2) by auto
qed

lemma codec_writes: "yyjson_mut_write codec d \<noteq> None"
  by (simp add: codec_def)

subsection \<open>Properties\<close>

definition demo_db :: "ref_env db_handle" where
  "demo_db = \<lparr>db_env = (\<lambda>_. []), files_dbi_open = True, file_owner_dbi_open = True, db_readonly = False,
     hook_pre = True, hook_post = True, suppress_journal = False, hook_calls = [], seq_counter = 0,
     db_clock = (\<lambda>n. of_nat n), db_ticks = 0, db_uid = 0\<rparr>"

lemma demo_recordable: "recordable demo_db sample_pkg"
  using sample_pkg_ok
  by (auto simp: recordable_def demo_db_def sample_pkg_def handle_ready_def zero_metadata_def reserved_def package_ok_def)

text \<open>
  C9. \<open>db_add\<close> is atomic and refines the abstract store.  For any allocation failures and any
  failures of LMDB at any call, it returns; when it reports failure, records, file lists and
  owners are what they were, and when it reports success with memory available they are what
  \<open>st_add\<close> says: the record of this package, its file list in place of the old one, and it as
  the owner of exactly its new files, all other packages untouched.
\<close>

theorem db_add_refines:
  assumes "lmdb_spec L V" and "recordable db pkg"
  shows "\<exists>ok db' mem'. db_add L J db pkg mem = Some (ok, db', mem') \<and>
    (\<not> ok \<longrightarrow> db_store V db' = db_store V db) \<and>
    (ok \<and> no_oom mem \<longrightarrow> (\<exists>body. pkg_text J pkg = Some body \<and>
       db_store V db' = st_add (pkg_id pkg) body (package_files pkg) (db_store V db)))"
  using db_add_all_or_nothing [OF assms] by blast

theorem db_add_refines_witness:
  "\<exists>ok db' mem'. db_add ref_lmdb codec demo_db sample_pkg [] = Some (ok, db', mem') \<and>
    (ok \<longrightarrow> (\<exists>body. db_store ref_view db' =
       st_add ''app'' body [Some ''/usr/bin/app''] (db_store ref_view demo_db)))"
proof -
  have "pkg_id sample_pkg = ''app''" "package_files sample_pkg = [Some ''/usr/bin/app'']"
    by (simp_all add: pkg_id_def sample_pkg_def)
  moreover obtain ok db' mem' where "db_add ref_lmdb codec demo_db sample_pkg [] = Some (ok, db', mem')"
    "ok \<longrightarrow> (\<exists>body. db_store ref_view db' = st_add (pkg_id sample_pkg) body (package_files sample_pkg) (db_store ref_view demo_db))"
    using db_add_refines [OF ref_lmdb_spec demo_recordable, of codec "[]"] no_oom_Nil by blast
  ultimately show ?thesis by auto
qed

text \<open>
  C10. \<open>db_remove\<close> is atomic and refines the abstract store: a reported failure changed
  nothing; success means the package was recorded, and with memory available the record and
  the file list are gone, and so is every ownership entry of the package, while paths of other
  packages keep their owners.
\<close>

theorem db_remove_refines:
  assumes "lmdb_spec L V" and "db_remove L J db (Some name) mem = (ok, db', mem')"
  shows "(\<not> ok \<longrightarrow> db_store V db' = db_store V db) \<and> (ok \<longrightarrow> env_view V (db_env db) None name \<noteq> None) \<and>
    (ok \<and> handle_ready db \<and> no_oom mem \<longrightarrow> db_store V db' = st_remove name (db_store V db) \<and>
       (store_inv (db_store V db) \<longrightarrow> (\<forall>p. st_owners (db_store V db') p =
          (if st_owners (db_store V db) p = Some name then None else st_owners (db_store V db) p))))"
proof -
  have "st_owners (st_remove name S) p = (if st_owners S p = Some name then None else st_owners S p)" if "store_inv S" for S p
    using that by (auto simp: store_inv_def st_remove_def st_forget_def)
  then show ?thesis using db_remove_all_or_nothing [OF assms] by simp
qed

theorem db_remove_refines_witness:
  "\<exists>ok db' mem'. db_remove ref_lmdb codec demo_db (Some ''app'') [] = (ok, db', mem') \<and> \<not> ok \<and>
    db_store ref_view db' = db_store ref_view demo_db"
proof -
  obtain ok db' mem' where r: "db_remove ref_lmdb codec demo_db (Some ''app'') [] = (ok, db', mem')" by (metis prod_cases3)
  have "env_view ref_view (db_env demo_db) None ''app'' = None" by (simp add: ref_view_def demo_db_def)
  then show ?thesis using db_remove_refines [OF ref_lmdb_spec r] r by blast
qed



text \<open>
  C34. What was recorded is read back.  If \<open>db_add\<close> of a package with storable texts and at least
  one file succeeds, \<open>db_get\<close> of its name returns the package as the records keep it, with the
  paths that are not NULL as its file list, and leaves the database as it is; \<open>db_owner\<close> names
  the package for each of these paths.
\<close>

theorem db_add_get:
  assumes "lmdb_spec L V" and "lmdb_live L" and "yyjson_spec J U" and "package_ok U pkg" and "recordable db pkg"
    and "list_ok path_ok (package_files pkg)" and "package_files pkg \<noteq> []" and "no_oom mem" and "no_oom m"
    and "db_add L J db pkg mem = Some (True, db', mem')"
  shows "(\<exists>env m'. db_get L J db' (Some (pkg_id pkg)) m =
      (Some ((stored pkg)\<lparr>package_files := filter (\<lambda>p. p \<noteq> None) (package_files pkg)\<rparr>), db'\<lparr>db_env := env\<rparr>, m') \<and>
      env_view V env = env_view V (db_env db')) \<and>
    (\<forall>p. Some p \<in> set (package_files pkg) \<longrightarrow> cstring (pkg_id pkg) \<longrightarrow> fst (db_owner L db' (Some p) m) = Some (pkg_id pkg))"
proof -
  obtain body where h: "handle_ready db'" and body: "pkg_text J pkg = Some body"
    and st: "db_store V db' = st_add (pkg_id pkg) body (package_files pkg) (db_store V db)"
    using db_add_all_or_nothing [OF assms(1,5), of J mem] assms(8,10) by auto
  obtain meta name where id: "pkg_meta pkg = Some meta" "meta_name meta = Some name" "name \<notin> reserved"
    using assms(5) by (auto simp: recordable_def)
  then have n: "pkg_id pkg = name" by (simp add: pkg_id_def)
  note store = st_add_read [OF st [unfolded n] assms(7) id(3)]
  have fl: "file_list (env_view V (db_env db')) name = filter (\<lambda>p. p \<noteq> None) (package_files pkg)"
    using store(2) file_text_list [OF assms(6)] by (simp add: file_list_def)
  have "fst (db_owner L db' (Some p) m) = Some name" if "Some p \<in> set (package_files pkg)" "cstring name" for p
    using db_owner_eq [OF assms(1,2) h assms(9) store(3) [OF that(1)] that(2)] .
  then show ?thesis using db_get_recorded [OF assms(1-4) h assms(9) body id(1,2) store(1)] fl n by auto
qed

theorem db_add_get_witness:
  "\<exists>db' mem'. db_add ref_lmdb codec demo_db sample_pkg [] = Some (True, db', mem') \<and>
    (\<exists>env m'. db_get ref_lmdb codec db' (Some ''app'') [] =
      (Some ((stored sample_pkg)\<lparr>package_files := [Some ''/usr/bin/app'']\<rparr>), db'\<lparr>db_env := env\<rparr>, m'))"
proof -
  obtain db' mem' where a: "db_add ref_lmdb codec demo_db sample_pkg [] = Some (True, db', mem')"
    using db_add_succeeds [OF ref_lmdb_writable demo_recordable, of codec "[]"] codec_writes
    by (auto simp: demo_db_def pkg_text_def)
  have "pkg_id sample_pkg = ''app''" "package_files sample_pkg = [Some ''/usr/bin/app'']"
    by (simp_all add: pkg_id_def sample_pkg_def)
  moreover have "list_ok path_ok (package_files sample_pkg)" by (simp add: sample_pkg_def path_ok_def newline_def list_ok_def)
  ultimately show ?thesis
    using a db_add_get [OF ref_lmdb_spec ref_lmdb_live codec_spec sample_pkg_ok demo_recordable _ _ no_oom_Nil no_oom_Nil a] by auto
qed

end
