(* ===== verification/Db_Open.thy ===== *)
theory Db_Open
  imports Db_Laws Posix
begin

text \<open>
  \<open>src/db/db.c\<close>: opening and closing the package database.  The calls that make and open an
  LMDB environment and those on the lock file are parameters, the record \<open>env_calls\<close>.  A file
  descriptor of \<open>-1\<close> is \<open>None\<close>.  A handle is the one of the theory \<open>Db\<close> beside the descriptor
  of its lock; its clock and user are what the process has, the rest is zeroed by \<open>calloc\<close>.
\<close>

record ('e, 'w) env_calls =
  env_create :: "'w \<Rightarrow> int \<times> 'w"
  env_open :: "string \<Rightarrow> bool \<Rightarrow> 'w \<Rightarrow> (int + 'e) \<times> 'w"
  env_close :: "'w \<Rightarrow> 'w"
  lock_open :: "string \<Rightarrow> 'w \<Rightarrow> int option \<times> 'w"
  lock_try :: "int \<Rightarrow> 'w \<Rightarrow> bool \<times> 'w"
  lock_drop :: "int \<Rightarrow> 'w \<Rightarrow> 'w"
  fd_close :: "int \<Rightarrow> 'w \<Rightarrow> 'w"
  proc_clock :: "nat \<Rightarrow> 64 word"
  proc_uid :: "32 word"

definition lock_path :: "string \<Rightarrow> string" where
  "lock_path db_path = snprintf_to 4096 (db_path @ ''/db.lock'')"

definition acquire_write_lock :: "('e, 'w) env_calls \<Rightarrow> string \<Rightarrow> 'w proc \<Rightarrow> int option \<times> 'w proc" where
  "acquire_write_lock K db_path s =
     (let (fd, s) = os_call (lock_open K (lock_path db_path)) s in
      case fd of
        None \<Rightarrow> (None, s)
      | Some fd \<Rightarrow>
          let (ok, s) = os_call (lock_try K fd) s in
          if \<not> ok then (None, s\<lparr>world := fd_close K fd (world s)\<rparr>) else (Some fd, s))"

definition zero_handle :: "('e, 'w) env_calls \<Rightarrow> 'e \<Rightarrow> 'e db_handle" where
  "zero_handle K env =
     \<lparr>db_env = env, files_dbi_open = False, file_owner_dbi_open = False, db_readonly = False, hook_pre = False, hook_post = False,
      suppress_journal = False, hook_calls = [], seq_counter = 0, db_clock = proc_clock K, db_ticks = 0, db_uid = proc_uid K\<rparr>"

definition open_env :: "('e, 'w) env_calls \<Rightarrow> string \<Rightarrow> bool \<Rightarrow> 'w proc \<Rightarrow> 'e db_handle option \<times> 'w proc" where
  "open_env K path rdonly s =
     (let (ok, s) = mem_call malloc_ok s in
      if \<not> ok then (None, s)
      else
        let (rc, s) = os_call (env_create K) s in
        if rc \<noteq> MDB_SUCCESS then (None, s)
        else
          let (r, s) = os_call (env_open K path rdonly) s in
          case r of
            Inl rc \<Rightarrow> (None, s\<lparr>world := env_close K (world s)\<rparr>)
          | Inr env \<Rightarrow> (Some (zero_handle K env), s))"

text \<open>The two named databases; \<open>db_open\<close> makes them and does not look at the result of the commit.\<close>

definition open_dbis :: "('e, 't) lmdb \<Rightarrow> 'e db_handle \<Rightarrow> 'e db_handle" where
  "open_dbis L db =
     (case mdb_txn_begin L (db_env db) False of
        Inl (rc, env) \<Rightarrow> db\<lparr>db_env := env\<rparr>
      | Inr txn \<Rightarrow>
          let (rc1, txn) = mdb_dbi_open L txn files_dbi True;
              (rc2, txn) = mdb_dbi_open L txn file_owner_dbi True;
              db = db\<lparr>files_dbi_open := (rc1 = MDB_SUCCESS), file_owner_dbi_open := (rc2 = MDB_SUCCESS)\<rparr>
          in if files_dbi_open db \<or> file_owner_dbi_open db
             then db\<lparr>db_env := snd (mdb_txn_commit L txn)\<rparr>
             else db\<lparr>db_env := mdb_txn_abort L txn\<rparr>)"

definition open_dbis_readonly :: "('e, 't) lmdb \<Rightarrow> 'e db_handle \<Rightarrow> 'e db_handle" where
  "open_dbis_readonly L db =
     (case mdb_txn_begin L (db_env db) True of
        Inl (rc, env) \<Rightarrow> db\<lparr>db_env := env\<rparr>
      | Inr txn \<Rightarrow>
          let (rc1, txn) = mdb_dbi_open L txn files_dbi False;
              (rc2, txn) = mdb_dbi_open L txn file_owner_dbi False;
              (rc, env) = mdb_txn_commit L txn
          in db\<lparr>db_env := env, files_dbi_open := (rc1 = MDB_SUCCESS \<and> rc = MDB_SUCCESS),
                file_owner_dbi_open := (rc2 = MDB_SUCCESS \<and> rc = MDB_SUCCESS)\<rparr>)"

definition db_open ::
  "('e, 'w) env_calls \<Rightarrow> ('e, 't) lmdb \<Rightarrow> string \<Rightarrow> 'w proc \<Rightarrow> ('e db_handle \<times> int option) option \<times> 'w proc" where
  "db_open K L path s =
     (let (db, s) = open_env K path False s in
      case db of
        None \<Rightarrow> (None, s)
      | Some db \<Rightarrow>
          let (fd, s) = acquire_write_lock K path s in
          case fd of
            None \<Rightarrow> (None, s\<lparr>world := env_close K (world s)\<rparr>)
          | Some fd \<Rightarrow> (Some (open_dbis L db, Some fd), s))"

definition db_open_readonly ::
  "('e, 'w) env_calls \<Rightarrow> ('e, 't) lmdb \<Rightarrow> string \<Rightarrow> 'w proc \<Rightarrow> ('e db_handle \<times> int option) option \<times> 'w proc" where
  "db_open_readonly K L path s =
     (let (db, s) = open_env K path True s in
      case db of None \<Rightarrow> (None, s) | Some db \<Rightarrow> (Some (open_dbis_readonly L (db\<lparr>db_readonly := True\<rparr>), None), s))"

definition db_close :: "('e, 'w) env_calls \<Rightarrow> ('e db_handle \<times> int option) option \<Rightarrow> 'w proc \<Rightarrow> 'w proc" where
  "db_close K db s =
     (case db of
        None \<Rightarrow> s
      | Some (h, fd) \<Rightarrow>
          let s = s\<lparr>world := env_close K (world s)\<rparr> in
          (case fd of None \<Rightarrow> s | Some fd \<Rightarrow> s\<lparr>world := fd_close K fd (lock_drop K fd (world s))\<rparr>))"

subsection \<open>One writer at a time\<close>

text \<open>
  The documented behaviour of \<open>open\<close>, \<open>flock\<close> and \<open>close\<close>, through views of the world: the file
  a descriptor was opened on and the exclusive locks that are held.  A lock is granted only
  when no other descriptor holds one on the same file, and closing a descriptor gives its
  locks up.  The calls of LMDB leave the lock files alone.
\<close>

record 'w lock_view =
  fd_file :: "'w \<Rightarrow> int \<rightharpoonup> string"
  held_locks :: "'w \<Rightarrow> (int \<times> string) set"

definition same_locks :: "'w lock_view \<Rightarrow> 'w \<Rightarrow> 'w \<Rightarrow> bool" where
  "same_locks V w w' \<longleftrightarrow> fd_file V w' = fd_file V w \<and> held_locks V w' = held_locks V w"

definition flock_spec :: "('e, 'w) env_calls \<Rightarrow> 'w lock_view \<Rightarrow> bool" where
  "flock_spec K V \<longleftrightarrow>
     (\<forall>w. same_locks V w (snd (env_create K w))) \<and> (\<forall>p ro w. same_locks V w (snd (env_open K p ro w))) \<and>
     (\<forall>w. same_locks V w (env_close K w)) \<and>
     (\<forall>p w w'. lock_open K p w = (None, w') \<longrightarrow> same_locks V w w') \<and>
     (\<forall>p w fd w'. lock_open K p w = (Some fd, w') \<longrightarrow>
        fd_file V w fd = None \<and> fd_file V w' = (fd_file V w)(fd \<mapsto> p) \<and> held_locks V w' = held_locks V w) \<and>
     (\<forall>fd w w'. lock_try K fd w = (False, w') \<longrightarrow> same_locks V w w') \<and>
     (\<forall>fd w w' p. lock_try K fd w = (True, w') \<longrightarrow> fd_file V w fd = Some p \<longrightarrow>
        fd_file V w' = fd_file V w \<and> held_locks V w' = insert (fd, p) (held_locks V w) \<and> (\<forall>f. (f, p) \<in> held_locks V w \<longrightarrow> f = fd)) \<and>
     (\<forall>fd w. fd_file V (lock_drop K fd w) = fd_file V w \<and> held_locks V (lock_drop K fd w) = held_locks V w - {fd} \<times> UNIV) \<and>
     (\<forall>fd w. fd_file V (fd_close K fd w) = (fd_file V w)(fd := None) \<and> held_locks V (fd_close K fd w) = held_locks V w - {fd} \<times> UNIV)"

text \<open>The handles that processes have open, each with its path, as calls come and go in any order.\<close>

type_synonym 'e open_handle = "string \<times> 'e db_handle \<times> int option"

inductive db_run :: "('e, 'w) env_calls \<Rightarrow> ('e, 't) lmdb \<Rightarrow> 'w proc \<Rightarrow> 'e open_handle list \<Rightarrow> 'w proc \<Rightarrow> bool"
  for K L s0 where
  Start: "db_run K L s0 [] s0"
| Open: "db_run K L s0 hs s \<Longrightarrow> db_open K L path s = (Some h, s') \<Longrightarrow> db_run K L s0 (hs @ [(path, h)]) s'"
| Open_Failed: "db_run K L s0 hs s \<Longrightarrow> db_open K L path s = (None, s') \<Longrightarrow> db_run K L s0 hs s'"
| Open_Readonly: "db_run K L s0 hs s \<Longrightarrow> db_open_readonly K L path s = (Some h, s') \<Longrightarrow> db_run K L s0 (hs @ [(path, h)]) s'"
| Open_Readonly_Failed: "db_run K L s0 hs s \<Longrightarrow> db_open_readonly K L path s = (None, s') \<Longrightarrow> db_run K L s0 hs s'"
| Close: "db_run K L s0 (hs @ [(path, h)] @ hs') s \<Longrightarrow> db_run K L s0 (hs @ hs') (db_close K (Some h) s)"
| Idle: "db_run K L s0 hs s \<Longrightarrow> world s' = world s \<Longrightarrow> db_run K L s0 hs s'"

definition writers :: "'e open_handle list \<Rightarrow> (string \<times> int) list" where
  "writers hs = List.map_filter (\<lambda>(path, h, fd). map_option (\<lambda>f. (lock_path path, f)) fd) hs"

lemma writers_simps [simp]:
  "writers [] = []" "writers (hs @ hs') = writers hs @ writers hs'" "writers ((p, h, Some fd) # hs) = (lock_path p, fd) # writers hs" "writers ((p, h, None) # hs) = writers hs"
  by (simp_all add: writers_def map_filter_def)

definition exclusive :: "(int \<times> string) set \<Rightarrow> bool" where
  "exclusive H \<longleftrightarrow> (\<forall>f f' p. (f, p) \<in> H \<longrightarrow> (f', p) \<in> H \<longrightarrow> f = f')"

lemma exclusive_insert: "exclusive H \<Longrightarrow> \<forall>f'. (f', p) \<in> H \<longrightarrow> f' = f \<Longrightarrow> exclusive (insert (f, p) H)"
  unfolding exclusive_def by blast

lemma exclusive_minus: "exclusive H \<Longrightarrow> exclusive (H - A)"
  unfolding exclusive_def by blast

definition locks_ok :: "'w lock_view \<Rightarrow> 'e open_handle list \<Rightarrow> 'w \<Rightarrow> bool" where
  "locks_ok V hs w \<longleftrightarrow>
     exclusive (held_locks V w) \<and>
     (\<forall>(p, f) \<in> set (writers hs). (f, p) \<in> held_locks V w \<and> fd_file V w f = Some p) \<and> distinct (map snd (writers hs)) \<and>
     (\<forall>(p, h, fd) \<in> set hs. db_readonly h \<longleftrightarrow> fd = None)"

lemma same_locks_trans: "same_locks V w w' \<Longrightarrow> same_locks V w' w'' \<Longrightarrow> same_locks V w w''"
  by (simp add: same_locks_def)

lemma locks_ok_same: "locks_ok V hs w \<Longrightarrow> same_locks V w w' \<Longrightarrow> locks_ok V hs w'"
  by (simp add: locks_ok_def same_locks_def)

lemma flock_laws:
  assumes "flock_spec K V"
  shows "same_locks V w (snd (env_create K w))" and "same_locks V w (snd (env_open K p ro w))" and "same_locks V w (env_close K w)"
    and "lock_open K p w = (None, w') \<Longrightarrow> same_locks V w w'"
    and "lock_open K p w = (Some fd, w') \<Longrightarrow> fd_file V w fd = None \<and> fd_file V w' = (fd_file V w)(fd \<mapsto> p) \<and> held_locks V w' = held_locks V w"
    and "lock_try K fd w = (False, w') \<Longrightarrow> same_locks V w w'"
    and "lock_try K fd w = (True, w') \<Longrightarrow> fd_file V w fd = Some p \<Longrightarrow>
        fd_file V w' = fd_file V w \<and> held_locks V w' = insert (fd, p) (held_locks V w) \<and> (\<forall>f. (f, p) \<in> held_locks V w \<longrightarrow> f = fd)"
    and "fd_file V (lock_drop K fd w) = fd_file V w" and "held_locks V (lock_drop K fd w) = held_locks V w - {fd} \<times> UNIV"
    and "fd_file V (fd_close K fd w) = (fd_file V w)(fd := None)" and "held_locks V (fd_close K fd w) = held_locks V w - {fd} \<times> UNIV"
  using assms by (simp_all add: flock_spec_def)

lemma open_env_locks:
  assumes "flock_spec K V" and "open_env K path ro s = (db, s')"
  shows "same_locks V (world s) (world s') \<and> (\<forall>h. db = Some h \<longrightarrow> \<not> db_readonly h)"
proof -
  obtain ok s1 where m: "mem_call malloc_ok s = (ok, s1)" "world s1 = world s" by (cases "malloc_ok (pmem s)") (simp add: mem_call_def)
  obtain rc w1 where c: "env_create K (world s) = (rc, w1)" "same_locks V (world s) w1" using flock_laws(1) [OF assms(1), of "world s"] by (metis prod.collapse snd_conv)
  obtain r w2 where e: "env_open K path ro w1 = (r, w2)" "same_locks V w1 w2" using flock_laws(2) [OF assms(1), of w1] by (metis prod.collapse snd_conv)
  have x: "same_locks V w2 (env_close K w2)" by (rule flock_laws(3) [OF assms(1)])
  have r: "same_locks V (world s) (world s)" by (simp add: same_locks_def)
  show ?thesis using assms(2) m c e x r same_locks_trans [OF c(2) e(2)] same_locks_trans [OF same_locks_trans [OF c(2) e(2)] x]
    by (auto simp: open_env_def os_call_def zero_handle_def split: if_splits sum.splits)
qed

lemma acquire_ok:
  assumes K: "flock_spec K V" and ok: "locks_ok V hs (world s)" and a: "acquire_write_lock K path s = (r, s')"
  shows "case r of None \<Rightarrow> locks_ok V hs (world s')
    | Some fd \<Rightarrow> \<forall>h. \<not> db_readonly h \<longrightarrow> locks_ok V (hs @ [(path, h, Some fd)]) (world s')"
proof -
  let ?p = "lock_path path"
  obtain fd w1 where l: "lock_open K ?p (world s) = (fd, w1)" by fastforce
  show ?thesis
  proof (cases fd)
    case None
    then show ?thesis using a l flock_laws(4) [OF K] locks_ok_same [OF ok] by (auto simp: acquire_write_lock_def os_call_def)
  next
    case (Some f)
    note o = flock_laws(5) [OF K l [unfolded Some]]
    have free: "f \<notin> snd ` set (writers hs)" using ok o by (auto simp: locks_ok_def)
    have ok1: "locks_ok V hs w1" using ok o free by (auto simp: locks_ok_def split_beta image_iff)
    obtain g w2 where t: "lock_try K f w1 = (g, w2)" by fastforce
    have res: "r = (if g then Some f else None) \<and> world s' = (if g then w2 else fd_close K f w2)"
      using a l Some t by (auto simp: acquire_write_lock_def os_call_def)
    show ?thesis
    proof (cases g)
      case True
      have t': "fd_file V w2 = fd_file V w1 \<and> held_locks V w2 = insert (f, ?p) (held_locks V w1) \<and> (\<forall>f'. (f', ?p) \<in> held_locks V w1 \<longrightarrow> f' = f)"
        by (rule flock_laws(7) [OF K]) (use t True o in simp_all)
      show ?thesis using res True t' ok1 free o exclusive_insert [of "held_locks V w1" ?p f]
        by (auto simp: locks_ok_def split_beta image_iff)
    next
      case False
      then have "same_locks V w1 w2" using flock_laws(6) [OF K] t by simp
      then have "locks_ok V hs w2" by (rule locks_ok_same [OF ok1])
      then have "locks_ok V hs (fd_close K f w2)" using free flock_laws(10,11) [OF K, of f w2] exclusive_minus [of "held_locks V w2"] by (auto simp: locks_ok_def split_beta image_iff)
      then show ?thesis using res False by simp
    qed
  qed
qed

lemma open_dbis_flag [simp]: "db_readonly (open_dbis L db) = db_readonly db"
  by (cases "mdb_txn_begin L (db_env db) False") (simp_all add: open_dbis_def split_def Let_def)

lemma open_dbis_readonly_flag [simp]: "db_readonly (open_dbis_readonly L db) = db_readonly db"
  by (cases "mdb_txn_begin L (db_env db) True") (simp_all add: open_dbis_readonly_def split_def Let_def)

lemma locks_ok_readonly: "locks_ok V hs w \<Longrightarrow> db_readonly h \<Longrightarrow> locks_ok V (hs @ [(path, h, None)]) w"
  by (simp add: locks_ok_def)

lemma db_open_ok:
  assumes K: "flock_spec K V" and ok: "locks_ok V hs (world s)" and a: "db_open K L path s = (r, s')"
  shows "case r of None \<Rightarrow> locks_ok V hs (world s') | Some h \<Rightarrow> locks_ok V (hs @ [(path, h)]) (world s')"
proof -
  obtain db s1 where e: "open_env K path False s = (db, s1)" by fastforce
  note e' = open_env_locks [OF K e]
  have ok1: "locks_ok V hs (world s1)" by (rule locks_ok_same [OF ok conjunct1 [OF e']])
  obtain fd s2 where l: "acquire_write_lock K path s1 = (fd, s2)" by fastforce
  note l' = acquire_ok [OF K ok1 l]
  show ?thesis
  proof (cases db)
    case None
    then show ?thesis using a e ok1 by (auto simp: db_open_def)
  next
    case (Some h)
    show ?thesis
    proof (cases fd)
      case None
      then have "locks_ok V hs (world s2)" using l' by simp
      then show ?thesis using a e l Some None locks_ok_same [OF _ flock_laws(3) [OF K], of hs "world s2"] by (auto simp: db_open_def)
    next
      case fd: (Some f)
      have "locks_ok V (hs @ [(path, open_dbis L h, Some f)]) (world s2)" using l' fd e' Some by simp
      then show ?thesis using a e l Some fd by (auto simp: db_open_def)
    qed
  qed
qed

lemma db_open_readonly_ok:
  assumes K: "flock_spec K V" and ok: "locks_ok V hs (world s)" and a: "db_open_readonly K L path s = (r, s')"
  shows "case r of None \<Rightarrow> locks_ok V hs (world s') | Some h \<Rightarrow> locks_ok V (hs @ [(path, h)]) (world s')"
proof -
  obtain db s1 where e: "open_env K path True s = (db, s1)" by fastforce
  have ok1: "locks_ok V hs (world s1)" by (rule locks_ok_same [OF ok conjunct1 [OF open_env_locks [OF K e]]])
  show ?thesis
  proof (cases db)
    case (Some h)
    have "locks_ok V (hs @ [(path, open_dbis_readonly L (h\<lparr>db_readonly := True\<rparr>), None)]) (world s1)"
      by (rule locks_ok_readonly [OF ok1]) simp
    then show ?thesis using a e Some by (auto simp: db_open_readonly_def)
  qed (use a e ok1 in \<open>auto simp: db_open_readonly_def\<close>)
qed

lemma db_close_ok:
  assumes K: "flock_spec K V" and ok: "locks_ok V (hs @ [(path, h)] @ hs') (world s)"
  shows "locks_ok V (hs @ hs') (world (db_close K (Some h) s))"
proof (cases h)
  case (Pair db fd)
  let ?w = "env_close K (world s)"
  have ok1: "locks_ok V (hs @ [(path, h)] @ hs') ?w" by (rule locks_ok_same [OF ok flock_laws(3) [OF K]])
  show ?thesis
  proof (cases fd)
    case None
    then show ?thesis using ok1 Pair by (auto simp: db_close_def locks_ok_def)
  next
    case (Some f)
    have w: "world (db_close K (Some h) s) = fd_close K f (lock_drop K f ?w)" using Pair Some by (simp add: db_close_def)
    have f: "f \<notin> snd ` set (writers (hs @ hs'))" using ok1 Pair Some by (auto simp: locks_ok_def)
    show ?thesis using ok1 Pair Some f flock_laws(8-11) [OF K] exclusive_minus unfolding w locks_ok_def by (auto simp: split_beta image_iff)
  qed
qed

lemma db_run_ok:
  assumes K: "flock_spec K V" and init: "held_locks V (world s0) = {}"
  shows "db_run K L s0 hs s \<Longrightarrow> locks_ok V hs (world s)"
proof (induction rule: db_run.induct)
  case Start
  show ?case using init by (simp add: locks_ok_def exclusive_def)
qed (use db_open_ok [OF K] db_open_readonly_ok [OF K] db_close_ok [OF K] in fastforce)+

text \<open>
  C13. One writer at a time.  Whatever the order in which processes open and close handles, and
  whatever calls of LMDB, of the file system or of the allocator fail, no two writable handles
  with the same lock file are open at once, each of them holds its lock, and exactly the
  handles without a lock are read-only.
\<close>

theorem db_single_writer:
  assumes "flock_spec K V" and "held_locks V (world s0) = {}" and "db_run K L s0 hs s"
  shows "distinct (map fst (writers hs)) \<and> (\<forall>(p, fd) \<in> set (writers hs). (fd, p) \<in> held_locks V (world s)) \<and>
    (\<forall>(p, h, fd) \<in> set hs. db_readonly h \<longleftrightarrow> fd = None)"
proof -
  have ok: "locks_ok V hs (world s)" by (rule db_run_ok [OF assms])
  have "inj_on fst (set (writers hs))" using ok unfolding locks_ok_def exclusive_def inj_on_def split_beta by (metis prod.collapse)
  moreover have "distinct (writers hs)" using ok by (auto simp: locks_ok_def distinct_map)
  ultimately show ?thesis using ok by (auto simp: locks_ok_def distinct_map split_beta)
qed

text \<open>A file system that knows which descriptors are open on which file, and the locks.\<close>

type_synonym demo_locks = "(int \<Rightarrow> string option) \<times> (int \<times> string) set \<times> int"

definition demo_calls :: "(ref_env, demo_locks) env_calls" where
  "demo_calls = \<lparr>env_create = (\<lambda>w. (MDB_SUCCESS, w)), env_open = (\<lambda>p ro w. (Inr (\<lambda>_. []), w)), env_close = (\<lambda>w. w),
     lock_open = (\<lambda>p (F, H, n). if F n = None then (Some n, F(n \<mapsto> p), H, n + 1) else (None, F, H, n)),
     lock_try = (\<lambda>fd (F, H, n). if \<exists>(f, p) \<in> H. F fd = Some p \<and> f \<noteq> fd then (False, F, H, n)
       else (True, F, (case F fd of None \<Rightarrow> H | Some p \<Rightarrow> insert (fd, p) H), n)),
     lock_drop = (\<lambda>fd (F, H, n). (F, H - {fd} \<times> UNIV, n)),
     fd_close = (\<lambda>fd (F, H, n). (F(fd := None), H - {fd} \<times> UNIV, n)), proc_clock = (\<lambda>_. 0), proc_uid = 0\<rparr>"

definition demo_lock_view :: "demo_locks lock_view" where
  "demo_lock_view = \<lparr>fd_file = (\<lambda>(F, H, n). F), held_locks = (\<lambda>(F, H, n). H)\<rparr>"

definition demo_lock_proc :: "demo_locks proc" where
  "demo_lock_proc = \<lparr>world = (\<lambda>_. None, {}, 3), pmem = [], script_seq = 0, backup_seq = 0, extract_seq = 0, touched = [], started = []\<rparr>"

lemma demo_flock_spec: "flock_spec demo_calls demo_lock_view"
  unfolding flock_spec_def same_locks_def demo_calls_def demo_lock_view_def
  by (auto split: prod.splits if_splits option.splits)

lemma db_open_lock: "db_open K L path s = (Some h, s') \<Longrightarrow> \<exists>db fd. h = (db, Some fd)"
  by (auto simp: db_open_def split: prod.splits option.splits)

theorem db_single_writer_witness:
  "\<exists>h s1 s2. db_open demo_calls ref_lmdb ''/db'' demo_lock_proc = (Some h, s1) \<and> db_open demo_calls ref_lmdb ''/db'' s1 = (None, s2)"
proof -
  obtain r s1 where o1: "db_open demo_calls ref_lmdb ''/db'' demo_lock_proc = (r, s1)" by fastforce
  have "r \<noteq> None"
    using o1 by (auto simp: db_open_def open_env_def acquire_write_lock_def mem_call_def os_call_def demo_calls_def demo_lock_proc_def)
  then obtain h where h: "db_open demo_calls ref_lmdb ''/db'' demo_lock_proc = (Some h, s1)" using o1 by auto
  have run1: "db_run demo_calls ref_lmdb demo_lock_proc [(''/db'', h)] s1" using db_run.Open [OF db_run.Start h] by simp
  obtain r2 s2 where o2: "db_open demo_calls ref_lmdb ''/db'' s1 = (r2, s2)" by fastforce
  have "r2 = None"
  proof (rule ccontr)
    assume "r2 \<noteq> None"
    then obtain h2 where h2: "db_open demo_calls ref_lmdb ''/db'' s1 = (Some h2, s2)" using o2 by auto
    have run2: "db_run demo_calls ref_lmdb demo_lock_proc [(''/db'', h), (''/db'', h2)] s2" using db_run.Open [OF run1 h2] by simp
    have "held_locks demo_lock_view (world demo_lock_proc) = {}" by (simp add: demo_lock_view_def demo_lock_proc_def)
    from db_single_writer [OF demo_flock_spec this run2] show False using db_open_lock [OF h] db_open_lock [OF h2] by auto
  qed
  then show ?thesis using h o2 by blast
qed

end
