(* ===== verification/Db_Query.thy ===== *)
theory Db_Query
  imports Db_Laws Hashmap
begin

text \<open>
  The queries over the whole database: \<open>src/db/dependents.c\<close>, \<open>orphans.c\<close>, \<open>search.c\<close>, \<open>stats.c\<close>
  and \<open>verify.c\<close>.  Names that a query returns are copies; the pointer of a result is NULL
  when nothing was ever stored in the array.  \<open>lstat\<close> is the parameter \<open>exists\<close> of
  \<open>db_verify\<close>.
\<close>

subsection \<open>Dependents\<close>

text \<open>\<open>strcmp\<close> with NULL is undefined.\<close>

fun provides_match :: "string \<Rightarrow> str_list \<Rightarrow> bool option" where
  "provides_match needle [] = Some False"
| "provides_match needle (None # ps) = None"
| "provides_match needle (Some p # ps) = (if needle = p then Some True else provides_match needle ps)"

definition names_match :: "pstr \<Rightarrow> string \<Rightarrow> str_list \<Rightarrow> bool option" where
  "names_match needle pkg_name provides =
     (case needle of
        None \<Rightarrow> None
      | Some n \<Rightarrow> if n = pkg_name then Some True else provides_match n provides)"

fun dep_found :: "dep_constraint list \<Rightarrow> string \<Rightarrow> str_list \<Rightarrow> bool option" where
  "dep_found [] pkg_name provides = Some False"
| "dep_found (d # ds) pkg_name provides =
     do {
       found \<leftarrow> names_match (dep_name d) pkg_name provides;
       if found then Some True else dep_found ds pkg_name provides
     }"

fun dependents_loop :: "package list \<Rightarrow> string \<Rightarrow> str_list \<Rightarrow> str_vec \<Rightarrow> mem \<Rightarrow> (str_vec \<times> mem) option" where
  "dependents_loop [] pkg_name provides result mem = Some (result, mem)"
| "dependents_loop (p # ps) pkg_name provides result mem =
     (case pkg_meta p of
        None \<Rightarrow> dependents_loop ps pkg_name provides result mem
      | Some m \<Rightarrow>
          (case meta_name m of
             None \<Rightarrow> dependents_loop ps pkg_name provides result mem
           | Some name \<Rightarrow>
               if name = pkg_name then dependents_loop ps pkg_name provides result mem
               else do {
                 found \<leftarrow> dep_found (meta_dependencies m) pkg_name provides;
                 if \<not> found then dependents_loop ps pkg_name provides result mem
                 else let (ok, result', mem1) = str_vec_push result name mem in
                   if \<not> ok then Some (result', mem1) else dependents_loop ps pkg_name provides result' mem1
               }))"

definition str_vec_zero :: str_vec where
  "str_vec_zero = \<lparr>sv_items = [], sv_cap = 0\<rparr>"

text \<open>The array of a vector and its count; NULL before the first growth.\<close>

definition str_vec_out :: "str_vec \<Rightarrow> string list option" where
  "str_vec_out v = (if sv_cap v = 0 then None else Some (sv_items v))"

definition db_get_dependents ::
  "('e, 't) lmdb \<Rightarrow> yyjson \<Rightarrow> 'e db_handle \<Rightarrow> pstr \<Rightarrow> mem \<Rightarrow> (string list option \<times> 'e db_handle \<times> mem) option" where
  "db_get_dependents L J db pkg_name mem =
     (case pkg_name of
        None \<Rightarrow> Some (None, db, mem)
      | Some name \<Rightarrow>
          let (target, db1, mem1) = db_get L J db (Some name) mem;
              provides = (case Option.bind target pkg_meta of None \<Rightarrow> [] | Some m \<Rightarrow> meta_provides m);
              (all, db2, mem2) = db_list L J db1 mem1
          in case all of
               None \<Rightarrow> Some (None, db2, mem2)
             | Some all \<Rightarrow> do {
                 (result, mem3) \<leftarrow> dependents_loop all name provides str_vec_zero mem2;
                 Some (str_vec_out result, db2, mem3)
               })"

subsection \<open>Orphans\<close>

fun need_deps :: "dep_constraint list \<Rightarrow> str_map \<Rightarrow> mem \<Rightarrow> bool \<times> str_map \<times> mem" where
  "need_deps [] needed mem = (True, needed, mem)"
| "need_deps (d # ds) needed mem =
     (case dep_name d of
        None \<Rightarrow> need_deps ds needed mem
      | Some name \<Rightarrow>
          let (ok, needed', mem1) = str_map_set needed name 1 mem in
          if \<not> ok then (False, needed', mem1) else need_deps ds needed' mem1)"

fun build_needed_set :: "package list \<Rightarrow> str_map \<Rightarrow> mem \<Rightarrow> bool \<times> str_map \<times> mem" where
  "build_needed_set [] needed mem = (True, needed, mem)"
| "build_needed_set (p # ps) needed mem =
     (case pkg_meta p of
        None \<Rightarrow> build_needed_set ps needed mem
      | Some m \<Rightarrow>
          let (ok, needed', mem1) = need_deps (meta_dependencies m) needed mem in
          if \<not> ok then (False, needed', mem1) else build_needed_set ps needed' mem1)"

fun provides_needed :: "str_list \<Rightarrow> str_map \<Rightarrow> bool" where
  "provides_needed [] needed = False"
| "provides_needed (p # ps) needed =
     ((case p of None \<Rightarrow> False | Some s \<Rightarrow> str_map_get needed s \<noteq> None) \<or> provides_needed ps needed)"

definition is_needed :: "package \<Rightarrow> str_map \<Rightarrow> bool" where
  "is_needed pkg needed =
     (case pkg_meta pkg of
        None \<Rightarrow> False
      | Some m \<Rightarrow>
          (case meta_name m of
             None \<Rightarrow> False
           | Some name \<Rightarrow> if str_map_get needed name \<noteq> None then True else provides_needed (meta_provides m) needed))"

fun orphans_loop :: "package list \<Rightarrow> str_map \<Rightarrow> str_vec \<Rightarrow> mem \<Rightarrow> str_vec \<times> mem" where
  "orphans_loop [] needed result mem = (result, mem)"
| "orphans_loop (p # ps) needed result mem =
     (case Option.bind (pkg_meta p) meta_name of
        None \<Rightarrow> orphans_loop ps needed result mem
      | Some name \<Rightarrow>
          if installed_by_hand p then orphans_loop ps needed result mem
          else if is_needed p needed then orphans_loop ps needed result mem
          else let (ok, result', mem1) = str_vec_push result name mem in
            if \<not> ok then (result', mem1) else orphans_loop ps needed result' mem1)"

definition db_get_orphans ::
  "('e, 't) lmdb \<Rightarrow> yyjson \<Rightarrow> 'e db_handle \<Rightarrow> mem \<Rightarrow> string list option \<times> 'e db_handle \<times> mem" where
  "db_get_orphans L J db mem =
     (let (all, db1, mem1) = db_list L J db mem in
      case all of
        None \<Rightarrow> (None, db1, mem1)
      | Some all \<Rightarrow>
          let (ok, needed, mem2) = str_map_init str_map_zero mem1 in
          if \<not> ok then (None, db1, mem2)
          else let (ok, needed, mem3) = build_needed_set all needed mem2 in
            if \<not> ok then (None, db1, mem3)
            else let (result, mem4) = orphans_loop all needed str_vec_zero mem3 in (str_vec_out result, db1, mem4))"

subsection \<open>Search\<close>

definition to_lower :: "char \<Rightarrow> char" where
  "to_lower c = (if 65 \<le> uchar c \<and> uchar c \<le> 90 then char_of (nat (uchar c) + 32) else c)"

text \<open>\<open>strcasestr\<close> in the C locale: whether there is an occurrence.\<close>

definition strcasestr :: "string \<Rightarrow> string \<Rightarrow> bool" where
  "strcasestr hay needle = (strstr (map to_lower hay) (map to_lower needle) \<noteq> None)"

definition matches :: "package_metadata \<Rightarrow> string \<Rightarrow> bool" where
  "matches meta query =
     ((case meta_name meta of None \<Rightarrow> False | Some s \<Rightarrow> strcasestr s query) \<or>
      (case meta_description meta of None \<Rightarrow> False | Some s \<Rightarrow> strcasestr s query))"

fun search_loop :: "yyjson \<Rightarrow> string \<Rightarrow> (string \<times> string) list \<Rightarrow> package list \<Rightarrow> nat \<Rightarrow> mem \<Rightarrow> package list \<times> mem" where
  "search_loop J query [] list cap mem = (list, mem)"
| "search_loop J query ((key, data) # recs) list cap mem =
     (let (pkg, mem1) = package_from_json J data mem in
      case pkg of
        None \<Rightarrow> search_loop J query recs list cap mem1
      | Some pkg \<Rightarrow>
          if (case pkg_meta pkg of None \<Rightarrow> True | Some m \<Rightarrow> \<not> matches m query)
          then search_loop J query recs list cap mem1
          else let (ok, cap', mem2) = reserve 8 (length list) cap mem1 in
            if \<not> ok then (list, mem2) else search_loop J query recs (list @ [pkg]) cap' mem2)"

definition db_search ::
  "('e, 't) lmdb \<Rightarrow> yyjson \<Rightarrow> 'e db_handle \<Rightarrow> pstr \<Rightarrow> mem \<Rightarrow> package list option \<times> 'e db_handle \<times> mem" where
  "db_search L J db query mem =
     (if query = None \<or> query = Some '''' then (None, db, mem)
      else
        let (recs, db1) = read_records L db in
        case recs of
          None \<Rightarrow> (None, db1, mem)
        | Some recs \<Rightarrow>
            let (ok, mem1) = malloc_ok mem in
            if \<not> ok then (None, db1, mem1)
            else let (list, mem2) = search_loop J (the query) recs [] 8 mem1 in (Some list, db1, mem2))"

subsection \<open>Statistics\<close>

definition int_max :: int where "int_max = 2147483647"

text \<open>The conversion \<open>(int)st.ms_entries\<close>.\<close>

definition to_int :: "nat \<Rightarrow> int" where
  "to_int n = sint (of_nat n :: 32 word)"

definition count_newlines :: "string \<Rightarrow> nat" where
  "count_newlines data = length (filter (\<lambda>c. c = newline) data)"

fun stats_files :: "(string \<times> string) list \<Rightarrow> int \<Rightarrow> int option" where
  "stats_files [] n = Some n"
| "stats_files ((key, data) # recs) n =
     (let n' = n + int (count_newlines data) in if n' > int_max then None else stats_files recs n')"

text \<open>\<open>package_count\<close> and \<open>file_count\<close>, or failure; counting beyond \<open>INT_MAX\<close> is undefined.\<close>

definition db_stats :: "('e, 't) lmdb \<Rightarrow> 'e db_handle \<Rightarrow> ((int \<times> int) option \<times> 'e db_handle) option" where
  "db_stats L db =
     (case mdb_txn_begin L (db_env db) True of
        Inl (rc, env) \<Rightarrow> Some (None, db\<lparr>db_env := env\<rparr>)
      | Inr txn \<Rightarrow>
          let (rc, txn1) = mdb_dbi_open L txn None False; db1 = db\<lparr>db_env := mdb_txn_abort L txn1\<rparr> in
          if rc \<noteq> MDB_SUCCESS then Some (None, db1)
          else
            let package_count = (case mdb_stat L txn1 None of None \<Rightarrow> 0 | Some n \<Rightarrow> to_int n);
                recs = (if files_dbi_open db then mdb_cursor L txn1 files_dbi else None)
            in do {
              file_count \<leftarrow> (case recs of None \<Rightarrow> Some 0 | Some recs \<Rightarrow> stats_files recs 0);
              Some (Some (package_count, file_count), db1)
            })"

subsection \<open>Verification of the files on disk\<close>

record db_verify_issue =
  issue_pkg_name :: pstr
  missing_files :: "string list"

text \<open>
  The loop over the files of a package: the missing ones, or \<open>Inl\<close> when memory ran out.
\<close>

fun missing_loop ::
  "(string \<Rightarrow> bool) \<Rightarrow> string \<Rightarrow> str_list \<Rightarrow> string list \<Rightarrow> nat \<Rightarrow> mem \<Rightarrow> ((mem + (string list \<times> mem))) option" where
  "missing_loop exists root [] missing cap mem = Some (Inr (missing, mem))"
| "missing_loop exists root (None # fs) missing cap mem = missing_loop exists root fs missing cap mem"
| "missing_loop exists root (Some rel # fs) missing cap mem =
     do {
       (full, mem1) \<leftarrow> concat_dirs root rel mem;
       case full of
         None \<Rightarrow> Some (Inl mem1)
       | Some full \<Rightarrow>
           if exists full then missing_loop exists root fs missing cap mem1
           else
             let (ok, cap', mem2) = reserve 4 (length missing) cap mem1 in
             if \<not> ok then Some (Inl mem2)
             else let (copy, mem3) = strdup_m rel mem2 in
               case copy of
                 None \<Rightarrow> Some (Inl mem3)
               | Some s \<Rightarrow> missing_loop exists root fs (missing @ [s]) cap' mem3
     }"

fun verify_loop ::
  "(string \<Rightarrow> bool) \<Rightarrow> string \<Rightarrow> package list \<Rightarrow> db_verify_issue list \<Rightarrow> nat \<Rightarrow> mem \<Rightarrow>
   (mem + (db_verify_issue list \<times> nat \<times> mem)) option" where
  "verify_loop exists root [] issues cap mem = Some (Inr (issues, cap, mem))"
| "verify_loop exists root (p # ps) issues cap mem =
     (case Option.bind (pkg_meta p) meta_name of
        None \<Rightarrow> verify_loop exists root ps issues cap mem
      | Some name \<Rightarrow>
          if package_files p = [] then verify_loop exists root ps issues cap mem
          else do {
            r \<leftarrow> missing_loop exists root (package_files p) [] 0 mem;
            case r of
              Inl mem1 \<Rightarrow> Some (Inl mem1)
            | Inr (missing, mem1) \<Rightarrow>
                if missing = [] then verify_loop exists root ps issues cap mem1
                else
                  let (ok, cap', mem2) = reserve 4 (length issues) cap mem1 in
                  if \<not> ok then Some (Inl mem2)
                  else let (copy, mem3) = strdup_m name mem2 in
                    case copy of
                      None \<Rightarrow> Some (Inl mem3)
                    | Some n \<Rightarrow>
                        verify_loop exists root ps (issues @ [\<lparr>issue_pkg_name = Some n, missing_files = missing\<rparr>]) cap' mem3
          })"

text \<open>
  The issues and their count; NULL when there is none, and, with count 0, when memory ran
  out.
\<close>

definition db_verify ::
  "(string \<Rightarrow> bool) \<Rightarrow> ('e, 't) lmdb \<Rightarrow> yyjson \<Rightarrow> 'e db_handle \<Rightarrow> pstr \<Rightarrow> mem \<Rightarrow>
   (db_verify_issue list option \<times> 'e db_handle \<times> mem) option" where
  "db_verify exists L J db root_path mem =
     (case root_path of
        None \<Rightarrow> Some (None, db, mem)
      | Some root \<Rightarrow>
          let (pkgs, db1, mem1) = db_list L J db mem in
          case pkgs of
            None \<Rightarrow> Some (None, db1, mem1)
          | Some pkgs \<Rightarrow> do {
              r \<leftarrow> verify_loop exists root pkgs [] 0 mem1;
              case r of
                Inl mem2 \<Rightarrow> Some (None, db1, mem2)
              | Inr (issues, cap, mem2) \<Rightarrow> Some (if cap = 0 then None else Some issues, db1, mem2)
            })"

text \<open>The outer option is undefined behaviour, the inner one NULL.\<close>

definition db_verify_issue_at :: "db_verify_issue list option \<Rightarrow> int \<Rightarrow> int \<Rightarrow> db_verify_issue option option" where
  "db_verify_issue_at issues count index =
     (case issues of
        None \<Rightarrow> Some None
      | Some xs \<Rightarrow> if index < 0 \<or> index \<ge> count then Some None else map_option Some (arr_get xs (nat index)))"

definition db_verify_issue_missing_count :: "db_verify_issue \<Rightarrow> int" where
  "db_verify_issue_missing_count issue = int (length (missing_files issue))"

definition db_verify_issue_missing_file_at :: "db_verify_issue \<Rightarrow> int \<Rightarrow> pstr" where
  "db_verify_issue_missing_file_at issue index =
     (if index < 0 \<or> index \<ge> db_verify_issue_missing_count issue then None else arr_get (missing_files issue) (nat index))"

subsection \<open>The list of all packages\<close>

text \<open>Every record is that of a storable package under its name, or one of a named database.\<close>

definition well_recorded :: "('e, 't) lmdb_view \<Rightarrow> yyjson \<Rightarrow> (string \<Rightarrow> bool) \<Rightarrow> 'e db_handle \<Rightarrow> bool" where
  "well_recorded V J U db \<longleftrightarrow> (\<forall>k body. env_view V (db_env db) None k = Some body \<longrightarrow>
     (if k \<in> reserved then yyjson_read J body = None
      else \<exists>p m. package_ok U p \<and> pkg_meta p = Some m \<and> meta_name m = Some k \<and> pkg_text J p = Some body))"

lemma well_recorded_view: "env_view V (db_env db') = env_view V (db_env db) \<Longrightarrow> well_recorded V J U db' = well_recorded V J U db"
  by (simp add: well_recorded_def)

text \<open>The package that is read from a record.\<close>

definition read_pkg :: "yyjson \<Rightarrow> string \<Rightarrow> package option" where
  "read_pkg J body = fst (package_from_json J body [])"

lemma read_pkg_record:
  assumes J: "yyjson_spec J U" and w: "well_recorded V J U db" and "env_view V (db_env db) None k = Some body" and "no_oom m"
  shows "fst (package_from_json J body m) = read_pkg J body \<and>
    (if k \<in> reserved then read_pkg J body = None
     else \<exists>p mt. read_pkg J body = Some p \<and> pkg_meta p = Some mt \<and> meta_name mt = Some k)"
proof (cases "k \<in> reserved")
  case True
  then have "yyjson_read J body = None" using w assms(3) unfolding well_recorded_def by metis
  then show ?thesis using True by (simp add: read_pkg_def package_from_json_def is_obj_def)
next
  case False
  then obtain p mt where p: "package_ok U p" "pkg_meta p = Some mt" "meta_name mt = Some k" "pkg_text J p = Some body"
    using w assms(3) unfolding well_recorded_def by metis
  note read = package_from_doc [OF _ p(2,1) pkg_text_read [OF J p(1,4,2)]]
  have "fst (package_from_json J body m) = Some (stored p)" "read_pkg J body = Some (stored p)"
    using read [OF assms(4)] read [OF no_oom_Nil] by (auto simp: read_pkg_def)
  moreover have "pkg_meta (stored p) = Some (stored_meta mt)" "meta_name (stored_meta mt) = Some k"
    using p by (simp_all add: stored_def stored_meta_def or_else_def)
  ultimately show ?thesis using False by auto
qed

lemma with_files_eq:
  assumes spec: "lmdb_spec L V" and live: "lmdb_live L" and "handle_ready db" and "no_oom mem"
    and "pkg_meta p = Some m" "meta_name m = Some name"
  shows "\<exists>env mem'. with_files L db p mem = (p\<lparr>package_files := file_list (env_view V (db_env db)) name\<rparr>, db\<lparr>db_env := env\<rparr>, mem') \<and>
    env_view V env = env_view V (db_env db) \<and> no_oom mem'"
  using load_files_eq [OF assms(1-4), of name] assms(5,6) by (auto simp: with_files_def)

lemma db_get_record:
  assumes spec: "lmdb_spec L V" and live: "lmdb_live L" and J: "yyjson_spec J U" and w: "well_recorded V J U db"
    and h: "handle_ready db" and "env_view V (db_env db) None k = Some body" and "read_pkg J body = Some p" and "no_oom m"
  shows "fst (db_get L J db (Some k) m) = Some (p\<lparr>package_files := file_list (env_view V (db_env db)) k\<rparr>)"
proof -
  have n: "\<exists>mt. pkg_meta p = Some mt \<and> meta_name mt = Some k"
    using read_pkg_record [OF J w assms(6,8)] assms(7) by (auto split: if_splits)
  then obtain mt where mt: "pkg_meta p = Some mt" "meta_name mt = Some k" by blast
  have "\<exists>m'. package_from_json J body m = (Some p, m') \<and> no_oom m'" if "no_oom m" for m
    using read_pkg_record [OF J w assms(6) that] assms(7) package_from_json_oom [OF that, of J body]
    by (cases "package_from_json J body m") auto
  then show ?thesis using db_get_eq [OF spec live h assms(8,6) _ mt] by fastforce
qed

lemma list_loop_all:
  assumes spec: "lmdb_spec L V" and live: "lmdb_live L" and J: "yyjson_spec J U" and w: "well_recorded V J U db"
    and "handle_ready db" and "no_oom mem" and "\<And>k body. (k, body) \<in> set recs \<Longrightarrow> env_view V (db_env db) None k = Some body"
  shows "\<exists>env mem'. list_loop L J recs acc cap db mem = (acc @ List.map_filter (\<lambda>(k, body).
      map_option (package_files_update (\<lambda>_. file_list (env_view V (db_env db)) k)) (read_pkg J body)) recs, db\<lparr>db_env := env\<rparr>, mem') \<and>
    env_view V env = env_view V (db_env db) \<and> no_oom mem'"
  using assms(4-7)
proof (induction recs arbitrary: acc cap db mem)
  case Nil
  then show ?case by (auto simp: List.map_filter_simps intro: exI [of _ "db_env db"])
next
  case (Cons r recs)
  obtain k body where r: "r = (k, body)" by fastforce
  obtain pkg mem1 where pj: "package_from_json J body mem = (pkg, mem1)" by fastforce
  have m1: "no_oom mem1" using package_from_json_oom [OF Cons.prems(3), of J body] pj by simp
  have pkg: "pkg = read_pkg J body"
    and kind: "if k \<in> reserved then pkg = None else \<exists>p mt. pkg = Some p \<and> pkg_meta p = Some mt \<and> meta_name mt = Some k"
    using read_pkg_record [OF J Cons.prems(1) Cons.prems(4) [of k body] Cons.prems(3)] pj r by auto
  show ?case
  proof (cases pkg)
    case None
    then show ?thesis using Cons.IH [OF Cons.prems(1,2) m1, of acc cap] Cons.prems(4) r pj pkg
      by (auto simp: List.map_filter_simps)
  next
    case (Some p)
    then obtain mt where mt: "pkg_meta p = Some mt" "meta_name mt = Some k" using kind by (auto split: if_splits)
    obtain env2 mem2 where f: "with_files L db p mem1 =
        (p\<lparr>package_files := file_list (env_view V (db_env db)) k\<rparr>, db\<lparr>db_env := env2\<rparr>, mem2)"
      "env_view V env2 = env_view V (db_env db)" "no_oom mem2"
      using with_files_eq [OF spec live Cons.prems(2) m1 mt] by blast
    obtain cap' mem3 where c: "reserve 16 (length acc) cap mem2 = (True, cap', mem3)" "no_oom mem3"
      using reserve_no_oomE [OF f(3)] by blast
    have "well_recorded V J U (db\<lparr>db_env := env2\<rparr>)" "handle_ready (db\<lparr>db_env := env2\<rparr>)"
      using Cons.prems(1,2) f(2) by (simp_all add: well_recorded_def handle_ready_def)
    from Cons.IH [OF this c(2), of "acc @ [p\<lparr>package_files := file_list (env_view V (db_env db)) k\<rparr>]" cap']
    show ?thesis using r pj Some mt f(1,2) c(1) pkg Cons.prems(4) by (simp add: List.map_filter_simps)
  qed
qed

lemma read_records_eq:
  assumes spec: "lmdb_spec L V" and live: "lmdb_live L"
  shows "\<exists>recs env. read_records L db = (Some recs, db\<lparr>db_env := env\<rparr>) \<and> env_view V env = env_view V (db_env db) \<and>
    sorted_wrt (<) (map fst recs) \<and> map_of recs = env_view V (db_env db) None"
proof -
  obtain t t1 where t: "mdb_txn_begin L (db_env db) True = Inr t" "mdb_dbi_open L t None False = (MDB_SUCCESS, t1)"
    "mdb_cursor L t1 None \<noteq> None" using live by (meson lmdb_live_def)
  then obtain recs where recs: "mdb_cursor L t1 None = Some recs" by blast
  have "txn_view V t1 = env_view V (db_env db)" "env_view V (mdb_txn_abort L t1) = env_view V (db_env db)"
    using lmdb_begin [OF spec t(1)] lmdb_open_same [OF spec t(2)] lmdb_abort [OF spec, of t1] by simp_all
  then show ?thesis using t recs lmdb_cursor [OF spec recs] by (auto simp: read_records_def)
qed

lemma db_list_all:
  assumes spec: "lmdb_spec L V" and live: "lmdb_live L" and J: "yyjson_spec J U" and w: "well_recorded V J U db"
    and h: "handle_ready db" and mem: "no_oom mem"
  shows "\<exists>recs env mem'. db_list L J db mem = (Some (List.map_filter (\<lambda>(k, body).
      map_option (package_files_update (\<lambda>_. file_list (env_view V (db_env db)) k)) (read_pkg J body)) recs), db\<lparr>db_env := env\<rparr>, mem') \<and>
    env_view V env = env_view V (db_env db) \<and> no_oom mem' \<and>
    sorted_wrt (<) (map fst recs) \<and> map_of recs = env_view V (db_env db) None"
proof -
  obtain recs env1 where r: "read_records L db = (Some recs, db\<lparr>db_env := env1\<rparr>)" "env_view V env1 = env_view V (db_env db)"
    "sorted_wrt (<) (map fst recs)" "map_of recs = env_view V (db_env db) None"
    using read_records_eq [OF spec live] by blast
  obtain mem1 where m1: "malloc_ok mem = (True, mem1)" "no_oom mem1" using mem by (rule malloc_no_oomE)
  have "distinct (map fst recs)" using r(3) by (simp add: strict_sorted_iff)
  then have recs: "env_view V (db_env (db\<lparr>db_env := env1\<rparr>)) None k = Some body" if "(k, body) \<in> set recs" for k body
    using map_of_is_SomeI [OF _ that] r(2,4) by simp
  have "well_recorded V J U (db\<lparr>db_env := env1\<rparr>)" "handle_ready (db\<lparr>db_env := env1\<rparr>)"
    using w h r(2) by (simp_all add: well_recorded_def handle_ready_def)
  from list_loop_all [OF spec live J this m1(2) recs, of recs "[]" 16]
  show ?thesis using r m1(1) by (intro exI [of _ recs]) (auto simp: db_list_def)
qed

lemma db_list_agrees:
  assumes "lmdb_spec L V" and "lmdb_live L" and "yyjson_spec J U" and "well_recorded V J U db" and "handle_ready db" and "no_oom mem"
  shows "\<exists>all env mem'. db_list L J db mem = (Some all, db\<lparr>db_env := env\<rparr>, mem') \<and> env_view V env = env_view V (db_env db) \<and> no_oom mem' \<and>
    sorted_wrt (<) (map pkg_id all) \<and> set (map pkg_id all) = dom (st_records (db_store V db)) \<and>
    (\<forall>p \<in> set all. \<forall>m. no_oom m \<longrightarrow> fst (db_get L J db (Some (pkg_id p)) m) = Some p)"
proof -
  let ?C = "env_view V (db_env db)"
  let ?f = "\<lambda>(k, body). map_option (package_files_update (\<lambda>_. file_list ?C k)) (read_pkg J body)"
  obtain recs env mem' where l: "db_list L J db mem = (Some (List.map_filter ?f recs), db\<lparr>db_env := env\<rparr>, mem')"
    "env_view V env = ?C" "no_oom mem'" "sorted_wrt (<) (map fst recs)" "map_of recs = ?C None"
    using db_list_all [OF assms] by blast
  have dist: "distinct (map fst recs)" using l(4) by (simp add: strict_sorted_iff)
  have rec: "?C None k = Some body" if "(k, body) \<in> set recs" for k body using that dist l(5) by (metis map_of_is_SomeI)
  have kind: "if k \<in> reserved then read_pkg J body = None else (\<exists>p. read_pkg J body = Some p \<and> pkg_id p = k \<and>
      (\<forall>m. no_oom m \<longrightarrow> fst (db_get L J db (Some k) m) = Some (p\<lparr>package_files := file_list ?C k\<rparr>)))"
    if "(k, body) \<in> set recs" for k body
    using read_pkg_record [OF assms(3,4) rec [OF that] no_oom_Nil] rec [OF that] db_get_record [OF assms(1-5)]
    by (auto simp: pkg_id_def split: if_splits)
  have ids: "map pkg_id (List.map_filter ?f rs) = filter (\<lambda>k. k \<notin> reserved) (map fst rs)" if "set rs \<subseteq> set recs" for rs
    using that
  proof (induction rs)
    case (Cons r rs)
    obtain k body where r: "r = (k, body)" by fastforce
    then show ?case using Cons kind [of k body] by (auto simp: List.map_filter_simps pkg_id_def split: if_splits)
  qed (simp add: List.map_filter_simps)
  have "set (map fst recs) = dom (?C None)" using dom_map_of_conv_image_fst [of recs] l(5) by simp
  then have "set (map pkg_id (List.map_filter ?f recs)) = dom (st_records (db_store V db))"
    unfolding ids [OF subset_refl] by (auto simp: store_of_def)
  moreover have "sorted_wrt (<) (map pkg_id (List.map_filter ?f recs))"
    unfolding ids [OF subset_refl] by (rule sorted_wrt_filter [OF l(4)])
  moreover have "fst (db_get L J db (Some (pkg_id p)) m) = Some p" if "p \<in> set (List.map_filter ?f recs)" "no_oom m" for p m
  proof -
    have "\<exists>r \<in> set recs. ?f r = Some p" using that(1) unfolding List.map_filter_def by force
    then obtain r where r: "r \<in> set recs" "?f r = Some p" by blast
    obtain k body where "r = (k, body)" by fastforce
    then have "(k, body) \<in> set recs" "?f (k, body) = Some p" using r by simp_all
    then show ?thesis using kind [of k body] that(2) by (auto simp: pkg_id_def split: if_splits)
  qed
  ultimately show ?thesis using l(1,2,3) by blast
qed

text \<open>
  \<open>db_list\<close> and \<open>db_get\<close> agree.  On a database of storable packages, with memory and
  readable transactions, \<open>db_list\<close> returns one package for each record that is not one of the
  named databases, in the order of the names and without duplicates, each of them exactly
  what \<open>db_get\<close> returns for its name, and changes nothing.
\<close>

theorem db_list_exact:
  assumes "lmdb_spec L V" and "lmdb_live L" and "yyjson_spec J U" and "well_recorded V J U db" and "handle_ready db" and "no_oom mem"
  shows "\<exists>all env mem'. db_list L J db mem = (Some all, db\<lparr>db_env := env\<rparr>, mem') \<and> env_view V env = env_view V (db_env db) \<and>
    sorted_wrt (<) (map pkg_id all) \<and> set (map pkg_id all) = dom (st_records (db_store V db)) \<and>
    (\<forall>p \<in> set all. \<forall>m. no_oom m \<longrightarrow> fst (db_get L J db (Some (pkg_id p)) m) = Some p)"
  using db_list_agrees [OF assms] by blast

definition demo_list_db :: "ref_env db_handle" where
  "demo_list_db = demo_db\<lparr>db_env := (\<lambda>_. [])(None := [(''files'', []), (''app'', the (pkg_text codec sample_pkg))],
     files_dbi := [(''app'', file_text (package_files sample_pkg))])\<rparr>"

lemma demo_list_ready: "handle_ready demo_list_db"
  by (simp add: demo_list_db_def demo_db_def handle_ready_def)

lemma demo_well_recorded: "well_recorded ref_view codec (\<lambda>_. True) demo_list_db"
proof -
  have "yyjson_read codec [] = None" by code_simp
  moreover have "\<exists>m. pkg_meta sample_pkg = Some m \<and> meta_name m = Some ''app''" by (simp add: sample_pkg_def)
  moreover have "pkg_text codec sample_pkg = Some (the (pkg_text codec sample_pkg))" using codec_writes by (simp add: pkg_text_def)
  ultimately show ?thesis
    using sample_pkg_ok unfolding well_recorded_def
    by (auto simp: demo_list_db_def ref_view_def reserved_def)
qed

lemmas demo_simps = stored_def sample_pkg_def stored_meta_def zero_metadata_def or_else_def

abbreviation demo_stored :: package where
  "demo_stored \<equiv> (stored sample_pkg)\<lparr>package_files := [Some ''/usr/bin/app'']\<rparr>"

lemma demo_get: "fst (db_get ref_lmdb codec demo_list_db (Some ''app'') []) = Some demo_stored"
proof -
  obtain m where m: "pkg_meta sample_pkg = Some m" "meta_name m = Some ''app''" by (simp add: sample_pkg_def)
  have t: "pkg_text codec sample_pkg = Some (the (pkg_text codec sample_pkg))" using codec_writes by (simp add: pkg_text_def)
  have "env_view ref_view (db_env demo_list_db) None ''app'' = Some (the (pkg_text codec sample_pkg))"
    by (simp add: demo_list_db_def ref_view_def)
  note get = db_get_recorded [OF ref_lmdb_spec ref_lmdb_live codec_spec sample_pkg_ok demo_list_ready no_oom_Nil t m this]
  have ok: "list_ok path_ok (package_files sample_pkg)" by (simp add: sample_pkg_def path_ok_def newline_def list_ok_def)
  have "file_list (env_view ref_view (db_env demo_list_db)) ''app'' = [Some ''/usr/bin/app'']"
    using file_text_list [OF ok] by (simp add: file_list_def demo_list_db_def ref_view_def sample_pkg_def)
  then show ?thesis using get by auto
qed

lemma demo_list_read:
  "\<exists>env mem'. db_list ref_lmdb codec demo_list_db [] = (Some [demo_stored], demo_list_db\<lparr>db_env := env\<rparr>, mem') \<and> no_oom mem'"
proof -
  obtain all env mem' where l: "db_list ref_lmdb codec demo_list_db [] = (Some all, demo_list_db\<lparr>db_env := env\<rparr>, mem')" "no_oom mem'"
    "sorted_wrt (<) (map pkg_id all)" "set (map pkg_id all) = dom (st_records (db_store ref_view demo_list_db))"
    "\<forall>p \<in> set all. \<forall>m. no_oom m \<longrightarrow> fst (db_get ref_lmdb codec demo_list_db (Some (pkg_id p)) m) = Some p"
    using db_list_agrees [OF ref_lmdb_spec ref_lmdb_live codec_spec demo_well_recorded demo_list_ready no_oom_Nil] by blast
  have "dom (st_records (db_store ref_view demo_list_db)) = {''app''}"
    by (auto simp: demo_list_db_def store_of_def ref_view_def reserved_def dom_def restrict_map_def)
  then have "set (map pkg_id all) = {''app''}" "distinct (map pkg_id all)" using l(3,4) by (simp_all add: strict_sorted_iff)
  then obtain p where p: "all = [p]" "pkg_id p = ''app''"
    by (cases all; cases "tl all") (auto simp: insert_eq_iff)
  have "fst (db_get ref_lmdb codec demo_list_db (Some ''app'') []) = Some demo_stored" by (rule demo_get)
  moreover have "fst (db_get ref_lmdb codec demo_list_db (Some ''app'') []) = Some p" using l(5) p no_oom_Nil by auto
  ultimately show ?thesis using l(1,2) p(1) by auto
qed

theorem db_list_exact_witness:
  "\<exists>all env mem'. db_list ref_lmdb codec demo_list_db [] = (Some all, demo_list_db\<lparr>db_env := env\<rparr>, mem') \<and>
    set (map pkg_id all) = {''app''}"
proof -
  have "dom (st_records (db_store ref_view demo_list_db)) = {''app''}"
    by (auto simp: demo_list_db_def store_of_def ref_view_def reserved_def dom_def restrict_map_def)
  then show ?thesis
    using db_list_exact [OF ref_lmdb_spec ref_lmdb_live codec_spec demo_well_recorded demo_list_ready no_oom_Nil] by metis
qed

subsection \<open>Orphans and dependents\<close>

lemma str_vec_push_no_oom:
  assumes "no_oom mem" and "length (sv_items v) \<le> sv_cap v"
  shows "\<exists>cap mem'. str_vec_push v s mem = (True, v\<lparr>sv_items := sv_items v @ [s], sv_cap := cap\<rparr>, mem') \<and>
    length (sv_items v) < cap \<and> no_oom mem'"
proof -
  obtain cap mem1 where r: "reserve 8 (length (sv_items v)) (sv_cap v) mem = (True, cap, mem1)" "no_oom mem1"
    using assms(1) by (rule reserve_no_oomE)
  obtain mem2 where "strdup_m s mem1 = (Some s, mem2)" "no_oom mem2" using strdup_no_oomE [OF r(2)] by metis
  then show ?thesis using r reserve_room [OF r(1) assms(2)] by (auto simp: str_vec_push_def)
qed

text \<open>A vector holding \<open>xs\<close>: its array is NULL exactly when it never grew.\<close>

definition sv_holds :: "str_vec \<Rightarrow> string list \<Rightarrow> bool" where
  "sv_holds v xs \<longleftrightarrow> sv_items v = xs \<and> length xs \<le> sv_cap v \<and> (xs = [] \<longrightarrow> sv_cap v = 0)"

lemma sv_holds_zero: "sv_holds str_vec_zero []"
  by (simp add: sv_holds_def str_vec_zero_def)

lemma sv_holds_push:
  "no_oom mem \<Longrightarrow> sv_holds v xs \<Longrightarrow> \<exists>v' mem'. str_vec_push v s mem = (True, v', mem') \<and> sv_holds v' (xs @ [s]) \<and> no_oom mem'"
  using str_vec_push_no_oom [of mem v s] by (auto simp: sv_holds_def)

lemma sv_holds_out: "sv_holds v xs \<Longrightarrow> str_vec_out v = (if xs = [] then None else Some xs)"
  by (auto simp: sv_holds_def str_vec_out_def)

text \<open>The names some package of the list depends on.\<close>

definition dep_names :: "dep_constraint list \<Rightarrow> string set" where
  "dep_names ds = {n. \<exists>d \<in> set ds. dep_name d = Some n}"

definition needed_names :: "package list \<Rightarrow> string set" where
  "needed_names all = (\<Union>p \<in> set all. case pkg_meta p of None \<Rightarrow> {} | Some m \<Rightarrow> dep_names (meta_dependencies m))"

definition own_names :: "package \<Rightarrow> string set" where
  "own_names p = (case pkg_meta p of None \<Rightarrow> {}
     | Some m \<Rightarrow> set_option (meta_name m) \<union> {n. Some n \<in> set (meta_provides m)})"

definition named :: "package \<Rightarrow> bool" where
  "named p \<longleftrightarrow> Option.bind (pkg_meta p) meta_name \<noteq> None"

lemma need_deps_no_oom:
  "sm_inv needed \<Longrightarrow> no_oom mem \<Longrightarrow> \<exists>needed' mem'. need_deps ds needed mem = (True, needed', mem') \<and> no_oom mem' \<and>
     sm_inv needed' \<and> dom (str_map_get needed') = dom (str_map_get needed) \<union> dep_names ds"
proof (induction ds arbitrary: needed mem)
  case (Cons d ds)
  show ?case
  proof (cases "dep_name d")
    case None
    then show ?thesis using Cons by (simp add: dep_names_def)
  next
    case (Some n)
    obtain needed1 mem1 where s: "str_map_set needed n 1 mem = (True, needed1, mem1)" "no_oom mem1"
      using sm.put_no_oom [OF Cons.prems, of n 1] by blast
    have g: "sm_inv needed1" "str_map_get needed1 = (str_map_get needed)(n \<mapsto> 1)" using sm.put_ok [OF Cons.prems(1) s(1)] by simp_all
    have "dep_names (d # ds) = insert n (dep_names ds)" using Some by (auto simp: dep_names_def)
    then show ?thesis using Cons.IH [OF g(1) s(2)] s(1) g(2) Some by auto
  qed
qed (simp add: dep_names_def)

lemma build_needed_set_no_oom:
  "sm_inv needed \<Longrightarrow> no_oom mem \<Longrightarrow> \<exists>needed' mem'. build_needed_set ps needed mem = (True, needed', mem') \<and> no_oom mem' \<and>
     sm_inv needed' \<and> dom (str_map_get needed') = dom (str_map_get needed) \<union> needed_names ps"
proof (induction ps arbitrary: needed mem)
  case (Cons p ps)
  show ?case
  proof (cases "pkg_meta p")
    case None
    then show ?thesis using Cons by (simp add: needed_names_def)
  next
    case (Some m)
    obtain needed1 mem1 where s: "need_deps (meta_dependencies m) needed mem = (True, needed1, mem1)" "no_oom mem1" "sm_inv needed1"
      "dom (str_map_get needed1) = dom (str_map_get needed) \<union> dep_names (meta_dependencies m)"
      using need_deps_no_oom [OF Cons.prems] by blast
    then show ?thesis using Cons.IH [OF s(3,2)] Some by (auto simp: needed_names_def)
  qed
qed (simp add: needed_names_def)

lemma provides_needed_iff: "provides_needed ps needed \<longleftrightarrow> (\<exists>s. Some s \<in> set ps \<and> s \<in> dom (str_map_get needed))"
  by (induction ps) (auto split: option.splits)

lemma is_needed_iff: "named p \<Longrightarrow> is_needed p needed \<longleftrightarrow> own_names p \<inter> dom (str_map_get needed) \<noteq> {}"
  by (auto simp: named_def is_needed_def own_names_def provides_needed_iff bind_eq_Some_conv dom_def split: option.splits)

lemma pkg_id_named: "Option.bind (pkg_meta p) meta_name = Some name \<Longrightarrow> pkg_id p = name"
  by (auto simp: pkg_id_def bind_eq_Some_conv)

lemma orphans_loop_no_oom:
  assumes "no_oom mem" and "sv_holds v xs"
  shows "\<exists>v' mem'. orphans_loop ps needed v mem = (v', mem') \<and> no_oom mem' \<and>
    sv_holds v' (xs @ map pkg_id (filter (\<lambda>p. named p \<and> \<not> installed_by_hand p \<and> \<not> is_needed p needed) ps))"
  using assms
proof (induction ps arbitrary: v xs mem)
  case (Cons p ps)
  show ?case
  proof (cases "Option.bind (pkg_meta p) meta_name")
    case None
    then show ?thesis using Cons by (simp add: named_def)
  next
    case (Some name)
    obtain v' mem' where "str_vec_push v name mem = (True, v', mem')" "sv_holds v' (xs @ [name])" "no_oom mem'"
      using sv_holds_push [OF Cons.prems] by blast
    then show ?thesis using Cons.IH [of mem v xs] Cons.IH [of mem' v' "xs @ [name]"] Cons.prems Some pkg_id_named [OF Some]
      by (simp add: named_def)
  qed
qed simp



text \<open>What a dependent of a package is: it depends on the name or on something provided.\<close>

definition depends_on_any :: "string set \<Rightarrow> package \<Rightarrow> bool" where
  "depends_on_any ns p \<longleftrightarrow> (\<exists>m. pkg_meta p = Some m \<and> dep_names (meta_dependencies m) \<inter> ns \<noteq> {})"

lemma provides_match_eq: "None \<notin> set ps \<Longrightarrow> provides_match n ps = Some (Some n \<in> set ps)"
  by (induction n ps rule: provides_match.induct) auto

lemma dep_found_eq:
  assumes "None \<notin> set provides" and "\<And>d. d \<in> set ds \<Longrightarrow> dep_name d \<noteq> None"
  shows "dep_found ds name provides = Some (dep_names ds \<inter> ({name} \<union> {n. Some n \<in> set provides}) \<noteq> {})"
  using assms(2)
proof (induction ds)
  case (Cons d ds)
  then obtain n where n: "dep_name d = Some n" by fastforce
  have "dep_names (d # ds) = insert n (dep_names ds)" using n by (auto simp: dep_names_def)
  then show ?case using Cons n by (auto simp: names_match_def provides_match_eq [OF assms(1)])
qed (simp add: dep_names_def)

text \<open>Metadata whose lists hold no NULL.\<close>

definition no_nulls :: "package \<Rightarrow> bool" where
  "no_nulls p \<longleftrightarrow> (\<forall>m. pkg_meta p = Some m \<longrightarrow> None \<notin> set (meta_provides m) \<and>
     (\<forall>d \<in> set (meta_dependencies m). dep_name d \<noteq> None))"

lemma dependents_loop_no_oom:
  assumes "None \<notin> set provides" and "no_oom mem" and "sv_holds v xs" and "\<forall>p \<in> set ps. no_nulls p"
  shows "\<exists>v' mem'. dependents_loop ps name provides v mem = Some (v', mem') \<and> no_oom mem' \<and>
    sv_holds v' (xs @ map pkg_id (filter (\<lambda>p. named p \<and> pkg_id p \<noteq> name \<and>
      depends_on_any ({name} \<union> {n. Some n \<in> set provides}) p) ps))"
  using assms(2-4)
proof (induction ps arbitrary: v xs mem)
  case (Cons p ps)
  show ?case
  proof (cases "Option.bind (pkg_meta p) meta_name")
    case None
    then show ?thesis using Cons by (auto simp: named_def split: option.splits)
  next
    case (Some n)
    then obtain m where m: "pkg_meta p = Some m" "meta_name m = Some n" by (auto simp: bind_eq_Some_conv)
    have f: "dep_found (meta_dependencies m) name provides = Some (depends_on_any ({name} \<union> {n. Some n \<in> set provides}) p)"
      using dep_found_eq [OF assms(1), of "meta_dependencies m" name] Cons.prems(3) m(1) by (auto simp: no_nulls_def depends_on_any_def)
    obtain v' mem' where "str_vec_push v n mem = (True, v', mem')" "sv_holds v' (xs @ [n])" "no_oom mem'"
      using sv_holds_push [OF Cons.prems(1,2)] by blast
    then show ?thesis
      using Cons.IH [of mem v xs] Cons.IH [of mem' v' "xs @ [n]"] Cons.prems m f pkg_id_named [OF Some] by (simp add: named_def)
  qed
qed simp

text \<open>
  \<open>db_get_dependents\<close> is exact and safe on records without NULL items: it returns, in the
  order of the list, the names of the other packages that depend on the package or on
  something it provides.
\<close>

theorem db_get_dependents_exact:
  assumes "db_get L J db (Some name) mem = (target, db1, mem1)" and "db_list L J db1 mem1 = (Some all, db2, mem2)"
    and "no_oom mem2" and "\<forall>p \<in> set all \<union> set_option target. no_nulls p"
    and "dependents = map pkg_id (filter (\<lambda>p. named p \<and> pkg_id p \<noteq> name \<and>
      depends_on_any ({name} \<union> (case Option.bind target pkg_meta of None \<Rightarrow> {} | Some m \<Rightarrow> {n. Some n \<in> set (meta_provides m)})) p) all)"
  shows "\<exists>mem'. db_get_dependents L J db (Some name) mem =
    Some (if dependents = [] then None else Some dependents, db2, mem')"
proof -
  let ?prov = "case Option.bind target pkg_meta of None \<Rightarrow> [] | Some m \<Rightarrow> meta_provides m"
  have prov: "None \<notin> set ?prov" using assms(4) by (auto simp: no_nulls_def split: option.splits bind_splits)
  have names: "{n. Some n \<in> set ?prov} =
      (case Option.bind target pkg_meta of None \<Rightarrow> {} | Some m \<Rightarrow> {n. Some n \<in> set (meta_provides m)})" by (simp split: option.splits)
  have all: "\<forall>p \<in> set all. no_nulls p" using assms(4) by blast
  obtain v mem3 where "dependents_loop all name ?prov str_vec_zero mem2 = Some (v, mem3)" "sv_holds v dependents"
    using dependents_loop_no_oom [OF prov assms(3) sv_holds_zero all, of name] assms(5) unfolding names by auto
  then show ?thesis using assms(1,2) sv_holds_out by (simp add: db_get_dependents_def)
qed

theorem db_get_dependents_exact_witness:
  "\<exists>db' mem'. db_get_dependents ref_lmdb codec demo_list_db (Some ''lib'') [] = Some (Some [''app''], db', mem')"
proof -
  obtain target db1 mem1 where g: "db_get ref_lmdb codec demo_list_db (Some ''lib'') [] = (target, db1, mem1)" by (metis prod_cases3)
  have absent: "env_view ref_view (db_env demo_list_db) None ''lib'' = None" by (simp add: demo_list_db_def ref_view_def)
  have t: "target = None" using db_get_absent [OF ref_lmdb_spec absent] g by (metis fst_conv)
  have "db1 = demo_list_db" "mem1 = []"
    using g by (auto simp: db_get_def ref_lmdb_def ref_open_def demo_list_db_def)
  then obtain env mem2 where l: "db_list ref_lmdb codec db1 mem1 = (Some [demo_stored], demo_list_db\<lparr>db_env := env\<rparr>, mem2)"
    "no_oom mem2" using demo_list_read by blast
  have "no_nulls demo_stored" "named demo_stored" "pkg_id demo_stored = ''app''" "depends_on_any {''lib''} demo_stored"
    by (simp_all add: no_nulls_def named_def pkg_id_def depends_on_any_def dep_names_def demo_simps)
  then show ?thesis using db_get_dependents_exact [OF g l _ refl] t by auto
qed

subsection \<open>Missing files\<close>

definition missing_of :: "(string \<Rightarrow> bool) \<Rightarrow> string \<Rightarrow> package \<Rightarrow> string list" where
  "missing_of exists root p = filter (\<lambda>rel. \<not> exists (join root rel)) (somes (package_files p))"

definition issues_of :: "(string \<Rightarrow> bool) \<Rightarrow> string \<Rightarrow> package list \<Rightarrow> db_verify_issue list" where
  "issues_of exists root pkgs = map (\<lambda>p. \<lparr>issue_pkg_name = Some (pkg_id p), missing_files = missing_of exists root p\<rparr>)
     (filter (\<lambda>p. named p \<and> missing_of exists root p \<noteq> []) pkgs)"

lemma issues_of_simps [simp]:
  "issues_of exists root [] = []"
  "issues_of exists root (p # ps) = (if named p \<and> missing_of exists root p \<noteq> []
     then [\<lparr>issue_pkg_name = Some (pkg_id p), missing_files = missing_of exists root p\<rparr>] else []) @ issues_of exists root ps"
  by (simp_all add: issues_of_def)

lemma missing_loop_no_oom:
  assumes "cstring root" and "list_ok cstring fs" and "no_oom mem"
  shows "\<exists>mem'. missing_loop exists root fs missing cap mem =
    Some (Inr (missing @ filter (\<lambda>rel. \<not> exists (join root rel)) (somes fs), mem')) \<and> no_oom mem'"
  using assms(2,3)
proof (induction fs arbitrary: missing cap mem)
  case (Cons f fs)
  show ?case
  proof (cases f)
    case None
    then show ?thesis using Cons by (simp add: list_ok_def)
  next
    case (Some rel)
    have ok: "cstring rel" "list_ok cstring fs" using Cons.prems(1) Some by (auto simp: list_ok_def)
    obtain mem1 where m1: "malloc_ok mem = (True, mem1)" "no_oom mem1" using Cons.prems(2) by (rule malloc_no_oomE)
    obtain mem2 where m2: "malloc_ok mem1 = (True, mem2)" "no_oom mem2" using m1(2) by (rule malloc_no_oomE)
    have c: "concat_dirs root rel mem = Some (Some (join root rel), mem2)" using concat_dirs_eq [OF assms(1) ok(1), of mem] m1 m2 by simp
    obtain cap' mem3 where r: "reserve 4 (length missing) cap mem2 = (True, cap', mem3)" "no_oom mem3" using m2(2) by (rule reserve_no_oomE)
    obtain mem4 where "strdup_m rel mem3 = (Some rel, mem4)" "no_oom mem4" using strdup_no_oomE [OF r(2)] by metis
    then show ?thesis
      using Cons.IH [OF ok(2) m2(2), of missing cap] Cons.IH [OF ok(2), of mem4 "missing @ [rel]" cap'] Some c r(1) by simp
  qed
qed simp

lemma verify_loop_no_oom:
  assumes "cstring root" and "\<forall>p \<in> set ps. list_ok cstring (package_files p)" and "no_oom mem"
    and "length issues \<le> cap" and "issues = [] \<longrightarrow> cap = 0"
  shows "\<exists>cap' mem'. verify_loop exists root ps issues cap mem = Some (Inr (issues @ issues_of exists root ps, cap', mem')) \<and> no_oom mem' \<and>
    (issues @ issues_of exists root ps = [] \<longleftrightarrow> cap' = 0)"
  using assms(2-5)
proof (induction ps arbitrary: issues cap mem)
  case (Cons p ps)
  have skip: ?case if "\<not> named p \<or> package_files p = []"
    using that Cons.IH [OF _ Cons.prems(2-4)] Cons.prems(1)
    by (cases "Option.bind (pkg_meta p) meta_name") (auto simp: named_def missing_of_def)
  show ?case
  proof (cases "named p \<and> package_files p \<noteq> []")
    case True
    then obtain name where name: "Option.bind (pkg_meta p) meta_name = Some name" by (auto simp: named_def)
    obtain mem1 where m: "missing_loop exists root (package_files p) [] 0 mem = Some (Inr (missing_of exists root p, mem1))" "no_oom mem1"
      using missing_loop_no_oom [OF assms(1) _ Cons.prems(2), of "package_files p" exists "[]" 0] Cons.prems(1) by (auto simp: missing_of_def)
    obtain cap' mem2 where r: "reserve 4 (length issues) cap mem1 = (True, cap', mem2)" "no_oom mem2" using m(2) by (rule reserve_no_oomE)
    obtain mem3 where d: "strdup_m name mem2 = (Some name, mem3)" "no_oom mem3" using strdup_no_oomE [OF r(2)] by metis
    have room: "length issues < cap'" using reserve_room [OF r(1) Cons.prems(3)] by simp
    show ?thesis
    proof (cases "missing_of exists root p = []")
      case True
      then show ?thesis using Cons.IH [OF _ m(2) Cons.prems(3,4)] Cons.prems(1) name m(1) \<open>named p \<and> _\<close> by simp
    next
      case False
      then show ?thesis
        using Cons.IH [OF _ d(2), of "issues @ [\<lparr>issue_pkg_name = Some name, missing_files = missing_of exists root p\<rparr>]" cap']
          Cons.prems(1) name m(1) r(1) d(1) room \<open>named p \<and> _\<close> pkg_id_named [OF name] by simp
    qed
  qed (use skip in blast)
qed auto

text \<open>
  \<open>db_verify\<close> is exact: for each package the database lists, in order, it reports exactly
  the recorded paths whose place under the root does not exist, and only packages that miss
  a file; the result is NULL exactly when nothing is missing.  No file path makes it leave a
  buffer.
\<close>

theorem db_verify_exact:
  assumes "cstring root" and "db_list L J db mem = (Some pkgs, db1, mem1)" and "no_oom mem1"
    and "\<forall>p \<in> set pkgs. list_ok cstring (package_files p)"
  shows "\<exists>mem'. db_verify exists L J db (Some root) mem =
    Some (if issues_of exists root pkgs = [] then None else Some (issues_of exists root pkgs), db1, mem')"
proof -
  obtain cap' mem' where "verify_loop exists root pkgs [] 0 mem1 = Some (Inr (issues_of exists root pkgs, cap', mem'))"
    "issues_of exists root pkgs = [] \<longleftrightarrow> cap' = 0"
    using verify_loop_no_oom [OF assms(1,4,3), of "[]" 0 exists] by auto
  then show ?thesis using assms(2) by (auto simp: db_verify_def)
qed

theorem db_verify_exact_witness:
  "\<exists>db' mem'. db_verify (\<lambda>path. path = ''/etc/app'') ref_lmdb codec demo_list_db (Some ''/mnt/'') [] =
    Some (Some [\<lparr>issue_pkg_name = Some ''app'', missing_files = [''/usr/bin/app'']\<rparr>], db', mem')"
proof -
  obtain env mem1 where l: "db_list ref_lmdb codec demo_list_db [] = (Some [demo_stored], demo_list_db\<lparr>db_env := env\<rparr>, mem1)" "no_oom mem1"
    using demo_list_read by blast
  have "join ''/mnt/'' ''/usr/bin/app'' = ''/mnt/usr/bin/app''" by code_simp
  then have "issues_of (\<lambda>path. path = ''/etc/app'') ''/mnt/'' [demo_stored] = [\<lparr>issue_pkg_name = Some ''app'', missing_files = [''/usr/bin/app'']\<rparr>]"
    by (simp add: missing_of_def named_def pkg_id_def demo_simps)
  then show ?thesis using db_verify_exact [OF _ l, of "''/mnt/''" "\<lambda>path. path = ''/etc/app''"] by (auto simp: list_ok_def)
qed

subsection \<open>What the statistics count\<close>

lemma to_int_small: "n < 2 ^ 31 \<Longrightarrow> to_int n = int n"
proof -
  assume n: "n < 2 ^ 31"
  then have "take_bit 32 n = n" by (simp add: take_bit_nat_eq_self_iff)
  then show ?thesis using n by (simp add: to_int_def sint_uint unsigned_of_nat signed_take_bit_int_eq_self)
qed

lemma store_records_dom: "dom (C None) = dom (st_records (store_of C)) \<union> (dom (C None) \<inter> reserved)"
  by (auto simp: store_of_def)

text \<open>
  The package count of \<open>db_stats\<close> is the number of recorded packages plus the number of
  named databases that exist: LMDB keeps their names as records of the unnamed database, and
  \<open>db_stats\<close> counts the records.  A database with no package at all has a positive count as
  soon as its file databases exist.
\<close>

theorem db_stats_counts_databases:
  assumes "lmdb_spec L V" and "lmdb_live L" and "\<And>t. mdb_stat L t None \<noteq> None" and "\<not> files_dbi_open db"
    and "card (dom (env_view V (db_env db) None)) < 2 ^ 31"
  shows "\<exists>db'. db_stats L db = Some (Some (int (card (dom (st_records (db_store V db)))) +
      int (card (dom (env_view V (db_env db) None) \<inter> reserved)), 0), db')"
proof -
  let ?C = "env_view V (db_env db)"
  obtain t t1 where t: "mdb_txn_begin L (db_env db) True = Inr t" "mdb_dbi_open L t None False = (MDB_SUCCESS, t1)"
    using assms(2) by (meson lmdb_live_def)
  have v: "txn_view V t1 = ?C" using lmdb_begin [OF assms(1) t(1)] lmdb_open_same [OF assms(1) t(2)] by simp
  obtain n where n: "mdb_stat L t1 None = Some n" using assms(3) by blast
  obtain recs where "map_of recs = ?C None" using read_records_eq [OF assms(1,2), of db] by blast
  then have fin: "finite (dom (?C None))" by (metis finite_dom_map_of)
  then have "card (dom (?C None)) = card (dom (st_records (db_store V db))) + card (dom (?C None) \<inter> reserved)"
    by (subst store_records_dom, intro card_Un_disjoint) (auto simp: store_of_def intro: finite_subset [OF _ fin])
  then have "to_int n = int (card (dom (st_records (db_store V db)))) + int (card (dom (?C None) \<inter> reserved))"
    using lmdb_stat [OF assms(1) n] v assms(5) to_int_small [of n] by simp
  then show ?thesis using t n assms(4) by (simp add: db_stats_def)
qed

theorem db_stats_counts_databases_witness:
  "\<exists>db'. db_stats ref_lmdb (demo_list_db\<lparr>files_dbi_open := False\<rparr>) = Some (Some (2, 0), db')"
proof -
  let ?db = "demo_list_db\<lparr>files_dbi_open := False\<rparr>"
  have d: "dom (env_view ref_view (db_env ?db) None) = {''files'', ''app''}"
    "dom (st_records (db_store ref_view ?db)) = {''app''}"
    by (auto simp: demo_list_db_def store_of_def ref_view_def reserved_def dom_def restrict_map_def)
  have r: "{''files'', ''app''} \<inter> reserved = {''files''}" by (auto simp: reserved_def)
  have "mdb_stat ref_lmdb t None \<noteq> None" for t by (cases t) (simp add: ref_lmdb_def)
  then show ?thesis using db_stats_counts_databases [OF ref_lmdb_spec ref_lmdb_live, of ?db] d r by simp
qed

end
