(* ===== verification/Transaction.thy ===== *)
theory Transaction
  imports Db_Query Conflict Resolve
begin

text \<open>
  The transaction object: \<open>src/transaction/trans_priv.h\<close> and \<open>transaction.c\<close>.

  Packages given to a transaction belong to the caller, and one object may be reached through
  \<open>install_pkgs\<close> and through \<open>plan_pkgs\<close>: preparing fills its file list and committing sets its
  flags through either.  So packages are objects of a heap \<open>H\<close> and the transaction holds their
  addresses.  The array behind a list is NULL exactly when its capacity is 0.
\<close>

type_synonym addr = nat
type_synonym pkg_heap = "addr \<Rightarrow> package"

datatype trans_op = TRANS_OP_INSTALL | TRANS_OP_REMOVE | TRANS_OP_UPGRADE

datatype trans_error =
    TRANS_OK | TRANS_ERR_NOMEM | TRANS_ERR_CONFLICT | TRANS_ERR_MISSING_DEP | TRANS_ERR_CYCLE
  | TRANS_ERR_NOT_PREPARED | TRANS_ERR_ALREADY_COMMITTED | TRANS_ERR_INSTALL_FAILED | TRANS_ERR_UNSIGNED
  | TRANS_ERR_HAS_DEPENDENTS | TRANS_ERR_FILE_CONFLICT | TRANS_ERR_HELD | TRANS_ERR_DB | TRANS_ERR_REMOVE_FAILED

record trans_step =
  step_op :: trans_op
  step_pkg_name :: string
  step_pkg_version :: pstr
  step_explicit :: bool

record trans_conflict =
  tc_pkg_name :: string
  conflicts_with :: string

record trans_file_conflict =
  fc_path :: pstr
  requested_by :: pstr
  owned_by :: string

record trans_held_pkg =
  th_pkg_name :: string
  th_op :: trans_op

record trans_blocked_remove =
  br_pkg_name :: pstr
  br_dependents :: "string list"

record provider_pref =
  pp_alias :: string
  pp_pkg_name :: string

record apg_trans =
  install_pkgs :: "addr list"
  install_cap :: nat
  upgrade_pkgs :: "addr list"
  upgrade_cap :: nat
  remove_names :: "string list"
  remove_cap :: nat
  candidate_pkgs :: "addr list"
  candidate_cap :: nat
  plan :: "trans_step list"
  plan_cap :: nat
  plan_pkgs :: "addr option list"
  conflicts :: "trans_conflict list"
  conflict_cap :: nat
  blocked_removes :: "trans_blocked_remove list"
  blocked_remove_cap :: nat
  file_conflicts :: "trans_file_conflict list"
  file_conflict_cap :: nat
  held_pkgs :: "trans_held_pkg list"
  held_cap :: nat
  provider_prefs :: "provider_pref list"
  provider_pref_cap :: nat
  prepared :: bool
  committed :: bool
  require_signature :: bool
  keyring_dir :: pstr
  skip_dependency_check :: bool
  skip_dependents_check :: bool
  dry_run :: bool
  progress_cb :: bool

definition TRANS_INITIAL_CAP :: nat where
  "TRANS_INITIAL_CAP = 8"

definition trans_zero :: apg_trans where
  "trans_zero =
     \<lparr>install_pkgs = [], install_cap = 0, upgrade_pkgs = [], upgrade_cap = 0, remove_names = [], remove_cap = 0,
      candidate_pkgs = [], candidate_cap = 0, plan = [], plan_cap = 0, plan_pkgs = [], conflicts = [], conflict_cap = 0,
      blocked_removes = [], blocked_remove_cap = 0, file_conflicts = [], file_conflict_cap = 0, held_pkgs = [],
      held_cap = 0, provider_prefs = [], provider_pref_cap = 0, prepared = False, committed = False,
      require_signature = False, keyring_dir = None, skip_dependency_check = False, skip_dependents_check = False,
      dry_run = False, progress_cb = False\<rparr>"

text \<open>The struct and its four arrays, in this order.\<close>

definition trans_new :: "mem \<Rightarrow> apg_trans option \<times> mem" where
  "trans_new mem =
     (let (ok, mem) = malloc_ok mem in
      if \<not> ok then (None, mem)
      else let (ok, mem) = malloc_ok mem in
      if \<not> ok then (None, mem)
      else let (ok, mem) = malloc_ok mem in
      if \<not> ok then (None, mem)
      else let (ok, mem) = malloc_ok mem in
      if \<not> ok then (None, mem)
      else let (ok, mem) = malloc_ok mem in
      if \<not> ok then (None, mem)
      else (Some (trans_zero\<lparr>install_cap := TRANS_INITIAL_CAP, upgrade_cap := TRANS_INITIAL_CAP,
                    remove_cap := TRANS_INITIAL_CAP, candidate_cap := TRANS_INITIAL_CAP\<rparr>), mem))"

record install_policy =
  ip_require_signature :: bool
  ip_keyring_dir :: pstr
  ip_skip_dependency_check :: bool
  ip_skip_dependents_check :: bool

definition trans_set_policy :: "apg_trans \<Rightarrow> install_policy option \<Rightarrow> mem \<Rightarrow> apg_trans \<times> mem" where
  "trans_set_policy tr policy mem =
     (case policy of
        None \<Rightarrow> (tr\<lparr>keyring_dir := None, require_signature := False, skip_dependency_check := False,
                   skip_dependents_check := False\<rparr>, mem)
      | Some p \<Rightarrow>
          let (dir, mem1) = (case ip_keyring_dir p of None \<Rightarrow> (None, mem) | Some d \<Rightarrow> strdup_m d mem) in
          (tr\<lparr>require_signature := ip_require_signature p, skip_dependency_check := ip_skip_dependency_check p,
             skip_dependents_check := ip_skip_dependents_check p, keyring_dir := dir\<rparr>, mem1))"

definition trans_set_dry_run :: "apg_trans \<Rightarrow> bool \<Rightarrow> apg_trans" where
  "trans_set_dry_run tr dry = tr\<lparr>dry_run := dry\<rparr>"

definition trans_set_progress_cb :: "apg_trans \<Rightarrow> bool \<Rightarrow> apg_trans" where
  "trans_set_progress_cb tr cb = tr\<lparr>progress_cb := cb\<rparr>"

text \<open>Replacing the package of the first preference for an alias.\<close>

fun prefs_replace :: "provider_pref list \<Rightarrow> string \<Rightarrow> string \<Rightarrow> provider_pref list" where
  "prefs_replace [] name pkg = []"
| "prefs_replace (p # ps) name pkg =
     (if pp_alias p \<noteq> name then p # prefs_replace ps name pkg else p\<lparr>pp_pkg_name := pkg\<rparr> # ps)"

definition trans_prefer_provider :: "apg_trans \<Rightarrow> pstr \<Rightarrow> pstr \<Rightarrow> mem \<Rightarrow> apg_trans \<times> mem" where
  "trans_prefer_provider tr name pkg_name mem =
     (case (name, pkg_name) of
        (Some name, Some pkg) \<Rightarrow>
          if name \<in> pp_alias ` set (provider_prefs tr)
          then (case strdup_m pkg mem of
                  (None, mem1) \<Rightarrow> (tr, mem1)
                | (Some dup, mem1) \<Rightarrow> (tr\<lparr>provider_prefs := prefs_replace (provider_prefs tr) name dup\<rparr>, mem1))
          else
            let (ok, cap, mem1) = reserve 4 (length (provider_prefs tr)) (provider_pref_cap tr) mem in
            if \<not> ok then (tr, mem1)
            else
              let t1 = tr\<lparr>provider_pref_cap := cap\<rparr>;
                  (alias_dup, mem2) = strdup_m name mem1;
                  (pkg_dup, mem3) = strdup_m pkg mem2
              in (case (alias_dup, pkg_dup) of
                    (Some a, Some p) \<Rightarrow>
                      (t1\<lparr>provider_prefs := provider_prefs t1 @ [\<lparr>pp_alias = a, pp_pkg_name = p\<rparr>]\<rparr>, mem3)
                  | _ \<Rightarrow> (t1, mem3))
      | _ \<Rightarrow> (tr, mem))"

text \<open>The name of a package object; \<open>None\<close> without metadata or without a name.\<close>

definition pkg_name_of :: "pkg_heap \<Rightarrow> addr \<Rightarrow> pstr" where
  "pkg_name_of H p = Option.bind (pkg_meta (H p)) meta_name"

text \<open>A NULL argument, missing metadata and a missing name are refused.\<close>

definition valid_pkg :: "pkg_heap \<Rightarrow> addr option \<Rightarrow> bool" where
  "valid_pkg H pkg \<longleftrightarrow> (case pkg of None \<Rightarrow> False | Some p \<Rightarrow> pkg_name_of H p \<noteq> None)"

definition trans_add_install :: "pkg_heap \<Rightarrow> apg_trans \<Rightarrow> addr option \<Rightarrow> mem \<Rightarrow> trans_error \<times> apg_trans \<times> mem" where
  "trans_add_install H tr pkg mem =
     (if \<not> valid_pkg H pkg then (TRANS_ERR_NOMEM, tr, mem)
      else let (ok, cap, mem1) = reserve TRANS_INITIAL_CAP (length (install_pkgs tr)) (install_cap tr) mem in
        if \<not> ok then (TRANS_ERR_NOMEM, tr, mem1)
        else (TRANS_OK, tr\<lparr>install_pkgs := install_pkgs tr @ [the pkg], install_cap := cap\<rparr>, mem1))"

definition trans_add_candidate :: "pkg_heap \<Rightarrow> apg_trans \<Rightarrow> addr option \<Rightarrow> mem \<Rightarrow> trans_error \<times> apg_trans \<times> mem" where
  "trans_add_candidate H tr pkg mem =
     (if \<not> valid_pkg H pkg then (TRANS_ERR_NOMEM, tr, mem)
      else let (ok, cap, mem1) = reserve TRANS_INITIAL_CAP (length (candidate_pkgs tr)) (candidate_cap tr) mem in
        if \<not> ok then (TRANS_ERR_NOMEM, tr, mem1)
        else (TRANS_OK, tr\<lparr>candidate_pkgs := candidate_pkgs tr @ [the pkg], candidate_cap := cap\<rparr>, mem1))"

definition trans_add_upgrade :: "pkg_heap \<Rightarrow> apg_trans \<Rightarrow> addr option \<Rightarrow> mem \<Rightarrow> trans_error \<times> apg_trans \<times> mem" where
  "trans_add_upgrade H tr pkg mem =
     (if \<not> valid_pkg H pkg then (TRANS_ERR_NOMEM, tr, mem)
      else let (ok, cap, mem1) = reserve TRANS_INITIAL_CAP (length (upgrade_pkgs tr)) (upgrade_cap tr) mem in
        if \<not> ok then (TRANS_ERR_NOMEM, tr, mem1)
        else (TRANS_OK, tr\<lparr>upgrade_pkgs := upgrade_pkgs tr @ [the pkg], upgrade_cap := cap\<rparr>, mem1))"

definition trans_add_remove :: "apg_trans \<Rightarrow> pstr \<Rightarrow> mem \<Rightarrow> trans_error \<times> apg_trans \<times> mem" where
  "trans_add_remove tr pkg_name mem =
     (case pkg_name of
        None \<Rightarrow> (TRANS_ERR_NOMEM, tr, mem)
      | Some name \<Rightarrow>
          let (ok, cap, mem1) = reserve TRANS_INITIAL_CAP (length (remove_names tr)) (remove_cap tr) mem in
          if \<not> ok then (TRANS_ERR_NOMEM, tr, mem1)
          else let t1 = tr\<lparr>remove_cap := cap\<rparr>; (dup, mem2) = strdup_m name mem1 in
            case dup of
              None \<Rightarrow> (TRANS_ERR_NOMEM, t1, mem2)
            | Some d \<Rightarrow> (TRANS_OK, t1\<lparr>remove_names := remove_names t1 @ [d]\<rparr>, mem2))"

text \<open>The accessors: counts, and items by index with NULL out of range.\<close>

definition trans_plan_count :: "apg_trans \<Rightarrow> nat" where "trans_plan_count tr = length (plan tr)"
definition trans_plan_at :: "apg_trans \<Rightarrow> nat \<Rightarrow> trans_step option" where
  "trans_plan_at tr index = (if index \<ge> length (plan tr) then None else arr_get (plan tr) index)"

definition trans_conflict_count :: "apg_trans \<Rightarrow> nat" where "trans_conflict_count tr = length (conflicts tr)"
definition trans_conflict_at :: "apg_trans \<Rightarrow> nat \<Rightarrow> trans_conflict option" where
  "trans_conflict_at tr index = (if index \<ge> length (conflicts tr) then None else arr_get (conflicts tr) index)"

definition trans_blocked_remove_count :: "apg_trans \<Rightarrow> nat" where
  "trans_blocked_remove_count tr = length (blocked_removes tr)"
definition trans_blocked_remove_at :: "apg_trans \<Rightarrow> nat \<Rightarrow> trans_blocked_remove option" where
  "trans_blocked_remove_at tr index =
     (if index \<ge> length (blocked_removes tr) then None else arr_get (blocked_removes tr) index)"

definition trans_file_conflict_count :: "apg_trans \<Rightarrow> nat" where
  "trans_file_conflict_count tr = length (file_conflicts tr)"
definition trans_file_conflict_at :: "apg_trans \<Rightarrow> nat \<Rightarrow> trans_file_conflict option" where
  "trans_file_conflict_at tr index =
     (if index \<ge> length (file_conflicts tr) then None else arr_get (file_conflicts tr) index)"

definition trans_held_pkg_count :: "apg_trans \<Rightarrow> nat" where "trans_held_pkg_count tr = length (held_pkgs tr)"
definition trans_held_pkg_at :: "apg_trans \<Rightarrow> nat \<Rightarrow> trans_held_pkg option" where
  "trans_held_pkg_at tr index = (if index \<ge> length (held_pkgs tr) then None else arr_get (held_pkgs tr) index)"

definition trans_blocked_remove_dependent_at :: "trans_blocked_remove \<Rightarrow> int \<Rightarrow> pstr" where
  "trans_blocked_remove_dependent_at blocked index =
     (if index < 0 \<or> index \<ge> int (length (br_dependents blocked)) then None
      else arr_get (br_dependents blocked) (nat index))"

subsection \<open>Well-formed transactions\<close>

text \<open>
  What every operation keeps: arrays fit their capacity, the plan and its packages run in
  parallel, install, candidate and upgrade packages have a name, and the arrays made by
  \<open>trans_new\<close> are there.
\<close>

definition trans_inv :: "pkg_heap \<Rightarrow> apg_trans \<Rightarrow> bool" where
  "trans_inv H t \<longleftrightarrow>
     length (install_pkgs t) \<le> install_cap t \<and> 0 < install_cap t \<and> length (upgrade_pkgs t) \<le> upgrade_cap t \<and> 0 < upgrade_cap t \<and>
     length (remove_names t) \<le> remove_cap t \<and> 0 < remove_cap t \<and> length (candidate_pkgs t) \<le> candidate_cap t \<and> 0 < candidate_cap t \<and>
     length (plan t) \<le> plan_cap t \<and> length (plan_pkgs t) = length (plan t) \<and>
     length (conflicts t) \<le> conflict_cap t \<and> length (blocked_removes t) \<le> blocked_remove_cap t \<and>
     length (file_conflicts t) \<le> file_conflict_cap t \<and> length (held_pkgs t) \<le> held_cap t \<and>
     length (provider_prefs t) \<le> provider_pref_cap t \<and> distinct (map pp_alias (provider_prefs t)) \<and>
     (\<forall>p \<in> set (install_pkgs t) \<union> set (candidate_pkgs t) \<union> set (upgrade_pkgs t). pkg_name_of H p \<noteq> None)"

lemma trans_new_inv: "trans_new mem = (Some t, mem') \<Longrightarrow> trans_inv H t"
  by (auto simp: trans_new_def trans_zero_def trans_inv_def TRANS_INITIAL_CAP_def Let_def split: prod.splits if_splits)

lemma reserve_fits: "reserve i n c mem = (True, c', mem') \<Longrightarrow> n \<le> c \<Longrightarrow> 0 < i \<Longrightarrow> n < c' \<and> 0 < c'"
  using reserve_room [of i n c mem c' mem'] by simp

lemma valid_pkgD: "valid_pkg H pkg \<Longrightarrow> \<exists>p. pkg = Some p \<and> pkg_name_of H p \<noteq> None"
  by (auto simp: valid_pkg_def split: option.splits)

lemma prefs_replace_aliases [simp]: "map pp_alias (prefs_replace ps name pkg) = map pp_alias ps"
  by (induction ps) auto

lemma length_prefs_replace [simp]: "length (prefs_replace ps name pkg) = length ps"
  by (induction ps) auto

lemma trans_add_install_inv:
  "trans_inv H t \<Longrightarrow> trans_add_install H t pkg mem = (err, t', mem') \<Longrightarrow> trans_inv H t' \<and> plan t' = plan t \<and>
     install_pkgs t' = (if err = TRANS_OK then install_pkgs t @ [the pkg] else install_pkgs t)"
  by (auto simp: trans_add_install_def trans_inv_def TRANS_INITIAL_CAP_def Let_def split: prod.splits if_splits
      dest!: reserve_fits valid_pkgD)

lemma trans_add_candidate_inv:
  "trans_inv H t \<Longrightarrow> trans_add_candidate H t pkg mem = (err, t', mem') \<Longrightarrow> trans_inv H t' \<and> plan t' = plan t \<and>
     candidate_pkgs t' = (if err = TRANS_OK then candidate_pkgs t @ [the pkg] else candidate_pkgs t)"
  by (auto simp: trans_add_candidate_def trans_inv_def TRANS_INITIAL_CAP_def Let_def split: prod.splits if_splits
      dest!: reserve_fits valid_pkgD)

lemma trans_add_upgrade_inv:
  "trans_inv H t \<Longrightarrow> trans_add_upgrade H t pkg mem = (err, t', mem') \<Longrightarrow> trans_inv H t' \<and> plan t' = plan t \<and>
     upgrade_pkgs t' = (if err = TRANS_OK then upgrade_pkgs t @ [the pkg] else upgrade_pkgs t)"
  by (auto simp: trans_add_upgrade_def trans_inv_def TRANS_INITIAL_CAP_def Let_def split: prod.splits if_splits
      dest!: reserve_fits valid_pkgD)

lemma trans_add_remove_inv:
  "trans_inv H t \<Longrightarrow> trans_add_remove t name mem = (err, t', mem') \<Longrightarrow> trans_inv H t' \<and> plan t' = plan t \<and>
     remove_names t' = (if err = TRANS_OK then remove_names t @ [the name] else remove_names t)"
  by (auto simp: trans_add_remove_def trans_inv_def TRANS_INITIAL_CAP_def Let_def strdup_m_def
      split: prod.splits if_splits option.splits dest!: reserve_fits)

lemma trans_set_policy_inv: "trans_inv H t \<Longrightarrow> trans_inv H (fst (trans_set_policy t policy mem))"
  by (auto simp: trans_set_policy_def trans_inv_def split_def Let_def split: option.split)

lemma trans_prefer_provider_inv:
  assumes inv: "trans_inv H t"
  shows "trans_inv H (fst (trans_prefer_provider t name pkg mem))"
proof (cases name; cases pkg)
  fix n p assume np: "name = Some n" "pkg = Some p"
  show ?thesis
  proof (cases "n \<in> pp_alias ` set (provider_prefs t)")
    case True
    then show ?thesis using np inv
      by (auto simp: trans_prefer_provider_def trans_inv_def split: prod.splits option.splits)
  next
    case False
    obtain ok cap mem1 where r: "reserve 4 (length (provider_prefs t)) (provider_pref_cap t) mem = (ok, cap, mem1)"
      by (metis prod_cases3)
    define res where "res = fst (trans_prefer_provider t name pkg mem)"
    obtain ad mem2 where a: "strdup_m n mem1 = (ad, mem2)" by fastforce
    obtain pd mem3 where d: "strdup_m p mem2 = (pd, mem3)" by fastforce
    have res: "res = (if \<not> ok then t else if ad = None \<or> pd = None then t\<lparr>provider_pref_cap := cap\<rparr>
        else t\<lparr>provider_pref_cap := cap, provider_prefs := provider_prefs t @ [\<lparr>pp_alias = n, pp_pkg_name = the pd\<rparr>]\<rparr>)"
      using np False r a d strdup_m_cases [OF a] unfolding res_def
      by (cases ok; cases ad; cases pd) (simp_all add: trans_prefer_provider_def)
    have "ok \<longrightarrow> length (provider_prefs t) < cap"
      using r inv reserve_room [of 4 "length (provider_prefs t)" "provider_pref_cap t" mem cap mem1] by (simp add: trans_inv_def)
    then have "trans_inv H res" using inv False unfolding res by (auto simp: trans_inv_def Suc_le_eq)
    then show ?thesis by (simp add: res_def)
  qed
qed (use inv in \<open>simp_all add: trans_prefer_provider_def\<close>)

end
