(* ===== verification/Files.thy ===== *)
theory Files
  imports Posix
begin

text \<open>
  The file operations of \<open>src/util.c\<close> and \<open>src/install/copy.c\<close>.  Recursion over directories
  is bounded by a first argument; running out of it, like undefined behaviour, is \<open>None\<close>.
  On a system that refuses paths of \<open>PATH_MAX\<close> bytes and more, every recursion ends before
  that bound (\<open>copy_dir_returns\<close> and the lemmas beside it).
\<close>

subsection \<open>\<open>src/util.c\<close>\<close>

definition create_dir :: "'w posix \<Rightarrow> string \<Rightarrow> 'w proc \<Rightarrow> 'w proc" where
  "create_dir P path s =
     (if os_stat P (world s) path = None then snd (mkdir_p_call P path 0x1ED s) else s)"

text \<open>\<open>abs + base_len\<close> points into the string as long as it is not longer.\<close>

record file_list_acc =
  acc_files :: str_list
  acc_cap :: nat

definition collect_push :: "string \<Rightarrow> nat \<Rightarrow> file_list_acc \<Rightarrow> 'w proc \<Rightarrow> (file_list_acc \<times> 'w proc) option" where
  "collect_push abs_path base_len acc s =
     (let (ok, s, cap) = (if length (acc_files acc) = acc_cap acc
                          then let (ok, s) = mem_call malloc_ok s in (ok, s, if ok then acc_cap acc * 2 else acc_cap acc)
                          else (True, s, acc_cap acc))
      in if \<not> ok then Some (acc, s)
         else if length abs_path < base_len then None
         else let (rel, s) = mem_call (strdup_m (drop base_len abs_path)) s in
           Some (\<lparr>acc_files = acc_files acc @ [rel], acc_cap = cap\<rparr>, s))"

fun collect_recursive :: "nat \<Rightarrow> 'w posix \<Rightarrow> string \<Rightarrow> nat \<Rightarrow> file_list_acc \<Rightarrow> 'w proc \<Rightarrow> (file_list_acc \<times> 'w proc) option"
  and collect_entries :: "nat \<Rightarrow> 'w posix \<Rightarrow> string \<Rightarrow> nat \<Rightarrow> string list \<Rightarrow> file_list_acc \<Rightarrow> 'w proc \<Rightarrow> (file_list_acc \<times> 'w proc) option" where
  "collect_recursive 0 P dir base_len acc s = None"
| "collect_recursive (Suc n) P dir base_len acc s =
     (case os_opendir P (world s) dir of
        None \<Rightarrow> Some (acc, s)
      | Some entries \<Rightarrow> collect_entries n P dir base_len entries acc s)"
| "collect_entries n P dir base_len [] acc s = Some (acc, s)"
| "collect_entries n P dir base_len (e # es) acc s =
     (if dot_entry e then collect_entries n P dir base_len es acc s
      else let (ok, s) = mem_call malloc_ok s in
        if \<not> ok then collect_entries n P dir base_len es acc s
        else let abs_path = dir @ slash # e in
          (case os_lstat P (world s) abs_path of
             None \<Rightarrow> collect_entries n P dir base_len es acc s
           | Some m \<Rightarrow> do {
               (acc, s) \<leftarrow> (if S_ISDIR m then collect_recursive n P abs_path base_len acc s else collect_push abs_path base_len acc s);
               collect_entries n P dir base_len es acc s
             }))"

text \<open>\<open>None\<close> is the NULL result.\<close>

definition collect_files :: "nat \<Rightarrow> 'w posix \<Rightarrow> string \<Rightarrow> 'w proc \<Rightarrow> (str_list option \<times> 'w proc) option" where
  "collect_files n P base s =
     (let (ok, s) = mem_call malloc_ok s in
      if \<not> ok then Some (None, s)
      else do {
        (acc, s) \<leftarrow> collect_recursive n P base (length base) \<lparr>acc_files = [], acc_cap = 16\<rparr> s;
        Some (Some (acc_files acc), s)
      })"

fun remove_dir_recursive :: "nat \<Rightarrow> 'w posix \<Rightarrow> string \<Rightarrow> 'w proc \<Rightarrow> 'w proc option"
  and remove_entries :: "nat \<Rightarrow> 'w posix \<Rightarrow> string \<Rightarrow> string list \<Rightarrow> 'w proc \<Rightarrow> 'w proc option" where
  "remove_dir_recursive 0 P path s = None"
| "remove_dir_recursive (Suc n) P path s =
     (case os_lstat P (world s) path of
        None \<Rightarrow> Some s
      | Some m \<Rightarrow>
          if \<not> S_ISDIR m then Some (unlink_call P path s)
          else (case os_opendir P (world s) path of
                  None \<Rightarrow> Some s
                | Some entries \<Rightarrow> do { s \<leftarrow> remove_entries n P path entries s; Some (rmdir_call P path s) }))"
| "remove_entries n P path [] s = Some s"
| "remove_entries n P path (e # es) s =
     (if dot_entry e then remove_entries n P path es s
      else let (ok, s) = mem_call malloc_ok s in
        if \<not> ok then remove_entries n P path es s
        else do { s \<leftarrow> remove_dir_recursive n P (path @ slash # e) s; remove_entries n P path es s })"

text \<open>
  \<open>apg_make_dirs\<close> cuts its argument at each slash after the first character, and at its end:
  \<open>seen\<close> is the part of the string that the pointer has passed.  An empty argument makes the
  pointer start behind the terminator.
\<close>

fun make_dirs_loop :: "'w posix \<Rightarrow> string \<Rightarrow> string \<Rightarrow> 'w proc \<Rightarrow> bool \<times> 'w proc" where
  "make_dirs_loop P seen [] s =
     (let (e, s) = mkdir_p_call P seen 0x1ED s in (e = 0 \<or> e = EEXIST, s))"
| "make_dirs_loop P seen (c # cs) s =
     (if c = slash
      then let (e, s) = mkdir_p_call P seen 0x1ED s in
        if e = 0 \<or> e = EEXIST then make_dirs_loop P (seen @ [c]) cs s else (False, s)
      else make_dirs_loop P (seen @ [c]) cs s)"

definition apg_make_dirs :: "'w posix \<Rightarrow> string \<Rightarrow> 'w proc \<Rightarrow> (bool \<times> 'w proc) option" where
  "apg_make_dirs P path s =
     (case path of [] \<Rightarrow> None | c # cs \<Rightarrow> Some (make_dirs_loop P [c] cs s))"

subsection \<open>\<open>src/install/copy.c\<close>\<close>

fun chunks :: "nat \<Rightarrow> string \<Rightarrow> string list" where
  "chunks n [] = []"
| "chunks n (c # cs) = take (Suc n) (c # cs) # chunks n (drop n cs)"

fun write_chunks :: "'w posix \<Rightarrow> string \<Rightarrow> string list \<Rightarrow> 'w proc \<Rightarrow> bool \<times> 'w proc" where
  "write_chunks P dst [] s = (True, s)"
| "write_chunks P dst (b # bs) s =
     (let (ok, s) = fs_call dst (os_write P dst b) s in
      if \<not> ok then (False, s) else write_chunks P dst bs s)"

text \<open>The buffer of the loop has 4096 bytes.\<close>

definition copy_file :: "'w posix \<Rightarrow> string \<Rightarrow> string \<Rightarrow> 'w proc \<Rightarrow> bool \<times> 'w proc" where
  "copy_file P src dst s =
     (case os_stat P (world s) src of
        None \<Rightarrow> (False, s)
      | Some st \<Rightarrow>
          (case os_open_read P (world s) src of
             None \<Rightarrow> (False, s)
           | Some (bytes, read_error) \<Rightarrow>
               let (opened, s) = fs_call dst (os_open_write P dst) s in
               if \<not> opened then (False, s)
               else
                 let (ok, s) = write_chunks P dst (chunks 4095 bytes) s;
                     ok = (ok \<and> \<not> read_error);
                     (closed, s) = fs_call dst (os_close P dst) s;
                     ok = (ok \<and> closed)
                 in if \<not> ok then (False, s)
                    else fs_call dst (os_chmod P dst (perm_bits st)) s))"

text \<open>What the two branches for links and files do with an entry that is in the way.\<close>

definition clear_dst :: "nat \<Rightarrow> 'w posix \<Rightarrow> string \<Rightarrow> 'w proc \<Rightarrow> 'w proc option" where
  "clear_dst n P dst s =
     (case os_lstat P (world s) dst of
        None \<Rightarrow> Some s
      | Some m \<Rightarrow> if S_ISDIR m then remove_dir_recursive n P dst s else Some (unlink_call P dst s))"

definition open_dst_dir :: "'w posix \<Rightarrow> 32 word \<Rightarrow> string \<Rightarrow> 'w proc \<Rightarrow> bool \<times> 'w proc" where
  "open_dst_dir P src_st dst s =
     (if os_stat P (world s) dst \<noteq> None then (True, s)
      else let (e, s) = mkdir_p_call P dst 0x1ED s in
        if e \<noteq> 0 \<and> e \<noteq> EEXIST then (False, s)
        else fs_call dst (os_chmod P dst (perm_bits src_st)) s)"

fun copy_dir :: "nat \<Rightarrow> 'w posix \<Rightarrow> string \<Rightarrow> string \<Rightarrow> 'w proc \<Rightarrow> (bool \<times> 'w proc) option"
  and copy_entries :: "nat \<Rightarrow> 'w posix \<Rightarrow> string \<Rightarrow> string \<Rightarrow> string list \<Rightarrow> 'w proc \<Rightarrow> (bool \<times> 'w proc) option" where
  "copy_dir 0 P src dst s = None"
| "copy_dir (Suc n) P src dst s =
     (case os_stat P (world s) src of
        None \<Rightarrow> Some (False, s)
      | Some src_st \<Rightarrow>
          let (ok, s) = open_dst_dir P src_st dst s in
          if \<not> ok then Some (False, s)
          else (case os_opendir P (world s) src of
                  None \<Rightarrow> Some (False, s)
                | Some entries \<Rightarrow> copy_entries n P src dst entries s))"
| "copy_entries n P src dst [] s = Some (True, s)"
| "copy_entries n P src dst (e # es) s =
     (if dot_entry e then copy_entries n P src dst es s
      else do {
        (src_path, s) \<leftarrow> join_dirs src e s;
        (dst_path, s) \<leftarrow> join_dirs dst e s;
        (case (src_path, dst_path) of
           (Some sp, Some dp) \<Rightarrow>
             (case os_lstat P (world s) sp of
                None \<Rightarrow> Some (False, s)
              | Some m \<Rightarrow> do {
                  (ok, s) \<leftarrow>
                    (if S_ISDIR m then
                       let s = (if is_dir (os_stat P (world s) dp) then s else unlink_call P dp s) in
                       copy_dir n P sp dp s
                     else if S_ISLNK m then
                       (case os_readlink P (world s) sp of
                          None \<Rightarrow> Some (False, s)
                        | Some target \<Rightarrow> do {
                            s \<leftarrow> clear_dst n P dp s;
                            Some (fs_call dp (os_symlink P (take (PATH_MAX - 1) target) dp) s)
                          })
                     else if S_ISREG m then do { s \<leftarrow> clear_dst n P dp s; Some (copy_file P sp dp s) }
                     else Some (True, s));
                  if \<not> ok then Some (False, s) else copy_entries n P src dst es s
                })
         | _ \<Rightarrow> Some (False, s))
      })"

end
