(* ===== verification/Install.thy ===== *)
theory Install
  imports Files
begin

text \<open>
  \<open>src/install/\<close>: putting the files of an unpacked package in place, taking them back, and the
  package's scripts.  The file \<open>copy.c\<close> of that directory is in the theory \<open>Files\<close>.  Of
  \<open>exec_script\<close> the Linux branch is modelled.  The child process is a function of the world:
  what it reports through the pipe, or how it ended.
\<close>

subsection \<open>\<open>install.c\<close>\<close>

definition install_data_dir :: "'w posix \<Rightarrow> string \<Rightarrow> string \<Rightarrow> 'w proc \<Rightarrow> (bool \<times> 'w proc) option" where
  "install_data_dir P pkg_dir root_path s =
     do {
       (data_src, s) \<leftarrow> join_dirs pkg_dir ''data'' s;
       case data_src of
         None \<Rightarrow> Some (False, s)
       | Some src \<Rightarrow> if \<not> is_dir (os_stat P (world s) src) then Some (False, s) else copy_dir DEPTH P src root_path s
     }"

definition install_home_dir :: "'w posix \<Rightarrow> string \<Rightarrow> 'w proc \<Rightarrow> (bool \<times> 'w proc) option" where
  "install_home_dir P pkg_dir s =
     (case os_getenv_home P (world s) of
        None \<Rightarrow> Some (False, s)
      | Some home \<Rightarrow> do {
          (home_src, s) \<leftarrow> join_dirs pkg_dir ''home'' s;
          case home_src of
            None \<Rightarrow> Some (False, s)
          | Some src \<Rightarrow> if \<not> is_dir (os_stat P (world s) src) then Some (True, s) else copy_dir DEPTH P src home s
        })"

subsection \<open>\<open>rollback.c\<close>\<close>

fun remove_mirrored :: "nat \<Rightarrow> 'w posix \<Rightarrow> string \<Rightarrow> string \<Rightarrow> 'w proc \<Rightarrow> 'w proc option"
  and mirrored_entries :: "nat \<Rightarrow> 'w posix \<Rightarrow> string \<Rightarrow> string \<Rightarrow> string list \<Rightarrow> 'w proc \<Rightarrow> 'w proc option" where
  "remove_mirrored 0 P src dst s = None"
| "remove_mirrored (Suc n) P src dst s =
     (case os_opendir P (world s) src of
        None \<Rightarrow> Some s
      | Some entries \<Rightarrow> do { s \<leftarrow> mirrored_entries n P src dst entries s; Some (rmdir_call P dst s) })"
| "mirrored_entries n P src dst [] s = Some s"
| "mirrored_entries n P src dst (e # es) s =
     (if dot_entry e then mirrored_entries n P src dst es s
      else do {
        (src_path, s) \<leftarrow> join_dirs src e s;
        (dst_path, s) \<leftarrow> join_dirs dst e s;
        (case (src_path, dst_path) of
           (Some sp, Some dp) \<Rightarrow> do {
             s \<leftarrow> (case os_lstat P (world s) sp of
                     None \<Rightarrow> Some s
                   | Some m \<Rightarrow> if S_ISDIR m then remove_mirrored n P sp dp s else Some (unlink_call P dp s));
             mirrored_entries n P src dst es s
           }
         | _ \<Rightarrow> Some s)
      })"

definition rollback_tree :: "'w posix \<Rightarrow> string \<Rightarrow> string \<Rightarrow> string \<Rightarrow> 'w proc \<Rightarrow> 'w proc option" where
  "rollback_tree P pkg_dir sub dst s =
     do {
       (src, s) \<leftarrow> join_dirs pkg_dir sub s;
       case src of
         None \<Rightarrow> Some s
       | Some src \<Rightarrow> if is_dir (os_stat P (world s) src) then remove_mirrored DEPTH P src dst s else Some s
     }"

definition rollback_install :: "'w posix \<Rightarrow> string \<Rightarrow> string \<Rightarrow> 'w proc \<Rightarrow> 'w proc option" where
  "rollback_install P pkg_dir root_path s =
     do {
       s \<leftarrow> rollback_tree P pkg_dir ''data'' root_path s;
       case os_getenv_home P (world s) of
         None \<Rightarrow> Some s
       | Some home \<Rightarrow> rollback_tree P pkg_dir ''home'' home s
     }"

subsection \<open>\<open>scripts.c\<close>\<close>

text \<open>\<open>tolower\<close> in the C locale.\<close>

definition c_tolower :: "char \<Rightarrow> char" where
  "c_tolower c = (if 65 \<le> uchar c \<and> uchar c \<le> 90 then char_of (nat (uchar c) + 32) else c)"

text \<open>\<open>room\<close> is what is left of the buffer before its last byte.\<close>

fun normalize_loop :: "nat \<Rightarrow> string \<Rightarrow> string" where
  "normalize_loop room [] = []"
| "normalize_loop room (c # cs) =
     (if room = 0 then []
      else if c = CHR ''-'' \<or> c = CHR ''_'' then normalize_loop room cs
      else c_tolower c # normalize_loop (room - 1) cs)"

definition normalize :: "string \<Rightarrow> nat \<Rightarrow> string" where
  "normalize src dst_size = normalize_loop (dst_size - 1) src"

text \<open>The length of the root without its trailing slashes, at least one character.\<close>

fun root_len :: "string \<Rightarrow> nat \<Rightarrow> nat" where
  "root_len root 0 = 0"
| "root_len root (Suc n) = (if 0 < n \<and> root ! n = slash then root_len root n else Suc n)"

definition do_chroot :: "string \<Rightarrow> bool" where
  "do_chroot root_path \<longleftrightarrow> root_path \<noteq> ''/'' \<and> root_path \<noteq> []"

text \<open>The script's path as seen from inside the root, when it lies in it.\<close>

definition in_root :: "string \<Rightarrow> string \<Rightarrow> pstr" where
  "in_root path root =
     (if length root \<le> length path \<and> take (length root) path = root \<and> (length path = length root \<or> path ! length root = slash)
      then Some (if drop (length root) path = [] then ''/'' else drop (length root) path)
      else None)"

definition print_pid :: "int \<Rightarrow> string" where
  "print_pid pid = (if pid < 0 then ''-'' @ print_nat (nat (- pid)) else print_nat (nat pid))"

definition stage_leaf :: "int \<Rightarrow> 64 word \<Rightarrow> string" where
  "stage_leaf pid seq = ''/tmp/.apg_script_'' @ print_pid pid @ ''_'' @ print_nat (unat seq)"

text \<open>
  The path to execute and the staged copy to remove afterwards; \<open>None\<close> for the first when the
  script cannot be started.
\<close>

definition stage_script :: "'w posix \<Rightarrow> string \<Rightarrow> string \<Rightarrow> 'w proc \<Rightarrow> (pstr \<times> pstr) \<times> 'w proc" where
  "stage_script P path root_path s =
     (if \<not> do_chroot root_path
      then let (exec_path, s) = mem_call (strdup_m path) s in ((exec_path, None), s)
      else
        let root = take (root_len root_path (length root_path)) root_path in
        case in_root path root of
          Some rel \<Rightarrow> let (exec_path, s) = mem_call (strdup_m rel) s in ((exec_path, None), s)
        | None \<Rightarrow>
            let (seq, s) = next_script_seq s;
                leaf = stage_leaf (os_getpid P (world s)) seq;
                s = create_dir P (snprintf_to PATH_MAX (root @ ''/tmp'')) s;
                stage_path = snprintf_to PATH_MAX (root @ leaf);
                (cpy_ok, s) = copy_file P path stage_path s
            in if \<not> cpy_ok then ((None, None), s)
               else
                 let s = snd (fs_call stage_path (os_chmod P stage_path 0x1ED) s);
                     (full, s) = mem_call (strdup_m stage_path) s;
                     (exec_path, s) = mem_call (strdup_m (snprintf_to 128 leaf)) s
                 in ((exec_path, full), s))"

definition drop_stage :: "'w posix \<Rightarrow> pstr \<Rightarrow> 'w proc \<Rightarrow> 'w proc" where
  "drop_stage P stage s = (case stage of None \<Rightarrow> s | Some path \<Rightarrow> unlink_call P path s)"

text \<open>The child: a new namespace where the system allows it, the new root, the shell.\<close>

definition run_child :: "'w posix \<Rightarrow> string option \<Rightarrow> string \<Rightarrow> 'w proc \<Rightarrow> child_exit \<times> 'w proc" where
  "run_child P root exec_path s =
     (let e = os_unshare P (world s) in
      if e \<noteq> 0 \<and> e \<noteq> EPERM \<and> e \<noteq> EINVAL then (Exec_Failed e, s)
      else
        let e = (case root of None \<Rightarrow> 0 | Some r \<Rightarrow> os_chroot P (world s) r) in
        if e \<noteq> 0 then (Exec_Failed e, s)
        else let (r, s) = os_call (os_execl P root exec_path) s in (r, s\<lparr>started := started s @ [(root, exec_path)]\<rparr>))"

definition exec_script :: "'w posix \<Rightarrow> string \<Rightarrow> string \<Rightarrow> 'w proc \<Rightarrow> bool \<times> 'w proc" where
  "exec_script P path root_path s =
     (let ((exec_path, stage), s) = stage_script P path root_path s in
      case exec_path of
        None \<Rightarrow> (False, drop_stage P stage s)
      | Some ep \<Rightarrow>
          let (ok, s) = os_call (os_pipe P) s in
          if \<not> ok then (False, drop_stage P stage s)
          else
            let (ok, s) = os_call (os_fork P) s in
            if \<not> ok then (False, drop_stage P stage s)
            else
              let (r, s) = run_child P (if do_chroot root_path then Some root_path else None) ep s
              in (r = Exited 0, drop_stage P stage s))"

text \<open>The loop over the directory; a failed allocation of the path counts as not found.\<close>

fun find_script :: "string \<Rightarrow> string \<Rightarrow> string list \<Rightarrow> 'w proc \<Rightarrow> (pstr \<times> 'w proc) option" where
  "find_script scripts_dir name_norm [] s = Some (None, s)"
| "find_script scripts_dir name_norm (e # es) s =
     (if e \<noteq> [] \<and> hd e = CHR ''.'' then find_script scripts_dir name_norm es s
      else if normalize e 256 = name_norm then join_dirs scripts_dir e s
      else find_script scripts_dir name_norm es s)"

definition run_script :: "'w posix \<Rightarrow> string \<Rightarrow> string \<Rightarrow> string \<Rightarrow> 'w proc \<Rightarrow> (bool \<times> 'w proc) option" where
  "run_script P pkg_dir name root_path s =
     do {
       (dir, s) \<leftarrow> join_dirs pkg_dir ''scripts'' s;
       case dir of
         None \<Rightarrow> Some (False, s)
       | Some scripts_dir \<Rightarrow>
           (case os_opendir P (world s) scripts_dir of
              None \<Rightarrow> Some (True, s)
            | Some entries \<Rightarrow> do {
                (found, s) \<leftarrow> find_script scripts_dir (normalize name 256) entries s;
                case found of
                  None \<Rightarrow> Some (True, s)
                | Some path \<Rightarrow>
                    if \<not> os_access_x P (world s) path then Some (True, s) else Some (exec_script P path root_path s)
              })
     }"

fun mkdir_p_loop :: "'w posix \<Rightarrow> string \<Rightarrow> string \<Rightarrow> 'w proc \<Rightarrow> 'w proc" where
  "mkdir_p_loop P seen [] s = create_dir P seen s"
| "mkdir_p_loop P seen (c # cs) s =
     mkdir_p_loop P (seen @ [c]) cs (if c = slash then create_dir P seen s else s)"

definition mkdir_p :: "'w posix \<Rightarrow> string \<Rightarrow> 'w proc \<Rightarrow> 'w proc" where
  "mkdir_p P path s =
     (if PATH_MAX \<le> length path then s
      else case path of [] \<Rightarrow> create_dir P [] s | c # cs \<Rightarrow> mkdir_p_loop P [c] cs s)"

text \<open>Unlike \<open>remove_dir_recursive\<close>, \<open>rmtree\<close> does not look whether the path is a link.\<close>

fun rmtree :: "nat \<Rightarrow> 'w posix \<Rightarrow> string \<Rightarrow> 'w proc \<Rightarrow> 'w proc option"
  and rmtree_entries :: "nat \<Rightarrow> 'w posix \<Rightarrow> string \<Rightarrow> string list \<Rightarrow> 'w proc \<Rightarrow> 'w proc option" where
  "rmtree 0 P path s = None"
| "rmtree (Suc n) P path s =
     (case os_opendir P (world s) path of
        None \<Rightarrow> Some (unlink_call P path s)
      | Some entries \<Rightarrow> do { s \<leftarrow> rmtree_entries n P path entries s; Some (rmdir_call P path s) })"
| "rmtree_entries n P path [] s = Some s"
| "rmtree_entries n P path (e # es) s =
     (if dot_entry e then rmtree_entries n P path es s
      else do {
        (child, s) \<leftarrow> join_dirs path e s;
        s \<leftarrow> (case child of None \<Rightarrow> Some s | Some c \<Rightarrow> rmtree n P c s);
        rmtree_entries n P path es s
      })"

definition scripts_store_path :: "string \<Rightarrow> string \<Rightarrow> 'w proc \<Rightarrow> (pstr \<times> 'w proc) option" where
  "scripts_store_path root_path pkg_name s =
     do {
       (base, s) \<leftarrow> join_dirs root_path ''var/lib/apg/pkgscripts'' s;
       case base of None \<Rightarrow> Some (None, s) | Some b \<Rightarrow> join_dirs b pkg_name s
     }"

text \<open>The name is read only when the package has scripts.\<close>

definition scripts_persist :: "'w posix \<Rightarrow> string \<Rightarrow> string \<Rightarrow> pstr \<Rightarrow> 'w proc \<Rightarrow> (bool \<times> 'w proc) option" where
  "scripts_persist P pkg_dir root_path pkg_name s =
     do {
       (src, s) \<leftarrow> join_dirs pkg_dir ''scripts'' s;
       case src of
         None \<Rightarrow> Some (False, s)
       | Some src \<Rightarrow>
           if \<not> is_dir (os_stat P (world s) src) then Some (True, s)
           else do {
             name \<leftarrow> pkg_name;
             (store, s) \<leftarrow> scripts_store_path root_path name s;
             case store of
               None \<Rightarrow> Some (False, s)
             | Some store \<Rightarrow>
                 let s = mkdir_p P store s in
                 do {
                   (dst, s) \<leftarrow> join_dirs store ''scripts'' s;
                   case dst of None \<Rightarrow> Some (False, s) | Some dst \<Rightarrow> copy_dir DEPTH P src dst s
                 }
           }
     }"

definition scripts_persist_remove :: "'w posix \<Rightarrow> string \<Rightarrow> string \<Rightarrow> 'w proc \<Rightarrow> 'w proc option" where
  "scripts_persist_remove P root_path pkg_name s =
     do {
       (store, s) \<leftarrow> scripts_store_path root_path pkg_name s;
       case store of None \<Rightarrow> Some s | Some store \<Rightarrow> rmtree DEPTH P store s
     }"

end
