(* ===== verification/Archive.thy ===== *)
theory Archive
  imports Files
begin

text \<open>
  \<open>src/archive.c\<close>: unpacking a package.  libarchive is a parameter, the record \<open>libarchive\<close>:
  opening an archive yields its entries (\<open>None\<close> when it cannot be opened), writing the header
  of an entry creates it on the disk under the path and with the hard link target it is given,
  blocks of data are written to the entry created last.  The pathname of an entry is NULL when
  libarchive cannot convert it; printing it is then undefined.
\<close>

record la_entry =
  ent_pathname :: pstr
  ent_hardlink :: pstr
  ent_blocks :: "string list"
  ent_read_ok :: bool

record 'w libarchive =
  la_open :: "'w \<Rightarrow> string \<Rightarrow> la_entry list option"
  la_write_header :: "la_entry \<Rightarrow> string \<Rightarrow> pstr \<Rightarrow> 'w \<Rightarrow> bool \<times> 'w"
  la_write_block :: "string \<Rightarrow> string \<Rightarrow> 'w \<Rightarrow> bool \<times> 'w"
  la_close :: "'w \<Rightarrow> 'w"

subsection \<open>Hard link targets\<close>

text \<open>The segments between slashes, one per round; after the last slash nothing is looked at.\<close>

function safe_loop :: "string \<Rightarrow> bool" where
  "safe_loop p =
     (if p = [] then True
      else
        let seg = takeWhile (\<lambda>c. c \<noteq> slash) p; rest = dropWhile (\<lambda>c. c \<noteq> slash) p in
        if length seg = 2 \<and> p ! 0 = CHR ''.'' \<and> p ! 1 = CHR ''.'' then False
        else if rest = [] then True
        else safe_loop (tl rest))"
  by pat_completeness auto
termination
proof (relation "measure length", goal_cases)
  case (2 p seg rest)
  have "length (tl rest) \<le> length p - 1" using 2 length_dropWhile_le [of "\<lambda>c. c \<noteq> slash" p] by simp
  moreover have "0 < length p" using 2 by simp
  ultimately have "length (tl rest) < length p" by linarith
  then show ?case by simp
qed simp

declare safe_loop.simps [simp del]

definition is_safe_relative_path :: "pstr \<Rightarrow> bool" where
  "is_safe_relative_path path =
     (case path of None \<Rightarrow> False | Some p \<Rightarrow> if p = [] \<or> p ! 0 = slash then False else safe_loop p)"

subsection \<open>Extraction\<close>

fun write_blocks :: "'w libarchive \<Rightarrow> string \<Rightarrow> string list \<Rightarrow> 'w proc \<Rightarrow> bool \<times> 'w proc" where
  "write_blocks A path [] s = (True, s)"
| "write_blocks A path (b # bs) s =
     (let (ok, s) = fs_call path (la_write_block A path b) s in
      if \<not> ok then (False, s) else write_blocks A path bs s)"

text \<open>
  The paths for an entry: \<open>None\<close> when it is refused, otherwise the path on disk and the target
  of its hard link.
\<close>

definition entry_paths :: "string \<Rightarrow> string \<Rightarrow> pstr \<Rightarrow> (string \<times> pstr) option" where
  "entry_paths dest name hardlink =
     (let full_path = dest @ ''/'' @ name in
      if PATH_MAX \<le> length full_path then None
      else case hardlink of
        None \<Rightarrow> Some (full_path, None)
      | Some h \<Rightarrow>
          if \<not> is_safe_relative_path (Some h) then None
          else if PATH_MAX \<le> length (dest @ ''/'' @ h) then None
          else Some (full_path, Some (dest @ ''/'' @ h)))"

text \<open>
  One round of the loop over the headers.  A block that cannot be written ends the inner loop
  with the result of the last read, which was good; otherwise the read error counts.
\<close>

definition extract_entry :: "'w libarchive \<Rightarrow> string \<Rightarrow> la_entry \<Rightarrow> 'w proc \<Rightarrow> (bool \<times> 'w proc) option" where
  "extract_entry A dest e s =
     do {
       pathname \<leftarrow> ent_pathname e;
       (case entry_paths dest (snprintf_to PATH_MAX pathname) (ent_hardlink e) of
          None \<Rightarrow> Some (False, s)
        | Some (path, link) \<Rightarrow>
            let (ok, s) = fs_call path (la_write_header A e path link) s in
            if \<not> ok then Some (False, s)
            else let (ok, s) = write_blocks A path (ent_blocks e) s in Some (ok \<and> ent_read_ok e, s))
     }"

fun extract_loop :: "'w libarchive \<Rightarrow> string \<Rightarrow> la_entry list \<Rightarrow> bool \<Rightarrow> 'w proc \<Rightarrow> (bool \<times> 'w proc) option" where
  "extract_loop A dest [] ok s = Some (ok, s)"
| "extract_loop A dest (e # es) ok s = do { (ok1, s) \<leftarrow> extract_entry A dest e s; extract_loop A dest es (ok \<and> ok1) s }"

definition extract_to_dir :: "'w libarchive \<Rightarrow> string \<Rightarrow> string \<Rightarrow> 'w proc \<Rightarrow> (bool \<times> 'w proc) option" where
  "extract_to_dir A archive_path dest s =
     (case la_open A (world s) archive_path of
        None \<Rightarrow> Some (False, s)
      | Some entries \<Rightarrow> do {
          (ok, s) \<leftarrow> extract_loop A dest entries True s;
          Some (ok, s\<lparr>world := la_close A (world s)\<rparr>)
        })"

text \<open>A package without a path hands NULL to libarchive, which fails to open it.\<close>

definition unarchive_package_in_root :: "'w libarchive \<Rightarrow> pstr \<Rightarrow> string \<Rightarrow> 'w proc \<Rightarrow> (bool \<times> 'w proc) option" where
  "unarchive_package_in_root A path root s =
     (case path of None \<Rightarrow> Some (False, s) | Some p \<Rightarrow> extract_to_dir A p root s)"

subsection \<open>Properties\<close>

fun components :: "string \<Rightarrow> string list" where
  "components [] = [[]]"
| "components (c # cs) = (if c = slash then [] # components cs else (c # hd (components cs)) # tl (components cs))"

lemma components_not_Nil [simp]: "components s \<noteq> []"
  by (induction s) auto

lemma components_take_drop:
  "components p = takeWhile (\<lambda>c. c \<noteq> slash) p # (case dropWhile (\<lambda>c. c \<noteq> slash) p of [] \<Rightarrow> [] | _ # rest \<Rightarrow> components rest)"
  by (induction p) (auto split: list.splits)

lemma dotdot_iff: "length (takeWhile (\<lambda>c. c \<noteq> slash) p) = 2 \<and> p ! 0 = CHR ''.'' \<and> p ! 1 = CHR ''.'' \<longleftrightarrow>
    takeWhile (\<lambda>c. c \<noteq> slash) p = ''..''"
proof -
  consider "p = []" | a where "p = [a]" | a b r where "p = a # b # r" by (metis list.exhaust)
  then show ?thesis
  proof cases
    case (3 a b r)
    have "length (takeWhile (\<lambda>c. c \<noteq> slash) r) = 0 \<longleftrightarrow> takeWhile (\<lambda>c. c \<noteq> slash) r = []" by (rule length_0_conv)
    then show ?thesis using 3 by (cases "a = slash"; cases "b = slash") (auto simp: slash_def)
  qed (auto simp: slash_def)
qed

lemma safe_loop_eq: "safe_loop p \<longleftrightarrow> ''..'' \<notin> set (components p)"
proof (induction p rule: safe_loop.induct)
  case (1 p)
  show ?case
  proof (cases "p = []")
    case False
    define seg where "seg = takeWhile (\<lambda>c. c \<noteq> slash) p"
    define rest where "rest = dropWhile (\<lambda>c. c \<noteq> slash) p"
    have eq: "safe_loop p = (if seg = ''..'' then False else if rest = [] then True else safe_loop (tl rest))"
      by (subst safe_loop.simps) (simp only: Let_def False if_False dotdot_iff seg_def rest_def)
    have c: "components p = seg # (case rest of [] \<Rightarrow> [] | _ # r \<Rightarrow> components r)"
      using components_take_drop [of p] by (simp only: seg_def rest_def)
    show ?thesis
    proof (cases "seg = ''..'' \<or> rest = []")
      case True
      then show ?thesis using eq c by auto
    next
      case ne: False
      have "safe_loop (tl rest) \<longleftrightarrow> ''..'' \<notin> set (components (tl rest))"
        by (rule "1.IH" [OF False seg_def rest_def]) (use ne dotdot_iff [of p] in \<open>auto simp: seg_def\<close>)
      then show ?thesis using eq c ne by (cases rest) auto
    qed
  qed (simp add: safe_loop.simps)
qed

text \<open>
  C21. Hard link targets.  \<open>is_safe_relative_path\<close> accepts exactly the non-empty relative paths
  none of whose components is \<open>..\<close>, and a hard link is only ever created with a target that
  is the destination directory followed by such a path and shorter than \<open>PATH_MAX\<close>; everything
  longer or leading out of the directory is refused before libarchive sees it.
\<close>

theorem hardlink_targets_safe:
  "(is_safe_relative_path (Some p) \<longleftrightarrow> p \<noteq> [] \<and> hd (components p) \<noteq> [] \<and> ''..'' \<notin> set (components p)) \<and>
   (\<forall>path target. entry_paths dest name hardlink = Some (path, Some target) \<longrightarrow>
      (\<exists>h. hardlink = Some h \<and> target = dest @ ''/'' @ h \<and> length target < PATH_MAX \<and> h \<noteq> [] \<and>
         hd (components h) \<noteq> [] \<and> ''..'' \<notin> set (components h)))"
proof -
  have eq: "is_safe_relative_path (Some p) \<longleftrightarrow> p \<noteq> [] \<and> hd (components p) \<noteq> [] \<and> ''..'' \<notin> set (components p)" for p
    by (cases p) (auto simp: is_safe_relative_path_def safe_loop_eq)
  then show ?thesis
    by (auto simp: entry_paths_def Let_def split: option.splits if_splits)
qed

theorem hardlink_targets_safe_witness:
  "entry_paths ''/d'' ''a'' (Some ''b/c'') = Some (''/d/a'', Some ''/d/b/c'') \<and> entry_paths ''/d'' ''a'' (Some ''b/../../c'') = None"
proof -
  have "components ''b/c'' = [''b'', ''c'']" "components ''b/../../c'' = [''b'', ''..'', ''..'', ''c'']" by (simp_all add: slash_def)
  then have "is_safe_relative_path (Some ''b/c'')" "\<not> is_safe_relative_path (Some ''b/../../c'')"
    using hardlink_targets_safe [of "''b/c''" "[]" "[]" None] hardlink_targets_safe [of "''b/../../c''" "[]" "[]" None] by simp_all
  then show ?thesis by (simp add: entry_paths_def PATH_MAX_def)
qed

end
