(* ===== verification/Pkg_Install.thy ===== *)
theory Pkg_Install
  imports Install Archive Json
begin

text \<open>
  The operations of \<open>src/package.c\<close> that unpack a package: installing it below a root, listing
  its files, reading its metadata.  \<open>tmp\<close> is the directory for temporary files that is fixed at
  build time (\<open>APG_TMP_DIR\<close>).
\<close>

definition unique_tmp_dir :: "string \<Rightarrow> 'w posix \<Rightarrow> string \<Rightarrow> 'w proc \<Rightarrow> (pstr \<times> 'w proc) option" where
  "unique_tmp_dir tmp P root_path s =
     do {
       (base, s) \<leftarrow> join_dirs root_path (tmp @ ''/'') s;
       case base of
         None \<Rightarrow> Some (None, s)
       | Some base \<Rightarrow>
           let (seq, s) = next_extract_seq s;
               leaf = snprintf_to 64 (''pkg-'' @ print_pid (os_getpid P (world s)) @ ''-'' @ print_nat (unat seq))
           in do {
             (unique, s) \<leftarrow> join_dirs base leaf s;
             case unique of
               None \<Rightarrow> Some (None, s)
             | Some u \<Rightarrow> do {
                 (ok, s) \<leftarrow> apg_make_dirs P u s;
                 Some (if ok then Some u else None, s)
               }
           }
     }"

text \<open>Every failure removes the temporary directory.\<close>

definition fail_install :: "'w posix \<Rightarrow> string \<Rightarrow> package \<Rightarrow> 'w proc \<Rightarrow> (bool \<times> package \<times> 'w proc) option" where
  "fail_install P real_tmp pkg s = do { s \<leftarrow> remove_dir_recursive DEPTH P real_tmp s; Some (False, pkg, s) }"

definition list_installed :: "'w posix \<Rightarrow> string \<Rightarrow> package \<Rightarrow> 'w proc \<Rightarrow> (package \<times> 'w proc) option" where
  "list_installed P real_tmp pkg s =
     do {
       (data_src, s) \<leftarrow> join_dirs real_tmp ''data'' s;
       case data_src of
         None \<Rightarrow> Some (pkg, s)
       | Some src \<Rightarrow> do {
           (files, s) \<leftarrow> collect_files DEPTH P src s;
           Some (case files of None \<Rightarrow> pkg | Some fs \<Rightarrow> pkg\<lparr>package_files := fs\<rparr>, s)
         }
     }"

definition install_package_in_root ::
  "string \<Rightarrow> 'w posix \<Rightarrow> 'w libarchive \<Rightarrow> package \<Rightarrow> string \<Rightarrow> 'w proc \<Rightarrow> (bool \<times> package \<times> 'w proc) option" where
  "install_package_in_root tmp P A pkg root_path s =
     do {
       (real_tmp, s) \<leftarrow> unique_tmp_dir tmp P root_path s;
       case real_tmp of
         None \<Rightarrow> Some (False, pkg, s)
       | Some dir \<Rightarrow> do {
           (ok, s) \<leftarrow> unarchive_package_in_root A (pkg_path pkg) dir s;
           if \<not> ok then fail_install P dir pkg s
           else do {
             (ok, s) \<leftarrow> run_script P dir ''pre-install'' root_path s;
             if \<not> ok then fail_install P dir pkg s
             else do {
               (ok, s) \<leftarrow> install_data_dir P dir root_path s;
               if \<not> ok then fail_install P dir pkg s
               else do {
                 (pkg, s) \<leftarrow> list_installed P dir pkg s;
                 (_, s) \<leftarrow> install_home_dir P dir s;
                 (ok, s) \<leftarrow> run_script P dir ''post-install'' root_path s;
                 if \<not> ok then do { s \<leftarrow> rollback_install P dir root_path s; fail_install P dir pkg s }
                 else do {
                   m \<leftarrow> pkg_meta pkg;
                   (_, s) \<leftarrow> scripts_persist P dir root_path (meta_name m) s;
                   s \<leftarrow> remove_dir_recursive DEPTH P dir s;
                   Some (True, pkg, s)
                 }
               }
             }
           }
         }
     }"

text \<open>\<open>install_package\<close> is the same for the root directory.\<close>

definition install_package ::
  "string \<Rightarrow> 'w posix \<Rightarrow> 'w libarchive \<Rightarrow> package \<Rightarrow> 'w proc \<Rightarrow> (bool \<times> package \<times> 'w proc) option" where
  "install_package tmp P A pkg s = install_package_in_root tmp P A pkg ''/'' s"

text \<open>The file list of a package that is not installed; NULL when the list cannot be allocated.\<close>

definition package_collect_files ::
  "string \<Rightarrow> 'w posix \<Rightarrow> 'w libarchive \<Rightarrow> package option \<Rightarrow> string \<Rightarrow> 'w proc \<Rightarrow> (bool \<times> package option \<times> 'w proc) option" where
  "package_collect_files tmp P A pkg root_path s =
     (case pkg of
        None \<Rightarrow> Some (False, pkg, s)
      | Some p \<Rightarrow>
          if pkg_path p = None then Some (False, pkg, s)
          else do {
            (real_tmp, s) \<leftarrow> unique_tmp_dir tmp P root_path s;
            case real_tmp of
              None \<Rightarrow> Some (False, pkg, s)
            | Some dir \<Rightarrow> do {
                (ok, s) \<leftarrow> unarchive_package_in_root A (pkg_path p) dir s;
                if \<not> ok then do { s \<leftarrow> remove_dir_recursive DEPTH P dir s; Some (False, pkg, s) }
                else do {
                  (data_src, s) \<leftarrow> join_dirs dir ''data'' s;
                  case data_src of
                    None \<Rightarrow> do { s \<leftarrow> remove_dir_recursive DEPTH P dir s; Some (False, pkg, s) }
                  | Some src \<Rightarrow> do {
                      (files, s) \<leftarrow> collect_files DEPTH P src s;
                      s \<leftarrow> remove_dir_recursive DEPTH P dir s;
                      Some (True, Some (p\<lparr>package_files := (case files of None \<Rightarrow> [] | Some fs \<Rightarrow> fs)\<rparr>), s)
                    }
                }
              }
          })"

text \<open>
  \<open>parse_package\<close>: the reader of the metadata file gets the world through \<open>read_json\<close>, which
  yields yyjson as it reads the files of that world.
\<close>

definition parse_package ::
  "string \<Rightarrow> 'w posix \<Rightarrow> 'w libarchive \<Rightarrow> ('w \<Rightarrow> yyjson) \<Rightarrow> string \<Rightarrow> string \<Rightarrow> 'w proc \<Rightarrow> (package option \<times> 'w proc) option" where
  "parse_package tmp P A read_json path root_path s =
     (let (pkg, s) = mem_call package_new s in
      case pkg of
        None \<Rightarrow> Some (None, s)
      | Some p \<Rightarrow>
          let p = p\<lparr>pkg_path := os_realpath P (world s) path\<rparr> in
          do {
            (real_tmp, s) \<leftarrow> unique_tmp_dir tmp P root_path s;
            case real_tmp of
              None \<Rightarrow> Some (None, s)
            | Some dir \<Rightarrow> do {
                (ok, s) \<leftarrow> unarchive_package_in_root A (pkg_path p) dir s;
                if \<not> ok then do { s \<leftarrow> remove_dir_recursive DEPTH P dir s; Some (None, s) }
                else do {
                  (meta_path, s) \<leftarrow> join_dirs dir ''metadata.json'' s;
                  let (meta, s) = (case meta_path of
                                     None \<Rightarrow> (None, s)
                                   | Some mp \<Rightarrow> mem_call (package_metadata_from_file (read_json (world s)) mp) s);
                  s \<leftarrow> remove_dir_recursive DEPTH P dir s;
                  Some (case meta of None \<Rightarrow> None | Some m \<Rightarrow> Some (p\<lparr>pkg_meta := Some m\<rparr>), s)
                }
              }
          })"

end
