(* ===== verification/Keyring.thy ===== *)
theory Keyring
  imports Posix
begin

text \<open>
  \<open>src/sign/sodium/\<close>: trusted keys and detached signatures.  libsodium is a parameter: whether
  it can be initialised, and its Ed25519 functions on the bytes of a message, a signature and a
  key.  The multi-part interface is used as documented, the message being the concatenation of
  the parts.  \<open>fread\<close> of \<open>n\<close> bytes yields the first \<open>n\<close> bytes of the file if it has them.
\<close>

record sodium =
  sodium_init :: bool
  final_verify :: "string \<Rightarrow> string \<Rightarrow> string \<Rightarrow> bool"
  verify_detached :: "string \<Rightarrow> string \<Rightarrow> string \<Rightarrow> bool"
  final_create :: "string \<Rightarrow> string \<Rightarrow> string option"

definition KEY_BYTES :: nat where "KEY_BYTES = 32"
definition crypto_sign_BYTES :: nat where "crypto_sign_BYTES = 64"
definition SECRETKEY_BYTES :: nat where "SECRETKEY_BYTES = 64"

record keyring =
  kr_keys :: "string list"
  kr_cap :: nat

definition push_key :: "keyring \<Rightarrow> string \<Rightarrow> mem \<Rightarrow> bool \<times> keyring \<times> mem" where
  "push_key kr key mem =
     (let (ok, cap, mem1) = reserve 8 (length (kr_keys kr)) (kr_cap kr) mem in
      if \<not> ok then (False, kr, mem1)
      else (True, \<lparr>kr_keys = kr_keys kr @ [key], kr_cap = cap\<rparr>, mem1))"

text \<open>The part from the last dot on.\<close>

definition has_key_ext :: "string \<Rightarrow> bool" where
  "has_key_ext name =
     (CHR ''.'' \<in> set name \<and> rev (takeWhile (\<lambda>c. c \<noteq> CHR ''.'') (rev name)) = ''key'')"

definition read_exactly :: "'w posix \<Rightarrow> 'w \<Rightarrow> string \<Rightarrow> nat \<Rightarrow> string option" where
  "read_exactly P w path n =
     (case os_open_read P w path of
        None \<Rightarrow> None
      | Some (bytes, err) \<Rightarrow> if n \<le> length bytes then Some (take n bytes) else None)"

text \<open>The result of \<open>push_key\<close> is not looked at: a key that does not fit is left out.\<close>

fun load_keys :: "'w posix \<Rightarrow> string \<Rightarrow> string list \<Rightarrow> keyring \<Rightarrow> 'w proc \<Rightarrow> keyring \<times> 'w proc" where
  "load_keys P dir [] kr s = (kr, s)"
| "load_keys P dir (e # es) kr s =
     (if \<not> has_key_ext e then load_keys P dir es kr s
      else case read_exactly P (world s) (snprintf_to PATH_MAX (dir @ ''/'' @ e)) KEY_BYTES of
        None \<Rightarrow> load_keys P dir es kr s
      | Some key \<Rightarrow>
          let (ok, kr, m) = push_key kr key (pmem s) in load_keys P dir es kr (s\<lparr>pmem := m\<rparr>))"

definition keyring_load :: "sodium \<Rightarrow> 'w posix \<Rightarrow> string \<Rightarrow> 'w proc \<Rightarrow> keyring option \<times> 'w proc" where
  "keyring_load Na P dir s =
     (if \<not> sodium_init Na then (None, s)
      else let (ok, s) = mem_call malloc_ok s in
        if \<not> ok then (None, s)
        else case os_opendir P (world s) dir of
          None \<Rightarrow> (None, s)
        | Some entries \<Rightarrow> let (kr, s) = load_keys P dir entries \<lparr>kr_keys = [], kr_cap = 0\<rparr> s in (Some kr, s))"

fun any_key :: "(string \<Rightarrow> bool) \<Rightarrow> string list \<Rightarrow> bool" where
  "any_key ok [] = False"
| "any_key ok (k # ks) = (if ok k then True else any_key ok ks)"

definition keyring_verify :: "sodium \<Rightarrow> 'w posix \<Rightarrow> keyring option \<Rightarrow> pstr \<Rightarrow> pstr \<Rightarrow> 'w \<Rightarrow> bool" where
  "keyring_verify Na P kr pkg_file sig_path w =
     (case (kr, pkg_file, sig_path) of
        (Some kr, Some pp, Some sp) \<Rightarrow>
          if kr_keys kr = [] then False
          else (case read_exactly P w sp crypto_sign_BYTES of
                  None \<Rightarrow> False
                | Some sig \<Rightarrow>
                    (case os_open_read P w pp of
                       None \<Rightarrow> False
                     | Some (msg, err) \<Rightarrow> if err then False else any_key (final_verify Na msg sig) (kr_keys kr)))
      | _ \<Rightarrow> False)"

definition base_name :: "string \<Rightarrow> string" where
  "base_name path = (if slash \<in> set path then rev (takeWhile (\<lambda>c. c \<noteq> slash) (rev path)) else path)"

definition write_bytes :: "'w posix \<Rightarrow> string \<Rightarrow> string \<Rightarrow> 'w proc \<Rightarrow> bool \<times> 'w proc" where
  "write_bytes P dst bytes s =
     (let (opened, s) = fs_call dst (os_open_write P dst) s in
      if \<not> opened then (False, s)
      else
        let (ok, s) = fs_call dst (os_write P dst bytes) s; (closed, s) = fs_call dst (os_close P dst) s
        in (ok \<and> closed, s))"

definition keyring_add_key ::
  "sodium \<Rightarrow> 'w posix \<Rightarrow> pstr \<Rightarrow> pstr \<Rightarrow> pstr \<Rightarrow> keyring option \<Rightarrow> 'w proc \<Rightarrow> bool \<times> 'w proc" where
  "keyring_add_key Na P keyring_dir new_key_path key_sig_path trusted s =
     (case (keyring_dir, new_key_path, key_sig_path, trusted) of
        (Some dir, Some kp, Some sp, Some tr) \<Rightarrow>
          if \<not> sodium_init Na then (False, s)
          else (case (read_exactly P (world s) kp KEY_BYTES, read_exactly P (world s) sp crypto_sign_BYTES) of
                  (Some key, Some sig) \<Rightarrow>
                    if \<not> any_key (verify_detached Na sig key) (kr_keys tr) then (False, s)
                    else write_bytes P (snprintf_to PATH_MAX (dir @ ''/'' @ base_name kp)) key s
                | _ \<Rightarrow> (False, s))
      | _ \<Rightarrow> (False, s))"

subsection \<open>\<open>sodium.c\<close>\<close>

text \<open>\<open>keys\<close> is the directory fixed at build time.\<close>

definition sign_verify :: "sodium \<Rightarrow> 'w posix \<Rightarrow> string \<Rightarrow> string \<Rightarrow> string \<Rightarrow> bool \<Rightarrow> 'w \<Rightarrow> bool" where
  "sign_verify Na P keys pkg_file sig_path allow_rsa w =
     (if \<not> sodium_init Na then False
      else case read_exactly P w sig_path crypto_sign_BYTES of
        None \<Rightarrow> False
      | Some sig \<Rightarrow>
          (case read_exactly P w (snprintf_to PATH_MAX (keys @ ''/public.key'')) KEY_BYTES of
             None \<Rightarrow> False
           | Some key \<Rightarrow>
               (case os_open_read P w pkg_file of
                  None \<Rightarrow> False
                | Some (msg, err) \<Rightarrow> if err then False else final_verify Na msg sig key)))"

definition sign_file :: "sodium \<Rightarrow> 'w posix \<Rightarrow> string \<Rightarrow> string \<Rightarrow> string \<Rightarrow> 'w proc \<Rightarrow> bool \<times> 'w proc" where
  "sign_file Na P keys pkg_file sig_path s =
     (if \<not> sodium_init Na then (False, s)
      else case read_exactly P (world s) (snprintf_to PATH_MAX (keys @ ''/secret.key'')) SECRETKEY_BYTES of
        None \<Rightarrow> (False, s)
      | Some key \<Rightarrow>
          (case os_open_read P (world s) pkg_file of
             None \<Rightarrow> (False, s)
           | Some (msg, err) \<Rightarrow>
               if err then (False, s)
               else case final_create Na msg key of
                 None \<Rightarrow> (False, s)
               | Some sig \<Rightarrow> write_bytes P sig_path sig s))"

subsection \<open>Properties\<close>

lemma any_key_iff: "any_key ok ks \<longleftrightarrow> (\<exists>k \<in> set ks. ok k)"
  by (induction ks) auto

text \<open>Every key of a loaded ring was read from a file of the directory that ends in \<open>.key\<close>.\<close>

definition trusted_key :: "'w posix \<Rightarrow> 'w \<Rightarrow> string \<Rightarrow> string list \<Rightarrow> string \<Rightarrow> bool" where
  "trusted_key P w dir entries key \<longleftrightarrow>
     (\<exists>e \<in> set entries. has_key_ext e \<and> read_exactly P w (snprintf_to PATH_MAX (dir @ ''/'' @ e)) KEY_BYTES = Some key)"

lemma load_keys_trusted:
  "load_keys P dir es kr s = (kr', s') \<Longrightarrow> world s' = world s \<and> touched s' = touched s \<and> started s' = started s \<and>
     (\<forall>key \<in> set (kr_keys kr'). key \<in> set (kr_keys kr) \<or> trusted_key P (world s) dir es key) \<and>
     (no_oom (pmem s) \<longrightarrow> no_oom (pmem s') \<and> (\<forall>key. trusted_key P (world s) dir es key \<or> key \<in> set (kr_keys kr) \<longrightarrow> key \<in> set (kr_keys kr')))"
proof (induction es arbitrary: kr s)
  case (Cons e es)
  show ?case
  proof (cases "has_key_ext e")
    case False
    then show ?thesis using Cons by (auto simp: trusted_key_def)
  next
    case ext: True
    show ?thesis
    proof (cases "read_exactly P (world s) (snprintf_to PATH_MAX (dir @ ''/'' @ e)) KEY_BYTES")
      case None
      then show ?thesis using Cons ext by (auto simp: trusted_key_def)
    next
      case (Some key)
      obtain ok kr1 m where p: "push_key kr key (pmem s) = (ok, kr1, m)" by (metis prod_cases3)
      have k1: "kr_keys kr1 = (if ok then kr_keys kr @ [key] else kr_keys kr)"
        using p by (auto simp: push_key_def split: prod.splits if_splits)
      have oom: "no_oom (pmem s) \<Longrightarrow> ok \<and> no_oom m"
        using p by (auto simp: push_key_def split: prod.splits if_splits elim: reserve_no_oomE [of "pmem s" 8 "length (kr_keys kr)" "kr_cap kr"])
      have "load_keys P dir es kr1 (s\<lparr>pmem := m\<rparr>) = (kr', s')" using Cons.prems ext Some p by simp
      from Cons.IH [OF this] show ?thesis using k1 oom ext Some by (auto simp: trusted_key_def split: if_splits)
    qed
  qed
qed (simp add: trusted_key_def)

text \<open>
  C20. Signature checks, for any answers of libsodium and the file system.  A package is accepted
  only when the loaded ring holds a key that was read from a \<open>.key\<close> file of the trusted
  directory, and libsodium accepts, under that key, the first 64 bytes of the signature file as
  a signature of the whole package file; with memory available no such package is rejected.
  Loading changes nothing.
\<close>

theorem keyring_accepts_iff_trusted:
  assumes "keyring_load Na P dir s = (Some kr, s')" and "os_opendir P (world s) dir = Some entries"
  shows "world s' = world s \<and> touched s' = touched s \<and>
    (let good = (\<exists>key sig msg. trusted_key P (world s) dir entries key \<and> read_exactly P w sig_path crypto_sign_BYTES = Some sig \<and>
                   os_open_read P w pkg_file = Some (msg, False) \<and> final_verify Na msg sig key)
     in (keyring_verify Na P (Some kr) (Some pkg_file) (Some sig_path) w \<longrightarrow> good) \<and>
        (no_oom (pmem s) \<longrightarrow> good \<longrightarrow> keyring_verify Na P (Some kr) (Some pkg_file) (Some sig_path) w))"
proof -
  obtain ok s1 where m: "mem_call malloc_ok s = (ok, s1)" by (metis surj_pair)
  have s1: "world s1 = world s" "touched s1 = touched s" "no_oom (pmem s) \<Longrightarrow> no_oom (pmem s1)"
    using m by (auto simp: mem_call_def split: prod.splits dest: malloc_no_oom)
  have l: "load_keys P dir entries \<lparr>kr_keys = [], kr_cap = 0\<rparr> s1 = (kr, s')"
    using assms m s1 by (auto simp: keyring_load_def split: if_splits prod.splits)
  note t = load_keys_trusted [OF l]
  have v: "keyring_verify Na P (Some kr) (Some pkg_file) (Some sig_path) w \<longleftrightarrow>
      (\<exists>key \<in> set (kr_keys kr). \<exists>sig msg. read_exactly P w sig_path crypto_sign_BYTES = Some sig \<and>
         os_open_read P w pkg_file = Some (msg, False) \<and> final_verify Na msg sig key)"
    by (auto simp: keyring_verify_def any_key_iff split: option.splits)
  have sound: "\<forall>key \<in> set (kr_keys kr). trusted_key P (world s) dir entries key" using t s1(1) by auto
  have complete: "no_oom (pmem s) \<Longrightarrow> trusted_key P (world s) dir entries key \<Longrightarrow> key \<in> set (kr_keys kr)" for key
    using t s1 by auto
  have "world s' = world s" "touched s' = touched s" using t s1 by simp_all
  then show ?thesis unfolding Let_def v using sound complete by blast
qed

definition demo_sodium :: sodium where
  "demo_sodium = \<lparr>sodium_init = True, final_verify = (\<lambda>msg sig key. take 1 sig = take 1 key),
     verify_detached = (\<lambda>sig msg key. take 1 sig = take 1 key), final_create = (\<lambda>msg key. Some (replicate 64 (hd key)))\<rparr>"

definition signed_world :: ref_world where
  "signed_world = [(''/k'', RDir 0x1ED), (''/k/a.key'', RReg 0x1A4 (replicate 32 (CHR ''A''))),
     (''/p.apg'', RReg 0x1A4 ''data''), (''/p.apg.sig'', RReg 0x1A4 (replicate 64 (CHR ''A'')))]"

lemma signed_world_load:
  "keyring_load demo_sodium ref_posix ''/k'' (ref_proc signed_world) =
     (Some \<lparr>kr_keys = [replicate 32 (CHR ''A'')], kr_cap = 8\<rparr>, ref_proc signed_world)"
  by code_simp

theorem keyring_accepts_iff_trusted_witness:
  "keyring_verify demo_sodium ref_posix (fst (keyring_load demo_sodium ref_posix ''/k'' (ref_proc signed_world)))
     (Some ''/p.apg'') (Some ''/p.apg.sig'') signed_world"
proof -
  have o: "os_opendir ref_posix (world (ref_proc signed_world)) ''/k'' = Some [''a.key'']" by code_simp
  have k: "read_exactly ref_posix (world (ref_proc signed_world)) (snprintf_to PATH_MAX (''/k'' @ ''/'' @ ''a.key'')) KEY_BYTES = Some (replicate 32 (CHR ''A''))"
    by code_simp
  have "has_key_ext ''a.key''" by code_simp
  then have t: "trusted_key ref_posix (world (ref_proc signed_world)) ''/k'' [''a.key''] (replicate 32 (CHR ''A''))" using k by (simp add: trusted_key_def)
  have s: "read_exactly ref_posix signed_world ''/p.apg.sig'' crypto_sign_BYTES = Some (replicate 64 (CHR ''A''))"
    "os_open_read ref_posix signed_world ''/p.apg'' = Some (''data'', False)"
    "final_verify demo_sodium ''data'' (replicate 64 (CHR ''A'')) (replicate 32 (CHR ''A''))" by code_simp+
  have m: "no_oom (pmem (ref_proc signed_world))" by (simp add: ref_proc_def)
  show ?thesis
    using keyring_accepts_iff_trusted [OF signed_world_load o, of signed_world "''/p.apg.sig''" "''/p.apg''"] t s m
    unfolding Let_def signed_world_load fst_conv by blast
qed

end
