(* ===== verification/Run.thy ===== *)
theory Run
  imports Transaction Pkg_Install Keyring
begin

text \<open>
  The state that the transaction functions share.  The parameters of the library code are
  collected in a record \<open>host\<close>; the state is the packages, the database handle and the
  process, with the operations of the database and of the file system lifted to it.
\<close>

record ('e, 't, 'w) host =
  h_lmdb :: "('e, 't) lmdb"
  h_json :: yyjson
  h_posix :: "'w posix"
  h_archive :: "'w libarchive"
  h_sodium :: sodium
  h_tmp_dir :: string
  h_keyring_dir :: string

record ('e, 'w) run =
  r_pkgs :: pkg_heap
  r_db :: "'e db_handle"
  r_proc :: "'w proc"

definition on_db :: "('e db_handle \<Rightarrow> mem \<Rightarrow> 'r \<times> 'e db_handle \<times> mem) \<Rightarrow> ('e, 'w) run \<Rightarrow> 'r \<times> ('e, 'w) run" where
  "on_db f x = (let (r, db, m) = f (r_db x) (pmem (r_proc x)) in (r, x\<lparr>r_db := db, r_proc := (r_proc x)\<lparr>pmem := m\<rparr>\<rparr>))"

definition run_db_add :: "('e, 't, 'w) host \<Rightarrow> package \<Rightarrow> ('e, 'w) run \<Rightarrow> (bool \<times> ('e, 'w) run) option" where
  "run_db_add E pkg x =
     do {
       (ok, db, m) \<leftarrow> db_add (h_lmdb E) (h_json E) (r_db x) pkg (pmem (r_proc x));
       Some (ok, x\<lparr>r_db := db, r_proc := (r_proc x)\<lparr>pmem := m\<rparr>\<rparr>)
     }"

definition run_db_remove :: "('e, 't, 'w) host \<Rightarrow> string \<Rightarrow> ('e, 'w) run \<Rightarrow> bool \<times> ('e, 'w) run" where
  "run_db_remove E name x = on_db (\<lambda>db m. db_remove (h_lmdb E) (h_json E) db (Some name) m) x"

definition run_db_get :: "('e, 't, 'w) host \<Rightarrow> string \<Rightarrow> ('e, 'w) run \<Rightarrow> package option \<times> ('e, 'w) run" where
  "run_db_get E name x = on_db (\<lambda>db m. db_get (h_lmdb E) (h_json E) db (Some name) m) x"

definition run_db_owner :: "('e, 't, 'w) host \<Rightarrow> string \<Rightarrow> ('e, 'w) run \<Rightarrow> pstr \<times> ('e, 'w) run" where
  "run_db_owner E path x = on_db (\<lambda>db m. db_owner (h_lmdb E) db (Some path) m) x"

definition run_journal :: "('e, 't, 'w) host \<Rightarrow> journal_op \<Rightarrow> trans_step \<Rightarrow> bool \<Rightarrow> bool \<Rightarrow> ('e, 'w) run \<Rightarrow> ('e, 'w) run" where
  "run_journal E op step ok expl x =
     x\<lparr>r_db := db_journal (h_lmdb E) op (Some (step_pkg_name step)) (step_pkg_version step) ok expl (r_db x)\<rparr>"

definition run_join :: "string \<Rightarrow> string \<Rightarrow> ('e, 'w) run \<Rightarrow> (pstr \<times> ('e, 'w) run) option" where
  "run_join a b x = do { (r, s) \<leftarrow> join_dirs a b (r_proc x); Some (r, x\<lparr>r_proc := s\<rparr>) }"

definition run_proc :: "('w proc \<Rightarrow> ('r \<times> 'w proc) option) \<Rightarrow> ('e, 'w) run \<Rightarrow> ('r \<times> ('e, 'w) run) option" where
  "run_proc f x = do { (r, s) \<leftarrow> f (r_proc x); Some (r, x\<lparr>r_proc := s\<rparr>) }"

definition run_proc0 :: "('w proc \<Rightarrow> 'w proc option) \<Rightarrow> ('e, 'w) run \<Rightarrow> ('e, 'w) run option" where
  "run_proc0 f x = do { s \<leftarrow> f (r_proc x); Some (x\<lparr>r_proc := s\<rparr>) }"

definition run_mem :: "'e db_handle \<Rightarrow> mem \<Rightarrow> ('e, 'w) run \<Rightarrow> ('e, 'w) run" where
  "run_mem db m x = x\<lparr>r_db := db, r_proc := (r_proc x)\<lparr>pmem := m\<rparr>\<rparr>"

definition run_collect :: "('e, 't, 'w) host \<Rightarrow> addr \<Rightarrow> string \<Rightarrow> ('e, 'w) run \<Rightarrow> ('e, 'w) run option" where
  "run_collect E p root_path x =
     do {
       (_, pkg, s) \<leftarrow> package_collect_files (h_tmp_dir E) (h_posix E) (h_archive E) (Some (r_pkgs x p)) root_path (r_proc x);
       Some (x\<lparr>r_pkgs := (case pkg of None \<Rightarrow> r_pkgs x | Some q \<Rightarrow> (r_pkgs x)(p := q)), r_proc := s\<rparr>)
     }"

end
