(* ===== verification/Prepare.thy ===== *)
theory Prepare
  imports Run
begin

text \<open>
  \<open>src/transaction/prepare.c\<close>: from the requests of a transaction to its plan.

  The phases of \<open>trans_prepare\<close> are definitions of their own, run one after the other; a phase
  that does not return \<open>TRANS_OK\<close> ends the call (the \<open>goto cleanup\<close> of the code, which only
  releases memory).  The threads of a phase only read the graph; what they allocate is decided
  by the oracle of the thread, \<open>pm_tasks i\<close> and \<open>pm_breaks i\<close>.
\<close>

record prep_mem =
  pm_resolve :: mem
  pm_tasks :: "nat \<Rightarrow> mem"
  pm_merge :: mem
  pm_explain :: "nat \<Rightarrow> mem"
  pm_breaks :: "nat \<Rightarrow> mem"

subsection \<open>Helpers\<close>

fun in_strarray :: "string list \<Rightarrow> string \<Rightarrow> bool" where
  "in_strarray [] name = False"
| "in_strarray (s # arr) name = (if s = name then True else in_strarray arr name)"

definition held_push :: "apg_trans \<Rightarrow> string \<Rightarrow> trans_op \<Rightarrow> mem \<Rightarrow> trans_error \<times> apg_trans \<times> mem" where
  "held_push tr pkg_name op mem =
     (let (ok, cap, mem1) = reserve 4 (length (held_pkgs tr)) (held_cap tr) mem in
      if \<not> ok then (TRANS_ERR_NOMEM, tr, mem1)
      else let t1 = tr\<lparr>held_cap := cap\<rparr>; (dup, mem2) = strdup_m pkg_name mem1 in
        case dup of
          None \<Rightarrow> (TRANS_ERR_NOMEM, t1, mem2)
        | Some n \<Rightarrow> (TRANS_OK, t1\<lparr>held_pkgs := held_pkgs t1 @ [\<lparr>th_pkg_name = n, th_op = op\<rparr>]\<rparr>, mem2))"

definition plan_has :: "apg_trans \<Rightarrow> string \<Rightarrow> bool" where
  "plan_has tr name = in_strarray (map step_pkg_name (plan tr)) name"

fun find_pkg :: "pkg_heap \<Rightarrow> addr list \<Rightarrow> string \<Rightarrow> addr option" where
  "find_pkg H [] name = None"
| "find_pkg H (p # ps) name = (if pkg_name_of H p = Some name then Some p else find_pkg H ps name)"

definition is_explicit :: "pkg_heap \<Rightarrow> apg_trans \<Rightarrow> string \<Rightarrow> bool" where
  "is_explicit H tr name = (find_pkg H (install_pkgs tr) name \<noteq> None)"

definition find_install_pkg :: "pkg_heap \<Rightarrow> apg_trans \<Rightarrow> string \<Rightarrow> addr option" where
  "find_install_pkg H tr name = find_pkg H (install_pkgs tr) name"

definition find_candidate_pkg :: "pkg_heap \<Rightarrow> apg_trans \<Rightarrow> string \<Rightarrow> addr option" where
  "find_candidate_pkg H tr name = find_pkg H (candidate_pkgs tr) name"

text \<open>The two parallel arrays of the plan grow together, by two allocations.\<close>

definition plan_reserve :: "apg_trans \<Rightarrow> mem \<Rightarrow> bool \<times> apg_trans \<times> mem" where
  "plan_reserve tr mem =
     (if plan_cap tr = 0 then
        let (ok1, mem1) = malloc_ok mem; (ok2, mem2) = malloc_ok mem1 in
        if \<not> ok1 \<or> \<not> ok2 then (False, tr, mem2) else (True, tr\<lparr>plan_cap := 8\<rparr>, mem2)
      else if length (plan tr) = plan_cap tr then
        let (ok1, mem1) = malloc_ok mem; (ok2, mem2) = malloc_ok mem1 in
        if \<not> ok1 \<or> \<not> ok2 then (False, tr, mem2) else (True, tr\<lparr>plan_cap := plan_cap tr * 2\<rparr>, mem2)
      else (True, tr, mem))"

text \<open>A version that cannot be copied is NULL in the step.\<close>

definition plan_push ::
  "apg_trans \<Rightarrow> trans_op \<Rightarrow> string \<Rightarrow> pstr \<Rightarrow> bool \<Rightarrow> addr option \<Rightarrow> mem \<Rightarrow> trans_error \<times> apg_trans \<times> mem" where
  "plan_push tr op name version explicit_req pkg mem =
     (let (ok, t1, mem1) = plan_reserve tr mem in
      if \<not> ok then (TRANS_ERR_NOMEM, t1, mem1)
      else
        let (n, mem2) = strdup_m name mem1;
            (v, mem3) = (case version of None \<Rightarrow> (None, mem2) | Some v \<Rightarrow> strdup_m v mem2)
        in (case n of
              None \<Rightarrow> (TRANS_ERR_NOMEM, t1, mem3)
            | Some n \<Rightarrow>
                (TRANS_OK,
                 t1\<lparr>plan := plan t1 @ [\<lparr>step_op = op, step_pkg_name = n, step_pkg_version = v, step_explicit = explicit_req\<rparr>],
                    plan_pkgs := plan_pkgs t1 @ [pkg]\<rparr>, mem3)))"

definition conflict_push :: "apg_trans \<Rightarrow> string \<Rightarrow> string \<Rightarrow> mem \<Rightarrow> trans_error \<times> apg_trans \<times> mem" where
  "conflict_push tr pkg_name other mem =
     (let (ok, cap, mem1) = reserve 4 (length (conflicts tr)) (conflict_cap tr) mem in
      if \<not> ok then (TRANS_ERR_NOMEM, tr, mem1)
      else
        let t1 = tr\<lparr>conflict_cap := cap\<rparr>; (a, mem2) = strdup_m pkg_name mem1; (b, mem3) = strdup_m other mem2 in
        (case (a, b) of
           (Some a, Some b) \<Rightarrow>
             (TRANS_OK, t1\<lparr>conflicts := conflicts t1 @ [\<lparr>tc_pkg_name = a, conflicts_with = b\<rparr>]\<rparr>, mem3)
         | _ \<Rightarrow> (TRANS_ERR_NOMEM, t1, mem3)))"

subsection \<open>The order of removals\<close>

text \<open>\<open>strcmp\<close> with NULL is undefined.\<close>

fun dep_on_target :: "dep_constraint list \<Rightarrow> string \<Rightarrow> str_list \<Rightarrow> bool option" where
  "dep_on_target [] name provides = Some False"
| "dep_on_target (d # ds) name provides =
     do {
       dep \<leftarrow> dep_name d;
       found \<leftarrow> (if dep = name then Some True else provides_match dep provides);
       if found then Some True else dep_on_target ds name provides
     }"

definition depends_on :: "package option \<Rightarrow> package option \<Rightarrow> bool option" where
  "depends_on pkg target =
     (case (Option.bind pkg pkg_meta, Option.bind target pkg_meta) of
        (Some m, Some tm) \<Rightarrow>
          (case meta_name tm of
             None \<Rightarrow> Some False
           | Some name \<Rightarrow> dep_on_target (meta_dependencies m) name (meta_provides tm))
      | _ \<Rightarrow> Some False)"

fun needed_loop :: "package option list \<Rightarrow> bool list \<Rightarrow> nat \<Rightarrow> nat list \<Rightarrow> bool option" where
  "needed_loop pkgs dn i [] = Some False"
| "needed_loop pkgs dn i (j # js) =
     do {
       needed \<leftarrow> (if j = i then Some False
                  else do { dj \<leftarrow> arr_get dn j;
                            if dj then Some False
                            else do { pj \<leftarrow> arr_get pkgs j; pi \<leftarrow> arr_get pkgs i; depends_on pj pi } });
       if needed then Some True else needed_loop pkgs dn i js
     }"

text \<open>The first item that no other remaining item needs, else the first remaining one.\<close>

fun pick_removal :: "package option list \<Rightarrow> bool list \<Rightarrow> nat list \<Rightarrow> nat option \<Rightarrow> nat option option" where
  "pick_removal pkgs dn [] fallback = Some fallback"
| "pick_removal pkgs dn (i # is) fallback =
     do {
       di \<leftarrow> arr_get dn i;
       if di then pick_removal pkgs dn is fallback
       else do {
         needed \<leftarrow> needed_loop pkgs dn i [0..<length pkgs];
         if \<not> needed then Some (Some i)
         else pick_removal pkgs dn is (if fallback = None then Some i else fallback)
       }
     }"

fun emit_removals ::
  "nat \<Rightarrow> string list \<Rightarrow> package option list \<Rightarrow> bool list \<Rightarrow> apg_trans \<Rightarrow> mem \<Rightarrow> (trans_error \<times> apg_trans \<times> mem) option" where
  "emit_removals 0 names pkgs dn tr mem = Some (TRANS_OK, tr, mem)"
| "emit_removals (Suc left) names pkgs dn tr mem =
     do {
       picked \<leftarrow> pick_removal pkgs dn [0..<length pkgs] None;
       pick \<leftarrow> picked;
       dn \<leftarrow> arr_set dn pick True;
       name \<leftarrow> arr_get names pick;
       let (err, tr, mem) = plan_push tr TRANS_OP_REMOVE name None True None mem;
       if err \<noteq> TRANS_OK then Some (err, tr, mem) else emit_removals left names pkgs dn tr mem
     }"

fun get_all :: "('e, 't) lmdb \<Rightarrow> yyjson \<Rightarrow> string list \<Rightarrow> 'e db_handle \<Rightarrow> mem \<Rightarrow> package option list \<times> 'e db_handle \<times> mem" where
  "get_all L J [] db mem = ([], db, mem)"
| "get_all L J (name # names) db mem =
     (let (p, db1, mem1) = db_get L J db (Some name) mem; (ps, db2, mem2) = get_all L J names db1 mem1 in (p # ps, db2, mem2))"

definition push_removals_in_order ::
  "('e, 't) lmdb \<Rightarrow> yyjson \<Rightarrow> apg_trans \<Rightarrow> string list \<Rightarrow> 'e db_handle \<Rightarrow> mem \<Rightarrow>
   (trans_error \<times> apg_trans \<times> 'e db_handle \<times> mem) option" where
  "push_removals_in_order L J tr names db mem =
     (if names = [] then Some (TRANS_OK, tr, db, mem)
      else
        let (ok1, mem1) = malloc_ok mem; (ok2, mem2) = malloc_ok mem1 in
        if \<not> ok1 \<or> \<not> ok2 then Some (TRANS_ERR_NOMEM, tr, db, mem2)
        else
          let (pkgs, db1, mem3) = get_all L J names db mem2 in
          do {
            (err, tr1, mem4) \<leftarrow> emit_removals (length names) names pkgs (replicate (length names) False) tr mem3;
            Some (err, tr1, db1, mem4)
          })"

subsection \<open>The graph\<close>

definition installed_name :: "package \<Rightarrow> string" where
  "installed_name p = (case Option.bind (pkg_meta p) meta_name of None \<Rightarrow> '''' | Some n \<Rightarrow> n)"

text \<open>Failures of \<open>dep_graph_add\<close> are not looked at.\<close>

fun add_metas :: "bool \<Rightarrow> package_metadata option list \<Rightarrow> dep_graph \<Rightarrow> mem \<Rightarrow> (dep_graph \<times> mem) option" where
  "add_metas inst [] g mem = Some (g, mem)"
| "add_metas inst (m # ms) g mem =
     do {
       (err, g1, mem1) \<leftarrow> (if inst then dep_graph_add_installed g m mem else dep_graph_add g m mem);
       add_metas inst ms g1 mem1
     }"

fun add_prefs :: "provider_pref list \<Rightarrow> dep_graph \<Rightarrow> mem \<Rightarrow> dep_graph \<times> mem" where
  "add_prefs [] g mem = (g, mem)"
| "add_prefs (p # ps) g mem =
     (let (err, g1, mem1) = dep_graph_prefer g (Some (pp_alias p)) (Some (pp_pkg_name p)) mem in add_prefs ps g1 mem1)"

definition build_graph :: "pkg_heap \<Rightarrow> apg_trans \<Rightarrow> package list \<Rightarrow> dep_graph \<Rightarrow> mem \<Rightarrow> (dep_graph \<times> mem) option" where
  "build_graph H tr installed g mem =
     do {
       (g, mem) \<leftarrow> add_metas False (map (\<lambda>p. pkg_meta (H p)) (install_pkgs tr)) g mem;
       (g, mem) \<leftarrow> add_metas False (map (\<lambda>p. pkg_meta (H p)) (candidate_pkgs tr)) g mem;
       (g, mem) \<leftarrow> add_metas False (map (\<lambda>p. pkg_meta (H p)) (upgrade_pkgs tr)) g mem;
       (g, mem) \<leftarrow> add_metas True (filter (\<lambda>m. m \<noteq> None) (map pkg_meta installed)) g mem;
       Some (add_prefs (provider_prefs tr) g mem)
     }"

subsection \<open>Installs\<close>

text \<open>With \<open>skip_dependency_check\<close>: the packages as they were added.\<close>

fun plan_unchecked :: "pkg_heap \<Rightarrow> string list \<Rightarrow> addr list \<Rightarrow> apg_trans \<Rightarrow> mem \<Rightarrow> (trans_error \<times> apg_trans \<times> mem) option" where
  "plan_unchecked H installed [] tr mem = Some (TRANS_OK, tr, mem)"
| "plan_unchecked H installed (p # ps) tr mem =
     do {
       m \<leftarrow> pkg_meta (H p);
       name \<leftarrow> meta_name m;
       if in_strarray installed name then plan_unchecked H installed ps tr mem
       else if plan_has tr name then plan_unchecked H installed ps tr mem
       else let (err, tr, mem) = plan_push tr TRANS_OP_INSTALL name (meta_version m) True (Some p) mem in
         if err \<noteq> TRANS_OK then Some (err, tr, mem) else plan_unchecked H installed ps tr mem
     }"

fun plan_order :: "pkg_heap \<Rightarrow> string list \<Rightarrow> string list \<Rightarrow> apg_trans \<Rightarrow> mem \<Rightarrow> trans_error \<times> apg_trans \<times> mem" where
  "plan_order H installed [] tr mem = (TRANS_OK, tr, mem)"
| "plan_order H installed (name # names) tr mem =
     (if in_strarray installed name then plan_order H installed names tr mem
      else if plan_has tr name then plan_order H installed names tr mem
      else
        case (case find_install_pkg H tr name of None \<Rightarrow> find_candidate_pkg H tr name | Some p \<Rightarrow> Some p) of
          None \<Rightarrow> plan_order H installed names tr mem
        | Some p \<Rightarrow>
            let version = Option.bind (pkg_meta (H p)) meta_version;
                (err, tr, mem) = plan_push tr TRANS_OP_INSTALL name version (is_explicit H tr name) (Some p) mem
            in if err \<noteq> TRANS_OK then (err, tr, mem) else plan_order H installed names tr mem)"

text \<open>The second pass after a missing dependency only sets the error message.\<close>

fun explain_missing :: "dep_graph \<Rightarrow> string list \<Rightarrow> (nat \<Rightarrow> mem) \<Rightarrow> nat \<Rightarrow> unit option" where
  "explain_missing g [] mems i = Some ()"
| "explain_missing g (name # names) mems i =
     do {
       r \<leftarrow> dep_graph_resolve g (Some name) (mems i);
       case r of Inl _ \<Rightarrow> Some () | Inr _ \<Rightarrow> explain_missing g names mems (Suc i)
     }"

definition plan_installs ::
  "prep_mem \<Rightarrow> pkg_heap \<Rightarrow> string list \<Rightarrow> dep_graph \<Rightarrow> apg_trans \<Rightarrow> mem \<Rightarrow> (trans_error \<times> apg_trans \<times> mem) option" where
  "plan_installs pm H installed g tr mem =
     (if install_pkgs tr = [] then Some (TRANS_OK, tr, mem)
      else if skip_dependency_check tr then plan_unchecked H installed (install_pkgs tr) tr mem
      else
        let (ok, mem) = malloc_ok mem in
        if \<not> ok then Some (TRANS_ERR_NOMEM, tr, mem)
        else do {
          names \<leftarrow> those (map (pkg_name_of H) (install_pkgs tr));
          r \<leftarrow> dep_graph_resolve_parallel g (map Some names) (pm_resolve pm) (pm_tasks pm) (pm_merge pm);
          case r of
            Inl err \<Rightarrow>
              if err = DEP_ERR_CYCLE then Some (TRANS_ERR_CYCLE, tr, mem)
              else if err = DEP_ERR_MISSING \<or> err = DEP_ERR_VERSION
              then do { _ \<leftarrow> explain_missing g names (pm_explain pm) 0; Some (TRANS_ERR_MISSING_DEP, tr, mem) }
              else Some (TRANS_ERR_NOMEM, tr, mem)
          | Inr order \<Rightarrow> Some (plan_order H installed order tr mem)
        })"

subsection \<open>Conflicts\<close>

fun break_tasks :: "dep_graph \<Rightarrow> string list \<Rightarrow> string list \<Rightarrow> (nat \<Rightarrow> mem) \<Rightarrow> nat \<Rightarrow> (dep_error + string list) list option" where
  "break_tasks g installed [] mems i = Some []"
| "break_tasks g installed (name # names) mems i =
     do {
       t \<leftarrow> dep_graph_find_breaks g (Some name) (map Some installed) (mems i);
       ts \<leftarrow> break_tasks g installed names mems (Suc i);
       Some (t # ts)
     }"

fun push_breaks :: "string \<Rightarrow> string list \<Rightarrow> apg_trans \<Rightarrow> mem \<Rightarrow> trans_error \<times> apg_trans \<times> mem" where
  "push_breaks name [] tr mem = (TRANS_OK, tr, mem)"
| "push_breaks name (b # bs) tr mem =
     (let (err, tr, mem) = conflict_push tr name b mem in
      if err \<noteq> TRANS_OK then (err, tr, mem) else push_breaks name bs tr mem)"

fun collect_breaks :: "string list \<Rightarrow> (dep_error + string list) list \<Rightarrow> apg_trans \<Rightarrow> mem \<Rightarrow> trans_error \<times> apg_trans \<times> mem" where
  "collect_breaks (name # names) (Inl err # ts) tr mem = (TRANS_ERR_NOMEM, tr, mem)"
| "collect_breaks (name # names) (Inr bs # ts) tr mem =
     (let (err, tr, mem) = push_breaks name bs tr mem in
      if err \<noteq> TRANS_OK then (err, tr, mem) else collect_breaks names ts tr mem)"
| "collect_breaks _ _ tr mem = (TRANS_OK, tr, mem)"

definition find_conflicts ::
  "prep_mem \<Rightarrow> pkg_heap \<Rightarrow> string list \<Rightarrow> dep_graph \<Rightarrow> apg_trans \<Rightarrow> mem \<Rightarrow> (trans_error \<times> apg_trans \<times> mem) option" where
  "find_conflicts pm H installed g tr mem =
     (if install_pkgs tr = [] then Some (TRANS_OK, tr, mem)
      else
        let (ok1, mem1) = malloc_ok mem; (ok2, mem2) = malloc_ok mem1 in
        if \<not> ok1 \<or> \<not> ok2 then Some (TRANS_ERR_NOMEM, tr, mem2)
        else do {
          names \<leftarrow> those (map (pkg_name_of H) (install_pkgs tr));
          tasks \<leftarrow> break_tasks g installed names (pm_breaks pm) 0;
          Some (collect_breaks names tasks tr mem2)
        })"

subsection \<open>Upgrades and removals\<close>

fun plan_upgrades ::
  "('e, 't) lmdb \<Rightarrow> yyjson \<Rightarrow> pkg_heap \<Rightarrow> addr list \<Rightarrow> apg_trans \<Rightarrow> 'e db_handle \<Rightarrow> mem \<Rightarrow>
   (trans_error \<times> apg_trans \<times> 'e db_handle \<times> mem) option" where
  "plan_upgrades L J H [] tr db mem = Some (TRANS_OK, tr, db, mem)"
| "plan_upgrades L J H (p # ps) tr db mem =
     do {
       m \<leftarrow> pkg_meta (H p);
       name \<leftarrow> meta_name m;
       let (inst, db, mem) = db_get L J db (Some name) mem;
       let is_held = (case inst of None \<Rightarrow> False | Some i \<Rightarrow> held i);
       let by_hand = (case inst of None \<Rightarrow> True | Some i \<Rightarrow> installed_by_hand i);
       let (err, tr, mem) = (if is_held then held_push tr name TRANS_OP_UPGRADE mem
                             else plan_push tr TRANS_OP_UPGRADE name (meta_version m) by_hand (Some p) mem);
       if err \<noteq> TRANS_OK then Some (err, tr, db, mem) else plan_upgrades L J H ps tr db mem
     }"

text \<open>An entry of the blocked removals is counted before its name is checked.\<close>

definition blocked_push :: "apg_trans \<Rightarrow> string \<Rightarrow> string list \<Rightarrow> mem \<Rightarrow> trans_error \<times> apg_trans \<times> mem" where
  "blocked_push tr name deps mem =
     (let (ok, cap, mem1) = reserve 4 (length (blocked_removes tr)) (blocked_remove_cap tr) mem in
      if \<not> ok then (TRANS_ERR_NOMEM, tr, mem1)
      else let (dup, mem2) = strdup_m name mem1 in
        (if dup = None then TRANS_ERR_NOMEM else TRANS_OK,
         tr\<lparr>blocked_remove_cap := cap,
            blocked_removes := blocked_removes tr @ [\<lparr>br_pkg_name = dup, br_dependents = deps\<rparr>]\<rparr>, mem2))"

text \<open>The loop over the removals collects the names that may be removed.\<close>

fun check_removals ::
  "('e, 't) lmdb \<Rightarrow> yyjson \<Rightarrow> string list \<Rightarrow> string list \<Rightarrow> apg_trans \<Rightarrow> 'e db_handle \<Rightarrow> mem \<Rightarrow>
   (trans_error \<times> string list \<times> apg_trans \<times> 'e db_handle \<times> mem) option" where
  "check_removals L J [] removals tr db mem = Some (TRANS_OK, removals, tr, db, mem)"
| "check_removals L J (name # names) removals tr db mem =
     (let (inst, db, mem) = db_get L J db (Some name) mem;
          is_held = (case inst of None \<Rightarrow> False | Some i \<Rightarrow> held i)
      in if is_held
         then let (err, tr, mem) = held_push tr name TRANS_OP_REMOVE mem in
           if err \<noteq> TRANS_OK then Some (err, removals, tr, db, mem) else check_removals L J names removals tr db mem
         else if skip_dependents_check tr then check_removals L J names (removals @ [name]) tr db mem
         else do {
           (deps, db, mem) \<leftarrow> db_get_dependents L J db (Some name) mem;
           let kept = filter (\<lambda>d. \<not> in_strarray (remove_names tr) d) (case deps of None \<Rightarrow> [] | Some ds \<Rightarrow> ds);
           if kept \<noteq> []
           then let (err, tr, mem) = blocked_push tr name kept mem in
             if err \<noteq> TRANS_OK then Some (err, removals, tr, db, mem) else check_removals L J names removals tr db mem
           else check_removals L J names (removals @ [name]) tr db mem
         })"

definition plan_removals ::
  "('e, 't) lmdb \<Rightarrow> yyjson \<Rightarrow> apg_trans \<Rightarrow> 'e db_handle \<Rightarrow> mem \<Rightarrow> (trans_error \<times> apg_trans \<times> 'e db_handle \<times> mem) option" where
  "plan_removals L J tr db mem =
     (let (ok, mem) = (if remove_names tr = [] then (True, mem) else malloc_ok mem) in
      if \<not> ok then Some (TRANS_ERR_NOMEM, tr, db, mem)
      else do {
        (err, removals, tr, db, mem) \<leftarrow> check_removals L J (remove_names tr) [] tr db mem;
        if err \<noteq> TRANS_OK then Some (err, tr, db, mem) else push_removals_in_order L J tr removals db mem
      })"

subsection \<open>File conflicts\<close>

definition file_conflict_push :: "apg_trans \<Rightarrow> string \<Rightarrow> string \<Rightarrow> string \<Rightarrow> mem \<Rightarrow> trans_error \<times> apg_trans \<times> mem" where
  "file_conflict_push tr path name owner mem =
     (let (ok, cap, mem1) = reserve 4 (length (file_conflicts tr)) (file_conflict_cap tr) mem in
      if \<not> ok then (TRANS_ERR_NOMEM, tr, mem1)
      else
        let (a, mem2) = strdup_m path mem1; (b, mem3) = strdup_m name mem2 in
        (if a = None \<or> b = None then TRANS_ERR_NOMEM else TRANS_OK,
         tr\<lparr>file_conflict_cap := cap,
            file_conflicts := file_conflicts tr @ [\<lparr>fc_path = a, requested_by = b, owned_by = owner\<rparr>]\<rparr>, mem3))"

fun check_files ::
  "('e, 't) lmdb \<Rightarrow> string \<Rightarrow> str_list \<Rightarrow> apg_trans \<Rightarrow> 'e db_handle \<Rightarrow> mem \<Rightarrow> trans_error \<times> apg_trans \<times> 'e db_handle \<times> mem" where
  "check_files L name [] tr db mem = (TRANS_OK, tr, db, mem)"
| "check_files L name (None # fs) tr db mem = check_files L name fs tr db mem"
| "check_files L name (Some path # fs) tr db mem =
     (let (owner, db, mem) = db_owner L db (Some path) mem in
      case owner of
        None \<Rightarrow> check_files L name fs tr db mem
      | Some owner \<Rightarrow>
          if owner = name then check_files L name fs tr db mem
          else let (err, tr, mem) = file_conflict_push tr path name owner mem in
            if err \<noteq> TRANS_OK then (err, tr, db, mem) else check_files L name fs tr db mem)"

text \<open>The file list of a package that has none is read from its archive, unpacked below \<open>/\<close>.\<close>

fun find_file_conflicts ::
  "('e, 't, 'w) host \<Rightarrow> addr list \<Rightarrow> apg_trans \<Rightarrow> ('e, 'w) run \<Rightarrow> (trans_error \<times> apg_trans \<times> ('e, 'w) run) option" where
  "find_file_conflicts E [] tr x = Some (TRANS_OK, tr, x)"
| "find_file_conflicts E (p # ps) tr x =
     (case pkg_name_of (r_pkgs x) p of
        None \<Rightarrow> find_file_conflicts E ps tr x
      | Some name \<Rightarrow> do {
          x \<leftarrow> (if package_files (r_pkgs x p) = [] then run_collect E p ''/'' x else Some x);
          let (err, tr, db, mem) = check_files (h_lmdb E) name (package_files (r_pkgs x p)) tr (r_db x) (pmem (r_proc x));
          let x = run_mem db mem x;
          if err \<noteq> TRANS_OK then Some (err, tr, x) else find_file_conflicts E ps tr x
        })"

subsection \<open>The whole of it\<close>

text \<open>The last step: the first kind of obstacle that was found decides.\<close>

definition verdict :: "apg_trans \<Rightarrow> trans_error \<times> apg_trans" where
  "verdict tr =
     (if held_pkgs tr \<noteq> [] then (TRANS_ERR_HELD, tr)
      else if file_conflicts tr \<noteq> [] then (TRANS_ERR_FILE_CONFLICT, tr)
      else if blocked_removes tr \<noteq> [] then (TRANS_ERR_HAS_DEPENDENTS, tr)
      else if conflicts tr \<noteq> [] then (TRANS_ERR_CONFLICT, tr)
      else (TRANS_OK, tr\<lparr>prepared := True\<rparr>))"

text \<open>From the graph on: every phase runs only if the one before returned \<open>TRANS_OK\<close>.\<close>

definition prepare_phases ::
  "('e, 't, 'w) host \<Rightarrow> prep_mem \<Rightarrow> string list \<Rightarrow> dep_graph \<Rightarrow> apg_trans \<Rightarrow> ('e, 'w) run \<Rightarrow>
   (trans_error \<times> apg_trans \<times> ('e, 'w) run) option" where
  "prepare_phases E pm installed g tr x =
     (let H = r_pkgs x; L = h_lmdb E; J = h_json E; db = r_db x in
      do {
        (err, tr, mem) \<leftarrow> plan_installs pm H installed g tr (pmem (r_proc x));
        if err \<noteq> TRANS_OK then Some (err, tr, run_mem db mem x)
        else do {
          (err, tr, mem) \<leftarrow> find_conflicts pm H installed g tr mem;
          if err \<noteq> TRANS_OK then Some (err, tr, run_mem db mem x)
          else do {
            (err, tr, db, mem) \<leftarrow> plan_upgrades L J H (upgrade_pkgs tr) tr db mem;
            if err \<noteq> TRANS_OK then Some (err, tr, run_mem db mem x)
            else do {
              (err, tr, db, mem) \<leftarrow> plan_removals L J tr db mem;
              if err \<noteq> TRANS_OK then Some (err, tr, run_mem db mem x)
              else do {
                (err, tr, x) \<leftarrow> find_file_conflicts E (install_pkgs tr) tr (run_mem db mem x);
                if err \<noteq> TRANS_OK then Some (err, tr, x)
                else let (ret, tr) = verdict tr in Some (ret, tr, x)
              }
            }
          }
        }
      })"

definition trans_prepare ::
  "('e, 't, 'w) host \<Rightarrow> prep_mem \<Rightarrow> apg_trans \<Rightarrow> ('e, 'w) run \<Rightarrow> (trans_error \<times> apg_trans \<times> ('e, 'w) run) option" where
  "trans_prepare E pm tr x =
     (if prepared tr then Some (TRANS_OK, tr, x)
      else
        let (listed, db, mem) = db_list (h_lmdb E) (h_json E) (r_db x) (pmem (r_proc x));
            installed = (case listed of None \<Rightarrow> [] | Some ps \<Rightarrow> ps);
            (ok, mem) = (if installed = [] then (True, mem) else malloc_ok mem)
        in if \<not> ok then Some (TRANS_ERR_NOMEM, tr, run_mem db mem x)
           else
             let (g, mem) = dep_graph_new mem in
             case g of
               None \<Rightarrow> Some (TRANS_ERR_NOMEM, tr, run_mem db mem x)
             | Some g \<Rightarrow> do {
                 (g, mem) \<leftarrow> build_graph (r_pkgs x) tr installed g mem;
                 prepare_phases E pm (map installed_name installed) g tr (run_mem db mem x)
               })"

end
