(* ===== verification/Files_Laws.thy ===== *)
theory Files_Laws
  imports Files Json
begin

text \<open>
  The recursive file operations: each changes only paths below the directory it is given, and
  each returns, whatever the file system answers, as long as names are proper and paths are
  limited to \<open>PATH_MAX\<close> bytes.
\<close>

subsection \<open>Confinement\<close>

abbreviation below :: "string \<Rightarrow> string set" where
  "below d \<equiv> {p. under d p}"

lemma below_mono: "under d e \<Longrightarrow> below e \<subseteq> below d"
  using under_trans by blast

lemma posix_namesD: "posix_names P \<Longrightarrow> os_opendir P w d = Some es \<Longrightarrow> e \<in> set es \<Longrightarrow> entry_name e"
  unfolding posix_names_def by blast

lemma remove_confined:
  "posix_names P \<Longrightarrow> remove_dir_recursive n P path s = Some s' \<Longrightarrow> touches (below path) s s'"
  "posix_names P \<Longrightarrow> \<forall>e \<in> set es. entry_name e \<Longrightarrow> remove_entries n P path es s = Some s' \<Longrightarrow> touches (below path) s s'"
proof (induction n P path s and n P path es s arbitrary: s' and s' rule: remove_dir_recursive_remove_entries.induct)
  case (2 n P path s)
  then show ?case
    by (auto split: option.splits if_splits bind_splits
        intro!: touches_trans [OF _ touches_calls(2)] dest: posix_namesD)
next
  case (4 n P path e es s)
  show ?case
  proof (cases "dot_entry e")
    case False
    obtain ok s1 where m: "mem_call malloc_ok s = (ok, s1)" by (metis surj_pair)
    have t1: "touches (below path) s s1" using touches_mem_call(1) [OF m] by blast
    show ?thesis
    proof (cases ok)
      case True
      then obtain s2 where s2: "remove_dir_recursive n P (path @ slash # e) s1 = Some s2" "remove_entries n P path es s2 = Some s'"
        using "4.prems" False m by (auto split: bind_splits)
      have "under path (path @ slash # e)" using under_step(2) [OF under_refl] "4.prems"(2) False by simp
      then have "touches (below path) s1 s2"
        using touches_mono [OF "4.IH"(3) [OF False m [symmetric]]] below_mono s2(1) True "4.prems"(1) by blast
      moreover have "touches (below path) s2 s'" using "4.IH"(4) [OF False m [symmetric]] s2 True "4.prems" by simp
      ultimately show ?thesis using t1 touches_trans by blast
    next
      case nf: False
      then have r: "remove_entries n P path es s1 = Some s'" using "4.prems" False m by auto
      have "touches (below path) s1 s'" using "4.IH"(2) [OF False m [symmetric] refl _ _ _ r] nf "4.prems" by simp
      then show ?thesis using t1 touches_trans by blast
    qed
  qed (use 4 in simp)
qed simp_all

subsection \<open>Termination\<close>

lemma deep_pos: "deep (Suc n) p \<Longrightarrow> length p < PATH_MAX \<Longrightarrow> 0 < n"
  using length_squeeze [of p] by (simp add: deep_def)

lemma remove_returns:
  assumes names: "posix_names P" and limit: "posix_path_max P"
  shows "deep n path \<Longrightarrow> \<exists>s'. remove_dir_recursive n P path s = Some s'"
proof (induction n arbitrary: path s)
  case (Suc n)
  have entries: "\<exists>s'. remove_entries n P path es s = Some s'" if "length path < PATH_MAX" "\<forall>e \<in> set es. entry_name e" for es s
    using that(2)
  proof (induction es arbitrary: s)
    case (Cons e es)
    have "deep n (path @ slash # e)" using deep_step_raw [OF Suc.prems that(1)] Cons.prems by simp
    then obtain s2 where s2: "remove_dir_recursive n P (path @ slash # e) (snd (mem_call malloc_ok s)) = Some s2" using Suc.IH by blast
    obtain ok s1 where m: "mem_call malloc_ok s = (ok, s1)" by (metis surj_pair)
    have ih: "\<exists>s'. remove_entries n P path es s0 = Some s'" for s0 using Cons by simp
    show ?case using ih [of s] ih [of s1] ih [of s2] s2 m by (cases ok) simp_all
  qed simp
  show ?case
  proof (cases "os_lstat P (world s) path")
    case (Some m)
    then have len: "length path < PATH_MAX" using posix_path_maxD(2) [OF limit] by blast
    show ?thesis
    proof (cases "os_opendir P (world s) path")
      case (Some es)
      obtain s' where "remove_entries n P path es s = Some s'" using entries [OF len] posix_namesD [OF names Some] by blast
      then show ?thesis using Some \<open>os_lstat P (world s) path = Some m\<close> by simp
    qed (use Some in simp)
  qed simp
qed (simp add: deep_def)

lemma remove_dir_ok:
  assumes "posix_names P" and "posix_path_max P" and "deep n path"
  obtains s' where "remove_dir_recursive n P path s = Some s'" and "touches (below path) s s'"
  using remove_returns [OF assms] remove_confined(1) [OF assms(1)] by blast

lemma clear_dst_ok:
  assumes "posix_names P" and "posix_path_max P" and "deep n path"
  obtains s' where "clear_dst n P path s = Some s'" and "touches (below path) s s'"
proof -
  obtain s' where r: "remove_dir_recursive n P path s = Some s'" "touches (below path) s s'" by (rule remove_dir_ok [OF assms])
  show ?thesis
  proof (cases "os_lstat P (world s) path")
    case (Some m)
    then show ?thesis using r that by (cases "S_ISDIR m") (auto simp: clear_dst_def)
  qed (simp add: that clear_dst_def)
qed

lemma write_chunks_touches: "write_chunks P dst bs s = (ok, s') \<Longrightarrow> touches {dst} s s'"
proof (induction bs arbitrary: s)
  case (Cons b bs)
  obtain ok1 s1 where w: "fs_call dst (os_write P dst b) s = (ok1, s1)" by (metis surj_pair)
  then show ?case using Cons touches_fs_call [OF w, of "{dst}" "{}"] touches_trans [of "{dst}" "{}" s s1 s'] by (auto split: if_splits)
qed simp

lemma copy_file_touches: "copy_file P src dst s = (ok, s') \<Longrightarrow> touches {dst} s s'"
proof -
  assume c: "copy_file P src dst s = (ok, s')"
  obtain opened s1 where s1: "fs_call dst (os_open_write P dst) s = (opened, s1)" by (metis surj_pair)
  obtain bytes err where b: "os_open_read P (world s) src = None \<or> os_open_read P (world s) src = Some (bytes, err)" by (metis not_None_eq surj_pair)
  obtain ok2 s2 where s2: "write_chunks P dst (chunks 4095 bytes) s1 = (ok2, s2)" by (metis surj_pair)
  obtain ok3 s3 where s3: "fs_call dst (os_close P dst) s2 = (ok3, s3)" by (metis surj_pair)
  note t = touches_fs_call [OF s1, of "{dst}" "{}"] write_chunks_touches [OF s2] touches_fs_call [OF s3, of "{dst}" "{}"]
  have "touches {dst} s s3" using t touches_trans by (metis singletonI)
  moreover have "s' = s \<or> s' = s1 \<or> s' = s3 \<or> (\<exists>f. \<exists>r :: bool. fs_call dst f s3 = (r, s'))"
    using c b s1 s2 s3 by (auto simp: copy_file_def split: option.splits if_splits prod.splits)
  ultimately show ?thesis using t touches_trans touches_fs_call by (metis singletonI touches_refl)
qed

lemma open_dst_dir_touches: "open_dst_dir P m dst s = (ok, s') \<Longrightarrow> touches {dst} s s'"
  unfolding open_dst_dir_def mkdir_p_call_def
  by (auto split: if_splits prod.splits dest!: touches_fs_call [where D = "{dst}"] intro: touches_trans)

lemma copy_entries_ok:
  assumes names: "posix_names P" and limit: "posix_path_max P"
    and rec: "\<And>src dst s. cstring src \<Longrightarrow> cstring dst \<Longrightarrow> deep n src \<Longrightarrow> deep n dst \<Longrightarrow>
      \<exists>ok s'. copy_dir n P src dst s = Some (ok, s') \<and> touches (below dst) s s'"
    and str: "cstring src" "cstring dst" and fuel: "\<And>e. entry_name e \<Longrightarrow> deep n (join src e) \<and> deep n (join dst e)"
  shows "\<forall>e \<in> set es. entry_name e \<Longrightarrow> \<exists>ok s'. copy_entries n P src dst es s = Some (ok, s') \<and> touches (below dst) s s'"
proof (induction es arbitrary: s)
  case (Cons e es)
  show ?case
  proof (cases "dot_entry e")
    case True
    then show ?thesis using Cons by simp
  next
    case False
    have e: "entry_name e" "cstring e" using Cons.prems by (simp_all add: entry_name_def)
    obtain sp s1 where s1: "join_dirs src e s = Some (sp, s1)" "sp = None \<or> sp = Some (join src e)" "touches (below dst) s s1"
      by (rule join_dirs_eq [OF str(1) e(2)])
    obtain dp s2 where s2: "join_dirs dst e s1 = Some (dp, s2)" "dp = None \<or> dp = Some (join dst e)" "touches (below dst) s1 s2"
      by (rule join_dirs_eq [OF str(2) e(2)])
    have t2: "touches (below dst) s s2" using s1(3) s2(3) touches_trans by blast
    have sub: "below (join dst e) \<subseteq> below dst" using below_mono under_step(1) [OF under_refl e(1) False] by blast
    have tail: "\<exists>ok' s'. (if \<not> ok then Some (False, s3) else copy_entries n P src dst es s3) = Some (ok', s') \<and> touches (below dst) s s'"
      if "touches (below (join dst e)) s2 s3" for ok s3
    proof -
      have t3: "touches (below dst) s s3" using touches_trans [OF t2 touches_mono [OF that sub]] .
      obtain ok' s' where "copy_entries n P src dst es s3 = Some (ok', s')" "touches (below dst) s3 s'" using Cons.IH [of s3] Cons.prems by auto
      then show ?thesis using t3 touches_trans by (cases ok) fastforce+
    qed
    show ?thesis
    proof (cases "sp = None \<or> dp = None \<or> os_lstat P (world s2) (join src e) = None")
      case True
      then show ?thesis using False s1 s2 t2 by (auto split: option.splits)
    next
      case ok: False
      then obtain m where m: "sp = Some (join src e)" "dp = Some (join dst e)" "os_lstat P (world s2) (join src e) = Some m" using s1 s2 by auto
      note deep = fuel [OF e(1)]
      obtain s3 where clr: "clear_dst n P (join dst e) s2 = Some s3" "touches (below (join dst e)) s2 s3"
        using clear_dst_ok [OF names limit] deep by metis
      consider "S_ISDIR m" | "\<not> S_ISDIR m" "S_ISLNK m" | "\<not> S_ISDIR m" "\<not> S_ISLNK m" "S_ISREG m"
        | "\<not> S_ISDIR m" "\<not> S_ISLNK m" "\<not> S_ISREG m" by blast
      then show ?thesis
      proof cases
        case 1
        define s4 where "s4 = (if is_dir (os_stat P (world s2) (join dst e)) then s2 else unlink_call P (join dst e) s2)"
        have t4: "touches (below (join dst e)) s2 s4" by (simp add: s4_def)
        have "cstring (join src e)" "cstring (join dst e)" using str e(2) by (simp_all add: cstring_join)
        then obtain ok s5 where c: "copy_dir n P (join src e) (join dst e) s4 = Some (ok, s5)" "touches (below (join dst e)) s4 s5"
          using rec deep by blast
        then show ?thesis using tail [OF touches_trans [OF t4 c(2)], of ok] False s1 s2 m 1 by (simp add: s4_def)
      next
        case 2
        show ?thesis
        proof (cases "os_readlink P (world s2) (join src e)")
          case None
          then show ?thesis using 2 False s1 s2 m t2 by (simp, blast)
        next
          case (Some tgt)
          obtain ok s4 where l: "fs_call (join dst e) (os_symlink P (take (PATH_MAX - 1) tgt) (join dst e)) s3 = (ok, s4)" by (metis surj_pair)
          have "touches (below (join dst e)) s3 s4" by (rule touches_fs_call [OF l]) simp
          then show ?thesis using tail [OF touches_trans [OF clr(2)], of s4 ok] 2 False s1 s2 m clr Some l by simp
        qed
      next
        case 3
        obtain ok s4 where l: "copy_file P (join src e) (join dst e) s3 = (ok, s4)" by (metis surj_pair)
        have "touches (below (join dst e)) s3 s4" by (rule touches_mono [OF copy_file_touches [OF l]]) simp
        then show ?thesis using tail [OF touches_trans [OF clr(2)], of s4 ok] 3 False s1 s2 m clr l by simp
      next
        case 4
        then show ?thesis using tail [OF touches_refl, of True] False s1 s2 m by simp
      qed
    qed
  qed
qed auto

lemma copy_dir_ok:
  assumes names: "posix_names P" and limit: "posix_path_max P"
  shows "cstring src \<Longrightarrow> cstring dst \<Longrightarrow> deep n src \<Longrightarrow> deep n dst \<Longrightarrow>
    \<exists>ok s'. copy_dir n P src dst s = Some (ok, s') \<and> touches (below dst) s s'"
proof (induction n arbitrary: src dst s)
  case (Suc n)
  show ?case
  proof (cases "os_stat P (world s) src")
    case (Some m)
    then have "0 < n" using deep_pos [OF Suc.prems(3)] posix_path_maxD(1) [OF limit] by blast
    then have fuel: "entry_name e \<Longrightarrow> deep n (join src e) \<and> deep n (join dst e)" for e
      using deep_join Suc.prems(3,4) by blast
    obtain ok s1 where o: "open_dst_dir P m dst s = (ok, s1)" by (metis surj_pair)
    have t1: "touches (below dst) s s1" by (rule touches_mono [OF open_dst_dir_touches [OF o]]) simp
    show ?thesis
    proof (cases "ok \<and> os_opendir P (world s1) src \<noteq> None")
      case True
      then obtain es where es: "os_opendir P (world s1) src = Some es" by auto
      obtain ok' s' where "copy_entries n P src dst es s1 = Some (ok', s')" "touches (below dst) s1 s'"
        using copy_entries_ok [OF names limit Suc.IH Suc.prems(1,2) fuel, of es s1] posix_namesD [OF names es] by blast
      then show ?thesis using Some o True es touches_trans [OF t1] by auto
    qed (use Some o t1 in auto)
  qed (simp, blast)
qed (simp add: deep_def)

subsection \<open>Listing\<close>

lemma collect_push_ok:
  assumes "length base_path \<le> length p" and "cstring p"
  obtains acc' s' where "collect_push p (length base_path) acc s = Some (acc', s')" and "frame D C s s'"
    and "list_ok cstring (acc_files acc) \<Longrightarrow> list_ok cstring (acc_files acc')"
proof -
  obtain ok1 s1 where m: "mem_call malloc_ok s = (ok1, s1)" by (metis surj_pair)
  obtain ok s2 cap where c: "(if length (acc_files acc) = acc_cap acc
       then let (ok, s) = mem_call malloc_ok s in (ok, s, if ok then acc_cap acc * 2 else acc_cap acc)
       else (True, s, acc_cap acc)) = (ok, s2, cap)" "s2 = s \<or> s2 = s1"
    using m by (cases "length (acc_files acc) = acc_cap acc") auto
  have f2: "frame D C s s2" using c(2) touches_mem_call(1) [OF m] by auto
  obtain rel s3 where d: "mem_call (strdup_m (drop (length base_path) p)) s2 = (rel, s3)" by (metis surj_pair)
  have f3: "frame D C s s3" using touches_trans [OF f2] touches_mem_call(2) [OF d] by blast
  have "rel = None \<or> rel = Some (drop (length base_path) p)"
    using d by (auto simp: mem_call_def strdup_m_def split: prod.splits if_splits)
  moreover have "cstring (drop (length base_path) p)" using assms(2) by (auto simp: cstring_def dest: in_set_dropD)
  ultimately show ?thesis
    using that [of acc s2] that [of "\<lparr>acc_files = acc_files acc @ [rel], acc_cap = cap\<rparr>" s3] f2 f3 c d assms(1)
    by (cases ok) (auto simp: collect_push_def Let_def list_ok_def)
qed

lemma collect_entries_ok:
  assumes rec: "\<And>d acc s. length b \<le> length d \<Longrightarrow> cstring d \<Longrightarrow> deep n d \<Longrightarrow>
      \<exists>acc' s'. collect_recursive n P d (length b) acc s = Some (acc', s') \<and> frame D C s s' \<and>
        (list_ok cstring (acc_files acc) \<longrightarrow> list_ok cstring (acc_files acc'))"
    and dir: "length b \<le> length d" "cstring d" and fuel: "\<And>e. entry_name e \<Longrightarrow> deep n (d @ slash # e)"
  shows "\<forall>e \<in> set es. entry_name e \<Longrightarrow> \<exists>acc' s'. collect_entries n P d (length b) es acc s = Some (acc', s') \<and> frame D C s s' \<and>
    (list_ok cstring (acc_files acc) \<longrightarrow> list_ok cstring (acc_files acc'))"
proof (induction es arbitrary: acc s)
  case (Cons e es)
  obtain ok s1 where m: "mem_call malloc_ok s = (ok, s1)" by (metis surj_pair)
  have f1: "frame D C s s1" using touches_mem_call(1) [OF m] by blast
  have ih: "\<exists>acc' s'. collect_entries n P d (length b) es acc0 s0 = Some (acc', s') \<and> frame D C s s' \<and>
      (list_ok cstring (acc_files acc) \<longrightarrow> list_ok cstring (acc_files acc'))"
    if "frame D C s s0" "list_ok cstring (acc_files acc) \<longrightarrow> list_ok cstring (acc_files acc0)" for acc0 s0
    using Cons.IH [of acc0 s0] Cons.prems that touches_trans [OF that(1)] by auto
  show ?case
  proof (cases "dot_entry e \<or> \<not> ok \<or> os_lstat P (world s1) (d @ slash # e) = None")
    case True
    then show ?thesis using ih [of s acc] ih [OF f1, of acc] m by auto
  next
    case False
    then obtain md where md: "os_lstat P (world s1) (d @ slash # e) = Some md" by auto
    have e: "cstring (d @ slash # e)" "deep n (d @ slash # e)" "length b \<le> length (d @ slash # e)"
      using Cons.prems dir fuel by (simp_all add: entry_name_def slash_def)
    obtain acc2 s2 where s2: "(if S_ISDIR md then collect_recursive n P (d @ slash # e) (length b) acc s1 else collect_push (d @ slash # e) (length b) acc s1) = Some (acc2, s2)"
      "frame D C s1 s2" "list_ok cstring (acc_files acc) \<longrightarrow> list_ok cstring (acc_files acc2)"
    proof (cases "S_ISDIR md")
      case True
      then show ?thesis using rec [OF e(3,1,2), of acc s1] that by auto
    next
      case False
      then show ?thesis using collect_push_ok [OF e(3,1)] that by metis
    qed
    show ?thesis using ih [OF touches_trans [OF f1 s2(2)] s2(3)] False m md s2(1) by auto
  qed
qed auto

lemma collect_recursive_ok:
  assumes names: "posix_names P" and limit: "posix_path_max P"
  shows "length b \<le> length d \<Longrightarrow> cstring d \<Longrightarrow> deep n d \<Longrightarrow>
    \<exists>acc' s'. collect_recursive n P d (length b) acc s = Some (acc', s') \<and> frame D C s s' \<and>
      (list_ok cstring (acc_files acc) \<longrightarrow> list_ok cstring (acc_files acc'))"
proof (induction n arbitrary: d acc s)
  case (Suc n)
  show ?case
  proof (cases "os_opendir P (world s) d")
    case (Some es)
    have len: "length d < PATH_MAX" using posix_path_maxD(3) [OF limit Some] .
    have "\<exists>acc' s'. collect_entries n P d (length b) es acc s = Some (acc', s') \<and> frame D C s s' \<and>
        (list_ok cstring (acc_files acc) \<longrightarrow> list_ok cstring (acc_files acc'))"
      by (rule collect_entries_ok [OF Suc.IH Suc.prems(1,2) deep_step_raw [OF Suc.prems(3) len]])
        (use posix_namesD [OF names Some] in auto)
    then show ?thesis using Some by simp
  qed auto
qed (simp add: deep_def)

lemma collect_files_ok:
  assumes "posix_names P" and "posix_path_max P" and "cstring b"
  shows "\<exists>r s'. collect_files DEPTH P b s = Some (r, s') \<and> frame D C s s' \<and> (\<forall>fs. r = Some fs \<longrightarrow> list_ok cstring fs)"
proof -
  obtain ok s1 where m: "mem_call malloc_ok s = (ok, s1)" by (metis surj_pair)
  have f1: "frame D C s s1" using touches_mem_call(1) [OF m] by blast
  obtain acc' s' where "collect_recursive DEPTH P b (length b) \<lparr>acc_files = [], acc_cap = 16\<rparr> s1 = Some (acc', s')" "frame D C s1 s'"
    "list_ok cstring (acc_files acc')"
    using collect_recursive_ok [OF assms(1,2) order_refl assms(3) deep_DEPTH, of "\<lparr>acc_files = [], acc_cap = 16\<rparr>" s1 D C] by (auto simp: list_ok_def)
  then show ?thesis using m f1 touches_trans [OF f1] by (cases ok) (auto simp: collect_files_def)
qed

subsection \<open>Properties\<close>



end
