(* ===== verification/Install_Laws.thy ===== *)
theory Install_Laws
  imports Files_Laws Pkg_Install Codec
begin

text \<open>
  Laws of the installation: scripts start inside the root they are given or not at all, taking
  files back stays below the directory, and \<open>install_package_in_root\<close> returns whatever the file
  system, the archive and the scripts do.
\<close>

abbreviation runs :: "'w proc \<Rightarrow> 'w proc \<Rightarrow> bool" where
  "runs \<equiv> frame UNIV UNIV"

definition posix_ok :: "'w posix \<Rightarrow> bool" where
  "posix_ok P \<longleftrightarrow> posix_names P \<and> posix_path_max P \<and> (\<forall>w h. os_getenv_home P w = Some h \<longrightarrow> cstring h)"

lemma posix_okD: "posix_ok P \<Longrightarrow> posix_names P" "posix_ok P \<Longrightarrow> posix_path_max P"
  "posix_ok P \<Longrightarrow> os_getenv_home P w = Some h \<Longrightarrow> cstring h"
  by (simp_all add: posix_ok_def)

lemma ref_posix_ok: "posix_ok ref_posix"
  using ref_posix_names ref_posix_path_max by (simp add: posix_ok_def) (simp add: ref_posix_def)

lemma runsI: "frame D C s s' \<Longrightarrow> runs s s'"
  using frame_mono by blast

lemma join_runs:
  assumes "cstring a" and "cstring b"
  obtains r s' where "join_dirs a b s = Some (r, s')" and "r = None \<or> r = Some (join a b)" and "frame D C s s'"
  using join_dirs_eq [OF assms] by metis

subsection \<open>Scripts\<close>

lemma create_dir_frame: "path \<in> D \<Longrightarrow> frame D C s (create_dir P path s)"
  by (simp add: create_dir_def)

lemma drop_stage_frame: "set_option stage \<subseteq> D \<Longrightarrow> frame D C s (drop_stage P stage s)"
  by (cases stage) (simp_all add: drop_stage_def)

text \<open>The directory and the file that staging may create.\<close>

definition stage_paths :: "'w posix \<Rightarrow> string \<Rightarrow> 'w proc \<Rightarrow> string set" where
  "stage_paths P root_path s =
     (let root = take (root_len root_path (length root_path)) root_path in
      {snprintf_to PATH_MAX (root @ ''/tmp''),
       snprintf_to PATH_MAX (root @ stage_leaf (os_getpid P (world s)) (script_seq s + 1))})"

text \<open>How the script is called inside the root.\<close>

definition script_paths :: "'w posix \<Rightarrow> string \<Rightarrow> string \<Rightarrow> 'w proc \<Rightarrow> string set" where
  "script_paths P path root_path s =
     (if \<not> do_chroot root_path then {path}
      else
        let root = take (root_len root_path (length root_path)) root_path in
        case in_root path root of
          Some rel \<Rightarrow> {rel}
        | None \<Rightarrow> {snprintf_to 128 (stage_leaf (os_getpid P (world s)) (script_seq s + 1))})"

lemma mem_call_strdup: "mem_call (strdup_m x) s = (r, s') \<Longrightarrow> r = None \<or> r = Some x"
  by (auto simp: mem_call_def strdup_m_def split: prod.splits if_splits)

lemma stage_script_frame:
  assumes "stage_script P path root_path s = ((ep, stage), s')"
  shows "frame (stage_paths P root_path s) C s s' \<and> set_option stage \<subseteq> stage_paths P root_path s \<and>
    set_option ep \<subseteq> script_paths P path root_path s"
proof -
  define root where "root = take (root_len root_path (length root_path)) root_path"
  show ?thesis
  proof (cases "\<not> do_chroot root_path \<or> in_root path root \<noteq> None")
    case True
    define x where "x = (if \<not> do_chroot root_path then path else the (in_root path root))"
    obtain r s1 where m: "mem_call (strdup_m x) s = (r, s1)" by (metis surj_pair)
    have "ep = r \<and> stage = None \<and> s' = s1"
      using assms m True by (auto simp: stage_script_def x_def root_def Let_def split: if_splits)
    then show ?thesis using touches_mem_call(2) [OF m] mem_call_strdup [OF m] True
      by (auto simp: script_paths_def x_def root_def Let_def)
  next
    case False
    let ?D = "stage_paths P root_path s"
    define leaf where "leaf = stage_leaf (os_getpid P (world s)) (script_seq s + 1)"
    define sp where "sp = snprintf_to PATH_MAX (root @ leaf)"
    define s1 where "s1 = create_dir P (snprintf_to PATH_MAX (root @ ''/tmp'')) (s\<lparr>script_seq := script_seq s + 1\<rparr>)"
    have D: "?D = {snprintf_to PATH_MAX (root @ ''/tmp''), sp}" by (simp add: stage_paths_def root_def sp_def leaf_def Let_def)
    have "frame ?D C s (s\<lparr>script_seq := script_seq s + 1\<rparr>)" by (simp add: frame_def)
    then have f1: "frame ?D C s s1" unfolding s1_def by (rule touches_trans [OF _ create_dir_frame]) (simp add: D)
    obtain ok s2 where c: "copy_file P path sp s1 = (ok, s2)" by (metis surj_pair)
    have f2: "frame ?D C s s2" using touches_trans [OF f1 frame_mono [OF copy_file_touches [OF c]]] by (simp add: D)
    obtain r s3 where ch: "fs_call sp (os_chmod P sp 0x1ED) s2 = (r, s3)" by (metis surj_pair)
    have f3: "frame ?D C s s3" using touches_trans [OF f2 touches_fs_call [OF ch]] by (simp add: D)
    obtain full s4 where m4: "mem_call (strdup_m sp) s3 = (full, s4)" by (metis surj_pair)
    obtain e s5 where m5: "mem_call (strdup_m (snprintf_to 128 leaf)) s4 = (e, s5)" by (metis surj_pair)
    have f4: "frame ?D C s s4" using touches_trans [OF f3] touches_mem_call(2) [OF m4] by blast
    have f5: "frame ?D C s s5" using touches_trans [OF f4] touches_mem_call(2) [OF m5] by blast
    have "stage_script P path root_path s = (if \<not> ok then ((None, None), s2) else ((e, full), s5))"
      using False c ch m4 m5 unfolding s1_def sp_def leaf_def
      by (auto simp: stage_script_def root_def [symmetric] next_script_seq_def Let_def)
    then have eq: "((ep, stage), s') = (if \<not> ok then ((None, None), s2) else ((e, full), s5))" using assms by simp
    have "script_paths P path root_path s = {snprintf_to 128 leaf}"
      using False by (auto simp: script_paths_def root_def leaf_def Let_def)
    then show ?thesis using eq f2 f5 mem_call_strdup [OF m4] mem_call_strdup [OF m5] D by (auto split: if_splits)
  qed
qed

lemma run_child_frame:
  "run_child P root ep s = (r, s') \<Longrightarrow> frame D {(root, ep)} s s'"
proof -
  assume c: "run_child P root ep s = (r, s')"
  obtain r1 s1 where o: "os_call (os_execl P root ep) s = (r1, s1)" by (metis surj_pair)
  have "frame D {(root, ep)} s (s1\<lparr>started := started s1 @ [(root, ep)]\<rparr>)"
    using o by (auto simp: os_call_def frame_def split: prod.splits)
  moreover have "s' = s \<or> s' = s1\<lparr>started := started s1 @ [(root, ep)]\<rparr>"
    using c o by (auto simp: run_child_def Let_def split: if_splits)
  ultimately show ?thesis by auto
qed

lemma exec_script_frame:
  assumes "exec_script P path root_path s = (ok, s')"
  shows "frame (stage_paths P root_path s)
    ({if do_chroot root_path then Some root_path else None} \<times> script_paths P path root_path s) s s'"
    (is "frame ?D ?C s s'")
proof -
  obtain ep stage s1 where st: "stage_script P path root_path s = ((ep, stage), s1)" by (metis surj_pair)
  note f1 = stage_script_frame [OF st, of ?C]
  have drop: "frame ?D ?C s (drop_stage P stage x)" if "frame ?D ?C s x" for x
    using touches_trans [OF that drop_stage_frame] f1 by blast
  show ?thesis
  proof (cases ep)
    case None
    then show ?thesis using assms st drop f1 by (auto simp: exec_script_def)
  next
    case (Some e)
    obtain ok2 s2 where p: "os_call (os_pipe P) s1 = (ok2, s2)" by (metis surj_pair)
    obtain ok3 s3 where k: "os_call (os_fork P) s2 = (ok3, s3)" by (metis surj_pair)
    obtain r s4 where c: "run_child P (if do_chroot root_path then Some root_path else None) e s3 = (r, s4)" by (metis surj_pair)
    have f2: "frame ?D ?C s s2" using f1 touches_trans frame_os_call [OF p] by blast
    have f3: "frame ?D ?C s s3" using touches_trans [OF f2 frame_os_call [OF k]] .
    have e: "e \<in> script_paths P path root_path s" using f1 Some by simp
    have f4: "frame ?D ?C s s4" by (rule touches_trans [OF f3 frame_mono [OF run_child_frame [OF c, of "{}"]]]) (use e in auto)
    have "s' = drop_stage P stage s2 \<or> s' = drop_stage P stage s3 \<or> s' = drop_stage P stage s4"
      using assms st Some p k c by (auto simp: exec_script_def split: if_splits)
    then show ?thesis using drop [OF f2] drop [OF f3] drop [OF f4] by blast
  qed
qed

lemma find_script_ok:
  assumes "cstring dir"
  shows "\<forall>e \<in> set es. entry_name e \<Longrightarrow> \<exists>r s'. find_script dir nm es s = Some (r, s') \<and> frame D C s s' \<and> world s' = world s \<and> script_seq s' = script_seq s \<and>
    (r = None \<or> (\<exists>e \<in> set es. r = Some (join dir e) \<and> normalize e 256 = nm \<and> hd e \<noteq> CHR ''.''))"
proof (induction es)
  case (Cons e es)
  have "cstring e" "e \<noteq> []" using Cons.prems by (simp_all add: entry_name_def)
  then obtain r s' where j: "join_dirs dir e s = Some (r, s')" "r = None \<or> r = Some (join dir e)" "frame D C s s'" "world s' = world s"
    using join_dirs_eq [OF assms] by metis
  have "script_seq s' = script_seq s" using j(1) by (auto simp: join_dirs_def split: bind_splits)
  then show ?case using Cons j \<open>e \<noteq> []\<close> by auto
qed auto

text \<open>The scripts of a package directory that answer to a name.\<close>

definition named_scripts :: "string \<Rightarrow> string list \<Rightarrow> string \<Rightarrow> string set" where
  "named_scripts dir entries name = {join dir e |e. e \<in> set entries \<and> hd e \<noteq> CHR ''.'' \<and> normalize e 256 = normalize name 256}"

lemma run_script_spec:
  assumes P: "posix_ok P" and str: "cstring pkg_dir"
  shows "\<exists>ok s1 s'. run_script P pkg_dir name root_path s = Some (ok, s') \<and> world s1 = world s \<and> script_seq s1 = script_seq s \<and>
    frame {} {} s s1 \<and>
    ((s' = s1 \<and> (ok \<or> \<not> no_oom (pmem s))) \<or>
     (\<exists>entries path. os_opendir P (world s) (join pkg_dir ''scripts'') = Some entries \<and>
        path \<in> named_scripts (join pkg_dir ''scripts'') entries name \<and> os_access_x P (world s) path \<and> exec_script P path root_path s1 = (ok, s')))"
proof -
  have sc: "cstring ''scripts''" by simp
  obtain d s1 where d: "join_dirs pkg_dir ''scripts'' s = Some (d, s1)" "d = None \<or> d = Some (join pkg_dir ''scripts'')"
    "frame {} {} s s1" "world s1 = world s" "no_oom (pmem s) \<Longrightarrow> d = Some (join pkg_dir ''scripts'')"
    using join_dirs_eq [OF str sc] by metis
  have seq1: "script_seq s1 = script_seq s" using d(1) by (auto simp: join_dirs_def split: bind_splits)
  show ?thesis
  proof (cases d)
    case None
    then show ?thesis using d seq1 by (auto simp: run_script_def intro!: exI [of _ s1])
  next
    case (Some dir)
    show ?thesis
    proof (cases "os_opendir P (world s1) dir")
      case None
      then show ?thesis using Some d seq1 by (auto simp: run_script_def)
    next
      case es: (Some entries)
      have dir: "dir = join pkg_dir ''scripts''" "cstring dir" using Some d(2) str by (auto simp: cstring_join)
      obtain r s2 where f: "find_script dir (normalize name 256) entries s1 = Some (r, s2)" "frame {} {} s1 s2" "world s2 = world s1"
        "script_seq s2 = script_seq s1"
        "r = None \<or> (\<exists>e \<in> set entries. r = Some (join dir e) \<and> normalize e 256 = normalize name 256 \<and> hd e \<noteq> CHR ''.'')"
        using find_script_ok [OF dir(2), of entries] posix_namesD [OF posix_okD(1) [OF P] es] by blast
      have f2: "frame {} {} s s2" using touches_trans [OF d(3) f(2)] .
      obtain ok s3 where x: "exec_script P (the r) root_path s2 = (ok, s3)" by (metis surj_pair)
      show ?thesis
      proof (cases "r = None \<or> \<not> os_access_x P (world s2) (the r)")
        case True
        then show ?thesis using Some d es f f2 seq1 by (auto simp: run_script_def intro!: exI [of _ s2])
      next
        case False
        then have "the r \<in> named_scripts dir entries name" using f(5) by (auto simp: named_scripts_def)
        then show ?thesis using False Some d es f f2 seq1 dir x by (auto simp: run_script_def intro!: exI [of _ s2] exI [of _ entries])
      qed
    qed
  qed
qed

lemma run_script_runs:
  assumes "posix_ok P" and "cstring pkg_dir"
  obtains ok s' where "run_script P pkg_dir name root_path s = Some (ok, s')" and "runs s s'"
proof -
  obtain ok s1 s' where r: "run_script P pkg_dir name root_path s = Some (ok, s')" "frame {} {} s s1"
    "s' = s1 \<or> (\<exists>path. exec_script P path root_path s1 = (ok, s'))"
    using run_script_spec [OF assms, of name root_path s] by blast
  have "runs s1 s'" using r(3) exec_script_frame runsI by fastforce
  then show ?thesis using that r(1) touches_trans [OF runsI [OF r(2)]] by blast
qed

subsection \<open>Taking files back\<close>

lemma mirrored_entries_ok:
  assumes rec: "\<And>src dst s. cstring src \<Longrightarrow> cstring dst \<Longrightarrow> deep n src \<Longrightarrow>
      \<exists>s'. remove_mirrored n P src dst s = Some s' \<and> frame (below dst) C s s'"
    and str: "cstring src" "cstring dst" and fuel: "\<And>e. entry_name e \<Longrightarrow> deep n (join src e)"
  shows "\<forall>e \<in> set es. entry_name e \<Longrightarrow> \<exists>s'. mirrored_entries n P src dst es s = Some s' \<and> frame (below dst) C s s'"
proof (induction es arbitrary: s)
  case (Cons e es)
  show ?case
  proof (cases "dot_entry e")
    case True
    then show ?thesis using Cons by simp
  next
    case False
    have e: "entry_name e" "cstring e" using Cons.prems by (simp_all add: entry_name_def)
    obtain sp s1 where s1: "join_dirs src e s = Some (sp, s1)" "sp = None \<or> sp = Some (join src e)" "frame (below dst) C s s1"
      by (rule join_runs [OF str(1) e(2)])
    obtain dp s2 where s2: "join_dirs dst e s1 = Some (dp, s2)" "dp = None \<or> dp = Some (join dst e)" "frame (below dst) C s1 s2"
      by (rule join_runs [OF str(2) e(2)])
    have f2: "frame (below dst) C s s2" using touches_trans [OF s1(3) s2(3)] .
    have u: "under dst (join dst e)" using under_step(1) [OF under_refl e(1) False] .
    show ?thesis
    proof (cases "sp = None \<or> dp = None")
      case True
      then show ?thesis using False s1 s2 f2 by (auto split: option.splits)
    next
      case ok: False
      then have p: "sp = Some (join src e)" "dp = Some (join dst e)" using s1 s2 by auto
      have "cstring (join src e)" "cstring (join dst e)" using str e(2) by (simp_all add: cstring_join)
      then obtain s4 where r: "remove_mirrored n P (join src e) (join dst e) s2 = Some s4" "frame (below (join dst e)) C s2 s4"
        using rec fuel [OF e(1)] by blast
      have f4: "frame (below dst) C s2 s4" using touches_mono [OF r(2) below_mono [OF u]] .
      have "frame (below dst) C s2 (unlink_call P (join dst e) s2)" using u by simp
      then have "\<exists>s3. (case os_lstat P (world s2) (join src e) of None \<Rightarrow> Some s2
          | Some m \<Rightarrow> if S_ISDIR m then remove_mirrored n P (join src e) (join dst e) s2 else Some (unlink_call P (join dst e) s2)) = Some s3 \<and>
        frame (below dst) C s2 s3"
        using r(1) f4 by (simp split: option.split)
      then obtain s3 where s3: "(case os_lstat P (world s2) (join src e) of None \<Rightarrow> Some s2
          | Some m \<Rightarrow> if S_ISDIR m then remove_mirrored n P (join src e) (join dst e) s2 else Some (unlink_call P (join dst e) s2)) = Some s3"
        "frame (below dst) C s2 s3" by blast
      obtain s' where "mirrored_entries n P src dst es s3 = Some s'" "frame (below dst) C s3 s'" using Cons by auto
      then show ?thesis using False s1 s2 p s3 touches_trans [OF f2 touches_trans [OF s3(2)]] by auto
    qed
  qed
qed simp

lemma remove_mirrored_ok:
  assumes names: "posix_names P" and limit: "posix_path_max P"
  shows "cstring src \<Longrightarrow> cstring dst \<Longrightarrow> deep n src \<Longrightarrow> \<exists>s'. remove_mirrored n P src dst s = Some s' \<and> frame (below dst) C s s'"
proof (induction n arbitrary: src dst s)
  case (Suc n)
  show ?case
  proof (cases "os_opendir P (world s) src")
    case (Some es)
    have len: "length src < PATH_MAX" using posix_path_maxD(3) [OF limit Some] .
    obtain s' where e: "mirrored_entries n P src dst es s = Some s'" "frame (below dst) C s s'"
      using mirrored_entries_ok [OF Suc.IH Suc.prems(1,2) deep_step [OF Suc.prems(3) len], of es] posix_namesD [OF names Some] by blast
    have "frame (below dst) C s (rmdir_call P dst s')" by (rule touches_trans [OF e(2)]) simp
    then show ?thesis using Some e(1) by simp
  qed simp
qed (simp add: deep_def)

lemma rmtree_entries_ok:
  assumes rec: "\<And>path s. cstring path \<Longrightarrow> deep n path \<Longrightarrow> \<exists>s'. rmtree n P path s = Some s' \<and> frame (below path) C s s'"
    and str: "cstring path" and fuel: "\<And>e. entry_name e \<Longrightarrow> deep n (join path e)"
  shows "\<forall>e \<in> set es. entry_name e \<Longrightarrow> \<exists>s'. rmtree_entries n P path es s = Some s' \<and> frame (below path) C s s'"
proof (induction es arbitrary: s)
  case (Cons e es)
  show ?case
  proof (cases "dot_entry e")
    case True
    then show ?thesis using Cons by simp
  next
    case False
    have e: "entry_name e" "cstring e" using Cons.prems by (simp_all add: entry_name_def)
    obtain c s1 where s1: "join_dirs path e s = Some (c, s1)" "c = None \<or> c = Some (join path e)" "frame (below path) C s s1"
      by (rule join_runs [OF str e(2)])
    have u: "under path (join path e)" using under_step(1) [OF under_refl e(1) False] .
    obtain s4 where r: "rmtree n P (join path e) s1 = Some s4" "frame (below (join path e)) C s1 s4"
      using rec [OF cstring_join [OF str e(2)]] fuel [OF e(1)] by blast
    then obtain s3 where s3: "(case c of None \<Rightarrow> Some s1 | Some c \<Rightarrow> rmtree n P c s1) = Some s3" "frame (below path) C s1 s3"
      using s1(2) touches_mono [OF r(2) below_mono [OF u]] by (cases c) auto
    obtain s' where "rmtree_entries n P path es s3 = Some s'" "frame (below path) C s3 s'" using Cons by auto
    then show ?thesis using False s1 s3 touches_trans [OF s1(3) touches_trans [OF s3(2)]] by auto
  qed
qed simp

lemma rmtree_ok:
  assumes names: "posix_names P" and limit: "posix_path_max P"
  shows "cstring path \<Longrightarrow> deep n path \<Longrightarrow> \<exists>s'. rmtree n P path s = Some s' \<and> frame (below path) C s s'"
proof (induction n arbitrary: path s)
  case (Suc n)
  show ?case
  proof (cases "os_opendir P (world s) path")
    case (Some es)
    have len: "length path < PATH_MAX" using posix_path_maxD(3) [OF limit Some] .
    obtain s' where e: "rmtree_entries n P path es s = Some s'" "frame (below path) C s s'"
      using rmtree_entries_ok [OF Suc.IH Suc.prems(1) deep_step [OF Suc.prems(2) len], of es] posix_namesD [OF names Some] by blast
    have "frame (below path) C s (rmdir_call P path s')" by (rule touches_trans [OF e(2)]) simp
    then show ?thesis using Some e(1) by simp
  qed simp
qed (simp add: deep_def)

subsection \<open>Installing\<close>

text \<open>
  That an operation of the process returns, and leads to a state that the logs and the
  allocator connect to the first one.
\<close>

definition returns :: "('w proc \<Rightarrow> ('r \<times> 'w proc) option) \<Rightarrow> ('r \<Rightarrow> bool) \<Rightarrow> bool" where
  "returns f Q \<longleftrightarrow> (\<forall>s. \<exists>r s'. f s = Some (r, s') \<and> runs s s' \<and> Q r)"

lemma returnsE:
  assumes "returns f Q"
  obtains r s' where "f s = Some (r, s')" and "runs s s'" and "Q r"
  using assms unfolding returns_def by blast

lemma returns_bind:
  assumes "returns f Q" and "\<And>r. Q r \<Longrightarrow> returns (g r) R"
  shows "returns (\<lambda>s. Option.bind (f s) (\<lambda>(r, s). g r s)) R"
  unfolding returns_def
proof
  fix s
  obtain r s1 where r: "f s = Some (r, s1)" "runs s s1" "Q r" by (rule returnsE [OF assms(1)])
  obtain r2 s2 where "g r s1 = Some (r2, s2)" "runs s1 s2" "R r2" by (rule returnsE [OF assms(2) [OF r(3)]])
  then show "\<exists>r2 s2. Option.bind (f s) (\<lambda>(r, s). g r s) = Some (r2, s2) \<and> runs s s2 \<and> R r2"
    using r touches_trans [OF r(2)] by auto
qed

lemma returns_pure: "Q r \<Longrightarrow> returns (\<lambda>s. Some (r, s)) Q"
  by (simp add: returns_def)

lemma returns_join:
  "cstring a \<Longrightarrow> cstring b \<Longrightarrow> returns (join_dirs a b) (\<lambda>r. r = None \<or> r = Some (join a b))"
  unfolding returns_def using join_runs by metis

lemma returns_copy_dir: "posix_ok P \<Longrightarrow> cstring a \<Longrightarrow> cstring b \<Longrightarrow> returns (copy_dir DEPTH P a b) (\<lambda>_. True)"
proof -
  assume P: "posix_ok P" "cstring a" "cstring b"
  have "\<exists>ok s'. copy_dir DEPTH P a b s = Some (ok, s') \<and> touches (below b) s s'" for s
    by (rule copy_dir_ok [OF posix_okD(1,2) [OF P(1)] P(2,3) deep_DEPTH deep_DEPTH])
  then show ?thesis unfolding returns_def using runsI by blast
qed

lemma returns_scripts: "posix_ok P \<Longrightarrow> cstring d \<Longrightarrow> returns (run_script P d name root_path) (\<lambda>_. True)"
  unfolding returns_def using run_script_runs by metis

lemma returns_install_data_dir:
  assumes "posix_ok P" and "cstring d" and "cstring root_path"
  shows "returns (install_data_dir P d root_path) (\<lambda>_. True)"
  unfolding install_data_dir_def
proof (rule returns_bind [OF returns_join [OF assms(2)]])
  fix r assume "r = None \<or> r = Some (join d ''data'')"
  moreover have "returns (\<lambda>s. if \<not> is_dir (os_stat P (world s) (join d ''data'')) then Some (False, s) else copy_dir DEPTH P (join d ''data'') root_path s) (\<lambda>_. True)"
    using returns_copy_dir [OF assms(1) cstring_join [OF assms(2)] assms(3), of "''data''"] by (auto simp: returns_def)
  ultimately show "returns (\<lambda>s. case r of None \<Rightarrow> Some (False, s) | Some src \<Rightarrow>
      if \<not> is_dir (os_stat P (world s) src) then Some (False, s) else copy_dir DEPTH P src root_path s) (\<lambda>_. True)"
    by (auto intro: returns_pure)
qed simp

definition returns0 :: "('w proc \<Rightarrow> 'w proc option) \<Rightarrow> bool" where
  "returns0 f \<longleftrightarrow> (\<forall>s. \<exists>s'. f s = Some s' \<and> runs s s')"

lemma returns0E:
  assumes "returns0 f"
  obtains s' where "f s = Some s'" and "runs s s'"
  using assms unfolding returns0_def by blast

lemma returns0_bind:
  assumes "returns0 f" and "returns g Q"
  shows "returns (\<lambda>s. Option.bind (f s) g) Q"
  unfolding returns_def
proof
  fix s
  obtain s1 where s1: "f s = Some s1" "runs s s1" by (rule returns0E [OF assms(1)])
  obtain r s2 where "g s1 = Some (r, s2)" "runs s1 s2" "Q r" by (rule returnsE [OF assms(2)])
  then show "\<exists>r s2. Option.bind (f s) g = Some (r, s2) \<and> runs s s2 \<and> Q r" using s1 touches_trans [OF s1(2)] by auto
qed

lemma returns_bind0:
  assumes "returns f Q" and "\<And>r. Q r \<Longrightarrow> returns0 (g r)"
  shows "returns0 (\<lambda>s. Option.bind (f s) (\<lambda>(r, s). g r s))"
  unfolding returns0_def
proof
  fix s
  obtain r s1 where r: "f s = Some (r, s1)" "runs s s1" "Q r" by (rule returnsE [OF assms(1)])
  obtain s2 where "g r s1 = Some s2" "runs s1 s2" using assms(2) [OF r(3)] unfolding returns0_def by blast
  then show "\<exists>s2. Option.bind (f s) (\<lambda>(r, s). g r s) = Some s2 \<and> runs s s2" using r touches_trans [OF r(2)] by auto
qed

lemma returns0_bind0:
  assumes "returns0 f" and "returns0 g"
  shows "returns0 (\<lambda>s. Option.bind (f s) g)"
  unfolding returns0_def
proof
  fix s
  obtain s1 where s1: "f s = Some s1" "runs s s1" by (rule returns0E [OF assms(1)])
  obtain s2 where "g s1 = Some s2" "runs s1 s2" by (rule returns0E [OF assms(2)])
  then show "\<exists>s2. Option.bind (f s) g = Some s2 \<and> runs s s2" using s1 touches_trans [OF s1(2)] by auto
qed

lemma returns_if: "returns f Q \<Longrightarrow> returns g Q \<Longrightarrow> returns (\<lambda>s. if c s then f s else g s) Q"
  by (simp add: returns_def)

lemma returns0_if: "returns0 f \<Longrightarrow> returns0 g \<Longrightarrow> returns0 (\<lambda>s. if c s then f s else g s)"
  by (simp add: returns0_def)

lemma returns_option:
  assumes "returns f Q" and "\<And>s x. h s = Some x \<Longrightarrow> R x" and "\<And>x. R x \<Longrightarrow> returns (g x) Q"
  shows "returns (\<lambda>s. case h s of None \<Rightarrow> f s | Some x \<Rightarrow> g x s) Q"
  using assms unfolding returns_def by (metis option.case_eq_if option.collapse)

lemma returns0_option:
  assumes "returns0 f" and "\<And>s x. h s = Some x \<Longrightarrow> R x" and "\<And>x. R x \<Longrightarrow> returns0 (g x)"
  shows "returns0 (\<lambda>s. case h s of None \<Rightarrow> f s | Some x \<Rightarrow> g x s)"
  using assms unfolding returns0_def by (metis option.case_eq_if option.collapse)

lemma returns0_pure: "returns0 Some"
  by (simp add: returns0_def)

lemma returns_mono: "returns f Q \<Longrightarrow> (\<And>r. Q r \<Longrightarrow> R r) \<Longrightarrow> returns f R"
  unfolding returns_def by blast

text \<open>A joined path, if there is one, is again a non-empty C string.\<close>

definition good_path :: "pstr \<Rightarrow> bool" where
  "good_path r \<longleftrightarrow> (\<forall>p. r = Some p \<longrightarrow> cstring p \<and> p \<noteq> [])"

lemma join_not_Nil [simp]: "join a b \<noteq> []"
proof -
  have "squeeze (c # cs) \<noteq> []" for c cs using squeeze_Cons [of c cs] by auto
  then show ?thesis by (cases a) (simp_all add: join_def)
qed

lemma returns_path: "cstring a \<Longrightarrow> cstring b \<Longrightarrow> returns (join_dirs a b) good_path"
  by (rule returns_mono [OF returns_join]) (auto simp: good_path_def cstring_join)

lemma good_pathD: "good_path (Some p) \<Longrightarrow> cstring p" "good_path (Some p) \<Longrightarrow> p \<noteq> []"
  by (simp_all add: good_path_def)

lemma returns_good_path:
  assumes "good_path r" and "returns f Q" and "\<And>p. cstring p \<Longrightarrow> p \<noteq> [] \<Longrightarrow> returns (g p) Q"
  shows "returns (\<lambda>s. case r of None \<Rightarrow> f s | Some p \<Rightarrow> g p s) Q"
  using assms by (cases r) (auto simp: good_path_def)

lemma returns0_good_path:
  assumes "good_path r" and "returns0 f" and "\<And>p. cstring p \<Longrightarrow> p \<noteq> [] \<Longrightarrow> returns0 (g p)"
  shows "returns0 (\<lambda>s. case r of None \<Rightarrow> f s | Some p \<Rightarrow> g p s)"
  using assms by (cases r) (auto simp: good_path_def)

lemma returns0_remove_dir: "posix_ok P \<Longrightarrow> returns0 (remove_dir_recursive DEPTH P d)"
  unfolding returns0_def using remove_dir_ok [OF posix_okD(1,2)] runsI by (metis deep_DEPTH)

lemma returns0_mirrored: "posix_ok P \<Longrightarrow> cstring a \<Longrightarrow> cstring b \<Longrightarrow> returns0 (remove_mirrored DEPTH P a b)"
proof -
  assume P: "posix_ok P" "cstring a" "cstring b"
  have "\<exists>s'. remove_mirrored DEPTH P a b s = Some s' \<and> frame (below b) {} s s'" for s
    by (rule remove_mirrored_ok [OF posix_okD(1,2) [OF P(1)] P(2,3) deep_DEPTH])
  then show ?thesis unfolding returns0_def using runsI by blast
qed

lemma returns0_rmtree: "posix_ok P \<Longrightarrow> cstring a \<Longrightarrow> returns0 (rmtree DEPTH P a)"
proof -
  assume P: "posix_ok P" "cstring a"
  have "\<exists>s'. rmtree DEPTH P a s = Some s' \<and> frame (below a) {} s s'" for s
    by (rule rmtree_ok [OF posix_okD(1,2) [OF P(1)] P(2) deep_DEPTH])
  then show ?thesis unfolding returns0_def using runsI by blast
qed

lemma make_dirs_loop_runs: "runs s (snd (make_dirs_loop P seen cs s))"
proof (induction cs arbitrary: seen s)
  case Nil
  obtain e s1 where m: "mkdir_p_call P seen 0x1ED s = (e, s1)" by (metis surj_pair)
  then have "runs s s1" using touches_calls(3) [of seen UNIV UNIV s P "0x1ED"] by simp
  then show ?case using m by simp
next
  case (Cons c cs)
  obtain e s1 where m: "mkdir_p_call P seen 0x1ED s = (e, s1)" by (metis surj_pair)
  then have "runs s s1" using touches_calls(3) [of seen UNIV UNIV s P "0x1ED"] by simp
  then have "runs s (snd (make_dirs_loop P (seen @ [c]) cs s1))" using Cons.IH touches_trans by blast
  then show ?case using m Cons.IH [of s "seen @ [c]"] \<open>runs s s1\<close> by auto
qed

lemma returns_make_dirs: "p \<noteq> [] \<Longrightarrow> returns (apg_make_dirs P p) (\<lambda>_. True)"
proof -
  assume "p \<noteq> []"
  then obtain c cs where p: "p = c # cs" by (cases p) auto
  have "\<exists>r s'. make_dirs_loop P [c] cs s = (r, s') \<and> runs s s'" for s
    using make_dirs_loop_runs [of s P "[c]" cs] by (metis snd_conv surj_pair)
  then show ?thesis by (simp add: returns_def apg_make_dirs_def p)
qed

lemma returns_install_home_dir:
  assumes "posix_ok P" and "cstring d"
  shows "returns (install_home_dir P d) (\<lambda>_. True)"
  unfolding install_home_dir_def
  by (rule returns_option [where R = cstring, OF returns_pure posix_okD(3) [OF assms(1)]]) (use assms in \<open>auto
      intro!: returns_bind [OF returns_path] returns_good_path returns_pure returns_if returns_copy_dir\<close>)

lemma returns0_rollback:
  assumes "posix_ok P" and "cstring d" and "cstring root_path"
  shows "returns0 (rollback_install P d root_path)"
proof -
  have t: "returns0 (rollback_tree P d sub dst)" if "cstring sub" "cstring dst" for sub dst
    unfolding rollback_tree_def
    by (rule returns_bind0 [OF returns_path [OF assms(2) that(1)]])
      (auto intro!: returns0_good_path returns0_pure returns0_if returns0_mirrored assms that)
  show ?thesis unfolding rollback_install_def
    by (intro returns0_bind0 t assms returns0_option [where R = cstring, OF returns0_pure posix_okD(3) [OF assms(1)]]) auto
qed

lemma create_dir_runs: "runs s (create_dir P p s)"
  by (rule create_dir_frame) simp

lemma mkdir_p_loop_runs: "runs s (mkdir_p_loop P seen cs s)"
proof (induction cs arbitrary: seen s)
  case (Cons c cs)
  have "runs s (if c = slash then create_dir P seen s else s)" by (simp add: create_dir_runs)
  then show ?case using touches_trans Cons by (simp only: mkdir_p_loop.simps, blast)
qed (simp add: create_dir_runs)

lemma returns_store_path: "cstring root_path \<Longrightarrow> cstring name \<Longrightarrow> returns (scripts_store_path root_path name) good_path"
  unfolding scripts_store_path_def
  by (rule returns_bind [OF returns_path])
    (auto intro!: returns_good_path returns_pure returns_path simp: good_path_def)

lemma mkdir_p_runs: "runs s (mkdir_p P p s)"
  by (cases p) (simp_all add: mkdir_p_def create_dir_runs mkdir_p_loop_runs)

lemma returns_after: "(\<And>s. runs s (f s)) \<Longrightarrow> returns g Q \<Longrightarrow> returns (\<lambda>s. let s = f s in g s) Q"
  unfolding returns_def Let_def using touches_trans by blast

lemma returns_persist:
  assumes "posix_ok P" and "cstring d" and "cstring root_path" and "cstring name"
  shows "returns (scripts_persist P d root_path (Some name)) (\<lambda>_. True)"
  unfolding scripts_persist_def Option.bind.bind_lunit
  by (rule returns_bind [OF returns_path [OF assms(2)]])
    (auto intro!: returns_good_path returns_pure returns_if returns_bind [OF returns_store_path [OF assms(3,4)]]
      returns_after mkdir_p_runs returns_bind [OF returns_path] returns_copy_dir assms)

lemma cstring_print_nat [simp]: "cstring (print_nat n)"
proof -
  have "\<not> c_isdigit (CHR 0x00)" by (simp add: c_isdigit_def uchar_def)
  then show ?thesis using print_nat_digits by (auto simp: cstring_def)
qed

lemma cstring_print_pid [simp]: "cstring (print_pid p)"
  by (simp add: print_pid_def)

lemma cstring_take: "cstring s \<Longrightarrow> cstring (take n s)"
  by (auto simp: cstring_def dest: in_set_takeD)

lemma returns_tmp_dir:
  assumes "cstring tmp" and "cstring root_path"
  shows "returns (unique_tmp_dir tmp P root_path) good_path"
proof -
  have leaf: "cstring (snprintf_to 64 (''pkg-'' @ print_pid p @ ''-'' @ print_nat n))" for p n
    unfolding snprintf_to_def by (rule cstring_take) simp
  have inner: "returns (\<lambda>s. Option.bind (join_dirs base lf s) (\<lambda>(unique, s). case unique of None \<Rightarrow> Some (None, s)
      | Some u \<Rightarrow> Option.bind (apg_make_dirs P u s) (\<lambda>(ok, s). Some (if ok then Some u else None, s)))) good_path"
    if "cstring base" "cstring lf" for base lf
    by (rule returns_bind [OF returns_path [OF that]], rule returns_good_path)
      (auto intro!: returns_pure returns_bind [OF returns_make_dirs] simp: good_path_def)
  have step: "returns (\<lambda>s. let (seq, s) = next_extract_seq s;
               leaf = snprintf_to 64 (''pkg-'' @ print_pid (os_getpid P (world s)) @ ''-'' @ print_nat (unat seq))
           in Option.bind (join_dirs base leaf s) (\<lambda>(unique, s). case unique of None \<Rightarrow> Some (None, s)
      | Some u \<Rightarrow> Option.bind (apg_make_dirs P u s) (\<lambda>(ok, s). Some (if ok then Some u else None, s)))) good_path"
    if "cstring base" for base
    unfolding returns_def
  proof
    fix s :: "'a proc"
    define s1 where "s1 = s\<lparr>extract_seq := extract_seq s + 1\<rparr>"
    have f: "runs s s1" by (simp add: s1_def frame_def)
    show "\<exists>r s'. (let (seq, s) = next_extract_seq s;
               leaf = snprintf_to 64 (''pkg-'' @ print_pid (os_getpid P (world s)) @ ''-'' @ print_nat (unat seq))
           in Option.bind (join_dirs base leaf s) (\<lambda>(unique, s). case unique of None \<Rightarrow> Some (None, s)
      | Some u \<Rightarrow> Option.bind (apg_make_dirs P u s) (\<lambda>(ok, s). Some (if ok then Some u else None, s)))) = Some (r, s') \<and> runs s s' \<and> good_path r"
      using inner [OF that leaf [of "os_getpid P (world s1)" "unat (extract_seq s + 1)"]] touches_trans [OF f]
      unfolding returns_def next_extract_seq_def Let_def prod.case s1_def [symmetric] by blast
  qed
  show ?thesis unfolding unique_tmp_dir_def
    by (rule returns_bind [OF returns_path [OF assms(2)]])
      (auto intro!: returns_good_path returns_pure step simp: good_path_def assms)
qed

definition archive_ok :: "'w libarchive \<Rightarrow> bool" where
  "archive_ok A \<longleftrightarrow> (\<forall>w p es. la_open A w p = Some es \<longrightarrow> (\<forall>e \<in> set es. ent_pathname e \<noteq> None))"

lemma write_blocks_runs: "runs s (snd (write_blocks A path bs s))"
proof (induction bs arbitrary: s)
  case (Cons b bs)
  obtain ok s1 where w: "fs_call path (la_write_block A path b) s = (ok, s1)" by (metis surj_pair)
  have "runs s s1" using touches_fs_call [OF w] by blast
  then show ?case using w Cons.IH [of s1] touches_trans [of UNIV UNIV s s1] by simp
qed simp

lemma returns_extract_entry: "ent_pathname e \<noteq> None \<Longrightarrow> returns (extract_entry A dest e) (\<lambda>_. True)"
proof -
  assume "ent_pathname e \<noteq> None"
  then obtain pn where pn: "ent_pathname e = Some pn" by auto
  have "\<exists>r s'. extract_entry A dest e s = Some (r, s') \<and> runs s s'" for s
  proof (cases "entry_paths dest (snprintf_to PATH_MAX pn) (ent_hardlink e)")
    case (Some pl)
    obtain path link where pl: "pl = (path, link)" by (metis surj_pair)
    obtain ok s1 where h: "fs_call path (la_write_header A e path link) s = (ok, s1)" by (metis surj_pair)
    have f1: "runs s s1" using touches_fs_call [OF h] by blast
    obtain ok2 s2 where b: "write_blocks A path (ent_blocks e) s1 = (ok2, s2)" by (metis surj_pair)
    have "runs s s2" using touches_trans [OF f1] write_blocks_runs [of s1 A path "ent_blocks e"] b by simp
    then show ?thesis using pn Some pl h b f1 by (cases ok) (auto simp: extract_entry_def)
  qed (auto simp: extract_entry_def pn)
  then show ?thesis by (simp add: returns_def)
qed

lemma returns_extract_loop:
  "\<forall>e \<in> set es. ent_pathname e \<noteq> None \<Longrightarrow> returns (extract_loop A dest es ok) (\<lambda>_. True)"
proof (induction es arbitrary: ok)
  case (Cons e es)
  then show ?case unfolding extract_loop.simps by (intro returns_bind [OF returns_extract_entry]) simp_all
qed (simp add: returns_def)

lemma returns_unarchive:
  assumes "archive_ok A"
  shows "returns (unarchive_package_in_root A path d) (\<lambda>_. True)"
proof -
  have "\<exists>r s'. extract_to_dir A p d s = Some (r, s') \<and> runs s s'" for p s
  proof (cases "la_open A (world s) p")
    case (Some es)
    then have "\<forall>e \<in> set es. ent_pathname e \<noteq> None" using assms unfolding archive_ok_def by blast
    then obtain ok s1 where l: "extract_loop A d es True s = Some (ok, s1)" "runs s s1" by (rule returnsE [OF returns_extract_loop])
    have "runs s (s1\<lparr>world := la_close A (world s1)\<rparr>)" using l(2) by (simp add: frame_def)
    then show ?thesis using Some l by (simp add: extract_to_dir_def)
  qed (auto simp: extract_to_dir_def)
  then show ?thesis by (cases path) (auto simp: returns_def unarchive_package_in_root_def)
qed

lemma returns_list_installed:
  assumes "posix_ok P" and "cstring d" and "list_ok cstring (package_files pkg)"
  shows "returns (list_installed P d pkg) (\<lambda>p. pkg_meta p = pkg_meta pkg \<and> pkg_path p = pkg_path pkg \<and> list_ok cstring (package_files p))"
proof -
  have c: "returns (collect_files DEPTH P src) (\<lambda>r. \<forall>fs. r = Some fs \<longrightarrow> list_ok cstring fs)" if "cstring src" for src
    unfolding returns_def using collect_files_ok [OF posix_okD(1,2) [OF assms(1)] that] runsI by blast
  show ?thesis unfolding list_installed_def
    by (rule returns_bind [OF returns_path [OF assms(2)]], simp, rule returns_good_path)
      (auto intro!: returns_pure returns_bind [OF c] simp: assms split: option.splits)
qed

text \<open>The package an installation leaves: the same metadata, a file list of C strings.\<close>

definition same_package :: "package \<Rightarrow> package \<Rightarrow> bool" where
  "same_package pkg p \<longleftrightarrow> pkg_meta p = pkg_meta pkg \<and> pkg_path p = pkg_path pkg \<and> list_ok cstring (package_files p)"

text \<open>Results of \<open>install_package_in_root\<close> are triples.\<close>

definition returns3 :: "('w proc \<Rightarrow> ('a \<times> 'b \<times> 'w proc) option) \<Rightarrow> ('b \<Rightarrow> bool) \<Rightarrow> bool" where
  "returns3 f Q \<longleftrightarrow> (\<forall>s. \<exists>a b s'. f s = Some (a, b, s') \<and> runs s s' \<and> Q b)"

lemma returns3_bind:
  assumes "returns f R" and "\<And>r. R r \<Longrightarrow> returns3 (g r) Q"
  shows "returns3 (\<lambda>s. Option.bind (f s) (\<lambda>(r, s). g r s)) Q"
  unfolding returns3_def
proof
  fix s
  obtain r s1 where r: "f s = Some (r, s1)" "runs s s1" "R r" by (rule returnsE [OF assms(1)])
  obtain a b s2 where "g r s1 = Some (a, b, s2)" "runs s1 s2" "Q b" using assms(2) [OF r(3)] unfolding returns3_def by blast
  then show "\<exists>a b s2. Option.bind (f s) (\<lambda>(r, s). g r s) = Some (a, b, s2) \<and> runs s s2 \<and> Q b" using r touches_trans [OF r(2)] by auto
qed

lemma returns3_bind0:
  assumes "returns0 f" and "returns3 g Q"
  shows "returns3 (\<lambda>s. Option.bind (f s) g) Q"
  unfolding returns3_def
proof
  fix s
  obtain s1 where s1: "f s = Some s1" "runs s s1" by (rule returns0E [OF assms(1)])
  obtain a b s2 where "g s1 = Some (a, b, s2)" "runs s1 s2" "Q b" using assms(2) unfolding returns3_def by blast
  then show "\<exists>a b s2. Option.bind (f s) g = Some (a, b, s2) \<and> runs s s2 \<and> Q b" using s1 touches_trans [OF s1(2)] by auto
qed

lemma returns3_pure: "Q b \<Longrightarrow> returns3 (\<lambda>s. Some (a, b, s)) Q"
  by (simp add: returns3_def)

lemma returns3_fail: "posix_ok P \<Longrightarrow> Q pkg \<Longrightarrow> returns3 (fail_install P d pkg) Q"
  unfolding fail_install_def by (rule returns3_bind0 [OF returns0_remove_dir returns3_pure])

lemma returns3_if: "returns3 f Q \<Longrightarrow> returns3 g Q \<Longrightarrow> returns3 (\<lambda>s. if c then f s else g s) Q"
  by (cases c) simp_all

lemma install_returns:
  assumes P: "posix_ok P" and A: "archive_ok A" and str: "cstring tmp" "cstring root_path"
    and pkg: "pkg_meta pkg = Some m" "meta_name m = Some name" "cstring name" "list_ok cstring (package_files pkg)"
  shows "returns3 (install_package_in_root tmp P A pkg root_path) (same_package pkg)"
proof -
  have self: "same_package pkg pkg" using pkg by (simp add: same_package_def)
  have fail: "returns3 (fail_install P d pkg) (same_package pkg)" for d by (intro returns3_fail P self)
  have persist: "returns3 (\<lambda>s. Option.bind (pkg_meta p) (\<lambda>m.
      Option.bind (scripts_persist P d root_path (meta_name m) s) (\<lambda>(_, s). Option.bind (remove_dir_recursive DEPTH P d s) (\<lambda>s. Some (True, p, s))))) (same_package pkg)"
    if "same_package pkg p" "cstring d" for p d
  proof -
    have m: "pkg_meta p = Some m" using that pkg by (simp add: same_package_def)
    show ?thesis unfolding m Option.bind.bind_lunit pkg(2)
      by (rule returns3_bind [OF returns_persist [OF P that(2) str(2) pkg(3)]])
        (rule returns3_bind0 [OF returns0_remove_dir [OF P] returns3_pure [of "same_package pkg", OF that(1)]])
  qed
  have post: "returns3 (\<lambda>s. Option.bind (run_script P d ''post-install'' root_path s) (\<lambda>(ok, s).
      if \<not> ok then Option.bind (rollback_install P d root_path s) (\<lambda>s. fail_install P d p s)
      else Option.bind (pkg_meta p) (\<lambda>m.
      Option.bind (scripts_persist P d root_path (meta_name m) s) (\<lambda>(_, s). Option.bind (remove_dir_recursive DEPTH P d s) (\<lambda>s. Some (True, p, s)))))) (same_package pkg)"
    if "same_package pkg p" "cstring d" for p d
    by (rule returns3_bind [OF returns_scripts [OF P that(2)]], rule returns3_if)
      (auto intro!: returns3_bind0 [OF returns0_rollback] returns3_fail persist P str that)
  have inst: "returns3 (\<lambda>s. Option.bind (list_installed P d pkg s) (\<lambda>(pkg, s). Option.bind (install_home_dir P d s) (\<lambda>(_, s).
      Option.bind (run_script P d ''post-install'' root_path s) (\<lambda>(ok, s).
      if \<not> ok then Option.bind (rollback_install P d root_path s) (\<lambda>s. fail_install P d pkg s)
      else Option.bind (pkg_meta pkg) (\<lambda>m.
      Option.bind (scripts_persist P d root_path (meta_name m) s) (\<lambda>(_, s). Option.bind (remove_dir_recursive DEPTH P d s) (\<lambda>s. Some (True, pkg, s)))))))) (same_package pkg)"
    if "cstring d" for d
    by (rule returns3_bind [OF returns_list_installed [OF P that pkg(4)]], rule returns3_bind [OF returns_install_home_dir [OF P that]])
      (rule post [OF _ that], simp add: same_package_def)
  show ?thesis unfolding install_package_in_root_def
  proof (rule returns3_bind [OF returns_tmp_dir [OF str]])
    fix r assume r: "good_path r"
    show "returns3 (\<lambda>s. case r of None \<Rightarrow> Some (False, pkg, s) | Some dir \<Rightarrow>
      Option.bind (unarchive_package_in_root A (pkg_path pkg) dir s) (\<lambda>(ok, s). if \<not> ok then fail_install P dir pkg s
      else Option.bind (run_script P dir ''pre-install'' root_path s) (\<lambda>(ok, s). if \<not> ok then fail_install P dir pkg s
      else Option.bind (install_data_dir P dir root_path s) (\<lambda>(ok, s). if \<not> ok then fail_install P dir pkg s
      else Option.bind (list_installed P dir pkg s) (\<lambda>(pkg, s). Option.bind (install_home_dir P dir s) (\<lambda>(_, s).
      Option.bind (run_script P dir ''post-install'' root_path s) (\<lambda>(ok, s).
      if \<not> ok then Option.bind (rollback_install P dir root_path s) (\<lambda>s. fail_install P dir pkg s)
      else Option.bind (pkg_meta pkg) (\<lambda>m.
      Option.bind (scripts_persist P dir root_path (meta_name m) s) (\<lambda>(_, s). Option.bind (remove_dir_recursive DEPTH P dir s) (\<lambda>s. Some (True, pkg, s))))))))))) (same_package pkg)"
    proof (cases r)
      case (Some d)
      then have d: "cstring d" using r by (simp add: good_path_def)
      show ?thesis unfolding Some option.case
        by (rule returns3_bind [OF returns_unarchive [OF A]], rule returns3_if [OF fail],
            rule returns3_bind [OF returns_scripts [OF P d]], rule returns3_if [OF fail],
            rule returns3_bind [OF returns_install_data_dir [OF P d str(2)]], rule returns3_if [OF fail inst [OF d]])
    qed (simp add: returns3_pure self)
  qed
qed

subsection \<open>Properties\<close>

lemma in_root_denotes: "in_root path root = Some rel \<Longrightarrow> path = root @ rel \<or> path = root \<and> rel = ''/''"
proof -
  assume r: "in_root path root = Some rel"
  then have "take (length root) path = root" by (auto simp: in_root_def split: if_splits)
  then have "path = root @ drop (length root) path" by (metis append_take_drop_id)
  then show ?thesis using r by (auto simp: in_root_def split: if_splits)
qed


definition script_world :: ref_world where
  "script_world = [(''/p'', RDir 0x1ED), (''/p/scripts'', RDir 0x1ED), (''/p/scripts/Pre_Install'', RReg 0x1ED ''exit 0'')]"



definition demo_archive :: "ref_world libarchive" where
  "demo_archive = \<lparr>la_open = (\<lambda>w p. Some [\<lparr>ent_pathname = Some ''data/a'', ent_hardlink = None, ent_blocks = [''x''], ent_read_ok = True\<rparr>]),
     la_write_header = (\<lambda>e p l w. (True, ref_put p (RReg 0x1A4 []) w)), la_write_block = ref_append, la_close = (\<lambda>w. w)\<rparr>"

lemma demo_archive_ok: "archive_ok demo_archive"
  by (simp add: archive_ok_def demo_archive_def)


end
