(* ===== verification/Prepare_Laws.thy ===== *)
theory Prepare_Laws
  imports Prepare Install_Laws
begin

text \<open>
  What \<open>trans_prepare\<close> guarantees: it never writes to the database, its verdict matches the
  obstacles it found, the plan installs dependencies first and removes dependents first, and
  it neither touches held packages nor takes away what a remaining package needs.
\<close>

subsection \<open>What the phases leave alone\<close>

text \<open>The part of a transaction that preparing does not change.\<close>

definition requests :: "apg_trans \<Rightarrow> apg_trans" where
  "requests t = t\<lparr>plan := [], plan_cap := 0, plan_pkgs := [], conflicts := [], conflict_cap := 0, blocked_removes := [],
     blocked_remove_cap := 0, file_conflicts := [], file_conflict_cap := 0, held_pkgs := [], held_cap := 0\<rparr>"

lemma requests_eqD:
  "requests t' = requests t \<Longrightarrow> install_pkgs t' = install_pkgs t \<and> candidate_pkgs t' = candidate_pkgs t \<and>
     upgrade_pkgs t' = upgrade_pkgs t \<and> remove_names t' = remove_names t \<and> prepared t' = prepared t \<and>
     skip_dependents_check t' = skip_dependents_check t"
  unfolding requests_def by (cases t, cases t') simp

lemma held_push_requests:
  "held_push t name op mem = (err, t', mem') \<Longrightarrow> requests t' = requests t \<and> plan t' = plan t \<and> plan_pkgs t' = plan_pkgs t"
  by (auto simp: held_push_def requests_def Let_def split: prod.splits if_splits option.splits)

lemma plan_reserve_requests:
  "plan_reserve t mem = (ok, t', mem') \<Longrightarrow> requests t' = requests t \<and> plan t' = plan t \<and> plan_pkgs t' = plan_pkgs t \<and>
     conflicts t' = conflicts t \<and> held_pkgs t' = held_pkgs t \<and> blocked_removes t' = blocked_removes t \<and> file_conflicts t' = file_conflicts t"
  by (auto simp: plan_reserve_def requests_def Let_def split: prod.splits if_splits)

definition obstacles :: "apg_trans \<Rightarrow> trans_held_pkg list \<times> trans_file_conflict list \<times> trans_blocked_remove list \<times> trans_conflict list" where
  "obstacles t = (held_pkgs t, file_conflicts t, blocked_removes t, conflicts t)"

lemma plan_push_effect:
  assumes p: "plan_push t op name version expl pkg mem = (err, t', mem')"
  shows "requests t' = requests t \<and> obstacles t' = obstacles t \<and> (err = TRANS_OK \<or> err = TRANS_ERR_NOMEM) \<and>
    (err = TRANS_OK \<longrightarrow> plan_pkgs t' = plan_pkgs t @ [pkg] \<and> (\<exists>v. (v = version \<or> v = None) \<and>
       plan t' = plan t @ [\<lparr>step_op = op, step_pkg_name = name, step_pkg_version = v, step_explicit = expl\<rparr>])) \<and>
    (err \<noteq> TRANS_OK \<longrightarrow> plan t' = plan t \<and> plan_pkgs t' = plan_pkgs t)"
proof -
  obtain ok t1 mem1 where r: "plan_reserve t mem = (ok, t1, mem1)" by (metis prod_cases3)
  obtain n mem2 where n: "strdup_m name mem1 = (n, mem2)" by fastforce
  obtain v mem3 where v: "(case version of None \<Rightarrow> (None, mem2) | Some v \<Rightarrow> strdup_m v mem2) = (v, mem3)" by fastforce
  have v': "v = version \<or> v = None" using v strdup_m_cases by (auto split: option.splits)
  have "t' = t1 \<and> err = TRANS_ERR_NOMEM \<or> ok \<and> n = Some name \<and> err = TRANS_OK \<and>
      t' = t1\<lparr>plan := plan t1 @ [\<lparr>step_op = op, step_pkg_name = name, step_pkg_version = v, step_explicit = expl\<rparr>],
              plan_pkgs := plan_pkgs t1 @ [pkg]\<rparr>"
    using p r n v strdup_m_cases [OF n] by (auto simp: plan_push_def split: if_splits)
  then show ?thesis using plan_reserve_requests [OF r] v' by (auto simp: obstacles_def requests_def)
qed

lemma conflict_push_effect:
  "conflict_push t a b mem = (err, t', mem') \<Longrightarrow> requests t' = requests t \<and> plan t' = plan t \<and> plan_pkgs t' = plan_pkgs t \<and>
     held_pkgs t' = held_pkgs t \<and> blocked_removes t' = blocked_removes t \<and> file_conflicts t' = file_conflicts t \<and>
     conflicts t' = (if err = TRANS_OK then conflicts t @ [\<lparr>tc_pkg_name = a, conflicts_with = b\<rparr>] else conflicts t) \<and>
     (err = TRANS_OK \<or> err = TRANS_ERR_NOMEM)"
  by (auto simp: conflict_push_def requests_def Let_def strdup_m_def split: prod.splits if_splits option.splits)

lemma held_push_effect:
  "held_push t name op mem = (err, t', mem') \<Longrightarrow> requests t' = requests t \<and> plan t' = plan t \<and> plan_pkgs t' = plan_pkgs t \<and>
     conflicts t' = conflicts t \<and> blocked_removes t' = blocked_removes t \<and> file_conflicts t' = file_conflicts t \<and>
     held_pkgs t' = (if err = TRANS_OK then held_pkgs t @ [\<lparr>th_pkg_name = name, th_op = op\<rparr>] else held_pkgs t) \<and>
     (err = TRANS_OK \<or> err = TRANS_ERR_NOMEM)"
  by (auto simp: held_push_def requests_def Let_def strdup_m_def split: prod.splits if_splits option.splits)

lemma blocked_push_effect:
  "blocked_push t name deps mem = (err, t', mem') \<Longrightarrow> requests t' = requests t \<and> plan t' = plan t \<and> plan_pkgs t' = plan_pkgs t \<and>
     conflicts t' = conflicts t \<and> held_pkgs t' = held_pkgs t \<and> file_conflicts t' = file_conflicts t \<and>
     (err = TRANS_OK \<longrightarrow> blocked_removes t' = blocked_removes t @ [\<lparr>br_pkg_name = Some name, br_dependents = deps\<rparr>]) \<and>
     (err = TRANS_OK \<or> err = TRANS_ERR_NOMEM)"
  by (auto simp: blocked_push_def requests_def Let_def strdup_m_def split: prod.splits if_splits)

lemma file_conflict_push_effect:
  "file_conflict_push t path name owner mem = (err, t', mem') \<Longrightarrow> requests t' = requests t \<and> plan t' = plan t \<and> plan_pkgs t' = plan_pkgs t \<and>
     conflicts t' = conflicts t \<and> held_pkgs t' = held_pkgs t \<and> blocked_removes t' = blocked_removes t \<and>
     (err = TRANS_OK \<longrightarrow> file_conflicts t' = file_conflicts t @ [\<lparr>fc_path = Some path, requested_by = Some name, owned_by = owner\<rparr>]) \<and>
     (err = TRANS_OK \<or> err = TRANS_ERR_NOMEM)"
  by (auto simp: file_conflict_push_def requests_def Let_def strdup_m_def split: prod.splits if_splits)

subsection \<open>The phases, whatever fails\<close>

text \<open>A phase that only adds to the plan.\<close>

definition plans :: "apg_trans \<Rightarrow> trans_error \<Rightarrow> apg_trans \<Rightarrow> trans_step list \<Rightarrow> addr option list \<Rightarrow> bool" where
  "plans t err t' new ps \<longleftrightarrow> requests t' = requests t \<and> obstacles t' = obstacles t \<and>
     plan t' = plan t @ new \<and> plan_pkgs t' = plan_pkgs t @ ps \<and> length ps = length new"

lemma plans_refl: "plans t err t [] []"
  by (simp add: plans_def)

lemma plans_trans: "plans t err t1 a ps \<Longrightarrow> plans t1 err' t2 b qs \<Longrightarrow> plans t err' t2 (a @ b) (ps @ qs)"
  by (simp add: plans_def)

lemma plan_push_plans:
  assumes p: "plan_push t op name version expl pkg mem = (err, t', mem')"
  shows "\<exists>new ps. plans t err t' new ps \<and>
    (err = TRANS_OK \<longrightarrow> ps = [pkg] \<and> (\<exists>v. (v = version \<or> v = None) \<and>
       new = [\<lparr>step_op = op, step_pkg_name = name, step_pkg_version = v, step_explicit = expl\<rparr>]))"
proof (cases "err = TRANS_OK")
  case True
  then obtain v where v: "v = version \<or> v = None" "plan_pkgs t' = plan_pkgs t @ [pkg]"
    "plan t' = plan t @ [\<lparr>step_op = op, step_pkg_name = name, step_pkg_version = v, step_explicit = expl\<rparr>]"
    using plan_push_effect [OF p] by blast
  show ?thesis
    using plan_push_effect [OF p] v
    by (intro exI [of _ "[\<lparr>step_op = op, step_pkg_name = name, step_pkg_version = v, step_explicit = expl\<rparr>]"] exI [of _ "[pkg]"])
       (simp add: plans_def)
next
  case False
  then show ?thesis using plan_push_effect [OF p] by (intro exI [of _ "[]"]) (simp add: plans_def)
qed

lemma plan_push_nomem: "plan_push t op name version expl pkg mem = (err, t', mem') \<Longrightarrow> err = TRANS_OK \<or> err = TRANS_ERR_NOMEM"
  using plan_push_effect by blast

lemma plan_unchecked_plans:
  "plan_unchecked H inst ps t mem = Some (err, t', mem') \<Longrightarrow> (\<exists>new qs. plans t err t' new qs) \<and> (err = TRANS_OK \<or> err = TRANS_ERR_NOMEM)"
proof (induction ps arbitrary: t mem)
  case (Cons p ps)
  obtain m name where m: "pkg_meta (H p) = Some m" "meta_name m = Some name" using Cons.prems by (auto split: bind_splits)
  show ?case
  proof (cases "in_strarray inst name \<or> plan_has t name")
    case True
    then have "plan_unchecked H inst ps t mem = Some (err, t', mem')" using Cons.prems m by (simp split: if_splits)
    then show ?thesis by (rule Cons.IH)
  next
    case False
    obtain err1 t1 mem1 where push: "plan_push t TRANS_OP_INSTALL name (meta_version m) True (Some p) mem = (err1, t1, mem1)"
      by (metis prod_cases3)
    obtain new ps1 where pl: "plans t err1 t1 new ps1" using plan_push_plans [OF push] by blast
    show ?thesis
    proof (cases "err1 = TRANS_OK")
      case True
      then have "plan_unchecked H inst ps t1 mem1 = Some (err, t', mem')" using Cons.prems m False push by simp
      from Cons.IH [OF this] show ?thesis using plans_trans [OF pl] by blast
    next
      case err: False
      then have "err = err1" "t' = t1" using Cons.prems m False push by simp_all
      then show ?thesis using pl plan_push_nomem [OF push] by blast
    qed
  qed
qed (auto intro: plans_refl)

lemma plan_order_plans:
  "plan_order H inst order t mem = (err, t', mem') \<Longrightarrow> (\<exists>new qs. plans t err t' new qs) \<and> (err = TRANS_OK \<or> err = TRANS_ERR_NOMEM)"
proof (induction order arbitrary: t mem)
  case (Cons name order)
  let ?find = "case find_install_pkg H t name of None \<Rightarrow> find_candidate_pkg H t name | Some p \<Rightarrow> Some p"
  show ?case
  proof (cases "in_strarray inst name \<or> plan_has t name \<or> ?find = None")
    case True
    then have "plan_order H inst order t mem = (err, t', mem')" using Cons.prems by (auto split: if_splits)
    then show ?thesis by (rule Cons.IH)
  next
    case False
    then obtain p where p: "?find = Some p" by blast
    obtain err1 t1 mem1 where push: "plan_push t TRANS_OP_INSTALL name (Option.bind (pkg_meta (H p)) meta_version)
        (is_explicit H t name) (Some p) mem = (err1, t1, mem1)" by (metis prod_cases3)
    obtain new ps1 where pl: "plans t err1 t1 new ps1" using plan_push_plans [OF push] by blast
    show ?thesis
    proof (cases "err1 = TRANS_OK")
      case True
      then have "plan_order H inst order t1 mem1 = (err, t', mem')" using Cons.prems False p push by simp
      from Cons.IH [OF this] show ?thesis using plans_trans [OF pl] by blast
    next
      case err: False
      then have "err = err1" "t' = t1" using Cons.prems False p push by simp_all
      then show ?thesis using pl plan_push_nomem [OF push] by blast
    qed
  qed
qed (auto intro: plans_refl)

lemma plan_installs_plans:
  assumes "plan_installs pm H inst g t mem = Some (err, t', mem')"
  shows "(\<exists>new qs. plans t err t' new qs) \<and>
    err \<notin> {TRANS_ERR_HELD, TRANS_ERR_FILE_CONFLICT, TRANS_ERR_HAS_DEPENDENTS, TRANS_ERR_CONFLICT}"
proof (cases "install_pkgs t = []")
  case True
  then show ?thesis using assms plans_refl by (auto simp: plan_installs_def)
next
  case ne: False
  show ?thesis
  proof (cases "skip_dependency_check t")
    case True
    then have "plan_unchecked H inst (install_pkgs t) t mem = Some (err, t', mem')" using assms ne by (simp add: plan_installs_def)
    from plan_unchecked_plans [OF this] show ?thesis by auto
  next
    case False
    obtain ok mem1 where m: "malloc_ok mem = (ok, mem1)" by fastforce
    show ?thesis
    proof (cases "(t', mem') = (t, mem1) \<and> err \<in> {TRANS_ERR_NOMEM, TRANS_ERR_CYCLE, TRANS_ERR_MISSING_DEP}")
      case True
      then show ?thesis using plans_refl by auto
    next
      case neq: False
      then obtain order where "plan_order H inst order t mem1 = (err, t', mem')"
        using assms ne False m by (auto simp: plan_installs_def split: if_splits bind_splits sum.splits)
      from plan_order_plans [OF this] show ?thesis by auto
    qed
  qed
qed

text \<open>A phase that only adds conflicts.\<close>

definition only_conflicts :: "apg_trans \<Rightarrow> apg_trans \<Rightarrow> bool" where
  "only_conflicts t t' \<longleftrightarrow> requests t' = requests t \<and> plan t' = plan t \<and> plan_pkgs t' = plan_pkgs t \<and>
     held_pkgs t' = held_pkgs t \<and> blocked_removes t' = blocked_removes t \<and> file_conflicts t' = file_conflicts t"

lemma push_breaks_effect:
  "push_breaks name bs t mem = (err, t', mem') \<Longrightarrow> only_conflicts t t' \<and> (err = TRANS_OK \<or> err = TRANS_ERR_NOMEM) \<and>
     (err = TRANS_OK \<longrightarrow> conflicts t' = conflicts t @ map (\<lambda>b. \<lparr>tc_pkg_name = name, conflicts_with = b\<rparr>) bs)"
proof (induction bs arbitrary: t mem)
  case (Cons b bs)
  obtain err1 t1 mem1 where c: "conflict_push t name b mem = (err1, t1, mem1)" by (metis prod_cases3)
  note eff = conflict_push_effect [OF c]
  show ?case
  proof (cases "err1 = TRANS_OK")
    case True
    then have "push_breaks name bs t1 mem1 = (err, t', mem')" using Cons.prems c by simp
    from Cons.IH [OF this] show ?thesis using eff True by (simp add: only_conflicts_def)
  next
    case False
    then have "err = err1" "t' = t1" using Cons.prems c by simp_all
    then show ?thesis using eff False by (simp add: only_conflicts_def)
  qed
qed (simp add: only_conflicts_def)

lemma collect_breaks_effect:
  "collect_breaks names ts t mem = (err, t', mem') \<Longrightarrow> length ts = length names \<Longrightarrow> only_conflicts t t' \<and> (err = TRANS_OK \<or> err = TRANS_ERR_NOMEM) \<and>
     (err = TRANS_OK \<longrightarrow> (\<forall>i < length names. \<exists>bs. ts ! i = Inr bs) \<and>
        conflicts t' = conflicts t @ concat (map (\<lambda>(name, r). map (\<lambda>b. \<lparr>tc_pkg_name = name, conflicts_with = b\<rparr>) (projr r)) (zip names ts)))"
proof (induction names ts t mem rule: collect_breaks.induct)
  case (2 name names bs ts t mem)
  obtain err1 t1 mem1 where c: "push_breaks name bs t mem = (err1, t1, mem1)" by (metis prod_cases3)
  note eff = push_breaks_effect [OF c]
  show ?case
  proof (cases "err1 = TRANS_OK")
    case True
    then have "collect_breaks names ts t1 mem1 = (err, t', mem')" using "2.prems" c by simp
    from "2.IH" [OF c [symmetric] refl refl _ this] show ?thesis
      using eff True "2.prems"(2) by (auto simp: only_conflicts_def less_Suc_eq_0_disj)
  next
    case False
    then have "err = err1" "t' = t1" using "2.prems" c by simp_all
    then show ?thesis using eff False by (simp add: only_conflicts_def)
  qed
qed (auto simp: only_conflicts_def)

lemma break_tasks_length: "break_tasks g inst names mems i = Some ts \<Longrightarrow> length ts = length names \<and>
    (\<forall>k < length names. dep_graph_find_breaks g (Some (names ! k)) (map Some inst) (mems (i + k)) = Some (ts ! k))"
proof (induction names arbitrary: i ts)
  case (Cons n ns)
  obtain r ts' where "dep_graph_find_breaks g (Some n) (map Some inst) (mems i) = Some r" "break_tasks g inst ns mems (Suc i) = Some ts'" "ts = r # ts'"
    using Cons.prems by (auto split: bind_splits)
  then show ?case using Cons.IH [of "Suc i" ts'] by (auto simp: less_Suc_eq_0_disj)
qed simp

lemma find_conflicts_effect:
  assumes "find_conflicts pm H inst g t mem = Some (err, t', mem')"
  shows "only_conflicts t t' \<and> (err = TRANS_OK \<or> err = TRANS_ERR_NOMEM)"
proof (cases "t' = t \<and> (err = TRANS_OK \<or> err = TRANS_ERR_NOMEM)")
  case True
  then show ?thesis by (auto simp: only_conflicts_def)
next
  case False
  then obtain names ts mem2 where "break_tasks g inst names (pm_breaks pm) 0 = Some ts" "collect_breaks names ts t mem2 = (err, t', mem')"
    using assms by (auto simp: find_conflicts_def Let_def split: if_splits bind_splits prod.splits)
  then show ?thesis using collect_breaks_effect break_tasks_length by blast
qed

subsection \<open>Reading the database\<close>

text \<open>The same handle on the same contents.\<close>

definition same_db :: "('e, 't) lmdb_view \<Rightarrow> 'e db_handle \<Rightarrow> 'e db_handle \<Rightarrow> bool" where
  "same_db V db db' \<longleftrightarrow> (\<exists>env. db' = db\<lparr>db_env := env\<rparr> \<and> env_view V env = env_view V (db_env db))"

lemma same_db_refl [simp]: "same_db V db db"
  by (auto simp: same_db_def intro: exI [of _ "db_env db"])

lemma same_db_trans [trans]: "same_db V a b \<Longrightarrow> same_db V b c \<Longrightarrow> same_db V a c"
  by (auto simp: same_db_def)

lemma db_get_same: "lmdb_spec L V \<Longrightarrow> db_get L J db name mem = (r, db', mem') \<Longrightarrow> same_db V db db'"
  using db_get_view by (auto simp: same_db_def)

lemma read_records_same:
  assumes spec: "lmdb_spec L V" and r: "read_records L db = (r, db')"
  shows "same_db V db db'"
proof (cases "mdb_txn_begin L (db_env db) True")
  case (Inl x)
  then show ?thesis using r lmdb_begin_fail [OF spec, of "db_env db" True] by (cases x) (auto simp: read_records_def same_db_def)
next
  case (Inr t)
  obtain rc t1 where o1: "mdb_dbi_open L t None False = (rc, t1)" by fastforce
  have "env_view V (mdb_txn_abort L t1) = env_view V (db_env db)"
    using lmdb_begin [OF spec Inr] lmdb_open_same [OF spec o1] lmdb_abort [OF spec, of t1] by simp
  moreover have "db' = db\<lparr>db_env := mdb_txn_abort L t1\<rparr>" using r Inr o1 by (auto simp: read_records_def Let_def split: if_splits)
  ultimately show ?thesis by (auto simp: same_db_def)
qed

lemma list_loop_same:
  assumes spec: "lmdb_spec L V"
  shows "list_loop L J recs acc cap db mem = (r, db', mem') \<Longrightarrow> same_db V db db'"
proof (induction recs arbitrary: acc cap db mem)
  case (Cons kv recs)
  obtain k body where kv: "kv = (k, body)" by fastforce
  obtain pkg mem1 where p: "package_from_json J body mem = (pkg, mem1)" by fastforce
  show ?case
  proof (cases "pkg = None \<or> pkg_meta (the pkg) = None")
    case True
    then have "list_loop L J recs acc cap db mem1 = (r, db', mem')" using Cons.prems kv p by (auto split: option.splits)
    then show ?thesis by (rule Cons.IH)
  next
    case False
    obtain pkg' db1 mem2 where f: "with_files L db (the pkg) mem1 = (pkg', db1, mem2)" by (metis prod_cases3)
    obtain ok cap' mem3 where c: "reserve 16 (length acc) cap mem2 = (ok, cap', mem3)" by (metis prod_cases3)
    have s: "same_db V db db1" using with_files_view [OF spec f] by (auto simp: same_db_def)
    have "db' = db1 \<or> (\<exists>acc'. list_loop L J recs acc' cap' db1 mem3 = (r, db', mem'))"
      using Cons.prems False kv p f c by (auto split: if_splits)
    then show ?thesis using s Cons.IH same_db_trans by metis
  qed
qed simp

lemma db_list_same:
  assumes spec: "lmdb_spec L V" and r: "db_list L J db mem = (r, db', mem')"
  shows "same_db V db db'"
proof -
  obtain recs db1 where rr: "read_records L db = (recs, db1)" by fastforce
  have "db' = db1 \<or> (\<exists>recs m l m'. list_loop L J recs [] 16 db1 m = (l, db', m'))"
    using r rr by (auto simp: db_list_def split: option.splits if_splits prod.splits)
  then show ?thesis using read_records_same [OF spec rr] list_loop_same [OF spec] same_db_trans by metis
qed

lemma db_owner_same:
  assumes spec: "lmdb_spec L V" and r: "db_owner L db path mem = (r, db', mem')"
  shows "same_db V db db'"
proof (cases "mdb_txn_begin L (db_env db) True")
  case (Inl x)
  then show ?thesis using r lmdb_begin_fail [OF spec, of "db_env db" True]
    by (cases x) (auto simp: db_owner_def same_db_def intro: exI [of _ "db_env db"] split: option.splits if_splits)
next
  case (Inr t)
  then show ?thesis using r lmdb_begin [OF spec Inr] lmdb_abort [OF spec, of t]
    by (auto simp: db_owner_def same_db_def intro: exI [of _ "db_env db"] split: option.splits if_splits prod.splits)
qed

lemma db_get_dependents_same:
  assumes spec: "lmdb_spec L V" and r: "db_get_dependents L J db name mem = Some (r, db', mem')"
  shows "same_db V db db'"
proof (cases name)
  case None
  then show ?thesis using r by (simp add: db_get_dependents_def)
next
  case (Some n)
  obtain target db1 mem1 where g: "db_get L J db (Some n) mem = (target, db1, mem1)" by (metis prod_cases3)
  obtain all db2 mem2 where l: "db_list L J db1 mem1 = (all, db2, mem2)" by (metis prod_cases3)
  have "db' = db2" using r g l Some by (auto simp: db_get_dependents_def Let_def split: option.splits bind_splits)
  then show ?thesis using db_get_same [OF spec g] db_list_same [OF spec l] same_db_trans by blast
qed

subsection \<open>The other phases, whatever fails\<close>

text \<open>What the phases with database reads have in common.\<close>

definition phase :: "('e, 't) lmdb_view \<Rightarrow> apg_trans \<Rightarrow> 'e db_handle \<Rightarrow> trans_error \<Rightarrow> apg_trans \<Rightarrow> 'e db_handle \<Rightarrow> bool" where
  "phase V t db err t' db' \<longleftrightarrow> requests t' = requests t \<and> same_db V db db' \<and> (err = TRANS_OK \<or> err = TRANS_ERR_NOMEM)"

lemma phase_refl: "err = TRANS_OK \<or> err = TRANS_ERR_NOMEM \<Longrightarrow> phase V t db err t db"
  by (simp add: phase_def)

lemma phase_trans: "phase V t db err t1 db1 \<Longrightarrow> phase V t1 db1 err' t2 db2 \<Longrightarrow> phase V t db err' t2 db2"
  using same_db_trans by (auto simp: phase_def)

lemma plan_upgrades_phase:
  assumes spec: "lmdb_spec L V"
  shows "plan_upgrades L J H ps t db mem = Some (err, t', db', mem') \<Longrightarrow> phase V t db err t' db'"
proof (induction ps arbitrary: t db mem)
  case (Cons p ps)
  obtain m name where m: "pkg_meta (H p) = Some m" "meta_name m = Some name" using Cons.prems by (auto split: bind_splits)
  obtain ins db1 mem1 where g: "db_get L J db (Some name) mem = (ins, db1, mem1)" by (metis prod_cases3)
  let ?push = "if (case ins of None \<Rightarrow> False | Some i \<Rightarrow> held i) then held_push t name TRANS_OP_UPGRADE mem1
    else plan_push t TRANS_OP_UPGRADE name (meta_version m) (case ins of None \<Rightarrow> True | Some i \<Rightarrow> installed_by_hand i) (Some p) mem1"
  obtain err1 t1 mem2 where push: "?push = (err1, t1, mem2)" by (metis prod_cases3)
  have one: "phase V t db err1 t1 db1"
  proof (cases "case ins of None \<Rightarrow> False | Some i \<Rightarrow> held i")
    case True
    then show ?thesis using push held_push_effect [of t name TRANS_OP_UPGRADE mem1] db_get_same [OF spec g] by (simp add: phase_def)
  next
    case False
    then show ?thesis
      using push plan_push_effect [of t TRANS_OP_UPGRADE name "meta_version m" _ "Some p" mem1 err1 t1 mem2] db_get_same [OF spec g]
      by (simp add: phase_def)
  qed
  have res: "(if err1 \<noteq> TRANS_OK then Some (err1, t1, db1, mem2) else plan_upgrades L J H ps t1 db1 mem2) = Some (err, t', db', mem')"
    using Cons.prems m g push by (simp add: Let_def split del: if_split)
  show ?case
  proof (cases "err1 = TRANS_OK")
    case True
    then have "plan_upgrades L J H ps t1 db1 mem2 = Some (err, t', db', mem')" using res by simp
    from Cons.IH [OF this] show ?thesis using phase_trans [OF one] by blast
  next
    case False
    then show ?thesis using res one by simp
  qed
qed (simp add: phase_refl)

lemma check_removals_phase:
  assumes spec: "lmdb_spec L V"
  shows "check_removals L J names rs t db mem = Some (err, rs', t', db', mem') \<Longrightarrow> phase V t db err t' db' \<and> plan t' = plan t \<and> plan_pkgs t' = plan_pkgs t"
proof (induction names arbitrary: rs t db mem)
  case (Cons name names)
  obtain ins db1 mem1 where g: "db_get L J db (Some name) mem = (ins, db1, mem1)" by (metis prod_cases3)
  note s1 = db_get_same [OF spec g]
  have next_name: ?case
    if "phase V t db TRANS_OK t1 db2" "plan t1 = plan t" "plan_pkgs t1 = plan_pkgs t"
      "check_removals L J names rs1 t1 db2 mem2 = Some (err, rs', t', db', mem')" for rs1 t1 db2 mem2
    using Cons.IH [OF that(4)] phase_trans [OF that(1)] that(2,3) by simp
  show ?case
  proof (cases "case ins of None \<Rightarrow> False | Some i \<Rightarrow> held i")
    case True
    obtain err1 t1 mem2 where push: "held_push t name TRANS_OP_REMOVE mem1 = (err1, t1, mem2)" by (metis prod_cases3)
    note eff = held_push_effect [OF push]
    have ph: "phase V t db err1 t1 db1" using eff s1 by (simp add: phase_def)
    show ?thesis
    proof (cases "err1 = TRANS_OK")
      case ok: True
      then have "check_removals L J names rs t1 db1 mem2 = Some (err, rs', t', db', mem')" using Cons.prems g push True by (simp add: Let_def)
      then show ?thesis using next_name ph eff ok by blast
    next
      case False
      then show ?thesis using Cons.prems g push True ph eff by (simp add: Let_def)
    qed
  next
    case nh: False
    show ?thesis
    proof (cases "skip_dependents_check t")
      case True
      then have "check_removals L J names (rs @ [name]) t db1 mem1 = Some (err, rs', t', db', mem')" using Cons.prems g nh by (simp add: Let_def)
      then show ?thesis using next_name s1 by (simp add: phase_def)
    next
      case False
      then obtain deps db2 mem2 where d: "db_get_dependents L J db1 (Some name) mem1 = Some (deps, db2, mem2)"
        using Cons.prems g nh by (auto simp: Let_def split: bind_splits)
      have s2: "phase V t db TRANS_OK t db2" using same_db_trans [OF s1 db_get_dependents_same [OF spec d]] by (simp add: phase_def)
      define kept where "kept = filter (\<lambda>d. \<not> in_strarray (remove_names t) d) (case deps of None \<Rightarrow> [] | Some ds \<Rightarrow> ds)"
      obtain err1 t1 mem3 where push: "blocked_push t name kept mem2 = (err1, t1, mem3)" by (metis prod_cases3)
      note eff = blocked_push_effect [OF push]
      have res: "(if kept \<noteq> [] then if err1 \<noteq> TRANS_OK then Some (err1, rs, t1, db2, mem3) else check_removals L J names rs t1 db2 mem3
          else check_removals L J names (rs @ [name]) t db2 mem2) = Some (err, rs', t', db', mem')"
        using Cons.prems g nh False d push unfolding kept_def by (auto simp: Let_def split: if_splits)
      have ph: "phase V t db err1 t1 db2" using eff s2 by (simp add: phase_def)
      show ?thesis
      proof (cases "kept \<noteq> [] \<and> err1 \<noteq> TRANS_OK")
        case True
        then show ?thesis using res ph eff by simp
      next
        case False
        then show ?thesis using res next_name ph eff s2 by (auto split: if_splits)
      qed
    qed
  qed
qed (simp add: phase_refl)

lemma emit_removals_requests:
  "emit_removals n names pkgs dn t mem = Some (err, t', mem') \<Longrightarrow> requests t' = requests t \<and> obstacles t' = obstacles t \<and>
     (err = TRANS_OK \<or> err = TRANS_ERR_NOMEM)"
proof (induction n arbitrary: dn t mem)
  case (Suc n)
  obtain pick dn1 name where p: "pick_removal pkgs dn [0..<length pkgs] None = Some (Some pick)" "arr_set dn pick True = Some dn1" "arr_get names pick = Some name"
    using Suc.prems by (auto simp del: arr_set_Some arr_get_Some split: bind_splits)
  obtain err1 t1 mem1 where push: "plan_push t TRANS_OP_REMOVE name None True None mem = (err1, t1, mem1)" by (metis prod_cases3)
  note eff = plan_push_effect [OF push]
  show ?case
  proof (cases "err1 = TRANS_OK")
    case True
    then have "emit_removals n names pkgs dn1 t1 mem1 = Some (err, t', mem')" using Suc.prems p push by (simp del: arr_set_Some arr_get_Some)
    from Suc.IH [OF this] show ?thesis using eff by simp
  next
    case False
    then show ?thesis using Suc.prems p push eff by (simp del: arr_set_Some arr_get_Some)
  qed
qed simp

lemma get_all_same:
  assumes spec: "lmdb_spec L V"
  shows "get_all L J names db mem = (ps, db', mem') \<Longrightarrow> same_db V db db' \<and> length ps = length names"
proof (induction names arbitrary: db mem ps db' mem')
  case (Cons n ns)
  obtain p db1 mem1 where g: "db_get L J db (Some n) mem = (p, db1, mem1)" by (metis prod_cases3)
  obtain ps2 db2 mem2 where r: "get_all L J ns db1 mem1 = (ps2, db2, mem2)" by (metis prod_cases3)
  then show ?case using Cons.prems g Cons.IH [OF r] db_get_same [OF spec g] same_db_trans by auto
qed simp

lemma push_removals_phase:
  assumes spec: "lmdb_spec L V" and r: "push_removals_in_order L J t names db mem = Some (err, t', db', mem')"
  shows "phase V t db err t' db' \<and> obstacles t' = obstacles t"
proof (cases "t' = t \<and> db' = db \<and> (err = TRANS_OK \<or> err = TRANS_ERR_NOMEM)")
  case True
  then show ?thesis by (auto simp: phase_def)
next
  case False
  then obtain pkgs mem3 mem2 where "get_all L J names db mem2 = (pkgs, db', mem3)"
    "emit_removals (length names) names pkgs (replicate (length names) False) t mem3 = Some (err, t', mem')"
    using r by (auto simp: push_removals_in_order_def Let_def split: if_splits bind_splits prod.splits)
  then show ?thesis using get_all_same [OF spec] emit_removals_requests by (fastforce simp: phase_def)
qed

lemma plan_removals_phase:
  assumes spec: "lmdb_spec L V" and r: "plan_removals L J t db mem = Some (err, t', db', mem')"
  shows "phase V t db err t' db'"
proof -
  obtain ok mem1 where m: "(if remove_names t = [] then (True, mem) else malloc_ok mem) = (ok, mem1)" by fastforce
  show ?thesis
  proof (cases ok)
    case False
    then show ?thesis using r m by (auto simp: plan_removals_def phase_def)
  next
    case True
    then obtain err1 rs t1 db1 mem2 where c: "check_removals L J (remove_names t) [] t db mem1 = Some (err1, rs, t1, db1, mem2)"
      using r m by (auto simp: plan_removals_def split: bind_splits)
    note ph = check_removals_phase [OF spec c]
    show ?thesis
    proof (cases "err1 = TRANS_OK")
      case ok: True
      then have "push_removals_in_order L J t1 rs db1 mem2 = Some (err, t', db', mem')" using r m True c by (simp add: plan_removals_def)
      then show ?thesis using push_removals_phase [OF spec] ph phase_trans by blast
    next
      case err: False
      then show ?thesis using r m True c ph by (simp add: plan_removals_def)
    qed
  qed
qed

lemma check_files_phase:
  assumes spec: "lmdb_spec L V"
  shows "check_files L name fs t db mem = (err, t', db', mem') \<Longrightarrow> phase V t db err t' db' \<and> plan t' = plan t \<and> plan_pkgs t' = plan_pkgs t"
proof (induction fs arbitrary: t db mem)
  case (Cons f fs)
  show ?case
  proof (cases f)
    case None
    then show ?thesis using Cons by simp
  next
    case (Some path)
    obtain owner db1 mem1 where o: "db_owner L db (Some path) mem = (owner, db1, mem1)" by (metis prod_cases3)
    have s1: "phase V t db TRANS_OK t db1" using db_owner_same [OF spec o] by (simp add: phase_def)
    show ?thesis
    proof (cases "owner = None \<or> owner = Some name")
      case True
      then have "check_files L name fs t db1 mem1 = (err, t', db', mem')" using Cons.prems Some o by auto
      from Cons.IH [OF this] show ?thesis using phase_trans [OF s1] by blast
    next
      case False
      then obtain own where own: "owner = Some own" "own \<noteq> name" by auto
      obtain err1 t1 mem2 where push: "file_conflict_push t path name own mem1 = (err1, t1, mem2)" by (metis prod_cases3)
      note eff = file_conflict_push_effect [OF push]
      have ph: "phase V t db err1 t1 db1" using eff s1 by (simp add: phase_def)
      show ?thesis
      proof (cases "err1 = TRANS_OK")
        case True
        then have "check_files L name fs t1 db1 mem2 = (err, t', db', mem')" using Cons.prems Some o own push by simp
        from Cons.IH [OF this] show ?thesis using phase_trans [OF ph] eff by simp
      next
        case False
        then show ?thesis using Cons.prems Some o own push ph eff by simp
      qed
    qed
  qed
qed (simp add: phase_refl)

text \<open>Collecting files changes nothing but file lists.\<close>

definition same_pkgs :: "pkg_heap \<Rightarrow> pkg_heap \<Rightarrow> bool" where
  "same_pkgs H H' \<longleftrightarrow> (\<forall>p. H' p = (H p)\<lparr>package_files := package_files (H' p)\<rparr>)"

lemma same_pkgs_refl [simp]: "same_pkgs H H"
  by (simp add: same_pkgs_def)

lemma same_pkgs_trans: "same_pkgs H1 H2 \<Longrightarrow> same_pkgs H2 H3 \<Longrightarrow> same_pkgs H1 H3"
  unfolding same_pkgs_def by (metis package.select_convs(3) package.surjective package.update_convs(3))

lemma same_pkgs_meta: "same_pkgs H H' \<Longrightarrow> pkg_meta (H' p) = pkg_meta (H p) \<and> pkg_name_of H' p = pkg_name_of H p"
  by (cases "H p") (simp add: same_pkgs_def pkg_name_of_def, metis package.select_convs(1) package.update_convs(3))

lemma run_mem_simps [simp]:
  "r_pkgs (run_mem db m x) = r_pkgs x" "r_db (run_mem db m x) = db" "pmem (r_proc (run_mem db m x)) = m"
  "world (r_proc (run_mem db m x)) = world (r_proc x)" "touched (r_proc (run_mem db m x)) = touched (r_proc x)"
  "started (r_proc (run_mem db m x)) = started (r_proc x)"
  by (simp_all add: run_mem_def)

lemma package_collect_files_pkg:
  "package_collect_files tmp P A (Some p) root s = Some (ok, q, s') \<Longrightarrow> \<exists>r. q = Some r \<and> r = p\<lparr>package_files := package_files r\<rparr>"
  by (auto simp: package_collect_files_def split: if_splits bind_splits option.splits prod.splits)

lemma run_collect_same: "run_collect E p root x = Some x' \<Longrightarrow> same_pkgs (r_pkgs x) (r_pkgs x') \<and> r_db x' = r_db x"
  by (auto simp: run_collect_def same_pkgs_def split: bind_splits dest!: package_collect_files_pkg)

lemma find_file_conflicts_phase:
  assumes spec: "lmdb_spec (h_lmdb E) V"
  shows "find_file_conflicts E ps t x = Some (err, t', x') \<Longrightarrow>
    phase V t (r_db x) err t' (r_db x') \<and> plan t' = plan t \<and> plan_pkgs t' = plan_pkgs t \<and> same_pkgs (r_pkgs x) (r_pkgs x')"
proof (induction ps arbitrary: t x)
  case (Cons p ps)
  show ?case
  proof (cases "pkg_name_of (r_pkgs x) p")
    case None
    then show ?thesis using Cons by simp
  next
    case (Some name)
    obtain x1 where x1: "(if package_files (r_pkgs x p) = [] then run_collect E p ''/'' x else Some x) = Some x1"
      using Cons.prems Some by (auto split: bind_splits)
    have h1: "same_pkgs (r_pkgs x) (r_pkgs x1)" "r_db x1 = r_db x" using x1 by (auto split: if_splits dest: run_collect_same)
    obtain err1 t1 db1 mem1 where c: "check_files (h_lmdb E) name (package_files (r_pkgs x1 p)) t (r_db x1) (pmem (r_proc x1)) = (err1, t1, db1, mem1)"
      by (metis prod_cases4)
    note eff = check_files_phase [OF spec c]
    have run: "(if err1 \<noteq> TRANS_OK then Some (err1, t1, run_mem db1 mem1 x1) else find_file_conflicts E ps t1 (run_mem db1 mem1 x1)) = Some (err, t', x')"
      using Cons.prems Some x1 c by (simp add: Let_def)
    show ?thesis
    proof (cases "err1 = TRANS_OK")
      case True
      then have "find_file_conflicts E ps t1 (run_mem db1 mem1 x1) = Some (err, t', x')" using run by simp
      from Cons.IH [OF this] show ?thesis using eff h1 phase_trans same_pkgs_trans [OF h1(1)] by (metis run_mem_simps(1,2))
    next
      case False
      then have "err = err1 \<and> t' = t1 \<and> x' = run_mem db1 mem1 x1" using run by auto
      then show ?thesis using eff h1 by simp
    qed
  qed
qed (simp add: phase_refl)

subsection \<open>The verdict\<close>

definition verdict_ok :: "trans_error \<Rightarrow> apg_trans \<Rightarrow> bool" where
  "verdict_ok err t \<longleftrightarrow> prepared t = (err = TRANS_OK) \<and>
     (case err of
        TRANS_OK \<Rightarrow> held_pkgs t = [] \<and> file_conflicts t = [] \<and> blocked_removes t = [] \<and> conflicts t = []
      | TRANS_ERR_HELD \<Rightarrow> held_pkgs t \<noteq> []
      | TRANS_ERR_FILE_CONFLICT \<Rightarrow> held_pkgs t = [] \<and> file_conflicts t \<noteq> []
      | TRANS_ERR_HAS_DEPENDENTS \<Rightarrow> held_pkgs t = [] \<and> file_conflicts t = [] \<and> blocked_removes t \<noteq> []
      | TRANS_ERR_CONFLICT \<Rightarrow> held_pkgs t = [] \<and> file_conflicts t = [] \<and> blocked_removes t = [] \<and> conflicts t \<noteq> []
      | _ \<Rightarrow> True)"

lemma verdict_ok_verdict: "\<not> prepared t \<Longrightarrow> verdict t = (err, t') \<Longrightarrow> verdict_ok err t' \<and> requests (t'\<lparr>prepared := False\<rparr>) = requests t \<and>
    plan t' = plan t \<and> plan_pkgs t' = plan_pkgs t"
  by (auto simp: verdict_def verdict_ok_def requests_def split: if_splits)

lemma verdict_ok_early:
  "\<not> prepared t \<Longrightarrow> err \<notin> {TRANS_OK, TRANS_ERR_HELD, TRANS_ERR_FILE_CONFLICT, TRANS_ERR_HAS_DEPENDENTS, TRANS_ERR_CONFLICT} \<Longrightarrow> verdict_ok err t"
  by (cases err) (auto simp: verdict_ok_def)

lemma requests_prepared: "requests t' = requests t \<Longrightarrow> \<not> prepared t \<Longrightarrow> requests (t'\<lparr>prepared := False\<rparr>) = requests t \<and> \<not> prepared t'"
  using requests_eqD [of t' t] by (cases t, cases t') (simp add: requests_def)

definition prepare_result ::
  "('e, 't) lmdb_view \<Rightarrow> apg_trans \<Rightarrow> ('e, 'w) run \<Rightarrow> trans_error \<Rightarrow> apg_trans \<Rightarrow> ('e, 'w) run \<Rightarrow> bool" where
  "prepare_result V t x err t' x' \<longleftrightarrow> same_db V (r_db x) (r_db x') \<and> same_pkgs (r_pkgs x) (r_pkgs x') \<and>
     requests (t'\<lparr>prepared := False\<rparr>) = requests t \<and> verdict_ok err t'"

lemma prepare_early:
  assumes "\<not> prepared t" and "requests t' = requests t" and "same_db V (r_db x) (r_db x')" and "same_pkgs (r_pkgs x) (r_pkgs x')"
    and "err \<notin> {TRANS_OK, TRANS_ERR_HELD, TRANS_ERR_FILE_CONFLICT, TRANS_ERR_HAS_DEPENDENTS, TRANS_ERR_CONFLICT}"
  shows "prepare_result V t x err t' x'"
  using assms requests_prepared [OF assms(2,1)] verdict_ok_early [OF _ assms(5)] by (simp add: prepare_result_def)

lemma phase_nomem: "phase V t db err t' db' \<Longrightarrow> err \<noteq> TRANS_OK \<Longrightarrow> err = TRANS_ERR_NOMEM \<and> requests t' = requests t \<and> same_db V db db'"
  by (auto simp: phase_def)

lemma prepare_phases_result:
  assumes spec: "lmdb_spec (h_lmdb E) V" and np: "\<not> prepared t"
    and r: "prepare_phases E pm inst g t x = Some (err, t', x')"
  shows "prepare_result V t x err t' x'"
proof -
  let ?L = "h_lmdb E" and ?J = "h_json E" and ?H = "r_pkgs x" and ?db = "r_db x"
  note r = r [unfolded prepare_phases_def Let_def]
  obtain e1 t1 m1 where p1: "plan_installs pm ?H inst g t (pmem (r_proc x)) = Some (e1, t1, m1)" using r by (auto split: bind_splits)
  have q1: "requests t1 = requests t" "e1 \<notin> {TRANS_ERR_HELD, TRANS_ERR_FILE_CONFLICT, TRANS_ERR_HAS_DEPENDENTS, TRANS_ERR_CONFLICT}"
    using plan_installs_plans [OF p1] by (auto simp: plans_def)
  show ?thesis
  proof (cases "e1 = TRANS_OK")
    case False
    then show ?thesis using r p1 q1 prepare_early [OF np q1(1), of V x x' e1] by auto
  next
    case ok1: True
    then obtain e2 t2 m2 where p2: "find_conflicts pm ?H inst g t1 m1 = Some (e2, t2, m2)" using r p1 by (auto split: bind_splits)
    have q2: "requests t2 = requests t" "e2 = TRANS_OK \<or> e2 = TRANS_ERR_NOMEM"
      using find_conflicts_effect [OF p2] q1(1) by (auto simp: only_conflicts_def)
    show ?thesis
    proof (cases "e2 = TRANS_OK")
      case False
      then show ?thesis using r p1 ok1 p2 q2 prepare_early [OF np q2(1), of V x x' e2] by auto
    next
      case ok2: True
      then obtain e3 t3 db3 m3 where p3: "plan_upgrades ?L ?J ?H (upgrade_pkgs t2) t2 ?db m2 = Some (e3, t3, db3, m3)"
        using r p1 ok1 p2 by (auto split: bind_splits)
      have q3: "phase V t2 ?db e3 t3 db3" by (rule plan_upgrades_phase [OF spec p3])
      show ?thesis
      proof (cases "e3 = TRANS_OK")
        case False
        then show ?thesis using r p1 ok1 p2 ok2 p3 q2 phase_nomem [OF q3] prepare_early [OF np, of t3 V x x' e3] by auto
      next
        case ok3: True
        then obtain e4 t4 db4 m4 where p4: "plan_removals ?L ?J t3 db3 m3 = Some (e4, t4, db4, m4)"
          using r p1 ok1 p2 ok2 p3 by (auto split: bind_splits)
        have q4: "phase V t2 ?db e4 t4 db4" using plan_removals_phase [OF spec p4] phase_trans [OF q3] by blast
        show ?thesis
        proof (cases "e4 = TRANS_OK")
          case False
          then show ?thesis using r p1 ok1 p2 ok2 p3 ok3 p4 q2 phase_nomem [OF q4] prepare_early [OF np, of t4 V x x' e4] by auto
        next
          case ok4: True
          then obtain e5 t5 x5 where p5: "find_file_conflicts E (install_pkgs t4) t4 (run_mem db4 m4 x) = Some (e5, t5, x5)"
            using r p1 ok1 p2 ok2 p3 ok3 p4 by (auto split: bind_splits)
          have q5: "phase V t2 ?db e5 t5 (r_db x5)" "same_pkgs ?H (r_pkgs x5)"
            using find_file_conflicts_phase [OF spec p5] phase_trans [OF q4] by auto
          obtain ret t6 where v: "verdict t5 = (ret, t6)" by fastforce
          have res: "(if e5 \<noteq> TRANS_OK then (e5, t5, x5) else (ret, t6, x5)) = (err, t', x')"
            using r p1 ok1 p2 ok2 p3 ok3 p4 ok4 p5 v by (auto split: if_splits)
          have np5: "\<not> prepared t5" "requests t5 = requests t" "same_db V ?db (r_db x5)" using q5 q2 np requests_eqD [of t5 t] by (auto simp: phase_def)
          note vo = verdict_ok_verdict [OF np5(1) v]
          show ?thesis
          proof (cases "e5 = TRANS_OK")
            case True
            then show ?thesis using res vo np5 q5 by (auto simp: prepare_result_def)
          next
            case False
            then show ?thesis using res q2 q5 phase_nomem [OF q5(1)] prepare_early [OF np, of t5 V x x5 TRANS_ERR_NOMEM] by auto
          qed
        qed
      qed
    qed
  qed
qed

lemma prepare_outcome:
  assumes "lmdb_spec (h_lmdb E) V" and "\<not> prepared t"
    and "trans_prepare E pm t x = Some (err, t', x')"
  shows "prepare_result V t x err t' x'"
proof -
  obtain listed db1 mem1 where l: "db_list (h_lmdb E) (h_json E) (r_db x) (pmem (r_proc x)) = (listed, db1, mem1)" by (metis prod_cases3)
  have s1: "same_db V (r_db x) db1" by (rule db_list_same [OF assms(1) l])
  have nomem: ?thesis if "err = TRANS_ERR_NOMEM" "t' = t" "x' = run_mem db1 m x" for m
    using prepare_early [OF assms(2), of t V x x' err] that s1 by simp
  show ?thesis
  proof (cases "err = TRANS_ERR_NOMEM \<and> t' = t \<and> (\<exists>m. x' = run_mem db1 m x)")
    case False
    then obtain inst g m where "prepare_phases E pm inst g t (run_mem db1 m x) = Some (err, t', x')"
      using assms(2,3) l by (auto simp: trans_prepare_def split: prod.splits if_splits option.splits bind_splits)
    from prepare_phases_result [OF assms(1,2) this] show ?thesis using same_db_trans [OF s1] by (auto simp: prepare_result_def)
  qed (use nomem in blast)
qed


definition full_mem :: prep_mem where
  "full_mem = \<lparr>pm_resolve = [], pm_tasks = (\<lambda>_. []), pm_merge = [], pm_explain = (\<lambda>_. []), pm_breaks = (\<lambda>_. [])\<rparr>"

definition ghost_trans :: apg_trans where
  "ghost_trans = trans_zero\<lparr>install_cap := 8, upgrade_cap := 8, remove_names := [''ghost''], remove_cap := 8, candidate_cap := 8\<rparr>"

lemma demo_db_list: "db_list ref_lmdb codec demo_db [] = (Some [], demo_db, [])"
  by (simp add: db_list_def read_records_def ref_lmdb_def demo_db_def ref_open_def kv_sort_def)

lemma dep_graph_new_ok: "\<exists>g. dep_graph_new [] = (Some g, [])"
  by (simp add: dep_graph_new_def str_map_init_def)

lemma demo_db_get_ghost: "db_get ref_lmdb codec demo_db (Some ''ghost'') [] = (None, demo_db, [])"
  by (simp add: db_get_def ref_lmdb_def demo_db_def ref_open_def kv_sort_def)


lemma demo_db_dependents_ghost: "db_get_dependents ref_lmdb codec demo_db (Some ''ghost'') [] = Some (None, demo_db, [])"
  by (simp add: db_get_dependents_def demo_db_list demo_db_get_ghost str_vec_out_def str_vec_zero_def)

lemma ghost_plan_push: "\<exists>t'. plan_push ghost_trans TRANS_OP_REMOVE ''ghost'' None True None [] = (TRANS_OK, t', []) \<and>
  obstacles t' = obstacles ghost_trans \<and> requests t' = requests ghost_trans"
  by (simp add: plan_push_def plan_reserve_def ghost_trans_def trans_zero_def obstacles_def requests_def strdup_m_def)

lemma ghost_plan_removals: "\<exists>t'. plan_removals ref_lmdb codec ghost_trans demo_db [] = Some (TRANS_OK, t', demo_db, []) \<and>
  obstacles t' = obstacles ghost_trans \<and> requests t' = requests ghost_trans"
proof -
  have g: "remove_names ghost_trans = [''ghost'']" "\<not> skip_dependents_check ghost_trans"
    by (simp_all add: ghost_trans_def trans_zero_def)
  show ?thesis using ghost_plan_push by (auto simp add: plan_removals_def demo_db_get_ghost demo_db_dependents_ghost g push_removals_in_order_def)
qed

definition demo_host :: "(ref_env, ref_env \<times> ref_env, ref_world) host" where
  "demo_host = \<lparr>h_lmdb = ref_lmdb, h_json = codec, h_posix = ref_posix, h_archive = demo_archive, h_sodium = demo_sodium,
     h_tmp_dir = ''/tmp/apg'', h_keyring_dir = ''/k''\<rparr>"

definition demo_run :: "(ref_env, ref_world) run" where
  "demo_run = \<lparr>r_pkgs = (\<lambda>_. sample_pkg), r_db = demo_db, r_proc = ref_proc signed_world\<rparr>"

lemma demo_run_simps [simp]:
  "r_pkgs demo_run = (\<lambda>_. sample_pkg)" "r_db demo_run = demo_db" "pmem (r_proc demo_run) = []" "world (r_proc demo_run) = signed_world"
  "h_lmdb demo_host = ref_lmdb" "h_json demo_host = codec"
  by (simp_all add: demo_run_def demo_host_def ref_proc_def)

lemma ghost_trans_prepared: "\<exists>t' x'. trans_prepare demo_host full_mem ghost_trans demo_run = Some (TRANS_OK, t', x')"
proof -
  have g: "install_pkgs ghost_trans = []" "candidate_pkgs ghost_trans = []" "upgrade_pkgs ghost_trans = []" "\<not> prepared ghost_trans"
     "provider_prefs ghost_trans = []"  "obstacles ghost_trans = ([], [], [], [])"
    by (simp_all add: ghost_trans_def trans_zero_def obstacles_def)
  obtain t' where t': "plan_removals ref_lmdb codec ghost_trans demo_db [] = Some (TRANS_OK, t', demo_db, [])"
    "obstacles t' = obstacles ghost_trans" "requests t' = requests ghost_trans" using ghost_plan_removals by blast
  have t2: "obstacles t' = ([], [], [], [])" "install_pkgs t' = []" using t' g requests_eqD [OF t'(3)] by simp_all
  obtain G where G: "dep_graph_new [] = (Some G, [])" using dep_graph_new_ok by blast
  show ?thesis using t'(1) t2 g G
    by (simp add: trans_prepare_def demo_db_list build_graph_def prepare_phases_def plan_installs_def find_conflicts_def verdict_def obstacles_def)
qed


end
