(* ===== verification/Removals.thy ===== *)
theory Removals
  imports Prepare_Laws
begin

text \<open>
  The order of removals: \<open>push_removals_in_order\<close> puts every package before the packages it
  depends on, whenever the dependencies among the removed packages allow it.
\<close>

subsection \<open>Picking the next package\<close>

definition needs :: "package option list \<Rightarrow> (nat \<times> nat) set" where
  "needs pkgs = {(j, i). j < length pkgs \<and> i < length pkgs \<and> j \<noteq> i \<and> depends_on (pkgs ! j) (pkgs ! i) = Some True}"

definition deps_defined :: "package option list \<Rightarrow> bool" where
  "deps_defined pkgs \<longleftrightarrow> (\<forall>p \<in> set pkgs. \<forall>q \<in> set pkgs. depends_on p q \<noteq> None)"

lemma finite_needs: "finite (needs pkgs)"
  by (rule finite_subset [of _ "{..<length pkgs} \<times> {..<length pkgs}"]) (auto simp: needs_def)

lemma deps_defined_nth:
  assumes "deps_defined pkgs" and "i < length pkgs" and "j < length pkgs" and "j \<noteq> i"
  shows "depends_on (pkgs ! j) (pkgs ! i) = Some ((j, i) \<in> needs pkgs)"
proof -
  obtain b where "depends_on (pkgs ! j) (pkgs ! i) = Some b"
    using assms(1) nth_mem [OF assms(2)] nth_mem [OF assms(3)] unfolding deps_defined_def by blast
  then show ?thesis using assms by (cases b) (auto simp: needs_def)
qed

definition left_over :: "bool list \<Rightarrow> nat set" where
  "left_over dn = {i. i < length dn \<and> \<not> dn ! i}"

lemma needed_loop_eq:
  assumes d: "deps_defined pkgs" and len: "length dn = length pkgs" and i: "i < length pkgs"
  shows "set js \<subseteq> {..<length pkgs} \<Longrightarrow> needed_loop pkgs dn i js = Some (\<exists>j \<in> set js. j \<in> left_over dn \<and> (j, i) \<in> needs pkgs)"
proof (induction js)
  case (Cons j js)
  have j: "j < length pkgs" "j < length dn" using Cons.prems len by auto
  have ih: "needed_loop pkgs dn i js = Some (\<exists>j \<in> set js. j \<in> left_over dn \<and> (j, i) \<in> needs pkgs)" using Cons by simp
  show ?case
  proof (cases "j = i \<or> dn ! j")
    case True
    then have "\<not> (j \<in> left_over dn \<and> (j, i) \<in> needs pkgs)" by (auto simp: left_over_def needs_def)
    then show ?thesis using True ih j by auto
  next
    case False
    then show ?thesis using ih j i deps_defined_nth [OF d i j(1)] by (auto simp: left_over_def)
  qed
qed simp

definition free_item :: "package option list \<Rightarrow> bool list \<Rightarrow> nat \<Rightarrow> bool" where
  "free_item pkgs dn i \<longleftrightarrow> i \<in> left_over dn \<and> (\<forall>j \<in> left_over dn. (j, i) \<notin> needs pkgs)"

lemma pick_removal_eq:
  assumes d: "deps_defined pkgs" and len: "length dn = length pkgs"
  shows "set is \<subseteq> {..<length pkgs} \<Longrightarrow> \<exists>r. pick_removal pkgs dn is fallback = Some r \<and>
    (case r of
       Some i \<Rightarrow> (i \<in> left_over dn \<and> (free_item pkgs dn i \<or> (\<forall>k \<in> set is. \<not> free_item pkgs dn k))) \<or>
         (fallback = Some i \<and> (\<forall>k \<in> set is. \<not> free_item pkgs dn k))
     | None \<Rightarrow> fallback = None \<and> set is \<inter> left_over dn = {})"
proof (induction "is" arbitrary: fallback)
  case (Cons i "is")
  have i: "i < length pkgs" "i < length dn" using Cons.prems len by auto
  have sub: "set is \<subseteq> {..<length pkgs}" using Cons.prems by simp
  show ?case
  proof (cases "dn ! i")
    case True
    then have "\<not> free_item pkgs dn i" "i \<notin> left_over dn" by (simp_all add: free_item_def left_over_def)
    then show ?thesis using Cons.IH [OF sub, of fallback] True i by (auto split: option.splits)
  next
    case False
    have lo: "i \<in> left_over dn" using False i by (simp add: left_over_def)
    have "(\<exists>j \<in> set [0..<length pkgs]. j \<in> left_over dn \<and> (j, i) \<in> needs pkgs) \<longleftrightarrow> \<not> free_item pkgs dn i"
      using lo len by (auto simp: free_item_def left_over_def)
    then have n: "needed_loop pkgs dn i [0..<length pkgs] = Some (\<not> free_item pkgs dn i)"
      using needed_loop_eq [OF d len i(1), of "[0..<length pkgs]"] by (simp add: lessThan_atLeast0)
    show ?thesis
    proof (cases "free_item pkgs dn i")
      case True
      then show ?thesis using False i n lo by simp
    next
      case nf: False
      let ?fb = "if fallback = None then Some i else fallback"
      obtain r where "pick_removal pkgs dn is ?fb = Some r"
        "case r of
           Some i \<Rightarrow> (i \<in> left_over dn \<and> (free_item pkgs dn i \<or> (\<forall>k \<in> set is. \<not> free_item pkgs dn k))) \<or>
             (?fb = Some i \<and> (\<forall>k \<in> set is. \<not> free_item pkgs dn k))
         | None \<Rightarrow> ?fb = None \<and> set is \<inter> left_over dn = {}" using Cons.IH [OF sub, of ?fb] by blast
      then show ?thesis using False i n nf lo by (auto split: option.splits if_splits)
    qed
  qed
qed (simp split: option.split)

lemma pick_removal_spec:
  assumes d: "deps_defined pkgs" and len: "length dn = length pkgs" and ne: "left_over dn \<noteq> {}"
  shows "\<exists>i. pick_removal pkgs dn [0..<length pkgs] None = Some (Some i) \<and> i \<in> left_over dn \<and>
    (acyclic (needs pkgs) \<longrightarrow> free_item pkgs dn i)"
proof -
  obtain r where r: "pick_removal pkgs dn [0..<length pkgs] None = Some r"
    "case r of
       Some i \<Rightarrow> i \<in> left_over dn \<and> (free_item pkgs dn i \<or> (\<forall>k \<in> set [0..<length pkgs]. \<not> free_item pkgs dn k))
     | None \<Rightarrow> set [0..<length pkgs] \<inter> left_over dn = {}"
    using pick_removal_eq [OF d len, of "[0..<length pkgs]" None] by (fastforce simp: lessThan_atLeast0 split: option.splits)
  have sub: "left_over dn \<subseteq> set [0..<length pkgs]" using len by (auto simp: left_over_def)
  then obtain i where i: "r = Some i" using r(2) ne by (cases r) auto
  have "free_item pkgs dn i" if "acyclic (needs pkgs)"
  proof -
    have "wf (needs pkgs)" using finite_acyclic_wf [OF finite_needs that] .
    then obtain k where "k \<in> left_over dn" "\<forall>j. (j, k) \<in> needs pkgs \<longrightarrow> j \<notin> left_over dn"
      using ne by (metis wfE_min all_not_in_conv)
    then have "free_item pkgs dn k" by (auto simp: free_item_def)
    then show ?thesis using r(2) i sub \<open>k \<in> left_over dn\<close> by auto
  qed
  then show ?thesis using r i by auto
qed

subsection \<open>The whole order\<close>

lemma plan_push_no_oom:
  assumes "no_oom mem"
  shows "\<exists>t' mem'. plan_push t op name version expl pkg mem = (TRANS_OK, t', mem') \<and> no_oom mem' \<and>
    requests t' = requests t \<and> obstacles t' = obstacles t \<and> plan_pkgs t' = plan_pkgs t @ [pkg] \<and>
    plan t' = plan t @ [\<lparr>step_op = op, step_pkg_name = name, step_pkg_version = version, step_explicit = expl\<rparr>]"
proof -
  obtain mem1 where m1: "malloc_ok mem = (True, mem1)" "no_oom mem1" using assms by (rule malloc_no_oomE)
  obtain mem2 where m2: "malloc_ok mem1 = (True, mem2)" "no_oom mem2" using m1(2) by (rule malloc_no_oomE)
  have "\<exists>t1 mem3. plan_reserve t mem = (True, t1, mem3) \<and> no_oom mem3"
  proof (cases "plan_cap t = 0 \<or> length (plan t) = plan_cap t")
    case True
    then have "plan_reserve t mem = (True, t\<lparr>plan_cap := if plan_cap t = 0 then 8 else plan_cap t * 2\<rparr>, mem2)"
      using m1 m2 by (auto simp: plan_reserve_def)
    then show ?thesis using m2(2) by blast
  qed (use assms in \<open>simp add: plan_reserve_def\<close>)
  then obtain t1 mem3 where r: "plan_reserve t mem = (True, t1, mem3)" "no_oom mem3" by blast
  obtain mem4 where n: "strdup_m name mem3 = (Some name, mem4)" "no_oom mem4" using strdup_no_oomE [OF r(2)] by metis
  obtain mem6 where s: "\<And>s. strdup_m s mem4 = (Some s, mem6)" "no_oom mem6" using strdup_no_oomE [OF n(2)] by metis
  then have "(case version of None \<Rightarrow> (None, mem4) | Some v \<Rightarrow> strdup_m v mem4) = (version, if version = None then mem4 else mem6)"
    by (simp split: option.split)
  moreover have "no_oom (if version = None then mem4 else mem6)" using n(2) s(2) by simp
  ultimately obtain mem5 where v: "(case version of None \<Rightarrow> (None, mem4) | Some v \<Rightarrow> strdup_m v mem4) = (version, mem5)" "no_oom mem5"
    by blast
  show ?thesis using r n v plan_reserve_requests [OF r(1)] by (simp add: plan_push_def obstacles_def requests_def)
qed

definition remove_step :: "string \<Rightarrow> trans_step" where
  "remove_step name = \<lparr>step_op = TRANS_OP_REMOVE, step_pkg_name = name, step_pkg_version = None, step_explicit = True\<rparr>"

lemma left_over_done: "i \<in> left_over dn \<Longrightarrow> left_over (dn[i := True]) = left_over dn - {i}"
  by (auto simp: left_over_def nth_list_update split: if_splits)

lemma finite_left_over [simp]: "finite (left_over dn)"
  by (rule finite_subset [of _ "{..<length dn}"]) (auto simp: left_over_def)

lemma emit_removals_spec:
  assumes d: "deps_defined pkgs" and names: "length names = length pkgs"
  shows "length dn = length pkgs \<Longrightarrow> card (left_over dn) = n \<Longrightarrow> no_oom mem \<Longrightarrow>
    \<exists>is t' mem'. emit_removals n names pkgs dn t mem = Some (TRANS_OK, t', mem') \<and> no_oom mem' \<and>
      requests t' = requests t \<and> obstacles t' = obstacles t \<and> plan_pkgs t' = plan_pkgs t @ replicate (length is) None \<and>
      plan t' = plan t @ map (\<lambda>i. remove_step (names ! i)) is \<and> distinct is \<and> set is = left_over dn \<and>
      (acyclic (needs pkgs) \<longrightarrow> sorted_wrt (\<lambda>a b. (b, a) \<notin> needs pkgs) is)"
proof (induction n arbitrary: dn t mem)
  case 0
  then show ?case by (auto intro: exI [of _ "[]"])
next
  case (Suc n)
  then have "left_over dn \<noteq> {}" by auto
  then obtain i where i: "pick_removal pkgs dn [0..<length pkgs] None = Some (Some i)" "i \<in> left_over dn"
    "acyclic (needs pkgs) \<longrightarrow> free_item pkgs dn i"
    using pick_removal_spec [OF d Suc.prems(1)] by blast
  have il: "i < length dn" "i < length names" using i(2) Suc.prems(1) names by (simp_all add: left_over_def)
  obtain t1 mem1 where push: "plan_push t TRANS_OP_REMOVE (names ! i) None True None mem = (TRANS_OK, t1, mem1)" "no_oom mem1"
    "requests t1 = requests t" "obstacles t1 = obstacles t" "plan_pkgs t1 = plan_pkgs t @ [None]"
    "plan t1 = plan t @ [remove_step (names ! i)]"
    using plan_push_no_oom [OF Suc.prems(3), of t TRANS_OP_REMOVE "names ! i" None True None] unfolding remove_step_def by auto
  have "card (left_over (dn[i := True])) = n" using left_over_done [OF i(2)] Suc.prems(2) i(2) by simp
  then obtain js t' mem' where js: "emit_removals n names pkgs (dn[i := True]) t1 mem1 = Some (TRANS_OK, t', mem')" "no_oom mem'"
    "requests t' = requests t1" "obstacles t' = obstacles t1" "plan_pkgs t' = plan_pkgs t1 @ replicate (length js) None"
    "plan t' = plan t1 @ map (\<lambda>i. remove_step (names ! i)) js" "distinct js" "set js = left_over dn - {i}"
    "acyclic (needs pkgs) \<longrightarrow> sorted_wrt (\<lambda>a b. (b, a) \<notin> needs pkgs) js"
    using Suc.IH [of "dn[i := True]" mem1 t1] Suc.prems(1) push(2) left_over_done [OF i(2)] by auto
  have "emit_removals (Suc n) names pkgs dn t mem = Some (TRANS_OK, t', mem')" using i(1) il push(1) js(1) by simp
  moreover have "acyclic (needs pkgs) \<longrightarrow> sorted_wrt (\<lambda>a b. (b, a) \<notin> needs pkgs) (i # js)"
    using js(8,9) i(3) by (auto simp: free_item_def)
  ultimately show ?case
    using push js i(2) by (intro exI [of _ "i # js"] exI [of _ t'] exI [of _ mem']) auto
qed

lemma depends_on_defined: "\<forall>p \<in> set_option a \<union> set_option b. no_nulls p \<Longrightarrow> depends_on a b \<noteq> None"
proof -
  assume nn: "\<forall>p \<in> set_option a \<union> set_option b. no_nulls p"
  have "dep_on_target ds name ps \<noteq> None" if "\<forall>d \<in> set ds. dep_name d \<noteq> None" "None \<notin> set ps" for ds name ps
    using that(1)
  proof (induction ds)
    case (Cons d ds)
    then show ?case using provides_match_eq [OF that(2)] by auto
  qed simp
  then show ?thesis using nn
    by (cases a; cases b) (auto simp: depends_on_def no_nulls_def split: option.splits bind_splits)
qed

lemma get_all_no_oom: "no_oom mem \<Longrightarrow> no_oom (snd (snd (get_all L J names db mem)))"
proof (induction names arbitrary: db mem)
  case (Cons n ns)
  obtain p db1 mem1 where g: "db_get L J db (Some n) mem = (p, db1, mem1)" by (metis prod_cases3)
  have "no_oom mem1" using db_get_oom [OF Cons.prems, of L J db "Some n"] g by simp
  then show ?case using Cons.IH [of mem1 db1] g by (simp add: split_def Let_def)
qed simp

text \<open>
  C14. The order of removals.  From the packages it reads, \<open>push_removals_in_order\<close> appends one
  removal step for each name, each name once, and if the dependencies among these packages
  have no cycle, no package is removed while one that depends on it is still to be removed.
  It always returns, also when the dependencies are cyclic.
\<close>

theorem push_removals_dependents_first:
  assumes "lmdb_spec L V" and "no_oom mem" and "get_all L J names db (snd (malloc_ok (snd (malloc_ok mem)))) = (pkgs, db1, mem1)"
    and "\<forall>p \<in> set pkgs. \<forall>q. p = Some q \<longrightarrow> no_nulls q"
  shows "\<exists>is t' db' mem'. push_removals_in_order L J t names db mem = Some (TRANS_OK, t', db', mem') \<and>
    plan t' = plan t @ map (\<lambda>i. remove_step (names ! i)) is \<and> distinct is \<and> set is = {..<length names} \<and>
    (acyclic (needs pkgs) \<longrightarrow> (\<forall>a < length is. \<forall>b < length is. a < b \<longrightarrow> (is ! b, is ! a) \<notin> needs pkgs))"
proof (cases "names = []")
  case True
  then show ?thesis by (auto simp: push_removals_in_order_def)
next
  case False
  obtain m1 where m1: "malloc_ok mem = (True, m1)" "no_oom m1" using assms(2) by (rule malloc_no_oomE)
  obtain m2 where m2: "malloc_ok m1 = (True, m2)" "no_oom m2" using m1(2) by (rule malloc_no_oomE)
  have g: "get_all L J names db m2 = (pkgs, db1, mem1)" using assms(3) m1 m2 by simp
  have len: "length names = length pkgs" using get_all_same [OF assms(1) g] by simp
  have oom: "no_oom mem1" using get_all_no_oom [OF m2(2), of L J names db] g by simp
  have "depends_on p q \<noteq> None" if "p \<in> set pkgs" and "q \<in> set pkgs" for p q
    using assms(4) that by (intro depends_on_defined) auto
  then have def: "deps_defined pkgs" by (auto simp: deps_defined_def)
  let ?dn = "replicate (length names) False"
  have lo: "left_over ?dn = {..<length names}" by (auto simp: left_over_def)
  obtain "is" t' mem' where e: "emit_removals (length names) names pkgs ?dn t mem1 = Some (TRANS_OK, t', mem')"
    "plan t' = plan t @ map (\<lambda>i. remove_step (names ! i)) is" "distinct is" "set is = left_over ?dn"
    "acyclic (needs pkgs) \<longrightarrow> sorted_wrt (\<lambda>a b. (b, a) \<notin> needs pkgs) is"
    using emit_removals_spec [OF def len, of ?dn "length names" mem1 t] len lo oom by auto
  have "push_removals_in_order L J t names db mem = Some (TRANS_OK, t', db1, mem')"
    using False m1 m2 g e(1) by (simp add: push_removals_in_order_def)
  then show ?thesis using e lo by (auto simp: sorted_wrt_iff_nth_less)
qed

theorem push_removals_dependents_first_witness:
  "\<exists>t' db' mem'. push_removals_in_order ref_lmdb codec trans_zero [''ghost'', ''app''] demo_list_db [] = Some (TRANS_OK, t', db', mem') \<and>
     set (plan t') = {remove_step ''ghost'', remove_step ''app''} \<and> length (plan t') = 2"
proof -
  have "fst (db_get ref_lmdb codec demo_list_db (Some ''app'') []) = Some demo_stored" by (rule demo_get)
  then obtain db1 mem1 where a: "db_get ref_lmdb codec demo_list_db (Some ''app'') [] = (Some demo_stored, db1, mem1)" by (cases "db_get ref_lmdb codec demo_list_db (Some ''app'') []") auto
  have "db_get ref_lmdb codec demo_list_db (Some ''ghost'') [] = (None, demo_list_db, [])"
    by (simp add: db_get_def ref_lmdb_def ref_open_def demo_list_db_def)
  then have g: "get_all ref_lmdb codec [''ghost'', ''app''] demo_list_db (snd (malloc_ok (snd (malloc_ok [])))) =
    ([None, Some demo_stored], db1, mem1)" using a by simp
  have "no_nulls demo_stored" by (simp add: no_nulls_def demo_simps)
  then obtain "is" t' db' mem' where r: "push_removals_in_order ref_lmdb codec trans_zero [''ghost'', ''app''] demo_list_db [] = Some (TRANS_OK, t', db', mem')"
    "plan t' = plan trans_zero @ map (\<lambda>i. remove_step ([''ghost'', ''app''] ! i)) is" "distinct is" "set is = {..<length [''ghost'', ''app'']}"
    using push_removals_dependents_first [OF ref_lmdb_spec no_oom_Nil g, of trans_zero] by auto
  have "length is = card (set is)" using r(3) by (simp add: distinct_card)
  moreover have "{..<length [''ghost'', ''app'']} = {0, 1}" by auto
  ultimately show ?thesis using r by (simp add: trans_zero_def)
qed

end
