(* ===== verification/Prepare_Returns.thy ===== *)
theory Prepare_Returns
  imports Removals Install_Laws
begin

text \<open>
  \<open>trans_prepare\<close> returns.  Its phases dereference names and list items without checks and compare
  strings that may be NULL; on packages and records without NULL items none of this goes wrong,
  every loop ends, and the call gives one of its verdicts.
\<close>

subsection \<open>What is read from the database\<close>

definition clean_pkg :: "package \<Rightarrow> bool" where
  "clean_pkg p \<longleftrightarrow> (\<exists>m. pkg_meta p = Some m \<and> strings_ok m)"

lemma clean_no_nulls: "clean_pkg p \<Longrightarrow> no_nulls p"
  by (auto simp: clean_pkg_def no_nulls_def strings_ok_def)

lemma clean_files [simp]: "clean_pkg (p\<lparr>package_files := fs\<rparr>) = clean_pkg p"
  by (simp add: clean_pkg_def)

lemma stored_clean: "pkg_meta p = Some m \<Longrightarrow> clean_pkg (stored p)"
  by (simp add: clean_pkg_def stored_def stored_meta_def strings_ok_def)

lemma from_json_clean:
  assumes J: "yyjson_spec J U" and w: "well_recorded V J U db" and "env_view V (db_env db) None k = Some body" and "no_oom mem"
    and "package_from_json J body mem = (Some q, mem')"
  shows "clean_pkg q"
proof (cases "k \<in> reserved")
  case True
  then have "yyjson_read J body = None" using w assms(3) unfolding well_recorded_def by metis
  then show ?thesis using assms(5) by (simp add: package_from_json_def is_obj_def)
next
  case False
  then obtain p m where p: "package_ok U p" "pkg_meta p = Some m" "pkg_text J p = Some body"
    using w assms(3) unfolding well_recorded_def by metis
  have "fst (package_from_json J body mem) = Some (stored p)"
    using package_from_doc [OF assms(4) p(2,1) pkg_text_read [OF J p(1,3,2)]] by auto
  then show ?thesis using assms(5) stored_clean [OF p(2)] by simp
qed

lemma with_files_clean: "with_files L db p mem = (p', db', mem') \<Longrightarrow> clean_pkg p' = clean_pkg p \<and> (no_oom mem \<longrightarrow> no_oom mem')"
  by (auto simp: with_files_def clean_pkg_def split: option.splits prod.splits) (metis load_files_oom snd_conv)

lemma db_get_clean:
  assumes spec: "lmdb_spec L V" and J: "yyjson_spec J U" and w: "well_recorded V J U db" and mem: "no_oom mem"
    and g: "db_get L J db (Some k) mem = (Some q, db', mem')"
  shows "clean_pkg q"
proof -
  obtain t t1 body p mem1 db1 where t: "mdb_txn_begin L (db_env db) True = Inr t" "mdb_dbi_open L t None False = (MDB_SUCCESS, t1)"
    "mdb_get L t1 None k = Inr body" "package_from_json J body mem = (Some p, mem1)" "with_files L db1 p mem1 = (q, db', mem')"
    using g by (auto simp: db_get_def Let_def split: sum.splits prod.splits if_splits option.splits)
  have "txn_view V t1 = env_view V (db_env db)" using lmdb_begin [OF spec t(1)] lmdb_open_same [OF spec t(2)] by simp
  then have "env_view V (db_env db) None k = Some body" using t(3) lmdb_get [OF spec] by simp
  from from_json_clean [OF J w this mem t(4)] show ?thesis using with_files_clean [OF t(5)] by simp
qed

lemma list_loop_clean:
  assumes J: "yyjson_spec J U" and w: "well_recorded V J U db0"
  shows "\<forall>(k, body) \<in> set recs. env_view V (db_env db0) None k = Some body \<Longrightarrow> no_oom mem \<Longrightarrow> \<forall>p \<in> set acc. clean_pkg p \<Longrightarrow>
    list_loop L J recs acc cap db mem = (ps, db', mem') \<Longrightarrow> (\<forall>p \<in> set ps. clean_pkg p) \<and> no_oom mem'"
proof (induction recs arbitrary: acc cap db mem)
  case (Cons r recs)
  obtain k body where r: "r = (k, body)" by fastforce
  obtain pkg mem1 where p: "package_from_json J body mem = (pkg, mem1)" by fastforce
  have m1: "no_oom mem1" using package_from_json_oom [OF Cons.prems(2), of J body] p by simp
  show ?case
  proof (cases "pkg = None \<or> pkg_meta (the pkg) = None")
    case True
    then have "list_loop L J recs acc cap db mem1 = (ps, db', mem')" using Cons.prems(4) r p by (auto split: option.splits)
    then show ?thesis using Cons.IH [OF _ m1 Cons.prems(3)] Cons.prems(1) by simp
  next
    case False
    then obtain q y where q: "pkg = Some q" "pkg_meta q = Some y" by auto
    obtain q' db1 mem2 where f: "with_files L db q mem1 = (q', db1, mem2)" by (metis prod_cases3)
    obtain cap' mem3 where c: "reserve 16 (length acc) cap mem2 = (True, cap', mem3)" "no_oom mem3"
      using reserve_no_oomE with_files_clean [OF f] m1 by metis
    have "clean_pkg q'" using from_json_clean [OF J w _ Cons.prems(2) p [unfolded q(1)]] Cons.prems(1) r with_files_clean [OF f] by auto
    then have acc: "\<forall>p \<in> set (acc @ [q']). clean_pkg p" using Cons.prems(3) by simp
    have "list_loop L J recs (acc @ [q']) cap' db1 mem3 = (ps, db', mem')" using Cons.prems(4) False r p q f c(1) by simp
    then show ?thesis by (rule Cons.IH [OF _ c(2) acc, rotated]) (use Cons.prems(1) in simp)
  qed
qed simp

lemma db_list_clean:
  assumes spec: "lmdb_spec L V" and J: "yyjson_spec J U" and w: "well_recorded V J U db" and mem: "no_oom mem"
    and l: "db_list L J db mem = (ps, db', mem')"
  shows "(\<forall>p \<in> set (case ps of None \<Rightarrow> [] | Some ps \<Rightarrow> ps). clean_pkg p) \<and> no_oom mem'"
proof -
  obtain recs db1 where rr: "read_records L db = (recs, db1)" by fastforce
  show ?thesis
  proof (cases recs)
    case (Some rs)
    obtain t t1 where t: "mdb_txn_begin L (db_env db) True = Inr t" "mdb_dbi_open L t None False = (MDB_SUCCESS, t1)" "mdb_cursor L t1 None = Some rs"
      using rr Some by (auto simp: read_records_def Let_def split: sum.splits prod.splits if_splits)
    have "txn_view V t1 = env_view V (db_env db)" using lmdb_begin [OF spec t(1)] lmdb_open_same [OF spec t(2)] by simp
    then have "sorted_wrt (<) (map fst rs)" "map_of rs = env_view V (db_env db) None" using lmdb_cursor [OF spec t(3)] by simp_all
    then have "\<forall>(k, body) \<in> set rs. env_view V (db_env db) None k = Some body"
      by (metis (mono_tags, lifting) case_prodI2 map_of_is_SomeI strict_sorted_iff)
    moreover obtain m1 where m1: "malloc_ok mem = (True, m1)" "no_oom m1" using mem by (rule malloc_no_oomE)
    moreover obtain qs db2 m2 where q: "list_loop L J rs [] 16 db1 m1 = (qs, db2, m2)" by (metis prod_cases3)
    ultimately show ?thesis using list_loop_clean [OF J w _ _ _ q] l rr Some by (auto simp: db_list_def)
  qed (use l rr mem in \<open>auto simp: db_list_def\<close>)
qed

text \<open>A handle on such a database, with memory left.\<close>

definition readable :: "('e, 't) lmdb_view \<Rightarrow> yyjson \<Rightarrow> (string \<Rightarrow> bool) \<Rightarrow> 'e db_handle \<Rightarrow> mem \<Rightarrow> bool" where
  "readable V J U db mem \<longleftrightarrow> well_recorded V J U db \<and> no_oom mem"

lemma readable_get:
  assumes "lmdb_spec L V" and "readable V J U db mem" and g: "db_get L J db (Some k) mem = (p, db', mem')"
  shows "readable V J U db' mem'"
  using assms db_get_same [OF assms(1) g] db_get_oom [of mem L J db "Some k"] well_recorded_view [of V db' db J U]
  by (auto simp: readable_def same_db_def)

lemma db_get_dependents_returns:
  assumes spec: "lmdb_spec L V" and J: "yyjson_spec J U" and r: "readable V J U db mem"
  shows "\<exists>deps db' mem'. db_get_dependents L J db (Some name) mem = Some (deps, db', mem') \<and> readable V J U db' mem'"
proof -
  obtain target db1 mem1 where g: "db_get L J db (Some name) mem = (target, db1, mem1)" by (metis prod_cases3)
  obtain all db2 mem2 where l: "db_list L J db1 mem1 = (all, db2, mem2)" by (metis prod_cases3)
  have r1: "readable V J U db1 mem1" by (rule readable_get [OF spec r g])
  have c: "\<forall>p \<in> set (case all of None \<Rightarrow> [] | Some ps \<Rightarrow> ps). clean_pkg p" "no_oom mem2"
    using db_list_clean [OF spec J _ _ l] r1 by (simp_all add: readable_def)
  have r2: "readable V J U db2 mem2"
    using r1 c(2) db_list_same [OF spec l] well_recorded_view [of V db2 db1 J U] by (auto simp: readable_def same_db_def)
  have t: "clean_pkg p" if "target = Some p" for p using db_get_clean [OF spec J _ _ g [unfolded that]] r by (simp add: readable_def)
  let ?prov = "case Option.bind target pkg_meta of None \<Rightarrow> [] | Some m \<Rightarrow> meta_provides m"
  have prov: "None \<notin> set ?prov" using t clean_no_nulls by (auto simp: no_nulls_def split: option.splits bind_splits)
  show ?thesis
  proof (cases all)
    case None
    then show ?thesis using g l r2 by (auto simp: db_get_dependents_def)
  next
    case (Some ps)
    obtain v mem3 where "dependents_loop ps name ?prov str_vec_zero mem2 = Some (v, mem3)" "no_oom mem3"
      using dependents_loop_no_oom [OF prov c(2) sv_holds_zero, of ps name] c(1) Some clean_no_nulls by auto
    then show ?thesis using g l Some r2 by (auto simp: db_get_dependents_def readable_def)
  qed
qed

lemma get_all_clean:
  assumes spec: "lmdb_spec L V" and J: "yyjson_spec J U"
  shows "readable V J U db mem \<Longrightarrow> get_all L J names db mem = (ps, db', mem') \<Longrightarrow>
    (\<forall>p q. p \<in> set ps \<longrightarrow> p = Some q \<longrightarrow> clean_pkg q) \<and> readable V J U db' mem' \<and> length ps = length names"
proof (induction names arbitrary: db mem ps db' mem')
  case (Cons n ns)
  obtain p db1 mem1 where g: "db_get L J db (Some n) mem = (p, db1, mem1)" by (metis prod_cases3)
  obtain qs db2 mem2 where gs: "get_all L J ns db1 mem1 = (qs, db2, mem2)" by (metis prod_cases3)
  have "clean_pkg q" if "p = Some q" for q using db_get_clean [OF spec J _ _ g [unfolded that]] Cons.prems(1) by (simp add: readable_def)
  then show ?case using Cons.IH [OF readable_get [OF spec Cons.prems(1) g] gs] Cons.prems(2) g gs by auto
qed simp

subsection \<open>The graph\<close>

lemma nodes_ok_named: "nodes_ok g \<Longrightarrow> deps_named g"
  by (auto simp: nodes_ok_def deps_named_def strings_ok_def)

lemma add_node_nodes_ok:
  assumes inv: "g_inv g" and ok: "nodes_ok g" "strings_ok p" and a: "add_node g (Some p) inst mem = Some (DEP_OK, g', mem')"
  shows "nodes_ok g'"
proof -
  obtain name where name: "meta_name p = Some name" using ok(2) by (auto simp: strings_ok_def)
  show ?thesis
  proof (cases "dep_graph_find g name")
    case None
    then have "g_nodes g' = g_nodes g @ [node_of p name inst]" using add_node_new [OF inv name None a] by simp
    then show ?thesis using ok by (simp add: nodes_ok_def node_of_def)
  next
    case (Some idx)
    have i: "idx < length (g_nodes g)" using find_Some_iff [OF inv] Some by blast
    have "set (g_nodes g') \<subseteq> insert ((g_nodes g ! idx)\<lparr>node_installed := True\<rparr>) (set (g_nodes g))"
      using a name Some set_update_subset_insert [of "g_nodes g" idx "(g_nodes g ! idx)\<lparr>node_installed := True\<rparr>"]
      by (cases inst; cases g) (auto simp: add_node_def)
    then show ?thesis using ok(1) nth_mem [OF i] unfolding nodes_ok_def by fastforce
  qed
qed

definition sound_graph :: "dep_graph \<Rightarrow> bool" where
  "sound_graph g \<longleftrightarrow> g_inv g \<and> nodes_ok g"

lemma add_metas_returns:
  "sound_graph g \<Longrightarrow> no_oom mem \<Longrightarrow> \<forall>m \<in> set ms. \<exists>p. m = Some p \<and> strings_ok p \<Longrightarrow>
   \<exists>g' mem'. add_metas inst ms g mem = Some (g', mem') \<and> sound_graph g' \<and> no_oom mem'"
proof (induction ms arbitrary: g mem)
  case (Cons m ms)
  then obtain p where p: "m = Some p" "strings_ok p" by auto
  obtain g1 mem1 where a: "add_node g (Some p) inst mem = Some (DEP_OK, g1, mem1)" "no_oom mem1"
    using add_node_no_oom [OF _ p(2) Cons.prems(2), of g inst] Cons.prems(1) unfolding sound_graph_def by blast
  have "sound_graph g1"
    using add_node_inv [OF _ a(1)] add_node_nodes_ok [OF _ _ p(2) a(1)] Cons.prems(1) by (simp add: sound_graph_def)
  from Cons.IH [OF this a(2)] show ?case using Cons.prems(3) a(1) p(1) by (cases inst) (simp_all add: dep_graph_add_def dep_graph_add_installed_def)
qed simp

lemma dep_graph_prefer_oom: "no_oom mem \<Longrightarrow> no_oom (snd (snd (dep_graph_prefer g a p mem)))"
  by (auto simp: dep_graph_prefer_def Let_def split_def reserve_def split: option.split)

lemma add_prefs_sound: "sound_graph g \<Longrightarrow> no_oom mem \<Longrightarrow> sound_graph (fst (add_prefs ps g mem)) \<and> no_oom (snd (add_prefs ps g mem))"
proof (induction ps arbitrary: g mem)
  case (Cons p ps)
  obtain e g1 mem1 where d: "dep_graph_prefer g (Some (pp_alias p)) (Some (pp_pkg_name p)) mem = (e, g1, mem1)" by (metis prod_cases3)
  have "sound_graph g1" using dep_graph_prefer_effect [OF _ d] Cons.prems(1) by (simp add: sound_graph_def nodes_ok_def)
  then show ?case using Cons.IH [of g1 mem1] dep_graph_prefer_oom [OF Cons.prems(2), of g "Some (pp_alias p)" "Some (pp_pkg_name p)"] d by simp
qed simp

definition clean_requests :: "pkg_heap \<Rightarrow> apg_trans \<Rightarrow> bool" where
  "clean_requests H t \<longleftrightarrow> (\<forall>p \<in> set (install_pkgs t) \<union> set (candidate_pkgs t) \<union> set (upgrade_pkgs t). clean_pkg (H p))"

lemma build_graph_returns:
  assumes "sound_graph g" and "no_oom mem" and "clean_requests H t" and "\<forall>p \<in> set inst. clean_pkg p"
  shows "\<exists>g' mem'. build_graph H t inst g mem = Some (g', mem') \<and> sound_graph g' \<and> no_oom mem'"
proof -
  have m: "\<forall>m \<in> set (map (\<lambda>p. pkg_meta (H p)) ps). \<exists>q. m = Some q \<and> strings_ok q" if "\<forall>p \<in> set ps. clean_pkg (H p)" for ps
    using that by (auto simp: clean_pkg_def)
  have req: "\<forall>p \<in> set (install_pkgs t). clean_pkg (H p)" "\<forall>p \<in> set (candidate_pkgs t). clean_pkg (H p)"
    "\<forall>p \<in> set (upgrade_pkgs t). clean_pkg (H p)" using assms(3) by (auto simp: clean_requests_def)
  have i: "\<forall>m \<in> set (filter (\<lambda>m. m \<noteq> None) (map pkg_meta inst)). \<exists>q. m = Some q \<and> strings_ok q"
    using assms(4) by (fastforce simp: clean_pkg_def)
  obtain g1 m1 where 1: "add_metas False (map (\<lambda>p. pkg_meta (H p)) (install_pkgs t)) g mem = Some (g1, m1)" "sound_graph g1" "no_oom m1"
    using add_metas_returns [OF assms(1,2) m [OF req(1)]] by blast
  obtain g2 m2 where 2: "add_metas False (map (\<lambda>p. pkg_meta (H p)) (candidate_pkgs t)) g1 m1 = Some (g2, m2)" "sound_graph g2" "no_oom m2"
    using add_metas_returns [OF 1(2,3) m [OF req(2)]] by blast
  obtain g3 m3 where 3: "add_metas False (map (\<lambda>p. pkg_meta (H p)) (upgrade_pkgs t)) g2 m2 = Some (g3, m3)" "sound_graph g3" "no_oom m3"
    using add_metas_returns [OF 2(2,3) m [OF req(3)]] by blast
  obtain g4 m4 where 4: "add_metas True (filter (\<lambda>m. m \<noteq> None) (map pkg_meta inst)) g3 m3 = Some (g4, m4)" "sound_graph g4" "no_oom m4"
    using add_metas_returns [OF 3(2,3) i] by blast
  show ?thesis using 1(1) 2(1) 3(1) 4(1) add_prefs_sound [OF 4(2,3), of "provider_prefs t"]
    by (cases "add_prefs (provider_prefs t) g4 m4") (simp add: build_graph_def)
qed

subsection \<open>The phases\<close>

lemma resolve_parallel_returns:
  assumes "sound_graph g"
  shows "\<exists>r. dep_graph_resolve_parallel g names mem mems mm = Some r"
proof -
  have g: "g_inv g" "deps_named g" using assms nodes_ok_named by (simp_all add: sound_graph_def)
  obtain ts where "resolve_tasks g names mems 0 = Some ts" using resolve_tasks_total [OF g] by blast
  then show ?thesis using dep_graph_resolve_not_OK [OF g, of _ "mems 0"]
    by (cases names; cases "tl names") (auto simp: dep_graph_resolve_parallel_def Let_def split_def simp del: resolve_tasks.simps)
qed

lemma explain_missing_returns: "sound_graph g \<Longrightarrow> explain_missing g names mems i = Some ()"
proof (induction names arbitrary: i)
  case (Cons name names)
  obtain r where "dep_graph_resolve g (Some name) (mems i) = Some r"
    using dep_graph_resolve_not_OK [of g "Some name" "mems i"] Cons.prems nodes_ok_named by (auto simp: sound_graph_def)
  then show ?case using Cons by (simp split: sum.split)
qed simp

lemma names_of_clean: "\<forall>p \<in> set ps. clean_pkg (H p) \<Longrightarrow> \<exists>names. those (map (pkg_name_of H) ps) = Some names"
  by (induction ps) (auto simp: clean_pkg_def pkg_name_of_def strings_ok_def)

lemma plan_push_keeps: "no_oom mem \<Longrightarrow> plan_push t op name version expl pkg mem = (err, t', mem') \<Longrightarrow> no_oom mem'"
  using plan_push_no_oom [of mem t op name version expl pkg] by auto

lemma plan_unchecked_returns:
  "\<forall>p \<in> set ps. clean_pkg (H p) \<Longrightarrow> no_oom mem \<Longrightarrow>
   \<exists>err t' mem'. plan_unchecked H inst ps t mem = Some (err, t', mem') \<and> no_oom mem'"
proof (induction ps arbitrary: t mem)
  case (Cons p ps)
  obtain m name where m: "pkg_meta (H p) = Some m" "meta_name m = Some name" using Cons.prems(1) by (auto simp: clean_pkg_def strings_ok_def)
  obtain e t1 m1 where push: "plan_push t TRANS_OP_INSTALL name (meta_version m) True (Some p) mem = (e, t1, m1)" by (metis prod_cases3)
  show ?case using Cons.IH [of mem t] Cons.IH [OF _ plan_push_keeps [OF Cons.prems(2) push], of t1] Cons.prems m push
      plan_push_keeps [OF Cons.prems(2) push] by auto
qed simp

lemma plan_order_keeps: "no_oom mem \<Longrightarrow> plan_order H inst names t mem = (err, t', mem') \<Longrightarrow> no_oom mem'"
  by (induction H inst names t mem rule: plan_order.induct)
    (auto simp: Let_def split: if_splits option.splits prod.splits dest: plan_push_keeps)

lemma plan_installs_returns:
  assumes g: "sound_graph g" and H: "\<forall>p \<in> set (install_pkgs t). clean_pkg (H p)" and mem: "no_oom mem"
  shows "\<exists>err t' mem'. plan_installs pm H inst g t mem = Some (err, t', mem') \<and> no_oom mem'"
proof (cases "install_pkgs t = [] \<or> skip_dependency_check t")
  case True
  then show ?thesis using plan_unchecked_returns [OF H mem, of inst t] mem by (auto simp: plan_installs_def)
next
  case False
  obtain m1 where m1: "malloc_ok mem = (True, m1)" "no_oom m1" using mem by (rule malloc_no_oomE)
  obtain names where n: "those (map (pkg_name_of H) (install_pkgs t)) = Some names" using names_of_clean [OF H] by blast
  obtain r where r: "dep_graph_resolve_parallel g (map Some names) (pm_resolve pm) (pm_tasks pm) (pm_merge pm) = Some r"
    using resolve_parallel_returns [OF g] by blast
  show ?thesis
  proof (cases r)
    case (Inl e)
    then show ?thesis using False m1 n r explain_missing_returns [OF g] by (simp add: plan_installs_def)
  next
    case (Inr order)
    then show ?thesis using False m1 n r plan_order_keeps [OF m1(2), of H inst order t]
      by (cases "plan_order H inst order t m1") (simp add: plan_installs_def)
  qed
qed

lemma find_breaks_returns:
  assumes "sound_graph g"
  shows "\<exists>r. dep_graph_find_breaks g (Some name) (map Some inst) mem = Some r"
proof (cases "dep_graph_lookup g name")
  case (Some i)
  have g: "g_inv g" "nodes_ok g" using assms by (simp_all add: sound_graph_def)
  have i: "i < length (g_nodes g)" by (rule dep_graph_lookup_range [OF g(1) Some])
  then have "strings_ok (node_pkg (g_nodes g ! i))" using g(2) by (simp add: nodes_ok_def)
  then show ?thesis using breaks_loop_eq [OF g, of "node_pkg (g_nodes g ! i)" "map Some inst"] Some i
    by (auto simp: dep_graph_find_breaks_def Let_def split_def)
qed (simp add: dep_graph_find_breaks_def)

lemma break_tasks_returns: "sound_graph g \<Longrightarrow> \<exists>ts. break_tasks g inst names mems i = Some ts"
proof (induction names arbitrary: i)
  case (Cons name names)
  obtain r ts where "dep_graph_find_breaks g (Some name) (map Some inst) (mems i) = Some r" "break_tasks g inst names mems (Suc i) = Some ts"
    using find_breaks_returns [OF Cons.prems] Cons.IH [OF Cons.prems] by metis
  then show ?case by simp
qed simp

text \<open>Recording an obstacle allocates, and with memory nothing is used up.\<close>

lemma reserve_keeps: "no_oom mem \<Longrightarrow> reserve i n c mem = (ok, c', mem') \<Longrightarrow> no_oom mem'"
  by (auto simp: reserve_def split: prod.splits if_splits dest: malloc_no_oom)

lemma push_keeps:
  assumes "no_oom mem"
  shows "held_push t name op mem = (err, t', mem') \<Longrightarrow> no_oom mem'"
    and "conflict_push t name b mem = (err, t', mem') \<Longrightarrow> no_oom mem'"
    and "blocked_push t name deps mem = (err, t', mem') \<Longrightarrow> no_oom mem'"
proof -
  have r: "no_oom (snd (snd (reserve i n c mem)))" for i n c using reserve_keeps [OF assms] by (metis surjective_pairing)
  show "held_push t name op mem = (err, t', mem') \<Longrightarrow> no_oom mem'"
    using r by (auto simp: held_push_def Let_def split_def split: if_splits option.splits)
  show "conflict_push t name b mem = (err, t', mem') \<Longrightarrow> no_oom mem'"
    using r by (auto simp: conflict_push_def Let_def split_def split: if_splits option.splits)
  show "blocked_push t name deps mem = (err, t', mem') \<Longrightarrow> no_oom mem'"
    using r by (auto simp: blocked_push_def Let_def split_def split: if_splits option.splits)
qed

lemma push_breaks_keeps: "no_oom mem \<Longrightarrow> push_breaks name bs t mem = (err, t', mem') \<Longrightarrow> no_oom mem'"
  by (induction bs arbitrary: t mem) (auto simp: Let_def split: prod.splits if_splits dest: push_keeps)

lemma collect_breaks_keeps: "no_oom mem \<Longrightarrow> collect_breaks ns ts t mem = (err, t', mem') \<Longrightarrow> no_oom mem'"
  by (induction ns ts t mem rule: collect_breaks.induct) (auto split: prod.splits if_splits dest: push_breaks_keeps)

lemma find_conflicts_returns:
  assumes g: "sound_graph g" and H: "\<forall>p \<in> set (install_pkgs t). clean_pkg (H p)" and mem: "no_oom mem"
  shows "\<exists>err t' mem'. find_conflicts pm H inst g t mem = Some (err, t', mem') \<and> no_oom mem'"
proof (cases "install_pkgs t = []")
  case False
  obtain m1 where m1: "malloc_ok mem = (True, m1)" "no_oom m1" using mem by (rule malloc_no_oomE)
  obtain m2 where m2: "malloc_ok m1 = (True, m2)" "no_oom m2" using m1(2) by (rule malloc_no_oomE)
  obtain names ts where n: "those (map (pkg_name_of H) (install_pkgs t)) = Some names" "break_tasks g inst names (pm_breaks pm) 0 = Some ts"
    using names_of_clean [OF H] break_tasks_returns [OF g] by metis
  then show ?thesis using False m1 m2 collect_breaks_keeps [OF m2(2), of names ts t]
    by (cases "collect_breaks names ts t m2") (simp add: find_conflicts_def)
qed (simp add: find_conflicts_def mem)

lemma plan_upgrades_returns:
  assumes spec: "lmdb_spec L V"
  shows "\<forall>p \<in> set ps. clean_pkg (H p) \<Longrightarrow> readable V J U db mem \<Longrightarrow>
    \<exists>err t' db' mem'. plan_upgrades L J H ps t db mem = Some (err, t', db', mem') \<and> readable V J U db' mem'"
proof (induction ps arbitrary: t db mem)
  case (Cons p ps)
  obtain m name where m: "pkg_meta (H p) = Some m" "meta_name m = Some name" using Cons.prems(1) by (auto simp: clean_pkg_def strings_ok_def)
  obtain i db1 m1 where g: "db_get L J db (Some name) mem = (i, db1, m1)" by (metis prod_cases3)
  have r1: "readable V J U db1 m1" by (rule readable_get [OF spec Cons.prems(2) g])
  let ?held = "case i of None \<Rightarrow> False | Some i \<Rightarrow> held i" and ?hand = "case i of None \<Rightarrow> True | Some i \<Rightarrow> installed_by_hand i"
  obtain e t1 m2 where push: "(if ?held then held_push t name TRANS_OP_UPGRADE m1
      else plan_push t TRANS_OP_UPGRADE name (meta_version m) ?hand (Some p) m1) = (e, t1, m2)" by (metis prod_cases3)
  have m1: "no_oom m1" using r1 by (simp add: readable_def)
  have r2: "readable V J U db1 m2"
    using push r1 push_keeps(1) [OF m1, of t name TRANS_OP_UPGRADE e t1 m2]
      plan_push_keeps [OF m1, of t TRANS_OP_UPGRADE name "meta_version m" ?hand "Some p" e t1 m2]
    by (simp add: readable_def split: if_splits)
  have "plan_upgrades L J H (p # ps) t db mem = (if e \<noteq> TRANS_OK then Some (e, t1, db1, m2) else plan_upgrades L J H ps t1 db1 m2)"
    using m g push by (simp add: Let_def)
  then show ?case using r2 Cons.IH [OF _ r2, of t1] Cons.prems(1) by simp
qed simp

lemma check_removals_returns:
  assumes spec: "lmdb_spec L V" and J: "yyjson_spec J U"
  shows "readable V J U db mem \<Longrightarrow>
    \<exists>err rs' t' db' mem'. check_removals L J ns rs t db mem = Some (err, rs', t', db', mem') \<and> readable V J U db' mem'"
proof (induction ns arbitrary: rs t db mem)
  case (Cons n ns)
  obtain i db1 m1 where g: "db_get L J db (Some n) mem = (i, db1, m1)" by (metis prod_cases3)
  have r1: "readable V J U db1 m1" by (rule readable_get [OF spec Cons.prems g])
  obtain e1 t1 m2 where h: "held_push t n TRANS_OP_REMOVE m1 = (e1, t1, m2)" by (metis prod_cases3)
  have r2: "readable V J U db1 m2" using r1 push_keeps(1) [OF _ h] by (simp add: readable_def)
  obtain deps db2 m3 where d: "db_get_dependents L J db1 (Some n) m1 = Some (deps, db2, m3)" and r3: "readable V J U db2 m3"
    using db_get_dependents_returns [OF spec J r1] by blast
  let ?kept = "filter (\<lambda>d. \<not> in_strarray (remove_names t) d) (case deps of None \<Rightarrow> [] | Some ds \<Rightarrow> ds)"
  obtain e2 t2 m4 where b: "blocked_push t n ?kept m3 = (e2, t2, m4)" by (metis prod_cases3)
  have r4: "readable V J U db2 m4" using r3 push_keeps(3) [OF _ b] by (simp add: readable_def)
  show ?case
  proof (cases "case i of None \<Rightarrow> False | Some i \<Rightarrow> held i")
    case True
    then have "check_removals L J (n # ns) rs t db mem = (if e1 \<noteq> TRANS_OK then Some (e1, rs, t1, db1, m2) else check_removals L J ns rs t1 db1 m2)"
      using g h by simp
    then show ?thesis using r2 Cons.IH [OF r2, of rs t1] by simp
  next
    case False
    then have "check_removals L J (n # ns) rs t db mem =
      (if skip_dependents_check t then check_removals L J ns (rs @ [n]) t db1 m1
       else if ?kept = [] then check_removals L J ns (rs @ [n]) t db2 m3
       else if e2 \<noteq> TRANS_OK then Some (e2, rs, t2, db2, m4) else check_removals L J ns rs t2 db2 m4)"
      using g d b by (simp add: Let_def)
    then show ?thesis using r4 Cons.IH [OF r1, of "rs @ [n]" t] Cons.IH [OF r3, of "rs @ [n]" t] Cons.IH [OF r4, of rs t2]
      by (cases "skip_dependents_check t"; cases "?kept = []"; cases "e2 = TRANS_OK") (simp_all del: check_removals.simps)
  qed
qed simp

lemma push_removals_returns:
  assumes spec: "lmdb_spec L V" and J: "yyjson_spec J U" and r: "readable V J U db mem"
  shows "\<exists>err t' db' mem'. push_removals_in_order L J t names db mem = Some (err, t', db', mem')"
proof (cases "names = []")
  case False
  obtain m1 where m1: "malloc_ok mem = (True, m1)" "no_oom m1" using r unfolding readable_def by (metis malloc_no_oomE)
  obtain m2 where m2: "malloc_ok m1 = (True, m2)" "no_oom m2" using m1(2) by (rule malloc_no_oomE)
  obtain ps db1 m3 where g: "get_all L J names db m2 = (ps, db1, m3)" by (metis prod_cases3)
  have c: "\<forall>p q. p \<in> set ps \<longrightarrow> p = Some q \<longrightarrow> clean_pkg q" "no_oom m3" "length names = length ps"
    using get_all_clean [OF spec J _ g] r m2(2) by (auto simp: readable_def)
  have "depends_on p q \<noteq> None" if "p \<in> set ps" "q \<in> set ps" for p q
    using c(1) that clean_no_nulls by (intro depends_on_defined) (auto dest: clean_no_nulls)
  then have def: "deps_defined ps" by (auto simp: deps_defined_def)
  let ?dn = "replicate (length names) False"
  have "left_over ?dn = {..<length names}" by (auto simp: left_over_def)
  then obtain t' m' where "emit_removals (length names) names ps ?dn t m3 = Some (TRANS_OK, t', m')"
    using emit_removals_spec [OF def c(3), of ?dn "length names" m3 t] c by auto
  then show ?thesis using False m1 m2 g by (simp add: push_removals_in_order_def)
qed (simp add: push_removals_in_order_def)

lemma plan_removals_returns:
  assumes spec: "lmdb_spec L V" and J: "yyjson_spec J U" and r: "readable V J U db mem"
  shows "\<exists>err t' db' mem'. plan_removals L J t db mem = Some (err, t', db', mem')"
proof -
  obtain m where m: "(if remove_names t = [] then (True, mem) else malloc_ok mem) = (True, m)" "readable V J U db m"
    using r by (cases "remove_names t = []") (auto simp: readable_def elim: malloc_no_oomE [of mem])
  obtain e rs t1 db1 m1 where c: "check_removals L J (remove_names t) [] t db m = Some (e, rs, t1, db1, m1)" "readable V J U db1 m1"
    using check_removals_returns [OF spec J m(2)] by blast
  show ?thesis using m(1) c push_removals_returns [OF spec J c(2), of t1 rs] by (auto simp: plan_removals_def)
qed

lemma returns3_good_path:
  "good_path r \<Longrightarrow> returns3 f Q \<Longrightarrow> (\<And>p. cstring p \<Longrightarrow> returns3 (g p) Q) \<Longrightarrow> returns3 (\<lambda>s. case r of None \<Rightarrow> f s | Some p \<Rightarrow> g p s) Q"
  by (cases r) (auto simp: good_path_def)

lemma collect_returns:
  assumes P: "posix_ok P" and A: "archive_ok A" and str: "cstring tmp" "cstring root_path"
  shows "returns3 (package_collect_files tmp P A (Some p) root_path) (\<lambda>_. True)"
proof (cases "pkg_path p")
  case None
  then show ?thesis by (auto simp: package_collect_files_def returns3_def)
next
  case (Some path)
  have c: "returns (collect_files DEPTH P src) (\<lambda>_. True)" if "cstring src" for src
    unfolding returns_def using collect_files_ok [OF posix_okD(1,2) [OF P] that] runsI by blast
  have rm: "returns3 (\<lambda>s. Option.bind (remove_dir_recursive DEPTH P dir s) (\<lambda>s. Some (a, b, s))) (\<lambda>_. True)" for dir and a :: bool and b :: "package option"
    by (rule returns3_bind0 [OF returns0_remove_dir [OF P] returns3_pure]) simp
  have files: "returns3 (\<lambda>s. Option.bind (collect_files DEPTH P src s) (\<lambda>(fs, s). Option.bind (remove_dir_recursive DEPTH P dir s)
      (\<lambda>s. Some (True, Some (p\<lparr>package_files := (case fs of None \<Rightarrow> [] | Some fs \<Rightarrow> fs)\<rparr>), s)))) (\<lambda>_. True)" if "cstring src" for src dir
    by (rule returns3_bind [OF c [OF that] rm])
  show ?thesis
    by (simp only: package_collect_files_def [abs_def] Some option.case option.simps if_False,
        rule returns3_bind [OF returns_tmp_dir [OF str]], rule returns3_good_path, assumption, simp add: returns3_pure,
        rule returns3_bind [OF returns_unarchive [OF A]], rule returns3_if [OF rm], rule returns3_bind [OF returns_path], assumption, simp,
        rule returns3_good_path, assumption, rule rm, rule files)
qed

lemma find_file_conflicts_returns:
  assumes P: "posix_ok (h_posix E)" and A: "archive_ok (h_archive E)" and tmp: "cstring (h_tmp_dir E)"
  shows "\<exists>err t' x'. find_file_conflicts E ps t x = Some (err, t', x')"
proof (induction ps arbitrary: t x)
  case (Cons p ps)
  show ?case
  proof (cases "pkg_name_of (r_pkgs x) p")
    case None
    then show ?thesis using Cons.IH by simp
  next
    case (Some name)
    have "returns3 (package_collect_files (h_tmp_dir E) (h_posix E) (h_archive E) (Some (r_pkgs x p)) ''/'') (\<lambda>_. True)"
      by (rule collect_returns [OF P A tmp]) simp
    then obtain ok q s where "package_collect_files (h_tmp_dir E) (h_posix E) (h_archive E) (Some (r_pkgs x p)) ''/'' (r_proc x) = Some (ok, q, s)"
      unfolding returns3_def by blast
    then have "\<exists>x'. run_collect E p ''/'' x = Some x'" by (simp add: run_collect_def)
    then obtain x1 where "(if package_files (r_pkgs x p) = [] then run_collect E p ''/'' x else Some x) = Some x1" by (metis (full_types))
    then show ?thesis using Some Cons.IH
      by (cases "check_files (h_lmdb E) name (package_files (r_pkgs x1 p)) t (r_db x1) (pmem (r_proc x1))") (simp add: Let_def)
  qed
qed simp

subsection \<open>The whole\<close>

lemma prepare_phases_returns:
  assumes spec: "lmdb_spec (h_lmdb E) V" and J: "yyjson_spec (h_json E) U" and r: "readable V (h_json E) U (r_db x) (pmem (r_proc x))"
    and P: "posix_ok (h_posix E)" and A: "archive_ok (h_archive E)" and tmp: "cstring (h_tmp_dir E)"
    and g: "sound_graph g" and H: "clean_requests (r_pkgs x) t"
  shows "\<exists>err t' x'. prepare_phases E pm inst g t x = Some (err, t', x')"
proof -
  let ?H = "r_pkgs x"
  have mem: "no_oom (pmem (r_proc x))" using r by (simp add: readable_def)
  have Hi: "\<forall>p \<in> set (install_pkgs t). clean_pkg (?H p)" and Hu: "\<forall>p \<in> set (upgrade_pkgs t). clean_pkg (?H p)"
    using H by (simp_all add: clean_requests_def)
  obtain e1 t1 m1 where p1: "plan_installs pm ?H inst g t (pmem (r_proc x)) = Some (e1, t1, m1)" "no_oom m1"
    using plan_installs_returns [OF g Hi mem] by blast
  have "requests t1 = requests t" using plan_installs_plans [OF p1(1)] by (auto simp: plans_def)
  note q1 = requests_eqD [OF this]
  have Hi1: "\<forall>p \<in> set (install_pkgs t1). clean_pkg (?H p)" using Hi q1 by simp
  obtain e2 t2 m2 where p2: "find_conflicts pm ?H inst g t1 m1 = Some (e2, t2, m2)" "no_oom m2"
    using find_conflicts_returns [OF g Hi1 p1(2)] by blast
  have "requests t2 = requests t1" using find_conflicts_effect [OF p2(1)] by (simp add: only_conflicts_def)
  note q2 = requests_eqD [OF this]
  have Hu2: "\<forall>p \<in> set (upgrade_pkgs t2). clean_pkg (?H p)" using Hu q1 q2 by simp
  have r2: "readable V (h_json E) U (r_db x) m2" using r p2(2) by (simp add: readable_def)
  obtain e3 t3 db3 m3 where p3: "plan_upgrades (h_lmdb E) (h_json E) ?H (upgrade_pkgs t2) t2 (r_db x) m2 = Some (e3, t3, db3, m3)"
    "readable V (h_json E) U db3 m3"
    using plan_upgrades_returns [OF spec Hu2 r2] by blast
  obtain e4 t4 db4 m4 where p4: "plan_removals (h_lmdb E) (h_json E) t3 db3 m3 = Some (e4, t4, db4, m4)"
    using plan_removals_returns [OF spec J p3(2)] by blast
  obtain e5 t5 x5 where p5: "find_file_conflicts E (install_pkgs t4) t4 (run_mem db4 m4 x) = Some (e5, t5, x5)"
    using find_file_conflicts_returns [OF P A tmp] by blast
  show ?thesis using p1(1) p2(1) p3(1) p4 p5 by (cases "verdict t5") (simp add: prepare_phases_def Let_def)
qed

lemma dep_graph_new_keeps: "no_oom mem \<Longrightarrow> \<exists>g mem'. dep_graph_new mem = (Some g, mem') \<and> sound_graph g \<and> no_oom mem'"
proof -
  assume mem: "no_oom mem"
  obtain m1 where m1: "malloc_ok mem = (True, m1)" "no_oom m1" using mem by (rule malloc_no_oomE)
  obtain m2 where m2: "malloc_ok m1 = (True, m2)" "no_oom m2" using m1(2) by (rule malloc_no_oomE)
  obtain m3 where m3: "malloc_ok m2 = (True, m3)" "no_oom m3" using m2(2) by (rule malloc_no_oomE)
  obtain m4 where m4: "malloc_ok m3 = (True, m4)" "no_oom m4" using m3(2) by (rule malloc_no_oomE)
  obtain g m where "dep_graph_new mem = (Some g, m)" "no_oom m"
    using m1 m2 m3 m4 by (auto simp: dep_graph_new_def str_map_init_def Let_def)
  then show ?thesis using dep_graph_new_inv [of mem g m] by (auto simp: sound_graph_def nodes_ok_def)
qed

lemma trans_prepare_total:
  assumes spec: "lmdb_spec (h_lmdb E) V" and J: "yyjson_spec (h_json E) U" and w: "well_recorded V (h_json E) U (r_db x)"
    and mem: "no_oom (pmem (r_proc x))" and P: "posix_ok (h_posix E)" and A: "archive_ok (h_archive E)" and tmp: "cstring (h_tmp_dir E)"
    and H: "clean_requests (r_pkgs x) t"
  shows "\<exists>err t' x'. trans_prepare E pm t x = Some (err, t', x')"
proof (cases "prepared t")
  case False
  obtain ls db m where l: "db_list (h_lmdb E) (h_json E) (r_db x) (pmem (r_proc x)) = (ls, db, m)" by (metis prod_cases3)
  let ?inst = "case ls of None \<Rightarrow> [] | Some ps \<Rightarrow> ps"
  have c: "\<forall>p \<in> set ?inst. clean_pkg p" "no_oom m" using db_list_clean [OF spec J w mem l] by auto
  have w1: "well_recorded V (h_json E) U db"
    using w db_list_same [OF spec l] well_recorded_view [of V db "r_db x"] by (auto simp: same_db_def)
  obtain m1 where m1: "(if ?inst = [] then (True, m) else malloc_ok m) = (True, m1)" "no_oom m1"
    using c(2) by (cases "?inst = []") (auto elim: malloc_no_oomE [of m])
  obtain g m2 where g: "dep_graph_new m1 = (Some g, m2)" "sound_graph g" "no_oom m2" using dep_graph_new_keeps [OF m1(2)] by blast
  obtain g' m3 where b: "build_graph (r_pkgs x) t ?inst g m2 = Some (g', m3)" "sound_graph g'" "no_oom m3"
    using build_graph_returns [OF g(2,3) H c(1)] by blast
  have "readable V (h_json E) U (r_db (run_mem db m3 x)) (pmem (r_proc (run_mem db m3 x)))" using w1 b(3) by (simp add: readable_def)
  then obtain err t' x' where "prepare_phases E pm (map installed_name ?inst) g' t (run_mem db m3 x) = Some (err, t', x')"
    using prepare_phases_returns [OF spec J _ P A tmp b(2), of "run_mem db m3 x" t pm "map installed_name ?inst"] H by auto
  then show ?thesis using False l m1(1) g(1) b(1) by (simp add: trans_prepare_def Let_def)
qed (simp add: trans_prepare_def)


definition app_request :: apg_trans where
  "app_request = trans_zero\<lparr>install_pkgs := [0], install_cap := 8, remove_names := [''lib''], remove_cap := 8\<rparr>"

definition app_run :: "(ref_env, ref_world) run" where
  "app_run = demo_run\<lparr>r_pkgs := (\<lambda>_. stored sample_pkg), r_db := demo_list_db\<rparr>"


end
