(* ===== verification/Commit.thy ===== *)
theory Commit
  imports Prepare
begin

text \<open>
  \<open>src/transaction/backup.c\<close> and \<open>commit.c\<close>: carrying out a plan, and undoing what was done when
  a step fails.
\<close>

text \<open>The loop that unlinks the files of a list below the root.\<close>

fun unlink_files :: "'w posix \<Rightarrow> string \<Rightarrow> str_list \<Rightarrow> 'w proc \<Rightarrow> 'w proc option" where
  "unlink_files P root_path [] s = Some s"
| "unlink_files P root_path (None # fs) s = unlink_files P root_path fs s"
| "unlink_files P root_path (Some f # fs) s =
     do {
       (path, s) \<leftarrow> join_dirs root_path f s;
       unlink_files P root_path fs (case path of None \<Rightarrow> s | Some p \<Rightarrow> unlink_call P p s)
     }"

subsection \<open>\<open>backup.c\<close>\<close>

record upgrade_backup =
  bk_previous :: "package option"
  bk_dir :: pstr
  bk_had_scripts :: bool

definition no_backup :: upgrade_backup where
  "no_backup = \<lparr>bk_previous = None, bk_dir = None, bk_had_scripts = False\<rparr>"

text \<open>The part before the last slash; nothing to create when that is the first character.\<close>

definition dir_part :: "string \<Rightarrow> pstr" where
  "dir_part path =
     (let rest = dropWhile (\<lambda>c. c \<noteq> slash) (rev path) in
      if length rest \<le> 1 then None else Some (rev (tl rest)))"

definition make_parent_dirs :: "'w posix \<Rightarrow> string \<Rightarrow> 'w proc \<Rightarrow> (bool \<times> 'w proc) option" where
  "make_parent_dirs P path s =
     (let (copy, s) = mem_call (strdup_m path) s in
      case copy of
        None \<Rightarrow> Some (False, s)
      | Some c \<Rightarrow> (case dir_part c of None \<Rightarrow> Some (True, s) | Some d \<Rightarrow> apg_make_dirs P d s))"

definition copy_entry :: "'w posix \<Rightarrow> string \<Rightarrow> string \<Rightarrow> 'w proc \<Rightarrow> (bool \<times> 'w proc) option" where
  "copy_entry P src dst s =
     (case os_lstat P (world s) src of
        None \<Rightarrow> Some (True, s)
      | Some m \<Rightarrow> do {
          (ok, s) \<leftarrow> make_parent_dirs P dst s;
          if \<not> ok then Some (False, s)
          else
            let s = unlink_call P dst s in
            if S_ISLNK m then
              (case os_readlink P (world s) src of
                 None \<Rightarrow> Some (False, s)
               | Some target \<Rightarrow> Some (fs_call dst (os_symlink P (take (PATH_MAX - 1) target) dst) s))
            else if S_ISREG m then Some (copy_file P src dst s)
            else Some (True, s)
        })"

definition backup_path :: "pstr \<Rightarrow> string \<Rightarrow> 'w proc \<Rightarrow> (pstr \<times> 'w proc) option" where
  "backup_path dir rel s =
     do {
       d \<leftarrow> dir;
       (files, s) \<leftarrow> join_dirs d ''files'' s;
       case files of None \<Rightarrow> Some (None, s) | Some f \<Rightarrow> join_dirs f rel s
     }"

fun backup_files :: "'w posix \<Rightarrow> string \<Rightarrow> pstr \<Rightarrow> str_list \<Rightarrow> 'w proc \<Rightarrow> (bool \<times> 'w proc) option" where
  "backup_files P root_path dir [] s = Some (True, s)"
| "backup_files P root_path dir (None # fs) s = backup_files P root_path dir fs s"
| "backup_files P root_path dir (Some f # fs) s =
     do {
       (src, s) \<leftarrow> join_dirs root_path f s;
       (dst, s) \<leftarrow> backup_path dir f s;
       (case (src, dst) of
          (Some a, Some b) \<Rightarrow> do {
            (ok, s) \<leftarrow> copy_entry P a b s;
            if \<not> ok then Some (False, s) else backup_files P root_path dir fs s
          }
        | _ \<Rightarrow> Some (False, s))
     }"

definition backup_scripts ::
  "'w posix \<Rightarrow> string \<Rightarrow> string \<Rightarrow> upgrade_backup \<Rightarrow> 'w proc \<Rightarrow> (bool \<times> upgrade_backup \<times> 'w proc) option" where
  "backup_scripts P root_path pkg_name bk s =
     do {
       (store, s) \<leftarrow> scripts_store_path root_path pkg_name s;
       case store of
         None \<Rightarrow> Some (True, bk, s)
       | Some st \<Rightarrow>
           if \<not> is_dir (os_stat P (world s) st) then Some (True, bk, s)
           else do {
             dir \<leftarrow> bk_dir bk;
             (saved, s) \<leftarrow> join_dirs dir ''scripts'' s;
             (ok, s) \<leftarrow> (case saved of None \<Rightarrow> Some (False, s) | Some d \<Rightarrow> copy_dir DEPTH P st d s);
             Some (ok, bk\<lparr>bk_had_scripts := ok\<rparr>, s)
           }
     }"

definition upgrade_backup_create ::
  "('e, 't, 'w) host \<Rightarrow> string \<Rightarrow> string \<Rightarrow> ('e, 'w) run \<Rightarrow> (bool \<times> upgrade_backup \<times> ('e, 'w) run) option" where
  "upgrade_backup_create E pkg_name root_path x =
     (let P = h_posix E; (prev, x) = run_db_get E pkg_name x in
      case prev of
        None \<Rightarrow> Some (True, no_backup, x)
      | Some p \<Rightarrow>
          let (seq, s) = next_backup_seq (r_proc x);
              leaf = snprintf_to 64 (''backup-'' @ print_pid (os_getpid P (world s)) @ ''-'' @ print_nat (unat seq))
          in do {
            (base, s) \<leftarrow> join_dirs root_path (h_tmp_dir E) s;
            (dir, s) \<leftarrow> (case base of None \<Rightarrow> Some (None, s) | Some b \<Rightarrow> join_dirs b leaf s);
            let bk = \<lparr>bk_previous = Some p, bk_dir = dir, bk_had_scripts = False\<rparr>;
            (ok, s) \<leftarrow> (case dir of None \<Rightarrow> Some (False, s) | Some d \<Rightarrow> apg_make_dirs P d s);
            if \<not> ok then Some (False, bk, x\<lparr>r_proc := s\<rparr>)
            else do {
              (ok, s) \<leftarrow> backup_files P root_path dir (package_files p) s;
              if \<not> ok then Some (False, bk, x\<lparr>r_proc := s\<rparr>)
              else do {
                (ok, bk, s) \<leftarrow> backup_scripts P root_path pkg_name bk s;
                Some (ok, bk, x\<lparr>r_proc := s\<rparr>)
              }
            }
          })"

fun restore_files :: "'w posix \<Rightarrow> string \<Rightarrow> pstr \<Rightarrow> str_list \<Rightarrow> 'w proc \<Rightarrow> 'w proc option" where
  "restore_files P root_path dir [] s = Some s"
| "restore_files P root_path dir (None # fs) s = restore_files P root_path dir fs s"
| "restore_files P root_path dir (Some f # fs) s =
     do {
       (src, s) \<leftarrow> backup_path dir f s;
       (dst, s) \<leftarrow> join_dirs root_path f s;
       s \<leftarrow> (case (src, dst) of
               (Some a, Some b) \<Rightarrow> do { (_, s) \<leftarrow> copy_entry P a b s; Some s }
             | _ \<Rightarrow> Some s);
       restore_files P root_path dir fs s
     }"

definition restore_scripts :: "'w posix \<Rightarrow> string \<Rightarrow> pstr \<Rightarrow> upgrade_backup \<Rightarrow> 'w proc \<Rightarrow> 'w proc option" where
  "restore_scripts P root_path pkg_name bk s =
     do {
       name \<leftarrow> pkg_name;
       (store, s) \<leftarrow> scripts_store_path root_path name s;
       case store of
         None \<Rightarrow> Some s
       | Some st \<Rightarrow> do {
           s \<leftarrow> remove_dir_recursive DEPTH P st s;
           if \<not> bk_had_scripts bk then Some s
           else do {
             dir \<leftarrow> bk_dir bk;
             (saved, s) \<leftarrow> join_dirs dir ''scripts'' s;
             case saved of None \<Rightarrow> Some s | Some d \<Rightarrow> do { (_, s) \<leftarrow> copy_dir DEPTH P d st s; Some s }
           }
         }
     }"

text \<open>Called with a backup that has a previous package, and with the package that replaced it.\<close>

definition upgrade_backup_restore ::
  "('e, 't, 'w) host \<Rightarrow> upgrade_backup \<Rightarrow> package \<Rightarrow> string \<Rightarrow> ('e, 'w) run \<Rightarrow> ('e, 'w) run option" where
  "upgrade_backup_restore E bk new_pkg root_path x =
     do {
       prev \<leftarrow> bk_previous bk;
       x \<leftarrow> run_proc0 (unlink_files (h_posix E) root_path (package_files new_pkg)) x;
       x \<leftarrow> run_proc0 (restore_files (h_posix E) root_path (bk_dir bk) (package_files prev)) x;
       m \<leftarrow> pkg_meta prev;
       x \<leftarrow> run_proc0 (restore_scripts (h_posix E) root_path (meta_name m) bk) x;
       (_, x) \<leftarrow> run_db_add E prev x;
       Some x
     }"

definition upgrade_backup_discard :: "('e, 't, 'w) host \<Rightarrow> upgrade_backup \<Rightarrow> ('e, 'w) run \<Rightarrow> ('e, 'w) run option" where
  "upgrade_backup_discard E bk x =
     (case bk_dir bk of None \<Rightarrow> Some x | Some d \<Rightarrow> run_proc0 (remove_dir_recursive DEPTH (h_posix E) d) x)"

subsection \<open>Configuration files\<close>

record conf_backup =
  cb_path :: string
  cb_data :: string

definition resolve_conf_path :: "'w posix \<Rightarrow> string \<Rightarrow> string \<Rightarrow> 'w proc \<Rightarrow> (pstr \<times> 'w proc) option" where
  "resolve_conf_path P root_path entry s =
     (if take 5 entry = ''$HOME''
      then (case os_getenv_home P (world s) of
              None \<Rightarrow> Some (None, s)
            | Some home \<Rightarrow> join_dirs home (drop 5 entry) s)
      else join_dirs root_path entry s)"

text \<open>A file that cannot be opened, whose bytes cannot be allocated or read, is left out.\<close>

fun save_conf_loop :: "'w posix \<Rightarrow> string \<Rightarrow> str_list \<Rightarrow> conf_backup list \<Rightarrow> 'w proc \<Rightarrow> (conf_backup list \<times> 'w proc) option" where
  "save_conf_loop P root_path [] bk s = Some (bk, s)"
| "save_conf_loop P root_path (None # cs) bk s = save_conf_loop P root_path cs bk s"
| "save_conf_loop P root_path (Some c # cs) bk s =
     do {
       (full, s) \<leftarrow> resolve_conf_path P root_path c s;
       (case full of
          None \<Rightarrow> save_conf_loop P root_path cs bk s
        | Some path \<Rightarrow>
            (case os_open_read P (world s) path of
               None \<Rightarrow> save_conf_loop P root_path cs bk s
             | Some (bytes, err) \<Rightarrow>
                 let (ok, s) = mem_call malloc_ok s in
                 save_conf_loop P root_path cs (if ok \<and> \<not> err then bk @ [\<lparr>cb_path = path, cb_data = bytes\<rparr>] else bk) s))
     }"

definition save_confs :: "'w posix \<Rightarrow> string \<Rightarrow> str_list \<Rightarrow> 'w proc \<Rightarrow> (conf_backup list option \<times> 'w proc) option" where
  "save_confs P root_path conf s =
     (if conf = [] then Some (None, s)
      else let (ok, s) = mem_call malloc_ok s in
        if \<not> ok then Some (None, s)
        else do { (bk, s) \<leftarrow> save_conf_loop P root_path conf [] s; Some (Some bk, s) })"

fun restore_confs :: "'w posix \<Rightarrow> conf_backup list \<Rightarrow> 'w proc \<Rightarrow> 'w proc" where
  "restore_confs P [] s = s"
| "restore_confs P (b # bs) s =
     (let apg_new = snprintf_to PATH_MAX (cb_path b @ ''.apg-new'');
          s = snd (fs_call (cb_path b) (os_rename P (cb_path b) apg_new) s);
          s = s\<lparr>touched := touched s @ [apg_new]\<rparr>;
          (opened, s) = fs_call (cb_path b) (os_open_write P (cb_path b)) s;
          s = (if opened
               then snd (fs_call (cb_path b) (os_close P (cb_path b)) (snd (fs_call (cb_path b) (os_write P (cb_path b) (cb_data b)) s)))
               else s)
      in restore_confs P bs s)"

subsection \<open>Undoing\<close>

definition rollback_one ::
  "('e, 't, 'w) host \<Rightarrow> trans_step \<Rightarrow> addr option \<Rightarrow> upgrade_backup \<Rightarrow> string \<Rightarrow> ('e, 'w) run \<Rightarrow> ('e, 'w) run option" where
  "rollback_one E step pkg bk root_path x =
     (if bk_previous bk \<noteq> None
      then do {
        p \<leftarrow> pkg;
        x \<leftarrow> upgrade_backup_restore E bk (r_pkgs x p) root_path x;
        Some (run_journal E JOURNAL_ROLLBACK step True False x)
      }
      else do {
        x \<leftarrow> (case pkg of
                None \<Rightarrow> Some x
              | Some p \<Rightarrow> run_proc0 (unlink_files (h_posix E) root_path (package_files (r_pkgs x p))) x);
        let (_, x) = run_db_remove E (step_pkg_name step) x;
        Some (run_journal E JOURNAL_ROLLBACK step True False x)
      })"

text \<open>The indices are given last first.\<close>

fun rollback_committed ::
  "('e, 't, 'w) host \<Rightarrow> apg_trans \<Rightarrow> upgrade_backup list \<Rightarrow> string \<Rightarrow> nat list \<Rightarrow> ('e, 'w) run \<Rightarrow> ('e, 'w) run option" where
  "rollback_committed E tr backups root_path [] x = Some x"
| "rollback_committed E tr backups root_path (idx # is) x =
     do {
       step \<leftarrow> arr_get (plan tr) idx;
       pkg \<leftarrow> arr_get (plan_pkgs tr) idx;
       bk \<leftarrow> arr_get backups idx;
       x \<leftarrow> rollback_one E step pkg bk root_path x;
       rollback_committed E tr backups root_path is x
     }"

fun list_contains :: "str_list \<Rightarrow> string \<Rightarrow> bool" where
  "list_contains [] item = False"
| "list_contains (i # is) item = (if i = Some item then True else list_contains is item)"

fun drop_files_loop ::
  "('e, 't, 'w) host \<Rightarrow> string \<Rightarrow> string \<Rightarrow> str_list \<Rightarrow> str_list \<Rightarrow> str_list \<Rightarrow> ('e, 'w) run \<Rightarrow> ('e, 'w) run option" where
  "drop_files_loop E root_path name new_files conf [] x = Some x"
| "drop_files_loop E root_path name new_files conf (None # fs) x = drop_files_loop E root_path name new_files conf fs x"
| "drop_files_loop E root_path name new_files conf (Some path # fs) x =
     (if list_contains new_files path \<or> list_contains conf path then drop_files_loop E root_path name new_files conf fs x
      else
        let (owner, x) = run_db_owner E path x in
        if owner \<noteq> Some name then drop_files_loop E root_path name new_files conf fs x
        else do {
          (full, x) \<leftarrow> run_join root_path path x;
          drop_files_loop E root_path name new_files conf fs
            (case full of None \<Rightarrow> x | Some f \<Rightarrow> x\<lparr>r_proc := unlink_call (h_posix E) f (r_proc x)\<rparr>)
        })"

text \<open>\<open>db_get\<close> finds nothing for a package without a name.\<close>

definition remove_dropped_files :: "('e, 't, 'w) host \<Rightarrow> package \<Rightarrow> string \<Rightarrow> ('e, 'w) run \<Rightarrow> ('e, 'w) run option" where
  "remove_dropped_files E pkg root_path x =
     do {
       m \<leftarrow> pkg_meta pkg;
       case meta_name m of
         None \<Rightarrow> Some x
       | Some name \<Rightarrow>
           let (previous, x) = run_db_get E name x in
           (case previous of
              None \<Rightarrow> Some x
            | Some old \<Rightarrow>
                drop_files_loop E root_path name (package_files pkg) (case pkg_meta old of None \<Rightarrow> [] | Some om \<Rightarrow> meta_conf om)
                  (package_files old) x)
     }"

subsection \<open>The steps\<close>

text \<open>The state of the loop: the indices to roll back, the backups, and the rest.\<close>

record ('e, 'w) commit_state =
  committed_idx :: "nat list"
  cs_backups :: "upgrade_backup list"
  cs_run :: "('e, 'w) run"

definition signature_ok :: "('e, 't, 'w) host \<Rightarrow> keyring option \<Rightarrow> package \<Rightarrow> 'w \<Rightarrow> bool" where
  "signature_ok E kr pkg w =
     (case pkg_path pkg of
        None \<Rightarrow> False
      | Some path \<Rightarrow>
          length (path @ ''.sig'') < PATH_MAX \<and>
          keyring_verify (h_sodium E) (h_posix E) kr (Some path) (Some (path @ ''.sig'')) w)"

definition signature_passes ::
  "('e, 't, 'w) host \<Rightarrow> apg_trans \<Rightarrow> keyring option \<Rightarrow> addr option \<Rightarrow> ('e, 'w) run \<Rightarrow> bool option" where
  "signature_passes E tr kr pkg x =
     (if \<not> require_signature tr then Some True
      else do { p \<leftarrow> pkg; Some (signature_ok E kr (r_pkgs x p) (world (r_proc x))) })"

definition run_install ::
  "('e, 't, 'w) host \<Rightarrow> addr \<Rightarrow> string \<Rightarrow> ('e, 'w) run \<Rightarrow> (bool \<times> ('e, 'w) run) option" where
  "run_install E p root_path x =
     do {
       (ok, pkg, s) \<leftarrow> install_package_in_root (h_tmp_dir E) (h_posix E) (h_archive E) (r_pkgs x p) root_path (r_proc x);
       Some (ok, x\<lparr>r_pkgs := (r_pkgs x)(p := pkg), r_proc := s\<rparr>)
     }"

text \<open>The package is recorded after its index is noted, so that a failure takes it back too.\<close>

definition record_step ::
  "('e, 't, 'w) host \<Rightarrow> nat \<Rightarrow> trans_step \<Rightarrow> addr \<Rightarrow> ('e, 'w) commit_state \<Rightarrow> (trans_error \<times> ('e, 'w) commit_state) option" where
  "record_step E i step p cs =
     (let x = cs_run cs;
          pkg = (r_pkgs x p)\<lparr>installed_by_hand := step_explicit step\<rparr>;
          x = x\<lparr>r_pkgs := (r_pkgs x)(p := pkg)\<rparr>
      in do {
        (ok, x) \<leftarrow> run_db_add E pkg x;
        Some (if ok then TRANS_OK else TRANS_ERR_DB,
              cs\<lparr>committed_idx := committed_idx cs @ [i], cs_run := run_journal E JOURNAL_INSTALL step ok (step_explicit step) x\<rparr>)
      })"

definition fail_step ::
  "('e, 't, 'w) host \<Rightarrow> trans_error \<Rightarrow> trans_step \<Rightarrow> ('e, 'w) commit_state \<Rightarrow> trans_error \<times> ('e, 'w) commit_state" where
  "fail_step E err step cs = (err, cs\<lparr>cs_run := run_journal E JOURNAL_INSTALL step False (step_explicit step) (cs_run cs)\<rparr>)"

definition install_step ::
  "('e, 't, 'w) host \<Rightarrow> apg_trans \<Rightarrow> keyring option \<Rightarrow> string \<Rightarrow> nat \<Rightarrow> trans_step \<Rightarrow> addr option \<Rightarrow> ('e, 'w) commit_state \<Rightarrow>
   (trans_error \<times> ('e, 'w) commit_state) option" where
  "install_step E tr kr root_path i step pkg cs =
     do {
       sig \<leftarrow> signature_passes E tr kr pkg (cs_run cs);
       if \<not> sig then Some (if dry_run tr then (TRANS_ERR_UNSIGNED, cs) else fail_step E TRANS_ERR_UNSIGNED step cs)
       else if dry_run tr then Some (TRANS_OK, cs)
       else do {
         p \<leftarrow> pkg;
         (ok, x) \<leftarrow> run_install E p root_path (cs_run cs);
         let cs = cs\<lparr>cs_run := x\<rparr>;
         if \<not> ok then Some (fail_step E TRANS_ERR_INSTALL_FAILED step cs) else record_step E i step p cs
       }
     }"

definition upgrade_step ::
  "('e, 't, 'w) host \<Rightarrow> apg_trans \<Rightarrow> keyring option \<Rightarrow> string \<Rightarrow> nat \<Rightarrow> trans_step \<Rightarrow> addr option \<Rightarrow> ('e, 'w) commit_state \<Rightarrow>
   (trans_error \<times> ('e, 'w) commit_state) option" where
  "upgrade_step E tr kr root_path i step pkg cs =
     do {
       sig \<leftarrow> signature_passes E tr kr pkg (cs_run cs);
       if \<not> sig then Some (if dry_run tr then (TRANS_ERR_UNSIGNED, cs) else fail_step E TRANS_ERR_UNSIGNED step cs)
       else if dry_run tr then Some (TRANS_OK, cs)
       else do {
         (ok, bk, x) \<leftarrow> upgrade_backup_create E (step_pkg_name step) root_path (cs_run cs);
         bks \<leftarrow> arr_set (cs_backups cs) i bk;
         let cs = cs\<lparr>cs_backups := bks, cs_run := x\<rparr>;
         if \<not> ok then Some (fail_step E TRANS_ERR_INSTALL_FAILED step cs)
         else do {
           p \<leftarrow> pkg;
           m \<leftarrow> pkg_meta (r_pkgs x p);
           (conf_bk, x) \<leftarrow> run_proc (save_confs (h_posix E) root_path (meta_conf m)) x;
           (ok, x) \<leftarrow> run_install E p root_path x;
           if \<not> ok then
             let (err, cs) = fail_step E TRANS_ERR_INSTALL_FAILED step (cs\<lparr>cs_run := x\<rparr>)
             in Some (err, cs\<lparr>committed_idx := committed_idx cs @ [i]\<rparr>)
           else
             let x = (case conf_bk of None \<Rightarrow> x | Some bk \<Rightarrow> x\<lparr>r_proc := restore_confs (h_posix E) bk (r_proc x)\<rparr>) in
             do {
               x \<leftarrow> remove_dropped_files E (r_pkgs x p) root_path x;
               record_step E i step p (cs\<lparr>cs_run := x\<rparr>)
             }
         }
       }
     }"

definition remove_files_and_scripts ::
  "('e, 't, 'w) host \<Rightarrow> string \<Rightarrow> string \<Rightarrow> package option \<Rightarrow> pstr \<Rightarrow> ('e, 'w) run \<Rightarrow> ('e, 'w) run option" where
  "remove_files_and_scripts E root_path name installed scripts_dir x =
     do {
       x \<leftarrow> (case installed of
               None \<Rightarrow> Some x
             | Some old \<Rightarrow> run_proc0 (unlink_files (h_posix E) root_path (package_files old)) x);
       case scripts_dir of
         None \<Rightarrow> Some x
       | Some dir \<Rightarrow> do {
           (_, x) \<leftarrow> run_proc (run_script (h_posix E) dir ''post-remove'' root_path) x;
           run_proc0 (scripts_persist_remove (h_posix E) root_path name) x
         }
     }"

definition remove_step_run ::
  "('e, 't, 'w) host \<Rightarrow> apg_trans \<Rightarrow> string \<Rightarrow> trans_step \<Rightarrow> ('e, 'w) commit_state \<Rightarrow> (trans_error \<times> ('e, 'w) commit_state) option" where
  "remove_step_run E tr root_path step cs =
     (let (installed, x) = run_db_get E (step_pkg_name step) (cs_run cs) in
      do {
        (scripts_dir, x) \<leftarrow> run_proc (scripts_store_path root_path (step_pkg_name step)) x;
        if dry_run tr then Some (TRANS_OK, cs\<lparr>cs_run := x\<rparr>)
        else do {
          (pre_ok, x) \<leftarrow> (case scripts_dir of
                            None \<Rightarrow> Some (True, x)
                          | Some dir \<Rightarrow> run_proc (run_script (h_posix E) dir ''pre-remove'' root_path) x);
          let (ok, x) = (if pre_ok then run_db_remove E (step_pkg_name step) x else (False, x));
          x \<leftarrow> (if ok then remove_files_and_scripts E root_path (step_pkg_name step) installed scripts_dir x else Some x);
          Some (if ok then TRANS_OK else TRANS_ERR_REMOVE_FAILED,
                cs\<lparr>cs_run := run_journal E JOURNAL_REMOVE step ok (step_explicit step) x\<rparr>)
        }
      })"

definition commit_step ::
  "('e, 't, 'w) host \<Rightarrow> apg_trans \<Rightarrow> keyring option \<Rightarrow> string \<Rightarrow> nat \<Rightarrow> ('e, 'w) commit_state \<Rightarrow>
   (trans_error \<times> ('e, 'w) commit_state) option" where
  "commit_step E tr kr root_path i cs =
     do {
       step \<leftarrow> arr_get (plan tr) i;
       pkg \<leftarrow> arr_get (plan_pkgs tr) i;
       case step_op step of
         TRANS_OP_INSTALL \<Rightarrow> install_step E tr kr root_path i step pkg cs
       | TRANS_OP_UPGRADE \<Rightarrow> upgrade_step E tr kr root_path i step pkg cs
       | TRANS_OP_REMOVE \<Rightarrow> remove_step_run E tr root_path step cs
     }"

text \<open>A failed step ends the loop after the rollback.\<close>

fun commit_loop ::
  "('e, 't, 'w) host \<Rightarrow> apg_trans \<Rightarrow> keyring option \<Rightarrow> string \<Rightarrow> nat list \<Rightarrow> ('e, 'w) commit_state \<Rightarrow>
   (trans_error \<times> ('e, 'w) commit_state) option" where
  "commit_loop E tr kr root_path [] cs = Some (TRANS_OK, cs)"
| "commit_loop E tr kr root_path (i # is) cs =
     do {
       (err, cs) \<leftarrow> commit_step E tr kr root_path i cs;
       if err = TRANS_OK then commit_loop E tr kr root_path is cs
       else do {
         x \<leftarrow> rollback_committed E tr (cs_backups cs) root_path (rev (committed_idx cs)) (cs_run cs);
         Some (err, cs\<lparr>cs_run := x\<rparr>)
       }
     }"

fun discard_backups :: "('e, 't, 'w) host \<Rightarrow> upgrade_backup list \<Rightarrow> ('e, 'w) run \<Rightarrow> ('e, 'w) run option" where
  "discard_backups E [] x = Some x"
| "discard_backups E (b # bs) x = do { x \<leftarrow> upgrade_backup_discard E b x; discard_backups E bs x }"

definition release_commit :: "('e, 't, 'w) host \<Rightarrow> upgrade_backup list \<Rightarrow> ('e, 'w) run \<Rightarrow> ('e, 'w) run option" where
  "release_commit E backups x =
     do { x \<leftarrow> discard_backups E backups x; Some (x\<lparr>r_db := (r_db x)\<lparr>suppress_journal := False\<rparr>\<rparr>) }"

definition commit_plan ::
  "('e, 't, 'w) host \<Rightarrow> apg_trans \<Rightarrow> keyring option \<Rightarrow> string \<Rightarrow> ('e, 'w) run \<Rightarrow> (trans_error \<times> apg_trans \<times> ('e, 'w) run) option" where
  "commit_plan E tr kr root_path x =
     do {
       (err, cs) \<leftarrow> commit_loop E tr kr root_path [0..<length (plan tr)]
         \<lparr>committed_idx = [], cs_backups = replicate (length (plan tr)) no_backup,
          cs_run = x\<lparr>r_db := (r_db x)\<lparr>suppress_journal := True\<rparr>\<rparr>\<rparr>;
       x \<leftarrow> release_commit E (cs_backups cs) (cs_run cs);
       Some (err, if err = TRANS_OK \<and> \<not> dry_run tr then tr\<lparr>committed := True\<rparr> else tr, x)
     }"

definition trans_commit ::
  "('e, 't, 'w) host \<Rightarrow> apg_trans \<Rightarrow> pstr \<Rightarrow> ('e, 'w) run \<Rightarrow> (trans_error \<times> apg_trans \<times> ('e, 'w) run) option" where
  "trans_commit E tr root_path x =
     (case root_path of
        None \<Rightarrow> Some (TRANS_ERR_NOMEM, tr, x)
      | Some root \<Rightarrow>
          if \<not> prepared tr then Some (TRANS_ERR_NOT_PREPARED, tr, x)
          else if committed tr then Some (TRANS_ERR_ALREADY_COMMITTED, tr, x)
          else
            let dir = (case keyring_dir tr of None \<Rightarrow> h_keyring_dir E | Some d \<Rightarrow> d);
                (kr, s) = (if require_signature tr then keyring_load (h_sodium E) (h_posix E) dir (r_proc x) else (None, r_proc x));
                x = x\<lparr>r_proc := s\<rparr>
            in if require_signature tr \<and> kr = None then Some (TRANS_ERR_UNSIGNED, tr, x)
               else
                 let (ok1, s) = (if plan tr = [] then (True, s) else mem_call malloc_ok s);
                     (ok2, s) = (if plan tr = [] then (True, s) else mem_call malloc_ok s);
                     x = x\<lparr>r_proc := s\<rparr>
                 in if \<not> ok1 \<or> \<not> ok2 then Some (TRANS_ERR_NOMEM, tr, x) else commit_plan E tr kr root x)"

end
