(* ===== verification/Commit_Laws.thy ===== *)
theory Commit_Laws
  imports Commit Install_Laws Prepare_Laws
begin

text \<open>
  Laws of \<open>trans_commit\<close>: a dry run changes nothing, a failed plan of installations leaves the
  package records as they were, an upgrade removes exactly the files it drops.
\<close>

subsection \<open>Quiet states\<close>

text \<open>Nothing outside the process changed: packages, database contents, world and logs.\<close>

definition quiet :: "('e, 't) lmdb_view \<Rightarrow> ('e, 'w) run \<Rightarrow> ('e, 'w) run \<Rightarrow> bool" where
  "quiet V x x' \<longleftrightarrow> r_pkgs x' = r_pkgs x \<and> env_view V (db_env (r_db x')) = env_view V (db_env (r_db x)) \<and>
     world (r_proc x') = world (r_proc x) \<and> touched (r_proc x') = touched (r_proc x) \<and> started (r_proc x') = started (r_proc x)"

lemma quiet_refl [simp]: "quiet V x x"
  by (simp add: quiet_def)

lemma quiet_trans: "quiet V x y \<Longrightarrow> quiet V y z \<Longrightarrow> quiet V x z"
  by (simp add: quiet_def)

lemma run_db_get_quiet:
  assumes "lmdb_spec (h_lmdb E) V" and "run_db_get E name x = (r, x')"
  shows "quiet V x x'"
proof -
  obtain g db' m where g: "db_get (h_lmdb E) (h_json E) (r_db x) (Some name) (pmem (r_proc x)) = (g, db', m)" by (metis prod_cases3)
  then show ?thesis using assms(2) db_get_same [OF assms(1) g]
    by (auto simp: run_db_get_def on_db_def quiet_def same_db_def)
qed

lemma run_join_quiet: "run_join a b x = Some (r, x') \<Longrightarrow> quiet V x x'"
proof -
  assume "run_join a b x = Some (r, x')"
  then obtain s where j: "join_dirs a b (r_proc x) = Some (r, s)" "x' = x\<lparr>r_proc := s\<rparr>" by (auto simp: run_join_def split: bind_splits)
  then show ?thesis using touches_join_dirs [OF j(1), of "{}" "{}"] by (auto simp: quiet_def frame_def)
qed

lemma store_path_quiet:
  assumes "cstring root_path" and "cstring name"
  obtains r x' where "run_proc (scripts_store_path root_path name) x = Some (r, x')" and "quiet V x x'" and "good_path r"
proof -
  obtain r s' where r: "scripts_store_path root_path name (r_proc x) = Some (r, s')" "good_path r"
    by (rule returnsE [OF returns_store_path [OF assms]])
  obtain b s1 where b: "join_dirs root_path ''var/lib/apg/pkgscripts'' (r_proc x) = Some (b, s1)"
    using r(1) by (auto simp: scripts_store_path_def split: bind_splits)
  have s1: "frame {} {} (r_proc x) s1 \<and> world s1 = world (r_proc x)" by (rule touches_join_dirs [OF b])
  have "frame {} {} s1 s' \<and> world s' = world s1"
    using r(1) b touches_join_dirs [of _ name s1 r s' "{}" "{}"] by (auto simp: scripts_store_path_def split: option.splits)
  then have "quiet V x (x\<lparr>r_proc := s'\<rparr>)" using s1 by (auto simp: quiet_def frame_def)
  then show ?thesis using that r by (simp add: run_proc_def)
qed

subsection \<open>Dry runs\<close>

text \<open>A plan as \<open>trans_prepare\<close> makes it: a package for each installation and upgrade.\<close>

definition plan_shape :: "apg_trans \<Rightarrow> bool" where
  "plan_shape t \<longleftrightarrow> length (plan_pkgs t) = length (plan t) \<and>
     (\<forall>i < length (plan t). cstring (step_pkg_name (plan t ! i)) \<and>
        (step_op (plan t ! i) \<noteq> TRANS_OP_REMOVE \<longrightarrow> plan_pkgs t ! i \<noteq> None))"

lemma dry_commit_step:
  assumes spec: "lmdb_spec (h_lmdb E) V" and dry: "dry_run t" and shape: "plan_shape t" "i < length (plan t)" and root: "cstring root_path"
  obtains err x where "commit_step E t kr root_path i cs = Some (err, cs\<lparr>cs_run := x\<rparr>)" and "quiet V (cs_run cs) x"
    and "err = TRANS_OK \<or> err = TRANS_ERR_UNSIGNED"
proof (cases "step_op (plan t ! i) = TRANS_OP_REMOVE")
  case True
  have name: "cstring (step_pkg_name (plan t ! i))" using shape by (simp add: plan_shape_def)
  obtain g x1 where g: "run_db_get E (step_pkg_name (plan t ! i)) (cs_run cs) = (g, x1)" by (metis surj_pair)
  obtain r x2 where s: "run_proc (scripts_store_path root_path (step_pkg_name (plan t ! i))) x1 = Some (r, x2)" "quiet V x1 x2"
    by (rule store_path_quiet [OF root name])
  have "commit_step E t kr root_path i cs = Some (TRANS_OK, cs\<lparr>cs_run := x2\<rparr>)"
    using True g s(1) dry shape by (simp add: commit_step_def remove_step_run_def plan_shape_def)
  then show ?thesis using that quiet_trans [OF run_db_get_quiet [OF spec g] s(2)] by blast
next
  case False
  then obtain p where p: "plan_pkgs t ! i = Some p" using shape by (auto simp: plan_shape_def)
  obtain b where b: "signature_passes E t kr (plan_pkgs t ! i) (cs_run cs) = Some b"
    using p by (cases "require_signature t") (auto simp: signature_passes_def)
  have "commit_step E t kr root_path i cs = Some (if b then TRANS_OK else TRANS_ERR_UNSIGNED, cs)"
    using False b dry shape
    by (cases "step_op (plan t ! i)") (simp_all add: commit_step_def install_step_def upgrade_step_def plan_shape_def)
  then show ?thesis using that [of _ "cs_run cs"] by simp
qed

lemma dry_commit_loop:
  assumes spec: "lmdb_spec (h_lmdb E) V" and dry: "dry_run t" and shape: "plan_shape t" and root: "cstring root_path"
  shows "set is \<subseteq> {..<length (plan t)} \<Longrightarrow> committed_idx cs = [] \<Longrightarrow>
    \<exists>err x. commit_loop E t kr root_path is cs = Some (err, cs\<lparr>cs_run := x\<rparr>) \<and> quiet V (cs_run cs) x \<and>
      (err = TRANS_OK \<or> err = TRANS_ERR_UNSIGNED)"
proof (induction "is" arbitrary: cs)
  case Nil
  show ?case by (rule exI [of _ TRANS_OK], rule exI [of _ "cs_run cs"]) simp
next
  case (Cons i "is")
  have i: "i < length (plan t)" using Cons.prems by simp
  obtain err x where s: "commit_step E t kr root_path i cs = Some (err, cs\<lparr>cs_run := x\<rparr>)" "quiet V (cs_run cs) x"
    "err = TRANS_OK \<or> err = TRANS_ERR_UNSIGNED" by (rule dry_commit_step [OF spec dry shape i root])
  show ?case
  proof (cases "err = TRANS_OK")
    case True
    obtain err2 x2 where "commit_loop E t kr root_path is (cs\<lparr>cs_run := x\<rparr>) = Some (err2, cs\<lparr>cs_run := x2\<rparr>)" "quiet V x x2"
      "err2 = TRANS_OK \<or> err2 = TRANS_ERR_UNSIGNED"
      using Cons.IH [of "cs\<lparr>cs_run := x\<rparr>"] Cons.prems by auto
    then show ?thesis using s True quiet_trans [OF s(2)] by auto
  next
    case False
    then show ?thesis using s Cons.prems(2) by auto
  qed
qed

lemma discard_none: "discard_backups E (replicate n no_backup) x = Some x"
  by (induction n) (simp_all add: upgrade_backup_discard_def no_backup_def)

lemma keyring_load_quiet:
  assumes "keyring_load Na P dir s = (kr, s')"
  shows "world s' = world s \<and> touched s' = touched s \<and> started s' = started s \<and> (no_oom (pmem s) \<longrightarrow> no_oom (pmem s'))"
proof -
  obtain ok s1 where m: "mem_call malloc_ok s = (ok, s1)" by (metis surj_pair)
  have s1: "world s1 = world s \<and> touched s1 = touched s \<and> started s1 = started s \<and> (no_oom (pmem s) \<longrightarrow> no_oom (pmem s1))"
    using touches_mem_call(1) [OF m, of "{}" "{}"] by (auto simp: frame_def)
  have "s' = s \<or> s' = s1 \<or> (\<exists>entries k. load_keys P dir entries \<lparr>kr_keys = [], kr_cap = 0\<rparr> s1 = (k, s'))"
    using assms m by (auto simp: keyring_load_def split: if_splits option.splits prod.splits)
  then consider "s' = s" | "s' = s1" | entries k where "load_keys P dir entries \<lparr>kr_keys = [], kr_cap = 0\<rparr> s1 = (k, s')" by blast
  then show ?thesis
  proof cases
    case (3 entries k)
    then show ?thesis using s1 load_keys_trusted [OF 3] by simp
  qed (use s1 in simp_all)
qed

lemma optional_malloc_quiet:
  assumes "(if c then (True, a) else mem_call malloc_ok a) = (ok, b)"
  shows "world b = world a \<and> touched b = touched a \<and> started b = started a \<and> (no_oom (pmem a) \<longrightarrow> no_oom (pmem b))"
  using assms touches_mem_call(1) [of a ok b "{}" "{}"] by (cases c) (auto simp: frame_def)

text \<open>The part of \<open>trans_commit\<close> before the loop, on a plan that may be carried out.\<close>

lemma trans_commit_start:
  assumes "prepared t" and "\<not> committed t"
  obtains kr s1 err where "trans_commit E t (Some root_path) x = (if err \<noteq> TRANS_OK then Some (err, t, x\<lparr>r_proc := s1\<rparr>)
      else commit_plan E t kr root_path (x\<lparr>r_proc := s1\<rparr>))"
    and "world s1 = world (r_proc x)" and "touched s1 = touched (r_proc x)" and "started s1 = started (r_proc x)"
    and "no_oom (pmem (r_proc x)) \<longrightarrow> no_oom (pmem s1)" and "err = TRANS_OK \<or> err = TRANS_ERR_UNSIGNED \<or> err = TRANS_ERR_NOMEM"
proof -
  define dir where "dir = (case keyring_dir t of None \<Rightarrow> h_keyring_dir E | Some d \<Rightarrow> d)"
  obtain kr s where k: "(if require_signature t then keyring_load (h_sodium E) (h_posix E) dir (r_proc x) else (None, r_proc x)) = (kr, s)"
    by (metis surj_pair)
  have qs: "world s = world (r_proc x) \<and> touched s = touched (r_proc x) \<and> started s = started (r_proc x) \<and>
      (no_oom (pmem (r_proc x)) \<longrightarrow> no_oom (pmem s))"
    using k keyring_load_quiet [of "h_sodium E" "h_posix E" dir "r_proc x" kr s] by (cases "require_signature t") auto
  obtain ok1 s1 where m1: "(if plan t = [] then (True, s) else mem_call malloc_ok s) = (ok1, s1)" by (metis surj_pair)
  obtain ok2 s2 where m2: "(if plan t = [] then (True, s1) else mem_call malloc_ok s1) = (ok2, s2)" by (metis surj_pair)
  define err where "err = (if require_signature t \<and> kr = None then TRANS_ERR_UNSIGNED else if \<not> ok1 \<or> \<not> ok2 then TRANS_ERR_NOMEM else TRANS_OK)"
  define s3 where "s3 = (if require_signature t \<and> kr = None then s else s2)"
  have "trans_commit E t (Some root_path) x = (if err \<noteq> TRANS_OK then Some (err, t, x\<lparr>r_proc := s3\<rparr>)
      else commit_plan E t kr root_path (x\<lparr>r_proc := s3\<rparr>))"
    using assms k m1 m2
    by (cases "plan t = []"; cases "require_signature t") (auto simp: trans_commit_def dir_def [symmetric] err_def s3_def Let_def)
  then show ?thesis using that [of err s3 kr] qs optional_malloc_quiet [OF m1] optional_malloc_quiet [OF m2] by (auto simp: s3_def err_def split: if_splits)
qed


definition demo_install :: apg_trans where
  "demo_install = trans_zero\<lparr>plan := [\<lparr>step_op = TRANS_OP_INSTALL, step_pkg_name = ''app'', step_pkg_version = Some ''1.0'', step_explicit = True\<rparr>],
     plan_pkgs := [Some 0], prepared := True\<rparr>"


subsection \<open>Plans of installations\<close>

abbreviation recs :: "('e, 't) lmdb_view \<Rightarrow> ('e, 'w) run \<Rightarrow> string \<Rightarrow> string option" where
  "recs V x \<equiv> st_records (db_store V (r_db x))"

text \<open>The database can be written and there is memory.\<close>

definition working :: "('e, 'w) run \<Rightarrow> bool" where
  "working x \<longleftrightarrow> handle_ready (r_db x) \<and> \<not> db_readonly (r_db x) \<and> suppress_journal (r_db x) \<and> no_oom (pmem (r_proc x))"

definition host_ok :: "('e, 't, 'w) host \<Rightarrow> ('e, 't) lmdb_view \<Rightarrow> bool" where
  "host_ok E V \<longleftrightarrow> lmdb_spec (h_lmdb E) V \<and> lmdb_writable (h_lmdb E) \<and> (\<forall>d. yyjson_mut_write (h_json E) d \<noteq> None) \<and>
     posix_ok (h_posix E) \<and> archive_ok (h_archive E) \<and> cstring (h_tmp_dir E)"

lemma host_okD: "host_ok E V \<Longrightarrow> lmdb_spec (h_lmdb E) V" "host_ok E V \<Longrightarrow> lmdb_writable (h_lmdb E)"
  "host_ok E V \<Longrightarrow> yyjson_mut_write (h_json E) d \<noteq> None" "host_ok E V \<Longrightarrow> posix_ok (h_posix E)"
  "host_ok E V \<Longrightarrow> archive_ok (h_archive E)" "host_ok E V \<Longrightarrow> cstring (h_tmp_dir E)"
  by (simp_all add: host_ok_def)

text \<open>A package that can be installed under a name.\<close>

definition installable :: "package \<Rightarrow> string \<Rightarrow> bool" where
  "installable pkg name \<longleftrightarrow> (\<exists>m. pkg_meta pkg = Some m \<and> meta_name m = Some name \<and> deps_ok (meta_dependencies m)) \<and>
     name \<notin> reserved \<and> cstring name \<and> list_ok cstring (package_files pkg)"

text \<open>The packages keep what makes them installable.\<close>

definition keeps_pkgs :: "('e, 'w) run \<Rightarrow> ('e, 'w) run \<Rightarrow> bool" where
  "keeps_pkgs x x' \<longleftrightarrow> (\<forall>p name. installable (r_pkgs x p) name \<longrightarrow> installable (r_pkgs x' p) name)"

lemma keeps_refl [simp]: "keeps_pkgs x x"
  by (simp add: keeps_pkgs_def)

lemma keeps_trans: "keeps_pkgs x y \<Longrightarrow> keeps_pkgs y z \<Longrightarrow> keeps_pkgs x z"
  by (simp add: keeps_pkgs_def)

lemma keeps_update: "(\<And>name. installable (r_pkgs x p) name \<Longrightarrow> installable pkg name) \<Longrightarrow> keeps_pkgs x (x\<lparr>r_pkgs := (r_pkgs x)(p := pkg), r_proc := s\<rparr>)"
  by (simp add: keeps_pkgs_def)

lemma run_journal_keeps:
  assumes "lmdb_spec (h_lmdb E) V" and "working x"
  shows "working (run_journal E op step ok expl x) \<and> recs V (run_journal E op step ok expl x) = recs V x \<and>
    keeps_pkgs x (run_journal E op step ok expl x) \<and> r_pkgs (run_journal E op step ok expl x) = r_pkgs x"
proof -
  have "db_readonly (db_journal L op n v ok expl db) = db_readonly db" for L :: "('a, 'b) lmdb" and n v db
    by (simp add: db_journal_def split_def Let_def)
  then show ?thesis using assms db_journal_store [OF assms(1)] by (simp add: working_def run_journal_def keeps_pkgs_def)
qed

lemma run_install_ok:
  assumes E: "host_ok E V" and w: "working x" and p: "installable (r_pkgs x p) name" and root: "cstring root_path"
  obtains ok x' where "run_install E p root_path x = Some (ok, x')" and "working x'" and "recs V x' = recs V x" and "keeps_pkgs x x'"
proof -
  obtain m where m: "pkg_meta (r_pkgs x p) = Some m" "meta_name m = Some name" "cstring name" "list_ok cstring (package_files (r_pkgs x p))"
    using p by (auto simp: installable_def)
  obtain ok pkg s where i: "install_package_in_root (h_tmp_dir E) (h_posix E) (h_archive E) (r_pkgs x p) root_path (r_proc x) = Some (ok, pkg, s)"
    "runs (r_proc x) s" "same_package (r_pkgs x p) pkg"
    using install_returns [OF host_okD(4,5,6) [OF E] root m] unfolding returns3_def by blast
  have k: "keeps_pkgs x (x\<lparr>r_pkgs := (r_pkgs x)(p := pkg), r_proc := s\<rparr>)"
    by (rule keeps_update) (use i(3) in \<open>auto simp: same_package_def installable_def\<close>)
  have "run_install E p root_path x = Some (ok, x\<lparr>r_pkgs := (r_pkgs x)(p := pkg), r_proc := s\<rparr>)" using i(1) by (simp add: run_install_def)
  moreover have "working (x\<lparr>r_pkgs := (r_pkgs x)(p := pkg), r_proc := s\<rparr>)" using w frame_oom [OF i(2)] by (simp add: working_def)
  ultimately show ?thesis using that k by simp
qed

lemma run_db_add_ok:
  assumes E: "host_ok E V" and w: "working x" and p: "installable pkg name"
  obtains x' body where "run_db_add E pkg x = Some (True, x')" and "working x'" and "recs V x' = (recs V x)(name \<mapsto> body)" and "r_pkgs x' = r_pkgs x"
proof -
  obtain m where m: "pkg_meta pkg = Some m" "meta_name m = Some name" "deps_ok (meta_dependencies m)" "name \<notin> reserved"
    "list_ok cstring (package_files pkg)" using p by (auto simp: installable_def)
  have rec: "recordable (r_db x) pkg" "no_oom (pmem (r_proc x))" "\<not> db_readonly (r_db x)" "suppress_journal (r_db x)"
    using m w by (auto simp: recordable_def working_def)
  have writes: "pkg_text (h_json E) pkg \<noteq> None" using host_okD(3) [OF E] by (simp add: pkg_text_def)
  obtain db' mem' where a: "db_add (h_lmdb E) (h_json E) (r_db x) pkg (pmem (r_proc x)) = Some (True, db', mem')" "no_oom mem'"
    "\<exists>env calls. db' = (r_db x)\<lparr>db_env := env, hook_calls := calls\<rparr>"
    using db_add_succeeds [OF host_okD(2) [OF E] rec(1,3) writes rec(2)] rec(4) by blast
  obtain body where body: "db_store V db' = st_add (pkg_id pkg) body (package_files pkg) (db_store V (r_db x))"
    using db_add_all_or_nothing [OF host_okD(1) [OF E] rec(1), of "h_json E" "pmem (r_proc x)"] a(1) rec(2) by auto
  have id: "pkg_id pkg = name" using m by (simp add: pkg_id_def)
  let ?x = "x\<lparr>r_db := db', r_proc := (r_proc x)\<lparr>pmem := mem'\<rparr>\<rparr>"
  have "run_db_add E pkg x = Some (True, ?x)" using a(1) by (simp add: run_db_add_def)
  moreover have "working ?x" using w a(2,3) by (auto simp: working_def handle_ready_def)
  moreover have "recs V ?x = (recs V x)(name \<mapsto> body)" using body id by (simp add: st_add_def st_forget_def Let_def)
  ultimately show ?thesis using that by simp
qed

lemma run_db_remove_ok:
  assumes E: "host_ok E V" and w: "working x" and r: "recs V x name \<noteq> None"
  obtains x' where "run_db_remove E name x = (True, x')" and "working x'" and "recs V x' = (recs V x)(name := None)" and "r_pkgs x' = r_pkgs x"
proof -
  have w': "\<not> db_readonly (r_db x)" "no_oom (pmem (r_proc x))" "suppress_journal (r_db x)" "handle_ready (r_db x)" using w by (simp_all add: working_def)
  have "env_view V (db_env (r_db x)) None name \<noteq> None" using r by (auto simp: store_of_def restrict_map_def split: if_splits)
  then obtain env calls mem' where d: "db_remove (h_lmdb E) (h_json E) (r_db x) (Some name) (pmem (r_proc x)) =
      (True, (r_db x)\<lparr>db_env := env, hook_calls := calls\<rparr>, mem')" "no_oom mem'"
    using db_remove_succeeds [OF host_okD(1,2) [OF E] w'(1) _ w'(2,3)] by blast
  have "db_store V ((r_db x)\<lparr>db_env := env, hook_calls := calls\<rparr>) = st_remove name (db_store V (r_db x))"
    using db_remove_all_or_nothing [OF host_okD(1) [OF E] d(1)] w'(2,4) by simp
  then show ?thesis using that d w' by (simp add: run_db_remove_def on_db_def working_def handle_ready_def st_remove_def)
qed

lemma unlink_files_runs:
  assumes "cstring root_path"
  shows "list_ok cstring fs \<Longrightarrow> \<exists>s'. unlink_files P root_path fs s = Some s' \<and> runs s s'"
proof (induction fs arbitrary: s)
  case (Cons f fs)
  show ?case
  proof (cases f)
    case None
    then show ?thesis using Cons by simp
  next
    case (Some f1)
    have "cstring f1" using Cons.prems Some by simp
    then obtain r s1 where j: "join_dirs root_path f1 s = Some (r, s1)" "runs s s1" by (rule join_runs [OF assms])
    define s2 where "s2 = (case r of None \<Rightarrow> s1 | Some p \<Rightarrow> unlink_call P p s1)"
    have "runs s1 s2" by (cases r) (simp_all add: s2_def)
    then have "runs s s2" using touches_trans [OF j(2)] by blast
    moreover obtain s' where "unlink_files P root_path fs s2 = Some s'" "runs s2 s'" using Cons by auto
    ultimately show ?thesis using j(1) Some touches_trans [of UNIV UNIV s s2 s'] by (simp add: s2_def)
  qed
qed simp

text \<open>The conditions on a plan of installations, for the packages as they are in \<open>x\<close>.\<close>

definition install_plan :: "apg_trans \<Rightarrow> ('e, 'w) run \<Rightarrow> bool" where
  "install_plan t x \<longleftrightarrow> length (plan_pkgs t) = length (plan t) \<and> distinct (map step_pkg_name (plan t)) \<and>
     (\<forall>i < length (plan t). step_op (plan t ! i) = TRANS_OP_INSTALL \<and>
        (\<exists>p. plan_pkgs t ! i = Some p \<and> installable (r_pkgs x p) (step_pkg_name (plan t ! i))))"

lemma install_plan_keeps: "install_plan t x \<Longrightarrow> keeps_pkgs x x' \<Longrightarrow> install_plan t x'"
  unfolding install_plan_def keeps_pkgs_def by blast

lemma install_step_ok:
  assumes E: "host_ok E V" and w: "working (cs_run cs)" and t: "install_plan t (cs_run cs)" "i < length (plan t)" "\<not> dry_run t"
    and root: "cstring root_path"
  shows "\<exists>err cs'. commit_step E t kr root_path i cs = Some (err, cs') \<and> working (cs_run cs') \<and> keeps_pkgs (cs_run cs) (cs_run cs') \<and>
    cs_backups cs' = cs_backups cs \<and>
    (if err = TRANS_OK then committed_idx cs' = committed_idx cs @ [i] \<and>
       (\<exists>body. recs V (cs_run cs') = (recs V (cs_run cs))(step_pkg_name (plan t ! i) \<mapsto> body))
     else committed_idx cs' = committed_idx cs \<and> recs V (cs_run cs') = recs V (cs_run cs))"
proof -
  let ?step = "plan t ! i" let ?x = "cs_run cs"
  obtain p where p: "plan_pkgs t ! i = Some p" "installable (r_pkgs ?x p) (step_pkg_name ?step)" "step_op ?step = TRANS_OP_INSTALL"
    using t by (auto simp: install_plan_def)
  have step: "commit_step E t kr root_path i cs = install_step E t kr root_path i ?step (Some p) cs"
    using t p by (simp add: commit_step_def install_plan_def)
  obtain b where b: "signature_passes E t kr (Some p) ?x = Some b" by (cases "require_signature t") (auto simp: signature_passes_def)
  have journal: "working (run_journal E op ?step ok expl y) \<and> recs V (run_journal E op ?step ok expl y) = recs V y \<and> keeps_pkgs y (run_journal E op ?step ok expl y)"
    if "working y" for op ok expl y using run_journal_keeps [OF host_okD(1) [OF E] that] by blast
  show ?thesis
  proof (cases b)
    case False
    then have "commit_step E t kr root_path i cs = Some (fail_step E TRANS_ERR_UNSIGNED ?step cs)" using step b t(3) by (simp add: install_step_def)
    then show ?thesis using journal [OF w] by (simp add: fail_step_def)
  next
    case True
    obtain ok x1 where r: "run_install E p root_path ?x = Some (ok, x1)" "working x1" "recs V x1 = recs V ?x" "keeps_pkgs ?x x1"
      by (rule run_install_ok [OF E w p(2) root])
    show ?thesis
    proof (cases ok)
      case False
      then have "commit_step E t kr root_path i cs = Some (fail_step E TRANS_ERR_INSTALL_FAILED ?step (cs\<lparr>cs_run := x1\<rparr>))"
        using step b True t(3) r(1) by (simp add: install_step_def)
      then show ?thesis using journal [OF r(2)] r(3) keeps_trans [OF r(4)] by (simp add: fail_step_def)
    next
      case ok: True
      define pkg where "pkg = (r_pkgs x1 p)\<lparr>installed_by_hand := step_explicit ?step\<rparr>"
      define x2 where "x2 = x1\<lparr>r_pkgs := (r_pkgs x1)(p := pkg)\<rparr>"
      have inst: "installable pkg (step_pkg_name ?step)" using p(2) r(4) by (auto simp: keeps_pkgs_def pkg_def installable_def)
      have k2: "keeps_pkgs x1 x2" by (auto simp: keeps_pkgs_def x2_def pkg_def installable_def)
      have w2: "working x2" "recs V x2 = recs V ?x" using r by (simp_all add: working_def x2_def)
      obtain x3 body where d: "run_db_add E pkg x2 = Some (True, x3)" "working x3" "recs V x3 = (recs V x2)(step_pkg_name ?step \<mapsto> body)" "r_pkgs x3 = r_pkgs x2"
        by (rule run_db_add_ok [OF E w2(1) inst])
      have "commit_step E t kr root_path i cs = record_step E i ?step p (cs\<lparr>cs_run := x1\<rparr>)"
        using step b True t(3) r(1) ok by (simp add: install_step_def)
      then have eq: "commit_step E t kr root_path i cs = Some (TRANS_OK, cs\<lparr>cs_run := run_journal E JOURNAL_INSTALL ?step True (step_explicit ?step) x3,
          committed_idx := committed_idx cs @ [i]\<rparr>)" using d(1) by (simp add: record_step_def pkg_def x2_def Let_def)
      have "keeps_pkgs x2 x3" using d(4) by (simp add: keeps_pkgs_def)
      then have "keeps_pkgs ?x x3" using keeps_trans r(4) k2 by blast
      then show ?thesis using eq journal [OF d(2), of JOURNAL_INSTALL True "step_explicit ?step"] d(3) w2(2) keeps_trans [of ?x x3] by auto
    qed
  qed
qed

lemma rollback_one_ok:
  assumes E: "host_ok E V" and w: "working x" and p: "installable (r_pkgs x p) (step_pkg_name step)" and r: "recs V x (step_pkg_name step) \<noteq> None"
    and root: "cstring root_path"
  obtains x' where "rollback_one E step (Some p) no_backup root_path x = Some x'" and "working x'" and "keeps_pkgs x x'"
    and "recs V x' = (recs V x)(step_pkg_name step := None)"
proof -
  have "list_ok cstring (package_files (r_pkgs x p))" using p by (simp add: installable_def)
  then obtain s where s: "unlink_files (h_posix E) root_path (package_files (r_pkgs x p)) (r_proc x) = Some s" "runs (r_proc x) s"
    using unlink_files_runs [OF root] by blast
  define x1 where "x1 = x\<lparr>r_proc := s\<rparr>"
  have w1: "working x1" "recs V x1 = recs V x" using w frame_oom [OF s(2)] by (simp_all add: working_def x1_def)
  obtain x2 where d: "run_db_remove E (step_pkg_name step) x1 = (True, x2)" "working x2" "recs V x2 = (recs V x1)(step_pkg_name step := None)" "r_pkgs x2 = r_pkgs x1"
    using run_db_remove_ok [OF E w1(1), of "step_pkg_name step"] w1(2) r by metis
  have "rollback_one E step (Some p) no_backup root_path x = Some (run_journal E JOURNAL_ROLLBACK step True False x2)"
    using s(1) d(1) by (simp add: rollback_one_def no_backup_def run_proc0_def x1_def)
  moreover have "keeps_pkgs x x2" using d(4) by (simp add: keeps_pkgs_def x1_def)
  ultimately show ?thesis
    using that run_journal_keeps [OF host_okD(1) [OF E] d(2), of JOURNAL_ROLLBACK step True False] d(3) w1(2) keeps_trans [of x x2] by simp
qed

lemma rollback_committed_ok:
  assumes E: "host_ok E V" and root: "cstring root_path"
  shows "working x \<Longrightarrow> install_plan t x \<Longrightarrow> distinct is \<Longrightarrow> set is \<subseteq> {..<length (plan t)} \<Longrightarrow>
    (\<forall>i \<in> set is. recs V x (step_pkg_name (plan t ! i)) \<noteq> None) \<Longrightarrow>
    \<exists>x'. rollback_committed E t (replicate (length (plan t)) no_backup) root_path is x = Some x' \<and> working x' \<and>
      recs V x' = (\<lambda>n. if n \<in> (\<lambda>i. step_pkg_name (plan t ! i)) ` set is then None else recs V x n)"
proof (induction "is" arbitrary: x)
  case (Cons i "is")
  let ?name = "\<lambda>i. step_pkg_name (plan t ! i)"
  have i: "i < length (plan t)" using Cons.prems by simp
  obtain p where p: "plan_pkgs t ! i = Some p" "installable (r_pkgs x p) (?name i)" "i < length (plan_pkgs t)"
    using Cons.prems(2) i by (auto simp: install_plan_def)
  have ri: "recs V x (?name i) \<noteq> None" using Cons.prems(5) by simp
  obtain x1 where r: "rollback_one E (plan t ! i) (Some p) no_backup root_path x = Some x1" "working x1" "keeps_pkgs x x1"
    "recs V x1 = (recs V x)(?name i := None)"
    by (rule rollback_one_ok [OF E Cons.prems(1) p(2) ri root])
  have inj: "?name j \<noteq> ?name i" if "j \<in> set is" for j
  proof -
    have "distinct (map step_pkg_name (plan t))" "j < length (plan t)" "j \<noteq> i"
      using Cons.prems(2,3,4) that by (auto simp: install_plan_def)
    then show ?thesis using nth_eq_iff_index_eq [of "map step_pkg_name (plan t)" j i] i by simp
  qed
  then have "\<forall>j \<in> set is. recs V x1 (?name j) \<noteq> None" using Cons.prems(5) r(4) by auto
  then obtain x' where "rollback_committed E t (replicate (length (plan t)) no_backup) root_path is x1 = Some x'" "working x'"
    "recs V x' = (\<lambda>n. if n \<in> ?name ` set is then None else recs V x1 n)"
    using Cons.IH [OF r(2) install_plan_keeps [OF Cons.prems(2) r(3)]] Cons.prems(3,4) by auto
  then show ?case using i p r(1,4) by (auto simp: fun_eq_iff)
qed simp

lemma commit_loop_atomic:
  assumes E: "host_ok E V" and root: "cstring root_path" and dry: "\<not> dry_run t"
  shows "i + n = length (plan t) \<Longrightarrow> working (cs_run cs) \<Longrightarrow> install_plan t (cs_run cs) \<Longrightarrow> committed_idx cs = [0..<i] \<Longrightarrow>
    cs_backups cs = replicate (length (plan t)) no_backup \<Longrightarrow> (\<forall>step \<in> set (plan t). R (step_pkg_name step) = None) \<Longrightarrow>
    dom (recs V (cs_run cs)) = dom R \<union> step_pkg_name ` set (take i (plan t)) \<Longrightarrow> (\<forall>n \<in> dom R. recs V (cs_run cs) n = R n) \<Longrightarrow>
    \<exists>err cs'. commit_loop E t kr root_path [i..<length (plan t)] cs = Some (err, cs') \<and> working (cs_run cs') \<and>
      cs_backups cs' = replicate (length (plan t)) no_backup \<and> (\<forall>n \<in> dom R. recs V (cs_run cs') n = R n) \<and>
      dom (recs V (cs_run cs')) = dom R \<union> (if err = TRANS_OK then step_pkg_name ` set (plan t) else {})"
proof (induction n arbitrary: i cs)
  case (Suc n)
  let ?name = "step_pkg_name (plan t ! i)"
  have i: "i < length (plan t)" using Suc.prems(1) by simp
  have upt: "[i..<length (plan t)] = i # [Suc i..<length (plan t)]" using i by (simp add: upt_conv_Cons)
  have new: "R ?name = None" using Suc.prems(6) i by simp
  obtain err cs1 where s: "commit_step E t kr root_path i cs = Some (err, cs1)" "working (cs_run cs1)" "keeps_pkgs (cs_run cs) (cs_run cs1)"
    "cs_backups cs1 = cs_backups cs"
    and res: "if err = TRANS_OK then committed_idx cs1 = committed_idx cs @ [i] \<and> (\<exists>body. recs V (cs_run cs1) = (recs V (cs_run cs))(?name \<mapsto> body))
     else committed_idx cs1 = committed_idx cs \<and> recs V (cs_run cs1) = recs V (cs_run cs)"
    using install_step_ok [OF E Suc.prems(2,3) i dry root, of kr] by blast
  have plan1: "install_plan t (cs_run cs1)" by (rule install_plan_keeps [OF Suc.prems(3) s(3)])
  show ?case
  proof (cases "err = TRANS_OK")
    case True
    then obtain body where c1: "committed_idx cs1 = [0..<Suc i]" "recs V (cs_run cs1) = (recs V (cs_run cs))(?name \<mapsto> body)"
      using res Suc.prems(4) by auto
    have d1: "dom (recs V (cs_run cs1)) = dom R \<union> step_pkg_name ` set (take (Suc i) (plan t))"
      using c1(2) Suc.prems(7) i by (auto simp: take_Suc_conv_app_nth)
    have r1: "\<forall>n \<in> dom R. recs V (cs_run cs1) n = R n" using c1(2) Suc.prems(8) new by auto
    have "cs_backups cs1 = replicate (length (plan t)) no_backup" "Suc i + n = length (plan t)" using s(4) Suc.prems(1,5) by simp_all
    from Suc.IH [OF this(2) s(2) plan1 c1(1) this(1) Suc.prems(6) d1 r1] show ?thesis using upt s(1) True by auto
  next
    case False
    then have c1: "committed_idx cs1 = [0..<i]" "recs V (cs_run cs1) = recs V (cs_run cs)" using res Suc.prems(4) by auto
    have sub: "set (rev [0..<i]) \<subseteq> {..<length (plan t)}" using i by auto
    have names: "(\<lambda>j. step_pkg_name (plan t ! j)) ` set (rev [0..<i]) = step_pkg_name ` set (take i (plan t))"
      using i by (simp add: nth_image [symmetric] image_image)
    have "\<forall>j \<in> set (rev [0..<i]). recs V (cs_run cs1) (step_pkg_name (plan t ! j)) \<noteq> None"
    proof
      fix j assume "j \<in> set (rev [0..<i])"
      then have "step_pkg_name (plan t ! j) \<in> dom (recs V (cs_run cs1))" using Suc.prems(7) names unfolding c1(2) by blast
      then show "recs V (cs_run cs1) (step_pkg_name (plan t ! j)) \<noteq> None" by (simp add: domIff)
    qed
    then obtain x' where x': "rollback_committed E t (replicate (length (plan t)) no_backup) root_path (rev [0..<i]) (cs_run cs1) = Some x'" "working x'"
      "recs V x' = (\<lambda>n. if n \<in> step_pkg_name ` set (take i (plan t)) then None else recs V (cs_run cs1) n)"
      using rollback_committed_ok [OF E root s(2) plan1 _ sub] names by auto
    have old: "n \<notin> step_pkg_name ` set (take i (plan t))" if "n \<in> dom R" for n using that Suc.prems(6) by (auto dest: in_set_takeD)
    have "\<forall>n \<in> dom R. recs V x' n = R n" using x'(3) c1(2) Suc.prems(8) old by simp
    moreover have "dom (recs V x') = dom R"
    proof -
      have "dom (recs V x') = dom (recs V (cs_run cs)) - step_pkg_name ` set (take i (plan t))"
        using x'(3) c1(2) by (simp only: dom_def) (auto split: if_splits)
      moreover have "dom R \<inter> step_pkg_name ` set (take i (plan t)) = {}" using old by blast
      ultimately show ?thesis using Suc.prems(7) by (simp only: Un_Diff Diff_cancel Un_empty_right Diff_triv)
    qed
    moreover have "commit_loop E t kr root_path [i..<length (plan t)] cs = Some (err, cs1\<lparr>cs_run := x'\<rparr>)"
      using upt s(1) False c1(1) x'(1) s(4) Suc.prems(5) by simp
    ultimately show ?thesis using False x'(2) s(4) Suc.prems(5) by auto
  qed
qed auto


lemma demo_host_ok: "host_ok demo_host ref_view"
  using ref_lmdb_spec ref_lmdb_writable codec_writes ref_posix_ok demo_archive_ok by (simp add: host_ok_def demo_host_def)

lemma sample_installable: "installable sample_pkg ''app''"
  using sample_pkg_ok by (auto simp: installable_def sample_pkg_def reserved_def package_ok_def zero_metadata_def list_ok_def)


subsection \<open>Files that an upgrade drops\<close>

lemma run_db_owner_ok:
  assumes spec: "lmdb_spec (h_lmdb E) V" and live: "lmdb_live (h_lmdb E)" and ready: "handle_ready (r_db x)" and mem: "no_oom (pmem (r_proc x))"
    and own: "\<forall>n. st_owners (db_store V (r_db x)) f = Some n \<longrightarrow> cstring n"
  obtains x' where "run_db_owner E f x = (st_owners (db_store V (r_db x)) f, x')" and "same_db V (r_db x) (r_db x')"
    and "no_oom (pmem (r_proc x'))" and "touched (r_proc x') = touched (r_proc x)"
proof -
  obtain t where t: "mdb_txn_begin (h_lmdb E) (db_env (r_db x)) True = Inr t" using live by (auto simp: lmdb_live_def)
  obtain r db' m where ow: "db_owner (h_lmdb E) (r_db x) (Some f) (pmem (r_proc x)) = (r, db', m)" by (metis prod_cases3)
  have view: "txn_view V t file_owner_dbi f = st_owners (db_store V (r_db x)) f" using lmdb_begin [OF spec t] by (simp add: store_of_def)
  have r: "r = st_owners (db_store V (r_db x)) f \<and> no_oom m"
  proof (cases "st_owners (db_store V (r_db x)) f")
    case None
    then obtain rc where "mdb_get (h_lmdb E) t file_owner_dbi f = Inl rc" using lmdb_laws(5) [OF spec] view by metis
    then show ?thesis using ow t None ready mem by (simp add: db_owner_def handle_ready_def)
  next
    case (Some n)
    then have "mdb_get (h_lmdb E) t file_owner_dbi f = Inr n" using lmdb_get [OF spec] view by metis
    moreover obtain m2 where "\<And>s. strdup_m s (pmem (r_proc x)) = (Some s, m2)" "no_oom m2" using strdup_no_oomE [OF mem] by metis
    ultimately show ?thesis using ow t Some ready own by (auto simp: db_owner_def handle_ready_def)
  qed
  show ?thesis
    using that [of "x\<lparr>r_db := db', r_proc := (r_proc x)\<lparr>pmem := m\<rparr>\<rparr>"] ow r db_owner_same [OF spec ow]
    by (simp add: run_db_owner_def on_db_def)
qed

lemma list_contains_iff: "list_contains xs f \<longleftrightarrow> Some f \<in> set xs"
  by (induction xs) auto

lemma drop_files_loop_eq:
  assumes spec: "lmdb_spec (h_lmdb E) V" and live: "lmdb_live (h_lmdb E)" and root: "cstring root_path"
  shows "handle_ready (r_db x) \<Longrightarrow> no_oom (pmem (r_proc x)) \<Longrightarrow> db_store V (r_db x) = S \<Longrightarrow>
    (\<forall>f n. st_owners S f = Some n \<longrightarrow> cstring n) \<Longrightarrow> list_ok cstring fs \<Longrightarrow>
    \<exists>x'. drop_files_loop E root_path name new conf fs x = Some x' \<and> same_db V (r_db x) (r_db x') \<and>
      touched (r_proc x') = touched (r_proc x) @
        map (join root_path) (filter (\<lambda>f. Some f \<notin> set new \<and> Some f \<notin> set conf \<and> st_owners S f = Some name) (somes fs))"
proof (induction fs arbitrary: x)
  case (Cons f0 fs)
  show ?case
  proof (cases f0)
    case None
    then show ?thesis using Cons by simp
  next
    case (Some f)
    show ?thesis
    proof (cases "Some f \<in> set new \<or> Some f \<in> set conf")
      case True
      then show ?thesis using Cons Some by (auto simp: list_contains_iff)
    next
      case False
      obtain x1 where x1: "run_db_owner E f x = (st_owners S f, x1)" "same_db V (r_db x) (r_db x1)" "no_oom (pmem (r_proc x1))"
        "touched (r_proc x1) = touched (r_proc x)"
        using run_db_owner_ok [OF spec live Cons.prems(1,2)] Cons.prems(3,4) by metis
      have h1: "handle_ready (r_db x1)" "db_store V (r_db x1) = S" using x1(2) Cons.prems(1,3) by (auto simp: same_db_def handle_ready_def)
      show ?thesis
      proof (cases "st_owners S f = Some name")
        case no: False
        obtain x' where "drop_files_loop E root_path name new conf fs x1 = Some x'" "same_db V (r_db x1) (r_db x')"
          "touched (r_proc x') = touched (r_proc x1) @
            map (join root_path) (filter (\<lambda>f. Some f \<notin> set new \<and> Some f \<notin> set conf \<and> st_owners S f = Some name) (somes fs))"
          using Cons.IH [OF h1(1) x1(3) h1(2) Cons.prems(4)] Cons.prems(5) by auto
        then show ?thesis using False no Some x1 same_db_trans [OF x1(2)] by (auto simp: list_contains_iff)
      next
        case own: True
        have "cstring f" using Cons.prems(5) Some by simp
        then obtain s2 where j: "join_dirs root_path f (r_proc x1) = Some (Some (join root_path f), s2)" "frame {} {} (r_proc x1) s2" "no_oom (pmem s2)"
          using join_dirs_eq [OF root, of f "r_proc x1" "{}" "{}"] x1(3) by metis
        define x2 where "x2 = x1\<lparr>r_proc := unlink_call (h_posix E) (join root_path f) s2\<rparr>"
        have x2: "r_db x2 = r_db x1" "no_oom (pmem (r_proc x2))" "touched (r_proc x2) = touched (r_proc x) @ [join root_path f]"
          using j(2,3) x1(4) by (auto simp: x2_def unlink_call_def fs_call_def frame_def split_def Let_def)
        obtain x' where "drop_files_loop E root_path name new conf fs x2 = Some x'" "same_db V (r_db x2) (r_db x')"
          "touched (r_proc x') = touched (r_proc x2) @
            map (join root_path) (filter (\<lambda>f. Some f \<notin> set new \<and> Some f \<notin> set conf \<and> st_owners S f = Some name) (somes fs))"
          using Cons.IH [of x2] h1 x2 Cons.prems(4,5) by auto
        then show ?thesis using False own Some x1(1) j(1) x2 same_db_trans [OF x1(2)]
          by (auto simp: list_contains_iff run_join_def x2_def)
      qed
    qed
  qed
qed simp



end
