(* ===== verification/Lifecycle.thy ===== *)
theory Lifecycle
  imports Commit_Laws Removals
begin

text \<open>
  The life of a transaction: the public functions in any order and with any results.  What a
  reachable transaction looks like (arrays within their capacity, a package of the right name
  for every step that needs one, no obstacle left once it is prepared, never committed without
  being prepared) is an invariant of every call; the phases of \<open>trans_prepare\<close> and the steps of
  \<open>trans_commit\<close> keep it one by one.
\<close>

subsection \<open>Well-typed transactions\<close>

definition step_typed :: "pkg_heap \<Rightarrow> trans_step \<Rightarrow> addr option \<Rightarrow> bool" where
  "step_typed H s p \<longleftrightarrow> cstring (step_pkg_name s) \<and>
     (if step_op s = TRANS_OP_REMOVE then p = None else \<exists>a. p = Some a \<and> pkg_name_of H a = Some (step_pkg_name s))"

definition names_clean :: "pkg_heap \<Rightarrow> bool" where
  "names_clean H \<longleftrightarrow> (\<forall>p n. pkg_name_of H p = Some n \<longrightarrow> cstring n)"

definition wf_trans :: "pkg_heap \<Rightarrow> apg_trans \<Rightarrow> bool" where
  "wf_trans H t \<longleftrightarrow> trans_inv H t \<and> list_all2 (step_typed H) (plan t) (plan_pkgs t) \<and> (\<forall>n \<in> set (remove_names t). cstring n)"

definition typed_trans :: "pkg_heap \<Rightarrow> apg_trans \<Rightarrow> bool" where
  "typed_trans H t \<longleftrightarrow> wf_trans H t \<and> (committed t \<longrightarrow> prepared t) \<and> (prepared t \<longrightarrow> obstacles t = ([], [], [], []))"

subsection \<open>The phases of \<open>trans_prepare\<close>\<close>

lemma plan_reserve_shape:
  "plan_reserve t mem = (ok, t', mem') \<Longrightarrow> length (plan t) \<le> plan_cap t \<Longrightarrow>
   \<exists>c. t' = t\<lparr>plan_cap := c\<rparr> \<and> length (plan t) \<le> c \<and> (ok \<longrightarrow> length (plan t) < c)"
  by (cases "plan_cap t = 0"; cases "length (plan t) = plan_cap t"; cases "malloc_ok mem"; cases "malloc_ok (snd (malloc_ok mem))")
    (auto simp: plan_reserve_def split: if_splits intro: exI [of _ "plan_cap t"])

lemma plan_push_wf:
  assumes "wf_trans H t" and "plan_push t op name version expl pkg mem = (err, t', mem')"
    and "step_typed H \<lparr>step_op = op, step_pkg_name = name, step_pkg_version = None, step_explicit = expl\<rparr> pkg"
  shows "wf_trans H t'"
proof -
  obtain ok t1 m1 where r: "plan_reserve t mem = (ok, t1, m1)" by (metis prod_cases3)
  obtain c where c: "t1 = t\<lparr>plan_cap := c\<rparr>" "length (plan t) \<le> c" "ok \<longrightarrow> length (plan t) < c"
    using plan_reserve_shape [OF r] assms(1) by (auto simp: wf_trans_def trans_inv_def)
  have ty: "step_typed H \<lparr>step_op = op, step_pkg_name = name, step_pkg_version = v, step_explicit = expl\<rparr> pkg" for v
    using assms(3) by (auto simp: step_typed_def)
  have "t' = t1 \<or> (\<exists>v. ok \<and> t' = t1\<lparr>plan := plan t1 @ [\<lparr>step_op = op, step_pkg_name = name, step_pkg_version = v, step_explicit = expl\<rparr>],
      plan_pkgs := plan_pkgs t1 @ [pkg]\<rparr>)"
    using assms(2) r by (auto simp: plan_push_def Let_def split: prod.splits if_splits option.splits dest: strdup_m_cases)
  then show ?thesis
  proof (elim disjE exE conjE)
    fix v assume "ok" "t' = t1\<lparr>plan := plan t1 @ [\<lparr>step_op = op, step_pkg_name = name, step_pkg_version = v, step_explicit = expl\<rparr>],
      plan_pkgs := plan_pkgs t1 @ [pkg]\<rparr>"
    then show ?thesis using c assms(1) ty [of v] by (simp add: wf_trans_def trans_inv_def list_all2_appendI)
  qed (use c assms(1) in \<open>simp add: wf_trans_def trans_inv_def\<close>)
qed

lemma held_push_shape:
  assumes "held_push t name op mem = (err, t', mem')" and "length (held_pkgs t) \<le> held_cap t"
  shows "t' = t \<or> (\<exists>c. t' = t\<lparr>held_cap := c\<rparr> \<and> length (held_pkgs t) \<le> c) \<or>
    (\<exists>c e. t' = t\<lparr>held_cap := c, held_pkgs := held_pkgs t @ [e]\<rparr> \<and> length (held_pkgs t) < c)"
proof -
  obtain ok c m1 where r: "reserve 4 (length (held_pkgs t)) (held_cap t) mem = (ok, c, m1)" by (metis prod_cases3)
  have "length (held_pkgs t) \<le> c" "ok \<longrightarrow> length (held_pkgs t) < c"
    using r reserve_cap_mono [OF r] reserve_room [of 4 _ _ mem c m1] assms(2) by (cases ok; auto)+
  moreover have "t' = t \<or> t' = t\<lparr>held_cap := c\<rparr> \<or> (ok \<and> (\<exists>e. t' = t\<lparr>held_cap := c, held_pkgs := held_pkgs t @ [e]\<rparr>))"
    using assms(1) r by (auto simp: held_push_def Let_def split: if_splits option.splits prod.splits)
  ultimately show ?thesis by blast
qed

lemma held_push_wf: "wf_trans H t \<Longrightarrow> held_push t name op mem = (err, t', mem') \<Longrightarrow> wf_trans H t'"
  using held_push_shape [of t name op mem err t' mem'] by (auto simp: wf_trans_def trans_inv_def)

lemma conflict_push_shape:
  assumes "conflict_push t a b mem = (err, t', mem')" and "length (conflicts t) \<le> conflict_cap t"
  shows "t' = t \<or> (\<exists>c. t' = t\<lparr>conflict_cap := c\<rparr> \<and> length (conflicts t) \<le> c) \<or>
    (\<exists>c e. t' = t\<lparr>conflict_cap := c, conflicts := conflicts t @ [e]\<rparr> \<and> length (conflicts t) < c)"
proof -
  obtain ok c m1 where r: "reserve 4 (length (conflicts t)) (conflict_cap t) mem = (ok, c, m1)" by (metis prod_cases3)
  have "length (conflicts t) \<le> c" "ok \<longrightarrow> length (conflicts t) < c"
    using r reserve_cap_mono [OF r] reserve_room [of 4 _ _ mem c m1] assms(2) by (cases ok; auto)+
  moreover have "t' = t \<or> t' = t\<lparr>conflict_cap := c\<rparr> \<or> (ok \<and> (\<exists>e. t' = t\<lparr>conflict_cap := c, conflicts := conflicts t @ [e]\<rparr>))"
    using assms(1) r by (auto simp: conflict_push_def Let_def split: if_splits option.splits prod.splits)
  ultimately show ?thesis by blast
qed

lemma conflict_push_wf: "wf_trans H t \<Longrightarrow> conflict_push t a b mem = (err, t', mem') \<Longrightarrow> wf_trans H t'"
  using conflict_push_shape [of t a b mem err t' mem'] by (auto simp: wf_trans_def trans_inv_def)

lemma blocked_push_shape:
  assumes "blocked_push t a b mem = (err, t', mem')" and "length (blocked_removes t) \<le> blocked_remove_cap t"
  shows "t' = t \<or> (\<exists>c. t' = t\<lparr>blocked_remove_cap := c\<rparr> \<and> length (blocked_removes t) \<le> c) \<or>
    (\<exists>c e. t' = t\<lparr>blocked_remove_cap := c, blocked_removes := blocked_removes t @ [e]\<rparr> \<and> length (blocked_removes t) < c)"
proof -
  obtain ok c m1 where r: "reserve 4 (length (blocked_removes t)) (blocked_remove_cap t) mem = (ok, c, m1)" by (metis prod_cases3)
  have "length (blocked_removes t) \<le> c" "ok \<longrightarrow> length (blocked_removes t) < c"
    using r reserve_cap_mono [OF r] reserve_room [of 4 _ _ mem c m1] assms(2) by (cases ok; auto)+
  moreover have "t' = t \<or> t' = t\<lparr>blocked_remove_cap := c\<rparr> \<or> (ok \<and> (\<exists>e. t' = t\<lparr>blocked_remove_cap := c, blocked_removes := blocked_removes t @ [e]\<rparr>))"
    using assms(1) r by (auto simp: blocked_push_def Let_def split: if_splits option.splits prod.splits)
  ultimately show ?thesis by blast
qed

lemma blocked_push_wf: "wf_trans H t \<Longrightarrow> blocked_push t a b mem = (err, t', mem') \<Longrightarrow> wf_trans H t'"
  using blocked_push_shape [of t a b mem err t' mem'] by (auto simp: wf_trans_def trans_inv_def)

lemma file_conflict_push_shape:
  assumes "file_conflict_push t a b c mem = (err, t', mem')" and "length (file_conflicts t) \<le> file_conflict_cap t"
  shows "t' = t \<or> (\<exists>c. t' = t\<lparr>file_conflict_cap := c\<rparr> \<and> length (file_conflicts t) \<le> c) \<or>
    (\<exists>c e. t' = t\<lparr>file_conflict_cap := c, file_conflicts := file_conflicts t @ [e]\<rparr> \<and> length (file_conflicts t) < c)"
proof -
  obtain ok c m1 where r: "reserve 4 (length (file_conflicts t)) (file_conflict_cap t) mem = (ok, c, m1)" by (metis prod_cases3)
  have "length (file_conflicts t) \<le> c" "ok \<longrightarrow> length (file_conflicts t) < c"
    using r reserve_cap_mono [OF r] reserve_room [of 4 _ _ mem c m1] assms(2) by (cases ok; auto)+
  moreover have "t' = t \<or> t' = t\<lparr>file_conflict_cap := c\<rparr> \<or> (ok \<and> (\<exists>e. t' = t\<lparr>file_conflict_cap := c, file_conflicts := file_conflicts t @ [e]\<rparr>))"
    using assms(1) r by (auto simp: file_conflict_push_def Let_def split: if_splits option.splits prod.splits)
  ultimately show ?thesis by blast
qed

lemma file_conflict_push_wf: "wf_trans H t \<Longrightarrow> file_conflict_push t a b c mem = (err, t', mem') \<Longrightarrow> wf_trans H t'"
  using file_conflict_push_shape [of t a b c mem err t' mem'] by (auto simp: wf_trans_def trans_inv_def)

lemma install_step_typed: "names_clean H \<Longrightarrow> op \<noteq> TRANS_OP_REMOVE \<Longrightarrow> pkg_name_of H p = Some name \<Longrightarrow>
    step_typed H \<lparr>step_op = op, step_pkg_name = name, step_pkg_version = v, step_explicit = e\<rparr> (Some p)"
  by (auto simp: step_typed_def names_clean_def)

lemma plan_unchecked_wf:
  assumes "names_clean H"
  shows "wf_trans H t \<Longrightarrow> plan_unchecked H inst ps t mem = Some (err, t', mem') \<Longrightarrow> wf_trans H t'"
proof (induction ps arbitrary: t mem)
  case (Cons p ps)
  obtain m name where m: "pkg_meta (H p) = Some m" "meta_name m = Some name" using Cons.prems(2) by (auto split: bind_splits)
  obtain e1 t1 m1 where push: "plan_push t TRANS_OP_INSTALL name (meta_version m) True (Some p) mem = (e1, t1, m1)" by (metis prod_cases3)
  have "wf_trans H t1" by (rule plan_push_wf [OF Cons.prems(1) push install_step_typed [OF assms]]) (simp_all add: pkg_name_of_def m)
  then show ?case using Cons m push by (auto split: if_splits)
qed simp

lemma find_pkg_name: "find_pkg H ps name = Some p \<Longrightarrow> pkg_name_of H p = Some name"
  by (induction ps) (auto split: if_splits)

lemma plan_order_wf:
  assumes "names_clean H"
  shows "wf_trans H t \<Longrightarrow> plan_order H inst ns t mem = (err, t', mem') \<Longrightarrow> wf_trans H t'"
proof (induction ns arbitrary: t mem)
  case (Cons name ns)
  let ?p = "case find_install_pkg H t name of None \<Rightarrow> find_candidate_pkg H t name | Some p \<Rightarrow> Some p"
  show ?case
  proof (cases ?p)
    case None
    then show ?thesis using Cons by (simp split: if_splits)
  next
    case (Some p)
    then have p: "pkg_name_of H p = Some name" by (auto simp: find_install_pkg_def find_candidate_pkg_def split: option.splits dest: find_pkg_name)
    obtain e1 t1 m1 where push: "plan_push t TRANS_OP_INSTALL name (Option.bind (pkg_meta (H p)) meta_version) (is_explicit H t name) (Some p) mem = (e1, t1, m1)"
      by (metis prod_cases3)
    have "wf_trans H t1" by (rule plan_push_wf [OF Cons.prems(1) push install_step_typed [OF assms _ p]]) simp
    then show ?thesis using Cons Some push by (simp split: if_splits)
  qed
qed simp

lemma plan_installs_wf:
  "names_clean H \<Longrightarrow> wf_trans H t \<Longrightarrow> plan_installs pm H inst g t mem = Some (err, t', mem') \<Longrightarrow> wf_trans H t'"
  by (auto simp: plan_installs_def Let_def split: if_splits prod.splits bind_splits sum.splits dest: plan_unchecked_wf plan_order_wf)

lemma push_breaks_wf: "wf_trans H t \<Longrightarrow> push_breaks name bs t mem = (err, t', mem') \<Longrightarrow> wf_trans H t'"
  by (induction bs arbitrary: t mem) (auto simp: Let_def split: prod.splits if_splits dest: conflict_push_wf)

lemma collect_breaks_wf: "wf_trans H t \<Longrightarrow> collect_breaks ns ts t mem = (err, t', mem') \<Longrightarrow> wf_trans H t'"
  by (induction ns ts t mem rule: collect_breaks.induct) (auto split: prod.splits if_splits dest: push_breaks_wf)

lemma find_conflicts_wf: "wf_trans H t \<Longrightarrow> find_conflicts pm H' inst g t mem = Some (err, t', mem') \<Longrightarrow> wf_trans H t'"
  by (auto simp: find_conflicts_def Let_def split: if_splits prod.splits bind_splits dest: collect_breaks_wf)

lemma plan_upgrades_wf:
  assumes "names_clean H"
  shows "wf_trans H t \<Longrightarrow> plan_upgrades L J H ps t db mem = Some (err, t', db', mem') \<Longrightarrow> wf_trans H t'"
proof (induction ps arbitrary: t db mem)
  case (Cons p ps)
  obtain m name where m: "pkg_meta (H p) = Some m" "meta_name m = Some name" using Cons.prems(2) by (auto split: bind_splits)
  obtain inst db1 m1 where g: "db_get L J db (Some name) mem = (inst, db1, m1)" by (metis prod_cases3)
  let ?held = "case inst of None \<Rightarrow> False | Some i \<Rightarrow> held i" and ?hand = "case inst of None \<Rightarrow> True | Some i \<Rightarrow> installed_by_hand i"
  obtain e1 t1 m2 where push: "(if ?held then held_push t name TRANS_OP_UPGRADE m1
      else plan_push t TRANS_OP_UPGRADE name (meta_version m) ?hand (Some p) m1) = (e1, t1, m2)" by (metis prod_cases3)
  have ty: "step_typed H \<lparr>step_op = TRANS_OP_UPGRADE, step_pkg_name = name, step_pkg_version = v, step_explicit = e\<rparr> (Some p)" for v e
    using install_step_typed [OF assms, of TRANS_OP_UPGRADE p name] by (simp add: pkg_name_of_def m)
  have "wf_trans H t1" using push plan_push_wf [OF Cons.prems(1) _ ty] held_push_wf [OF Cons.prems(1)] by (auto split: if_splits)
  then show ?case using Cons m g push by (auto simp: Let_def split: if_splits)
qed simp

lemma check_removals_wf:
  "wf_trans H t \<Longrightarrow> \<forall>n \<in> set rs \<union> set ns. cstring n \<Longrightarrow> check_removals L J ns rs t db mem = Some (err, rs', t', db', mem') \<Longrightarrow>
   wf_trans H t' \<and> (\<forall>n \<in> set rs'. cstring n)"
proof (induction ns arbitrary: rs t db mem)
  case (Cons n ns)
  obtain inst db1 m1 where g: "db_get L J db (Some n) mem = (inst, db1, m1)" by (metis prod_cases3)
  show ?case
  proof (cases "case inst of None \<Rightarrow> False | Some i \<Rightarrow> held i")
    case True
    obtain e1 t1 m2 where h: "held_push t n TRANS_OP_REMOVE m1 = (e1, t1, m2)" by (metis prod_cases3)
    have w: "wf_trans H t1" by (rule held_push_wf [OF Cons.prems(1) h])
    show ?thesis
    proof (cases "e1 = TRANS_OK")
      case ok: True
      then have "check_removals L J ns rs t1 db1 m2 = Some (err, rs', t', db', mem')" using Cons.prems(3) True g h by simp
      then show ?thesis by (rule Cons.IH [OF w, rotated]) (use Cons.prems(2) in simp)
    next
      case False
      then have "t' = t1" "rs' = rs" using Cons.prems(3) True g h by auto
      then show ?thesis using w Cons.prems(2) by simp
    qed
  next
    case False
    show ?thesis
    proof (cases "skip_dependents_check t")
      case True
      then have "check_removals L J ns (rs @ [n]) t db1 m1 = Some (err, rs', t', db', mem')" using Cons.prems(3) False g by simp
      then show ?thesis by (rule Cons.IH [OF Cons.prems(1), rotated]) (use Cons.prems(2) in simp)
    next
      case check: False
      obtain deps db2 m2 where d: "db_get_dependents L J db1 (Some n) m1 = Some (deps, db2, m2)"
        using Cons.prems(3) False check g by (auto split: bind_splits)
      let ?kept = "filter (\<lambda>d. \<not> in_strarray (remove_names t) d) (case deps of None \<Rightarrow> [] | Some ds \<Rightarrow> ds)"
      obtain e1 t1 m3 where p: "blocked_push t n ?kept m2 = (e1, t1, m3)" by (metis prod_cases3)
      have r: "(if ?kept \<noteq> [] then if e1 \<noteq> TRANS_OK then Some (e1, rs, t1, db2, m3) else check_removals L J ns rs t1 db2 m3
          else check_removals L J ns (rs @ [n]) t db2 m2) = Some (err, rs', t', db', mem')"
        using Cons.prems(3) False check g d p by (auto simp: Let_def split: if_splits)
      have w: "wf_trans H t1" by (rule blocked_push_wf [OF Cons.prems(1) p])
      have c: "\<forall>n \<in> set rs \<union> set ns. cstring n" "\<forall>m \<in> set (rs @ [n]) \<union> set ns. cstring m" using Cons.prems(2) by simp_all
      show ?thesis
      proof (cases "?kept = []")
        case True
        then have "check_removals L J ns (rs @ [n]) t db2 m2 = Some (err, rs', t', db', mem')" using r by simp
        then show ?thesis by (rule Cons.IH [OF Cons.prems(1) c(2)])
      next
        case False
        show ?thesis
        proof (cases "e1 = TRANS_OK")
          case True
          then have "check_removals L J ns rs t1 db2 m3 = Some (err, rs', t', db', mem')" using r False by simp
          then show ?thesis by (rule Cons.IH [OF w c(1)])
        next
          case e1: False
          then have "t' = t1" "rs' = rs" using r False by auto
          then show ?thesis using w c(1) by blast
        qed
      qed
    qed
  qed
qed simp

lemma emit_removals_wf:
  "wf_trans H t \<Longrightarrow> \<forall>n \<in> set ns. cstring n \<Longrightarrow> emit_removals k ns pkgs dn t mem = Some (err, t', mem') \<Longrightarrow> wf_trans H t'"
proof (induction k arbitrary: dn t mem)
  case (Suc k)
  obtain i dn1 name where n: "name \<in> set ns" and r: "(let (err, tr, mem) = plan_push t TRANS_OP_REMOVE name None True None mem in
      if err \<noteq> TRANS_OK then Some (err, tr, mem) else emit_removals k ns pkgs dn1 tr mem) = Some (err, t', mem')"
    using Suc.prems(3) by (auto split: bind_splits dest: nth_mem)
  obtain e1 t1 m1 where push: "plan_push t TRANS_OP_REMOVE name None True None mem = (e1, t1, m1)" by (metis prod_cases3)
  have "wf_trans H t1" by (rule plan_push_wf [OF Suc.prems(1) push]) (use n Suc.prems(2) in \<open>auto simp: step_typed_def\<close>)
  then show ?case using r push Suc by (auto split: if_splits)
qed simp

lemma push_removals_wf:
  assumes "wf_trans H t" and "\<forall>n \<in> set ns. cstring n" and "push_removals_in_order L J t ns db mem = Some (err, t', db', mem')"
  shows "wf_trans H t'"
proof -
  have "t' = t \<or> (\<exists>pkgs m3 m4. emit_removals (length ns) ns pkgs (replicate (length ns) False) t m3 = Some (err, t', m4))"
    using assms(3) by (auto simp: push_removals_in_order_def Let_def split: if_splits prod.splits bind_splits)
  then show ?thesis using emit_removals_wf [OF assms(1,2)] assms(1) by blast
qed

lemma plan_removals_wf:
  assumes wf: "wf_trans H t" and p: "plan_removals L J t db mem = Some (err, t', db', mem')"
  shows "wf_trans H t'"
proof -
  obtain ok m where m: "(if remove_names t = [] then (True, mem) else malloc_ok mem) = (ok, m)" by fastforce
  show ?thesis
  proof (cases ok)
    case True
    then obtain e1 rs t1 db1 m1 where c: "check_removals L J (remove_names t) [] t db m = Some (e1, rs, t1, db1, m1)"
      using p m by (auto simp: plan_removals_def split: bind_splits)
    have w: "wf_trans H t1" "\<forall>n \<in> set rs. cstring n" using check_removals_wf [OF wf _ c] wf by (auto simp: wf_trans_def)
    have "t' = t1 \<or> push_removals_in_order L J t1 rs db1 m1 = Some (err, t', db', mem')"
      using p m True c by (auto simp: plan_removals_def split: if_splits)
    then show ?thesis using push_removals_wf [OF w] w(1) by blast
  qed (use p m wf in \<open>auto simp: plan_removals_def\<close>)
qed

lemma check_files_wf: "wf_trans H t \<Longrightarrow> check_files L name fs t db mem = (err, t', db', mem') \<Longrightarrow> wf_trans H t'"
proof (induction fs arbitrary: t db mem)
  case (Cons f fs)
  show ?case
  proof (cases f)
    case None
    then show ?thesis using Cons by simp
  next
    case (Some path)
    obtain own db1 m1 where o: "db_owner L db (Some path) mem = (own, db1, m1)" by (metis prod_cases3)
    obtain e1 t1 m2 where p: "file_conflict_push t path name (the own) m1 = (e1, t1, m2)" by (metis prod_cases3)
    have w: "wf_trans H t1" by (rule file_conflict_push_wf [OF Cons.prems(1) p])
    have "check_files L name fs t db1 m1 = (err, t', db', mem') \<or> check_files L name fs t1 db1 m2 = (err, t', db', mem') \<or> t' = t1"
      using Cons.prems(2) Some o p by (auto split: option.splits if_splits)
    then show ?thesis using Cons.IH [OF Cons.prems(1)] Cons.IH [OF w] w by blast
  qed
qed simp

text \<open>Packages that keep their names keep a transaction well formed.\<close>

definition same_names :: "pkg_heap \<Rightarrow> pkg_heap \<Rightarrow> bool" where
  "same_names H H' \<longleftrightarrow> pkg_name_of H' = pkg_name_of H"

lemma same_names_refl [simp]: "same_names H H"
  by (simp add: same_names_def)

lemma same_names_trans: "same_names H1 H2 \<Longrightarrow> same_names H2 H3 \<Longrightarrow> same_names H1 H3"
  by (simp add: same_names_def)

lemma same_names_clean: "same_names H H' \<Longrightarrow> names_clean H' \<longleftrightarrow> names_clean H"
  by (simp add: same_names_def names_clean_def)

lemma same_names_wf: "same_names H H' \<Longrightarrow> wf_trans H' t \<longleftrightarrow> wf_trans H t"
  by (simp add: same_names_def wf_trans_def trans_inv_def step_typed_def [abs_def])

lemma same_pkgs_names: "same_pkgs H H' \<Longrightarrow> same_names H H'"
  using same_pkgs_meta by (auto simp: same_names_def)

lemma find_file_conflicts_wf:
  "wf_trans (r_pkgs x) t \<Longrightarrow> find_file_conflicts E ps t x = Some (err, t', x') \<Longrightarrow> wf_trans (r_pkgs x) t'"
proof (induction ps arbitrary: t x)
  case (Cons p ps)
  show ?case
  proof (cases "pkg_name_of (r_pkgs x) p")
    case None
    then show ?thesis using Cons by simp
  next
    case (Some name)
    obtain x1 where x1: "(if package_files (r_pkgs x p) = [] then run_collect E p ''/'' x else Some x) = Some x1"
      using Cons.prems Some by (auto split: bind_splits)
    have n: "same_names (r_pkgs x) (r_pkgs x1)" using x1 by (auto split: if_splits dest: run_collect_same same_pkgs_names)
    obtain e1 t1 db1 m1 where c: "check_files (h_lmdb E) name (package_files (r_pkgs x1 p)) t (r_db x1) (pmem (r_proc x1)) = (e1, t1, db1, m1)"
      by (metis prod_cases4)
    have w: "wf_trans (r_pkgs x) t1" by (rule check_files_wf [OF Cons.prems(1) c])
    have run: "(if e1 \<noteq> TRANS_OK then Some (e1, t1, run_mem db1 m1 x1) else find_file_conflicts E ps t1 (run_mem db1 m1 x1)) = Some (err, t', x')"
      using Cons.prems(2) Some x1 c by (simp add: Let_def)
    have w1: "wf_trans (r_pkgs (run_mem db1 m1 x1)) t1" using w same_names_wf [OF n] by simp
    show ?thesis
    proof (cases "e1 = TRANS_OK")
      case True
      then have "find_file_conflicts E ps t1 (run_mem db1 m1 x1) = Some (err, t', x')" using run by simp
      from Cons.IH [OF w1 this] show ?thesis using same_names_wf [OF n] by simp
    qed (use run w in auto)
  qed
qed simp

lemma verdict_wf: "wf_trans H t \<Longrightarrow> verdict t = (err, t') \<Longrightarrow> wf_trans H t'"
  by (auto simp: verdict_def wf_trans_def trans_inv_def split: if_splits)

lemma prepare_phases_wf:
  assumes nc: "names_clean (r_pkgs x)" and wf: "wf_trans (r_pkgs x) t" and r: "prepare_phases E pm inst g t x = Some (err, t', x')"
  shows "wf_trans (r_pkgs x) t'"
proof -
  note r = r [unfolded prepare_phases_def Let_def]
  obtain e1 t1 m1 where p1: "plan_installs pm (r_pkgs x) inst g t (pmem (r_proc x)) = Some (e1, t1, m1)" using r by (auto split: bind_splits)
  have w1: "wf_trans (r_pkgs x) t1" by (rule plan_installs_wf [OF nc wf p1])
  have "t' = t1 \<or> (\<exists>e2 t2 m2. find_conflicts pm (r_pkgs x) inst g t1 m1 = Some (e2, t2, m2) \<and> (t' = t2 \<or>
      (\<exists>e3 t3 db3 m3. plan_upgrades (h_lmdb E) (h_json E) (r_pkgs x) (upgrade_pkgs t2) t2 (r_db x) m2 = Some (e3, t3, db3, m3) \<and> (t' = t3 \<or>
      (\<exists>e4 t4 db4 m4. plan_removals (h_lmdb E) (h_json E) t3 db3 m3 = Some (e4, t4, db4, m4) \<and> (t' = t4 \<or>
      (\<exists>e5 t5 x5. find_file_conflicts E (install_pkgs t4) t4 (run_mem db4 m4 x) = Some (e5, t5, x5) \<and> (t' = t5 \<or> (\<exists>e. verdict t5 = (e, t'))))))))))"
    using r p1 by (auto split: bind_splits if_splits prod.splits)
  then show ?thesis
  proof (elim disjE exE conjE)
    fix e2 t2 m2 assume c2: "find_conflicts pm (r_pkgs x) inst g t1 m1 = Some (e2, t2, m2)"
    have w2: "wf_trans (r_pkgs x) t2" by (rule find_conflicts_wf [OF w1 c2])
    then show ?thesis if "t' = t2" using that by simp
    fix e3 t3 db3 m3 assume "plan_upgrades (h_lmdb E) (h_json E) (r_pkgs x) (upgrade_pkgs t2) t2 (r_db x) m2 = Some (e3, t3, db3, m3)"
    then have w3: "wf_trans (r_pkgs x) t3" by (rule plan_upgrades_wf [OF nc w2])
    then show ?thesis if "t' = t3" using that by simp
    fix e4 t4 db4 m4 assume "plan_removals (h_lmdb E) (h_json E) t3 db3 m3 = Some (e4, t4, db4, m4)"
    then have w4: "wf_trans (r_pkgs x) t4" by (rule plan_removals_wf [OF w3])
    then show ?thesis if "t' = t4" using that by simp
    fix e5 t5 x5 assume "find_file_conflicts E (install_pkgs t4) t4 (run_mem db4 m4 x) = Some (e5, t5, x5)"
    then have w5: "wf_trans (r_pkgs x) t5" using find_file_conflicts_wf [of "run_mem db4 m4 x" t4] w4 by simp
    then show ?thesis if "t' = t5" using that by simp
    show ?thesis if "verdict t5 = (e, t')" for e using verdict_wf [OF w5 that] .
  qed (use w1 in simp)
qed

lemma trans_prepare_typed:
  assumes spec: "lmdb_spec (h_lmdb E) V" and nc: "names_clean (r_pkgs x)" and ty: "typed_trans (r_pkgs x) t"
    and p: "trans_prepare E pm t x = Some (err, t', x')"
  shows "same_names (r_pkgs x) (r_pkgs x') \<and> typed_trans (r_pkgs x) t'"
proof (cases "prepared t")
  case True
  then show ?thesis using p ty by (simp add: trans_prepare_def)
next
  case False
  note v = prepare_outcome [OF spec False p]
  have "t' = t \<or> (\<exists>inst g db m. prepare_phases E pm inst g t (run_mem db m x) = Some (err, t', x'))"
    using p False by (auto simp: trans_prepare_def Let_def split: prod.splits if_splits option.splits bind_splits)
  then have "wf_trans (r_pkgs x) t'"
    using ty prepare_phases_wf [of "run_mem _ _ x" t E pm _ _ err t' x'] nc by (auto simp: typed_trans_def)
  moreover have "committed t' = committed t" using v by (cases t, cases t') (auto simp: prepare_result_def requests_def)
  moreover have "prepared t' \<longrightarrow> obstacles t' = ([], [], [], [])" using v by (auto simp: prepare_result_def verdict_ok_def obstacles_def)
  ultimately show ?thesis using v ty False same_pkgs_names by (auto simp: typed_trans_def prepare_result_def)
qed

subsection \<open>The steps of \<open>trans_commit\<close>\<close>

text \<open>
  Only installing and recording a package writes to a package object, and neither touches its
  metadata.
\<close>

lemma fail_install_pkg: "fail_install P d pkg s = Some (ok, pkg', s') \<Longrightarrow> pkg' = pkg"
  by (auto simp: fail_install_def split: bind_splits)

lemma list_installed_meta: "list_installed P d pkg s = Some (pkg', s') \<Longrightarrow> pkg_meta pkg' = pkg_meta pkg"
  by (auto simp: list_installed_def split: bind_splits option.splits prod.splits)

lemma install_package_in_root_meta:
  "install_package_in_root tmp P A pkg root s = Some (ok, pkg', s') \<Longrightarrow> pkg_meta pkg' = pkg_meta pkg"
  by (auto simp: install_package_in_root_def split: bind_splits option.splits prod.splits if_splits
      dest!: fail_install_pkg list_installed_meta)

lemma same_names_upd: "pkg_meta pkg = pkg_meta (H p) \<Longrightarrow> same_names H (H(p := pkg))"
  by (auto simp: same_names_def pkg_name_of_def)

lemma run_install_names: "run_install E p root x = Some (ok, x') \<Longrightarrow> same_names (r_pkgs x) (r_pkgs x')"
  by (auto simp: run_install_def split: bind_splits intro!: same_names_upd dest: install_package_in_root_meta)

lemma on_db_pkgs: "on_db f x = (r, x') \<Longrightarrow> r_pkgs x' = r_pkgs x"
  by (auto simp: on_db_def split: prod.splits)

lemma run_db_pkgs:
  "run_db_get E name x = (g, x') \<Longrightarrow> r_pkgs x' = r_pkgs x" "run_db_remove E name x = (b, x') \<Longrightarrow> r_pkgs x' = r_pkgs x"
  "run_db_owner E path x = (w, x') \<Longrightarrow> r_pkgs x' = r_pkgs x" "run_db_add E pkg x = Some (b, x') \<Longrightarrow> r_pkgs x' = r_pkgs x"
  by (auto simp: run_db_get_def run_db_remove_def run_db_owner_def run_db_add_def split: bind_splits dest: on_db_pkgs)

lemma run_proc_pkgs:
  "run_proc f x = Some (r, x') \<Longrightarrow> r_pkgs x' = r_pkgs x" "run_proc0 h x = Some x' \<Longrightarrow> r_pkgs x' = r_pkgs x"
  "run_join a b x = Some (q, x') \<Longrightarrow> r_pkgs x' = r_pkgs x"
  by (auto simp: run_proc_def run_proc0_def run_join_def split: bind_splits)

lemma run_journal_pkgs [simp]: "r_pkgs (run_journal E op step ok expl x) = r_pkgs x"
  by (simp add: run_journal_def)

lemmas run_pkgs = run_db_pkgs run_proc_pkgs

lemma upgrade_backup_create_pkgs: "upgrade_backup_create E name root x = Some (ok, bk, x') \<Longrightarrow> r_pkgs x' = r_pkgs x"
  by (auto simp: upgrade_backup_create_def Let_def split: prod.splits option.splits bind_splits if_splits dest!: run_pkgs)

lemma upgrade_backup_restore_pkgs: "upgrade_backup_restore E bk pkg root x = Some x' \<Longrightarrow> r_pkgs x' = r_pkgs x"
  by (auto simp: upgrade_backup_restore_def split: bind_splits dest!: run_pkgs)

lemma rollback_one_pkgs: "rollback_one E step pkg bk root x = Some x' \<Longrightarrow> r_pkgs x' = r_pkgs x"
  by (auto simp: rollback_one_def Let_def split: if_splits bind_splits option.splits prod.splits
      dest!: upgrade_backup_restore_pkgs run_pkgs)

lemma rollback_committed_pkgs: "rollback_committed E t bks root is x = Some x' \<Longrightarrow> r_pkgs x' = r_pkgs x"
  by (induction "is" arbitrary: x) (auto split: bind_splits dest: rollback_one_pkgs)

lemma drop_files_loop_pkgs: "drop_files_loop E root name new conf fs x = Some x' \<Longrightarrow> r_pkgs x' = r_pkgs x"
proof (induction E root name new conf fs x rule: drop_files_loop.induct)
  case (3 E root name new conf path fs x)
  show ?case
  proof (cases "list_contains new path \<or> list_contains conf path")
    case True
    then show ?thesis using 3 by simp
  next
    case False
    obtain w x1 where w: "run_db_owner E path x = (w, x1)" by fastforce
    show ?thesis
    proof (cases "w = Some name")
      case True
      then obtain full x2 where j: "run_join root path x1 = Some (full, x2)" using 3(4) False w by (auto split: bind_splits)
      then have "r_pkgs x' = r_pkgs x2" using 3(3) [OF False w [symmetric] refl _ j] 3(4) False w True by (simp split: option.splits)
      then show ?thesis using run_pkgs(3) [OF w] run_pkgs(7) [OF j] by simp
    qed (use 3 False w run_pkgs(3) [OF w] in simp)
  qed
qed simp_all

lemma remove_dropped_files_pkgs: "remove_dropped_files E pkg root x = Some x' \<Longrightarrow> r_pkgs x' = r_pkgs x"
  by (auto simp: remove_dropped_files_def Let_def split: bind_splits option.splits prod.splits dest!: drop_files_loop_pkgs run_pkgs)

lemma discard_backups_pkgs: "discard_backups E bks x = Some x' \<Longrightarrow> r_pkgs x' = r_pkgs x"
  by (induction bks arbitrary: x) (auto simp: upgrade_backup_discard_def split: bind_splits option.splits dest: run_pkgs)

lemma record_step_names: "record_step E i step p cs = Some (err, cs') \<Longrightarrow> same_names (r_pkgs (cs_run cs)) (r_pkgs (cs_run cs'))"
  by (auto simp: record_step_def Let_def split: bind_splits dest!: run_pkgs intro!: same_names_upd)

lemma fail_step_pkgs [simp]: "r_pkgs (cs_run (snd (fail_step E err step cs))) = r_pkgs (cs_run cs)"
  by (simp add: fail_step_def)

definition cs_names :: "('e, 'w) commit_state \<Rightarrow> ('e, 'w) commit_state \<Rightarrow> bool" where
  "cs_names cs cs' \<longleftrightarrow> same_names (r_pkgs (cs_run cs)) (r_pkgs (cs_run cs'))"

lemma install_then_record:
  "run_install E p root x = Some (ok, x1) \<Longrightarrow> record_step E i step p (cs\<lparr>cs_run := x1\<rparr>) = Some (err, cs') \<Longrightarrow>
   same_names (r_pkgs x) (r_pkgs (cs_run cs'))"
  using same_names_trans [OF run_install_names record_step_names, of E p root x ok "cs\<lparr>cs_run := x1\<rparr>"] by simp

lemma install_step_names: "install_step E t kr root i step pkg cs = Some (err, cs') \<Longrightarrow> cs_names cs cs'"
  by (auto simp: install_step_def fail_step_def cs_names_def Let_def split: bind_splits if_splits)
    (blast intro: run_install_names install_then_record)+

text \<open>In an upgrade the configuration files and the dropped files come in between.\<close>

lemma confs_then_install:
  "run_proc f x = Some (r, x1) \<Longrightarrow> run_install E p root x1 = Some (ok, x2) \<Longrightarrow> same_names (r_pkgs x) (r_pkgs x2)"
  by (drule run_proc_pkgs, drule run_install_names) simp

lemma dropped_then_record:
  assumes "remove_dropped_files E pkg root (case c of None \<Rightarrow> x | Some bk \<Rightarrow> x\<lparr>r_proc := f bk\<rparr>) = Some x1"
    and "record_step E i step p (cs\<lparr>cs_run := x1\<rparr>) = Some (err, cs')"
  shows "same_names (r_pkgs x) (r_pkgs (cs_run cs'))"
  using record_step_names [OF assms(2)] remove_dropped_files_pkgs [OF assms(1)] by (simp split: option.splits)

lemma upgrade_tail_names:
  "run_proc f x = Some (r, x1) \<Longrightarrow> run_install E p root x1 = Some (ok, x2) \<Longrightarrow> r_pkgs x = H \<Longrightarrow> same_names H (r_pkgs x2)"
  "run_proc f x = Some (r, x1) \<Longrightarrow> run_install E p root x1 = Some (ok, x2) \<Longrightarrow> r_pkgs x = H \<Longrightarrow>
   remove_dropped_files E pkg root (case c of None \<Rightarrow> x2 | Some bk \<Rightarrow> x2\<lparr>r_proc := g bk\<rparr>) = Some x3 \<Longrightarrow>
   record_step E i step p (cs\<lparr>cs_run := x3\<rparr>) = Some (err, cs') \<Longrightarrow> same_names H (r_pkgs (cs_run cs'))"
  by (auto dest: confs_then_install intro: same_names_trans [OF confs_then_install dropped_then_record])

lemma upgrade_step_names:
  assumes s: "upgrade_step E t kr root i step pkg cs = Some (err, cs')"
  shows "cs_names cs cs'"
proof -
  obtain ok where "signature_passes E t kr pkg (cs_run cs) = Some ok" using s by (auto simp: upgrade_step_def split: bind_splits)
  moreover obtain okb bk x where "upgrade_backup_create E (step_pkg_name step) root (cs_run cs) = Some (okb, bk, x)" if "ok" "\<not> dry_run t"
    using s calculation that by (auto simp: upgrade_step_def split: bind_splits if_splits)
  ultimately show ?thesis using s
    by (cases "ok \<and> \<not> dry_run t"; cases okb;
        auto simp: upgrade_step_def fail_step_def cs_names_def Let_def split: bind_splits if_splits dest!: upgrade_backup_create_pkgs)
      (erule (2) upgrade_tail_names(1), erule (4) upgrade_tail_names(2))
qed

lemma remove_step_run_pkgs: "remove_step_run E t root step cs = Some (err, cs') \<Longrightarrow> r_pkgs (cs_run cs') = r_pkgs (cs_run cs)"
  by (auto simp: remove_step_run_def remove_files_and_scripts_def Let_def split: prod.splits bind_splits if_splits option.splits dest!: run_pkgs)

lemma commit_step_names: "commit_step E t kr root i cs = Some (err, cs') \<Longrightarrow> cs_names cs cs'"
  by (auto simp: commit_step_def split: bind_splits trans_op.splits dest: install_step_names upgrade_step_names)
    (simp add: cs_names_def remove_step_run_pkgs)

lemma commit_loop_names: "commit_loop E t kr root is cs = Some (err, cs') \<Longrightarrow> cs_names cs cs'"
proof (induction "is" arbitrary: cs)
  case (Cons i "is")
  obtain e1 cs1 where s: "commit_step E t kr root i cs = Some (e1, cs1)" using Cons.prems by (auto split: bind_splits)
  have "cs_names cs1 cs'"
    using Cons s by (auto simp: cs_names_def split: if_splits bind_splits dest: rollback_committed_pkgs)
  then show ?case using commit_step_names [OF s] by (auto simp: cs_names_def intro: same_names_trans)
qed (simp add: cs_names_def)

lemma commit_plan_shape:
  assumes "commit_plan E t kr root x = Some (err, t', x')"
  shows "same_names (r_pkgs x) (r_pkgs x') \<and> (t' = t \<or> t' = t\<lparr>committed := True\<rparr>)"
proof -
  let ?cs = "\<lparr>committed_idx = [], cs_backups = replicate (length (plan t)) no_backup, cs_run = x\<lparr>r_db := (r_db x)\<lparr>suppress_journal := True\<rparr>\<rparr>\<rparr>"
  obtain e cs where l: "commit_loop E t kr root [0..<length (plan t)] ?cs = Some (e, cs)"
    using assms by (auto simp: commit_plan_def split: bind_splits)
  obtain y where y: "discard_backups E (cs_backups cs) (cs_run cs) = Some y" "x' = y\<lparr>r_db := (r_db y)\<lparr>suppress_journal := False\<rparr>\<rparr>"
    and t': "t' = (if e = TRANS_OK \<and> \<not> dry_run t then t\<lparr>committed := True\<rparr> else t)"
    using assms l by (auto simp: commit_plan_def release_commit_def split: bind_splits)
  show ?thesis using commit_loop_names [OF l] discard_backups_pkgs [OF y(1)] y(2) t' by (simp add: cs_names_def)
qed

lemma trans_commit_shape:
  assumes "trans_commit E t root x = Some (err, t', x')"
  shows "same_names (r_pkgs x) (r_pkgs x') \<and> (t' = t \<or> prepared t \<and> t' = t\<lparr>committed := True\<rparr>)"
proof -
  have "t' = t \<and> r_pkgs x' = r_pkgs x \<or>
    prepared t \<and> (\<exists>kr r y. r_pkgs y = r_pkgs x \<and> commit_plan E t kr r y = Some (err, t', x'))"
    using assms by (auto simp: trans_commit_def Let_def split: option.splits if_splits prod.splits)
  then show ?thesis using commit_plan_shape [of E t _ _ _ err t' x'] by force
qed

lemma trans_commit_typed:
  assumes ty: "typed_trans (r_pkgs x) t" and c: "trans_commit E t root x = Some (err, t', x')"
  shows "same_names (r_pkgs x) (r_pkgs x') \<and> typed_trans (r_pkgs x) t'"
  using trans_commit_shape [OF c] ty by (auto simp: typed_trans_def wf_trans_def trans_inv_def obstacles_def)

subsection \<open>Sequences of calls\<close>

text \<open>
  The calls that a client makes on a transaction, in any order, with whatever they return.  The
  packages belong to the client, who may not change them while the transaction holds them, and
  a string argument is a C string.
\<close>

inductive trans_call :: "('e, 't, 'w) host \<Rightarrow> apg_trans \<times> ('e, 'w) run \<Rightarrow> apg_trans \<times> ('e, 'w) run \<Rightarrow> bool"
  for E :: "('e, 't, 'w) host" where
  add_install: "trans_add_install (r_pkgs x) t pkg (pmem (r_proc x)) = (err, t', m) \<Longrightarrow> trans_call E (t, x) (t', run_mem (r_db x) m x)"
| add_candidate: "trans_add_candidate (r_pkgs x) t pkg (pmem (r_proc x)) = (err, t', m) \<Longrightarrow> trans_call E (t, x) (t', run_mem (r_db x) m x)"
| add_upgrade: "trans_add_upgrade (r_pkgs x) t pkg (pmem (r_proc x)) = (err, t', m) \<Longrightarrow> trans_call E (t, x) (t', run_mem (r_db x) m x)"
| add_remove: "trans_add_remove t name (pmem (r_proc x)) = (err, t', m) \<Longrightarrow> pred_option cstring name \<Longrightarrow>
    trans_call E (t, x) (t', run_mem (r_db x) m x)"
| set_policy: "trans_set_policy t policy (pmem (r_proc x)) = (t', m) \<Longrightarrow> trans_call E (t, x) (t', run_mem (r_db x) m x)"
| prefer_provider: "trans_prefer_provider t name pkg (pmem (r_proc x)) = (t', m) \<Longrightarrow> trans_call E (t, x) (t', run_mem (r_db x) m x)"
| set_dry_run: "trans_call E (t, x) (trans_set_dry_run t dry, x)"
| set_progress_cb: "trans_call E (t, x) (trans_set_progress_cb t cb, x)"
| prepare: "trans_prepare E pm t x = Some (err, t', x') \<Longrightarrow> trans_call E (t, x) (t', x')"
| commit: "trans_commit E t root x = Some (err, t', x') \<Longrightarrow> trans_call E (t, x) (t', x')"

text \<open>The setters and the requests leave the plan and the obstacles alone.\<close>

definition same_plan :: "apg_trans \<Rightarrow> apg_trans \<Rightarrow> bool" where
  "same_plan t t' \<longleftrightarrow> plan t' = plan t \<and> plan_pkgs t' = plan_pkgs t \<and> obstacles t' = obstacles t \<and>
     prepared t' = prepared t \<and> committed t' = committed t"

lemma typed_same_plan:
  "typed_trans H t \<Longrightarrow> same_plan t t' \<Longrightarrow> trans_inv H t' \<Longrightarrow> \<forall>n \<in> set (remove_names t'). cstring n \<Longrightarrow> typed_trans H t'"
  by (auto simp: typed_trans_def wf_trans_def same_plan_def)

lemma request_same_plan:
  "trans_add_install H t p mem = (err, t', mem') \<Longrightarrow> same_plan t t' \<and> remove_names t' = remove_names t"
  "trans_add_candidate H t p mem = (err, t', mem') \<Longrightarrow> same_plan t t' \<and> remove_names t' = remove_names t"
  "trans_add_upgrade H t p mem = (err, t', mem') \<Longrightarrow> same_plan t t' \<and> remove_names t' = remove_names t"
  "trans_add_remove t name mem = (err, t', mem') \<Longrightarrow> same_plan t t'"
  "trans_set_policy t policy mem = (t', mem') \<Longrightarrow> same_plan t t' \<and> remove_names t' = remove_names t"
  "trans_prefer_provider t name pkg mem = (t', mem') \<Longrightarrow> same_plan t t' \<and> remove_names t' = remove_names t"
  by (auto simp: trans_add_install_def trans_add_candidate_def trans_add_upgrade_def trans_add_remove_def trans_set_policy_def
      trans_prefer_provider_def same_plan_def obstacles_def Let_def split: if_splits prod.splits option.splits)

lemma typed_inv: "typed_trans H t \<Longrightarrow> trans_inv H t \<and> (\<forall>n \<in> set (remove_names t). cstring n)"
  by (simp add: typed_trans_def wf_trans_def)

lemma typed_request:
  assumes "typed_trans H t" and "same_plan t t' \<and> remove_names t' = remove_names t" and "trans_inv H t'"
  shows "typed_trans H t'"
  using typed_same_plan [OF assms(1) _ assms(3)] assms(2) typed_inv [OF assms(1)] by simp

lemma request_typed:
  assumes ty: "typed_trans H t"
  shows "trans_add_install H t p mem = (err, t', mem') \<Longrightarrow> typed_trans H t'"
    and "trans_add_candidate H t p mem = (err, t', mem') \<Longrightarrow> typed_trans H t'"
    and "trans_add_upgrade H t p mem = (err, t', mem') \<Longrightarrow> typed_trans H t'"
    and "trans_set_policy t policy mem = (t', mem') \<Longrightarrow> typed_trans H t'"
    and "trans_prefer_provider t name pkg mem = (t', mem') \<Longrightarrow> typed_trans H t'"
proof -
  have inv: "trans_inv H t" using typed_inv [OF ty] by simp
  note req = typed_request [OF ty request_same_plan(1)] typed_request [OF ty request_same_plan(2)] typed_request [OF ty request_same_plan(3)]
    typed_request [OF ty request_same_plan(5)] typed_request [OF ty request_same_plan(6)]
  show "trans_add_install H t p mem = (err, t', mem') \<Longrightarrow> typed_trans H t'" using req(1) trans_add_install_inv [OF inv] by blast
  show "trans_add_candidate H t p mem = (err, t', mem') \<Longrightarrow> typed_trans H t'" using req(2) trans_add_candidate_inv [OF inv] by blast
  show "trans_add_upgrade H t p mem = (err, t', mem') \<Longrightarrow> typed_trans H t'" using req(3) trans_add_upgrade_inv [OF inv] by blast
  show "trans_set_policy t policy mem = (t', mem') \<Longrightarrow> typed_trans H t'" using req(4) trans_set_policy_inv [OF inv, of policy mem] by simp
  show "trans_prefer_provider t name pkg mem = (t', mem') \<Longrightarrow> typed_trans H t'" using req(5) trans_prefer_provider_inv [OF inv, of name pkg mem] by simp
qed

lemma remove_typed:
  assumes ty: "typed_trans H t" and r: "trans_add_remove t name mem = (err, t', mem')" and c: "pred_option cstring name"
  shows "typed_trans H t'"
proof -
  have "trans_inv H t' \<and> remove_names t' = (if err = TRANS_OK then remove_names t @ [the name] else remove_names t)"
    using trans_add_remove_inv [OF _ r] typed_inv [OF ty] by blast
  moreover have "err = TRANS_OK \<Longrightarrow> name \<noteq> None" using r by (cases name) (auto simp: trans_add_remove_def)
  ultimately show ?thesis using typed_same_plan [OF ty request_same_plan(4) [OF r]] typed_inv [OF ty] c by (auto split: if_splits)
qed

text \<open>The heap of packages keeps its names, so the type of the plan is stated over the first heap.\<close>

lemma trans_call_typed:
  assumes spec: "lmdb_spec (h_lmdb E) V" and call: "trans_call E (t, x) (t', x')"
    and nc: "names_clean (r_pkgs x)" and ty: "typed_trans (r_pkgs x) t"
  shows "same_names (r_pkgs x) (r_pkgs x') \<and> typed_trans (r_pkgs x) t'"
  using call
proof cases
  case prepare
  then show ?thesis using trans_prepare_typed [OF spec nc ty] by simp
next
  case commit
  then show ?thesis by (rule trans_commit_typed [OF ty])
next
  case set_dry_run
  then show ?thesis using ty by (simp add: trans_set_dry_run_def typed_trans_def wf_trans_def trans_inv_def obstacles_def)
next
  case set_progress_cb
  then show ?thesis using ty by (simp add: trans_set_progress_cb_def typed_trans_def wf_trans_def trans_inv_def obstacles_def)
qed (use request_typed [OF ty] remove_typed [OF ty] in simp_all)

lemma same_names_typed: "same_names H H' \<Longrightarrow> typed_trans H' t \<longleftrightarrow> typed_trans H t"
  by (simp add: typed_trans_def same_names_wf)

lemma trans_calls_typed:
  assumes spec: "lmdb_spec (h_lmdb E) V" and "(trans_call E)\<^sup>*\<^sup>* a b"
    and "names_clean (r_pkgs (snd a))" and "typed_trans (r_pkgs (snd a)) (fst a)"
  shows "same_names (r_pkgs (snd a)) (r_pkgs (snd b)) \<and> typed_trans (r_pkgs (snd a)) (fst b)"
  using assms(2)
proof induction
  case (step b c)
  obtain t x t' x' where bc: "b = (t, x)" "c = (t', x')" by fastforce
  have n: "same_names (r_pkgs (snd a)) (r_pkgs x)" using step.IH bc by simp
  have "names_clean (r_pkgs x)" "typed_trans (r_pkgs x) t"
    using step.IH assms(3) same_names_clean [OF n] same_names_typed [OF n] bc by simp_all
  from trans_call_typed [OF spec step.hyps(2) [unfolded bc] this] show ?case
    using n same_names_typed [OF n] bc by (auto intro: same_names_trans)
qed (simp add: assms(4))

lemma trans_new_typed: "trans_new mem = (Some t, mem') \<Longrightarrow> typed_trans H t"
  using trans_new_inv [of mem t mem' H]
  by (auto simp: typed_trans_def wf_trans_def trans_new_def trans_zero_def Let_def split: prod.splits if_splits)

text \<open>
  C2. Type soundness of the transaction interface (\<open>src/transaction/\<close>): start from \<open>trans_new\<close> and call
  the public functions in any order, with any arguments, failing or not.  The packages keep
  their names, and the transaction stays well typed: every array fits its capacity; the plan
  and the array of its packages run in parallel, with a package of the step's own name at
  every installation and upgrade and none at a removal; a transaction marked prepared has no
  held package, file conflict, blocked removal or conflict; none is committed that is not prepared.
\<close>

theorem trans_calls_sound:
  assumes "lmdb_spec (h_lmdb E) V" and "names_clean (r_pkgs x)" and "trans_new mem = (Some t, mem')"
    and "(trans_call E)\<^sup>*\<^sup>* (t, x) (t', x')"
  shows "pkg_name_of (r_pkgs x') = pkg_name_of (r_pkgs x) \<and> trans_inv (r_pkgs x') t' \<and>
    list_all2 (\<lambda>s p. if step_op s = TRANS_OP_REMOVE then p = None
       else \<exists>a. p = Some a \<and> pkg_name_of (r_pkgs x') a = Some (step_pkg_name s)) (plan t') (plan_pkgs t') \<and>
    (prepared t' \<longrightarrow> held_pkgs t' = [] \<and> file_conflicts t' = [] \<and> blocked_removes t' = [] \<and> conflicts t' = []) \<and>
    (committed t' \<longrightarrow> prepared t')"
proof -
  have n: "same_names (r_pkgs x) (r_pkgs x')" and "typed_trans (r_pkgs x) t'"
    using trans_calls_typed [OF assms(1,4)] assms(2) trans_new_typed [OF assms(3)] by simp_all
  then have ty: "typed_trans (r_pkgs x') t'" by (simp add: same_names_typed)
  then have "list_all2 (\<lambda>s p. if step_op s = TRANS_OP_REMOVE then p = None
       else \<exists>a. p = Some a \<and> pkg_name_of (r_pkgs x') a = Some (step_pkg_name s)) (plan t') (plan_pkgs t')"
    unfolding typed_trans_def wf_trans_def by (auto simp: step_typed_def elim!: list_all2_mono)
  then show ?thesis using n ty by (auto simp: same_names_def typed_trans_def wf_trans_def obstacles_def)
qed

lemma demo_sequence:
  "\<exists>t t' x'. trans_new [] = (Some t, []) \<and> (trans_call demo_host)\<^sup>*\<^sup>* (t, demo_run) (t', x') \<and> prepared t'"
proof -
  let ?t = "trans_zero\<lparr>install_cap := 8, upgrade_cap := 8, remove_cap := 8, candidate_cap := 8\<rparr>"
  have new: "trans_new [] = (Some ?t, [])" by (simp add: trans_new_def TRANS_INITIAL_CAP_def)
  have "trans_add_remove ?t (Some ''ghost'') (pmem (r_proc demo_run)) = (TRANS_OK, ghost_trans, [])"
    by (simp add: trans_add_remove_def reserve_def trans_zero_def TRANS_INITIAL_CAP_def ghost_trans_def strdup_m_def)
  then have "trans_call demo_host (?t, demo_run) (ghost_trans, run_mem (r_db demo_run) [] demo_run)" by (rule trans_call.add_remove) simp
  moreover have "run_mem (r_db demo_run) [] demo_run = demo_run" by (simp add: run_mem_def demo_run_def ref_proc_def)
  ultimately have c1: "trans_call demo_host (?t, demo_run) (ghost_trans, demo_run)" by simp
  obtain t' x' where p: "trans_prepare demo_host full_mem ghost_trans demo_run = Some (TRANS_OK, t', x')" using ghost_trans_prepared by blast
  have "prepared t'"
    using prepare_outcome [OF _ _ p, of ref_view] ref_lmdb_spec by (simp add: prepare_result_def verdict_ok_def ghost_trans_def trans_zero_def)
  then show ?thesis using new c1 trans_call.prepare [OF p] by (meson converse_rtranclp_into_rtranclp r_into_rtranclp)
qed

theorem trans_calls_sound_witness:
  "\<exists>t t' x'. trans_new [] = (Some t, []) \<and> (trans_call demo_host)\<^sup>*\<^sup>* (t, demo_run) (t', x') \<and>
     prepared t' \<and> blocked_removes t' = [] \<and> length (plan_pkgs t') = length (plan t')"
proof -
  obtain t t' x' where c: "trans_new [] = (Some t, [])" "(trans_call demo_host)\<^sup>*\<^sup>* (t, demo_run) (t', x')" "prepared t'"
    using demo_sequence by blast
  have h: "lmdb_spec (h_lmdb demo_host) ref_view" "names_clean (r_pkgs demo_run)"
    using ref_lmdb_spec by (simp_all add: names_clean_def pkg_name_of_def sample_pkg_def)
  note s = trans_calls_sound [OF h c(1,2)]
  have "blocked_removes t' = []" "length (plan_pkgs t') = length (plan t')" using s c(3) by (simp_all add: trans_inv_def)
  then show ?thesis using c by blast
qed

subsection \<open>Prepared and committed transactions\<close>

text \<open>The part of a transaction and of the machine that later calls leave alone.\<close>

definition settled :: "apg_trans \<times> ('e, 'w) run \<Rightarrow> apg_trans \<times> ('e, 'w) run \<Rightarrow> bool" where
  "settled a b \<longleftrightarrow> (case (a, b) of ((t, x), (t', x')) \<Rightarrow>
     plan t' = plan t \<and> plan_pkgs t' = plan_pkgs t \<and> prepared t' \<and> (committed t \<longrightarrow> committed t' \<and>
     r_pkgs x' = r_pkgs x \<and> r_db x' = r_db x \<and> world (r_proc x') = world (r_proc x)))"

lemma settled_trans: "settled a b \<Longrightarrow> settled b c \<Longrightarrow> settled a c"
  by (auto simp: settled_def split: prod.splits)

lemma commit_settled:
  assumes "prepared t" and c: "trans_commit E t root x = Some (err, t', x')"
  shows "settled (t, x) (t', x')"
proof (cases "committed t")
  case True
  then have "t' = t \<and> x' = x" using c assms(1) by (simp add: trans_commit_def split: option.splits)
  then show ?thesis using assms(1) by (simp add: settled_def)
next
  case False
  then show ?thesis using trans_commit_shape [OF c] assms(1) by (auto simp: settled_def)
qed

lemma trans_call_settled:
  assumes "trans_call E (t, x) (t', x')" and "prepared t"
  shows "settled (t, x) (t', x')"
  using assms(1)
proof cases
  case commit
  then show ?thesis by (rule commit_settled [OF assms(2)])
qed (use assms(2) in \<open>auto simp: settled_def same_plan_def trans_prepare_def trans_set_dry_run_def trans_set_progress_cb_def dest!: request_same_plan\<close>)

text \<open>
  C12. What a successful \<open>trans_prepare\<close> decides is final (\<open>src/transaction/\<close>): whatever is called on a
  prepared transaction afterwards, its plan and the packages of the plan stay the same, so a
  request added later is never carried out.  Once it is committed it stays committed, and no
  further call changes a package, the database or the file system.
\<close>

theorem prepared_is_final:
  assumes "prepared t" and "(trans_call E)\<^sup>*\<^sup>* (t, x) (t', x')"
  shows "plan t' = plan t \<and> plan_pkgs t' = plan_pkgs t \<and> prepared t' \<and>
    (committed t \<longrightarrow> committed t' \<and> r_pkgs x' = r_pkgs x \<and> r_db x' = r_db x \<and> world (r_proc x') = world (r_proc x))"
proof -
  have "settled (t, x) b" if "(trans_call E)\<^sup>*\<^sup>* (t, x) b" for b
    using that
  proof induction
    case (step b c)
    obtain u y v z where bc: "b = (u, y)" "c = (v, z)" by fastforce
    have "prepared u" using step.IH bc by (simp add: settled_def)
    then show ?case using settled_trans [OF step.IH] trans_call_settled step.hyps(2) bc by blast
  qed (simp add: settled_def assms(1))
  from this [OF assms(2)] show ?thesis by (simp add: settled_def)
qed

theorem prepared_is_final_witness:
  "\<exists>t' x'. (trans_call demo_host)\<^sup>*\<^sup>* (demo_install\<lparr>committed := True\<rparr>, demo_run) (t', x') \<and> remove_names t' = [''app''] \<and>
     plan t' = plan demo_install \<and> r_db x' = demo_db"
proof -
  let ?t = "demo_install\<lparr>committed := True\<rparr>"
  let ?t1 = "?t\<lparr>remove_cap := 8, remove_names := [''app'']\<rparr>"
  have "trans_add_remove ?t (Some ''app'') (pmem (r_proc demo_run)) = (TRANS_OK, ?t1, [])"
    by (simp add: trans_add_remove_def reserve_def trans_zero_def TRANS_INITIAL_CAP_def demo_install_def strdup_m_def)
  then have c1: "trans_call demo_host (?t, demo_run) (?t1, run_mem (r_db demo_run) [] demo_run)" by (rule trans_call.add_remove) simp
  have "trans_commit demo_host ?t1 (Some ''/mnt'') x = Some (TRANS_ERR_ALREADY_COMMITTED, ?t1, x)" for x
    by (simp add: trans_commit_def demo_install_def)
  then have c2: "trans_call demo_host (?t1, x) (?t1, x)" for x by (rule trans_call.commit)
  have c: "(trans_call demo_host)\<^sup>*\<^sup>* (?t, demo_run) (?t1, run_mem (r_db demo_run) [] demo_run)"
    using c1 c2 by (meson converse_rtranclp_into_rtranclp r_into_rtranclp)
  have "plan ?t1 = plan ?t \<and> r_db (run_mem (r_db demo_run) [] demo_run) = demo_db"
    using prepared_is_final [OF _ c] by (simp add: demo_install_def)
  moreover have "remove_names ?t1 = [''app'']" "plan ?t = plan demo_install" by simp_all
  ultimately show ?thesis using c by metis
qed

end
